(* ===== verification/Prelude.thy ===== *)
theory Prelude
  imports Complex_Main "HOL-Library.AList" "HOL-Library.Char_ord" "HOL-Library.List_Lexorder"
begin

text \<open>
  Shared vocabulary of the development.  A JavaScript object used as a dictionary is an
  association list whose order is the insertion order of its own properties, which is the order
  \<open>for (k in o)\<close> visits them in; assignment \<open>o[k] = v\<close> is \<open>AList.update\<close> (in place when
  the key is there, appended otherwise) and \<open>delete o[k]\<close> is \<open>AList.delete\<close>.  The collections
  below gather the rewrite rules that the component theories use together.
\<close>

named_theorems om_simps \<open>rewrite rules of the option managers\<close>
named_theorems grid_simps \<open>rewrite rules of the torrent grid\<close>
named_theorems ui_simps \<open>unfolding of the poll loop's handlers\<close>
named_theorems panel_simps \<open>rewrite rules of the sidebar and its panels\<close>

section \<open>Dictionaries\<close>

type_synonym 'v dict = "(string \<times> 'v) list"

abbreviation keys_of :: "'v dict \<Rightarrow> string list" where
  "keys_of d \<equiv> map fst d"

abbreviation wf_dict :: "'v dict \<Rightarrow> bool" where
  "wf_dict d \<equiv> distinct (map fst d)"

text \<open>\<open>for (k in src) dst[k] = src[k]\<close>: the copy loop that several components write out.\<close>

definition put_all :: "'v dict \<Rightarrow> 'v dict \<Rightarrow> 'v dict" where
  "put_all dst src = fold (\<lambda>(k, v) d. AList.update k v d) src dst"

lemma put_all_Nil [simp]: "put_all d [] = d"
  by (simp add: put_all_def)

lemma put_all_Cons [simp]: "put_all d ((k, v) # xs) = put_all (AList.update k v d) xs"
  by (simp add: put_all_def)

lemma map_of_put_all_rev: "map_of (put_all d xs) = map_of d ++ map_of (rev xs)"
proof (induction xs arbitrary: d)
  case Nil
  then show ?case by simp
next
  case (Cons x xs)
  then show ?case
    by (cases x) (simp add: AList.update_conv' map_add_def fun_eq_iff split: option.split)
qed

lemma map_of_rev_wf: "wf_dict xs \<Longrightarrow> map_of (rev xs) = map_of xs"
proof (induction xs)
  case Nil
  then show ?case by simp
next
  case (Cons x xs)
  then have "map_of xs (fst x) = None" by (simp add: map_of_eq_None_iff)
  with Cons show ?case
    by (cases x) (auto simp: map_add_def fun_eq_iff split: option.split)
qed

lemma map_of_put_all: "wf_dict xs \<Longrightarrow> map_of (put_all d xs) = map_of d ++ map_of xs"
  by (simp add: map_of_put_all_rev map_of_rev_wf)

lemma wf_put_all: "wf_dict d \<Longrightarrow> wf_dict (put_all d xs)"
  by (induction xs arbitrary: d) (auto simp: AList.distinct_update)

lemma wf_delete: "wf_dict d \<Longrightarrow> wf_dict (AList.delete k d)"
  by (simp add: AList.distinct_delete)

lemma wf_filter: "wf_dict d \<Longrightarrow> wf_dict (filter P d)"
  by (induction d) auto

lemma set_keys_put_all: "fst ` set (put_all d xs) = fst ` set d \<union> fst ` set xs"
proof (induction xs arbitrary: d)
  case Nil
  then show ?case by simp
next
  case (Cons x xs)
  have "fst ` set (AList.update (fst x) (snd x) d) = insert (fst x) (fst ` set d)"
    by (simp add: AList.dom_update insert_commute)
  with Cons show ?case by (cases x) auto
qed

lemma map_of_filter_key:
  "map_of (filter (\<lambda>(k, v). P k) d) k = (if P k then map_of d k else None)"
  by (induction d) auto

lemma map_of_filter_wf:
  "wf_dict d \<Longrightarrow> map_of (filter (\<lambda>(k, v). P k v) d) k =
     (case map_of d k of None \<Rightarrow> None | Some v \<Rightarrow> if P k v then Some v else None)"
proof (induction d)
  case Nil
  then show ?case by simp
next
  case (Cons x d)
  obtain k' v' where x: "x = (k', v')" by (cases x)
  have "map_of d k' = None" using Cons.prems x by (simp add: map_of_eq_None_iff)
  then show ?case using Cons x by (auto split: option.splits)
qed

lemma keys_delete: "fst ` set (AList.delete k d) = fst ` set d - {k}"
  by (rule AList.delete_keys [THEN arg_cong [where f = set], simplified])

lemma distinct_snd_eq: "distinct (map snd d) \<Longrightarrow> (i, b) \<in> set d \<Longrightarrow> (j, b) \<in> set d \<Longrightarrow> i = j"
  by (auto simp: distinct_map dest: inj_onD [of snd _ "(i, b)" "(j, b)"])

lemma wf_dict_eq: "wf_dict d \<Longrightarrow> (i, a) \<in> set d \<Longrightarrow> (i, b) \<in> set d \<Longrightarrow> a = b"
  by (metis map_of_eq_Some_iff option.inject)

lemma in_keys_iff: "k \<in> fst ` set d \<longleftrightarrow> map_of d k \<noteq> None"
  by (simp add: map_of_eq_None_iff)

lemmas dict_simps = AList.update_conv' AList.delete_conv' AList.distinct_update

section \<open>Deleting a list of keys\<close>

definition delete_all :: "string list \<Rightarrow> 'v dict \<Rightarrow> 'v dict" where
  "delete_all ks d = fold AList.delete ks d"

lemma map_of_delete_all:
  "map_of (delete_all ks d) k = (if k \<in> set ks then None else map_of d k)"
  unfolding delete_all_def
  by (induction ks arbitrary: d) (auto simp: AList.delete_conv')

lemma wf_delete_all: "wf_dict d \<Longrightarrow> wf_dict (delete_all ks d)"
  unfolding delete_all_def
  by (induction ks arbitrary: d) (auto simp: wf_delete)

section \<open>Folds over lists\<close>

lemma fold_invariant_simple:
  assumes "P s" "\<And>x s. x \<in> set xs \<Longrightarrow> P s \<Longrightarrow> P (f x s)"
  shows "P (fold f xs s)"
  using assms by (induction xs arbitrary: s) auto

lemma fold_projection:
  assumes "\<And>x s. g (f x s) = g s"
  shows "g (fold f xs s) = g s"
  using assms by (induction xs arbitrary: s) auto

end
