(* ===== verification/JsValue.thy ===== *)
theory JsValue
  imports Prelude
begin

text \<open>
  The JavaScript values and conversions the Web UI's code relies on.

  A number is an exact rational, an infinity or \<open>NaN\<close>; negative zero is not distinguished
  from zero, and the rounding of IEEE doubles is not modelled: a finite number stands for the
  decimal that it prints as.  The interface divides by powers of two (exact in binary) and by
  24 and 60, where the error of a double is far below the half unit at which \<open>Math.round\<close>
  and \<open>toFixed\<close> change their answer.  A string is a list of code units below 256.  Arrays and
  objects carry the identity that \<open>==\<close> compares beside the contents they have when they are
  read; functions are not values of this type.
\<close>

section \<open>Values\<close>

datatype jsnum = Fin rat | PInf | NInf | NaN

datatype jsval =
    Undefined
  | Null
  | Bool bool
  | Num jsnum
  | Str string
  | Arr nat "jsval list"
  | Obj nat "(string \<times> jsval) list"

abbreviation num :: "rat \<Rightarrow> jsval" where
  "num q \<equiv> Num (Fin q)"

text \<open>\<open>o[k]\<close> on a plain object: a missing property reads as \<open>undefined\<close>.\<close>

definition js_get :: "jsval dict \<Rightarrow> string \<Rightarrow> jsval" where
  "js_get d k = (case map_of d k of None \<Rightarrow> Undefined | Some v \<Rightarrow> v)"

fun truthy :: "jsval \<Rightarrow> bool" where
  "truthy Undefined = False"
| "truthy Null = False"
| "truthy (Bool b) = b"
| "truthy (Num n) = (n \<noteq> NaN \<and> n \<noteq> Fin 0)"
| "truthy (Str s) = (s \<noteq> [])"
| "truthy (Arr _ _) = True"
| "truthy (Obj _ _) = True"

fun js_typeof :: "jsval \<Rightarrow> string" where
  "js_typeof Undefined = ''undefined''"
| "js_typeof Null = ''object''"
| "js_typeof (Bool _) = ''boolean''"
| "js_typeof (Num _) = ''number''"
| "js_typeof (Str _) = ''string''"
| "js_typeof (Arr _ _) = ''object''"
| "js_typeof (Obj _ _) = ''object''"

text \<open>The value of \<open>a || b\<close>.\<close>

definition js_or :: "jsval \<Rightarrow> jsval \<Rightarrow> jsval" where
  "js_or a b = (if truthy a then a else b)"

section \<open>Numbers to strings\<close>

definition digit_char :: "int \<Rightarrow> char" where
  "digit_char n = char_of (48 + n)"

text \<open>The decimal digits of a number that is not negative.\<close>

fun nat_str :: "int \<Rightarrow> string" where
  "nat_str n = (if n < 10 then [digit_char n] else nat_str (n div 10) @ [digit_char (n mod 10)])"

declare nat_str.simps [simp del]

definition int_str :: "int \<Rightarrow> string" where
  "int_str i = (if i < 0 then CHR ''-'' # nat_str (- i) else nat_str i)"

fun frac_digits :: "nat \<Rightarrow> rat \<Rightarrow> string" where
  "frac_digits 0 q = []"
| "frac_digits (Suc n) q =
     (if q = 0 then []
      else digit_char \<lfloor>q * 10\<rfloor> # frac_digits n (q * 10 - of_int \<lfloor>q * 10\<rfloor>))"

text \<open>\<open>String(x)\<close> for \<open>|x| < 1e21\<close>; a fraction without a finite expansion is cut after
  seventeen places, the most a double prints.\<close>

fun num_string :: "jsnum \<Rightarrow> string" where
  "num_string (Fin q) =
     (if q = of_int \<lfloor>q\<rfloor> then int_str \<lfloor>q\<rfloor>
      else (if q < 0 then ''-'' else []) @ nat_str \<lfloor>\<bar>q\<bar>\<rfloor> @ ''.'' @
           frac_digits 17 (\<bar>q\<bar> - of_int \<lfloor>\<bar>q\<bar>\<rfloor>))"
| "num_string PInf = ''Infinity''"
| "num_string NInf = ''-Infinity''"
| "num_string NaN = ''NaN''"

text \<open>\<open>x.toFixed(f)\<close>: the integer nearest to \<open>|x| * 10^f\<close>, the larger one on a tie, with the
  decimal point \<open>f\<close> places from the right.\<close>

definition round_half_up :: "rat \<Rightarrow> int" where
  "round_half_up q = \<lfloor>q + 1 / 2\<rfloor>"

definition place_point :: "nat \<Rightarrow> string \<Rightarrow> string" where
  "place_point f s =
     (if f = 0 then s
      else let t = replicate (f + 1 - length s) (CHR ''0'') @ s
           in take (length t - f) t @ ''.'' @ drop (length t - f) t)"

fun to_fixed :: "nat \<Rightarrow> jsnum \<Rightarrow> string" where
  "to_fixed f (Fin q) =
     (if q < 0 then ''-'' else []) @ place_point f (nat_str (round_half_up (\<bar>q\<bar> * 10 ^ f)))"
| "to_fixed f n = num_string n"

section \<open>Values to strings\<close>

fun join :: "string \<Rightarrow> string list \<Rightarrow> string" where
  "join sep [] = []"
| "join sep [s] = s"
| "join sep (s # t # ss) = s @ sep @ join sep (t # ss)"

fun js_string :: "jsval \<Rightarrow> string" where
  "js_string Undefined = ''undefined''"
| "js_string Null = ''null''"
| "js_string (Bool b) = (if b then ''true'' else ''false'')"
| "js_string (Num n) = num_string n"
| "js_string (Str s) = s"
| "js_string (Arr _ vs) =
     join '','' (map (\<lambda>v. if v = Undefined \<or> v = Null then [] else js_string v) vs)"
| "js_string (Obj _ _) = ''[object Object]''"

section \<open>Strings to numbers\<close>

definition is_space :: "char \<Rightarrow> bool" where
  "is_space c = (c \<in> {CHR 0x09, CHR 0x0A, CHR 0x0B, CHR 0x0C, CHR 0x0D, CHR 0x20, CHR 0xA0})"

definition trim :: "string \<Rightarrow> string" where
  "trim s = rev (dropWhile is_space (rev (dropWhile is_space s)))"

definition is_digit :: "char \<Rightarrow> bool" where
  "is_digit c = (CHR ''0'' \<le> c \<and> c \<le> CHR ''9'')"

text \<open>The value of a digit of a base up to sixteen, \<open>16\<close> for any other character.\<close>

definition digit_val :: "char \<Rightarrow> int" where
  "digit_val c =
     (if CHR ''0'' \<le> c \<and> c \<le> CHR ''9'' then of_char c - 48
      else if CHR ''a'' \<le> c \<and> c \<le> CHR ''f'' then of_char c - 87
      else if CHR ''A'' \<le> c \<and> c \<le> CHR ''F'' then of_char c - 55
      else 16)"

definition digits_val :: "int \<Rightarrow> string \<Rightarrow> int" where
  "digits_val b s = foldl (\<lambda>a c. a * b + digit_val c) 0 s"

definition radix_num :: "int \<Rightarrow> string \<Rightarrow> jsnum" where
  "radix_num b s =
     (if s \<noteq> [] \<and> list_all (\<lambda>c. digit_val c < b) s then Fin (of_int (digits_val b s)) else NaN)"

definition pow10 :: "int \<Rightarrow> rat" where
  "pow10 e = (if e < 0 then 1 / 10 ^ nat (- e) else 10 ^ nat e)"

text \<open>The optional exponent of a decimal literal; \<open>None\<close> when what is left is not one.\<close>

fun exponent :: "string \<Rightarrow> int option" where
  "exponent [] = Some 0"
| "exponent (c # s) =
     (if c = CHR ''e'' \<or> c = CHR ''E'' then
        (let neg = (s \<noteq> [] \<and> hd s = CHR ''-'');
             ds = (if s \<noteq> [] \<and> (hd s = CHR ''-'' \<or> hd s = CHR ''+'') then tl s else s)
         in if ds \<noteq> [] \<and> list_all is_digit ds
            then Some ((if neg then -1 else 1) * digits_val 10 ds) else None)
      else None)"

definition decimal_num :: "string \<Rightarrow> jsnum" where
  "decimal_num s =
     (let ip = takeWhile is_digit s; r1 = dropWhile is_digit s;
          dot = (r1 \<noteq> [] \<and> hd r1 = CHR ''.'');
          fp = (if dot then takeWhile is_digit (tl r1) else []);
          r2 = (if dot then dropWhile is_digit (tl r1) else r1)
      in if ip = [] \<and> fp = [] then NaN
         else case exponent r2 of
                None \<Rightarrow> NaN
              | Some e \<Rightarrow> Fin (of_int (digits_val 10 (ip @ fp)) * pow10 (e - int (length fp))))"

fun num_uminus :: "jsnum \<Rightarrow> jsnum" where
  "num_uminus (Fin q) = Fin (- q)"
| "num_uminus PInf = NInf"
| "num_uminus NInf = PInf"
| "num_uminus NaN = NaN"

definition unsigned_num :: "string \<Rightarrow> jsnum" where
  "unsigned_num s = (if s = ''Infinity'' then PInf else decimal_num s)"

text \<open>\<open>Number(s)\<close> for a string.\<close>

definition str_num :: "string \<Rightarrow> jsnum" where
  "str_num s0 =
     (let s = trim s0; two = take 2 s; rest = drop 2 s in
      if s = [] then Fin 0
      else if two = ''0x'' \<or> two = ''0X'' then radix_num 16 rest
      else if two = ''0o'' \<or> two = ''0O'' then radix_num 8 rest
      else if two = ''0b'' \<or> two = ''0B'' then radix_num 2 rest
      else if hd s = CHR ''-'' then num_uminus (unsigned_num (tl s))
      else if hd s = CHR ''+'' then unsigned_num (tl s)
      else unsigned_num s)"

fun to_number :: "jsval \<Rightarrow> jsnum" where
  "to_number Undefined = NaN"
| "to_number Null = Fin 0"
| "to_number (Bool b) = Fin (if b then 1 else 0)"
| "to_number (Num n) = n"
| "to_number (Str s) = str_num s"
| "to_number v = str_num (js_string v)"

section \<open>Comparison\<close>

fun num_eq :: "jsnum \<Rightarrow> jsnum \<Rightarrow> bool" where
  "num_eq NaN _ = False"
| "num_eq _ NaN = False"
| "num_eq a b = (a = b)"

fun num_less :: "jsnum \<Rightarrow> jsnum \<Rightarrow> bool" where
  "num_less NaN _ = False"
| "num_less _ NaN = False"
| "num_less (Fin a) (Fin b) = (a < b)"
| "num_less (Fin _) PInf = True"
| "num_less NInf (Fin _) = True"
| "num_less NInf PInf = True"
| "num_less _ _ = False"

fun to_prim :: "jsval \<Rightarrow> jsval" where
  "to_prim (Arr i vs) = Str (js_string (Arr i vs))"
| "to_prim (Obj i kvs) = Str (js_string (Obj i kvs))"
| "to_prim v = v"

text \<open>\<open>a === b\<close>; objects are the same when they are the same object.\<close>

fun strict_eq :: "jsval \<Rightarrow> jsval \<Rightarrow> bool" where
  "strict_eq (Num a) (Num b) = num_eq a b"
| "strict_eq (Arr i _) (Arr j _) = (i = j)"
| "strict_eq (Obj i _) (Obj j _) = (i = j)"
| "strict_eq a b = (a = b)"

text \<open>\<open>a == b\<close> between primitives: null and undefined are equal to each other and to nothing
  else, values of one type are compared as they are, the rest as numbers.\<close>

fun prim_eq :: "jsval \<Rightarrow> jsval \<Rightarrow> bool" where
  "prim_eq Undefined b = (b = Undefined \<or> b = Null)"
| "prim_eq Null b = (b = Undefined \<or> b = Null)"
| "prim_eq _ Undefined = False"
| "prim_eq _ Null = False"
| "prim_eq (Str s) (Str t) = (s = t)"
| "prim_eq a b = num_eq (to_number a) (to_number b)"

fun is_object :: "jsval \<Rightarrow> bool" where
  "is_object (Arr _ _) = True"
| "is_object (Obj _ _) = True"
| "is_object _ = False"

definition loose_eq :: "jsval \<Rightarrow> jsval \<Rightarrow> bool" where
  "loose_eq a b = (if is_object a \<and> is_object b then strict_eq a b
                   else prim_eq (to_prim a) (to_prim b))"

text \<open>\<open>a < b\<close>: two strings by code unit, anything else as numbers.\<close>

fun js_less :: "jsval \<Rightarrow> jsval \<Rightarrow> bool" where
  "js_less a b = (case (to_prim a, to_prim b) of
                    (Str s, Str t) \<Rightarrow> s < t
                  | (p, q) \<Rightarrow> num_less (to_number p) (to_number q))"

definition is_nan :: "jsval \<Rightarrow> bool" where
  "is_nan v = (to_number v = NaN)"

section \<open>Arithmetic\<close>

fun num_add :: "jsnum \<Rightarrow> jsnum \<Rightarrow> jsnum" where
  "num_add (Fin a) (Fin b) = Fin (a + b)"
| "num_add NaN _ = NaN"
| "num_add _ NaN = NaN"
| "num_add PInf NInf = NaN"
| "num_add NInf PInf = NaN"
| "num_add PInf _ = PInf"
| "num_add NInf _ = NInf"
| "num_add _ b = b"

text \<open>Multiplication and division by a positive number, the only ones the code writes.\<close>

fun num_scale :: "rat \<Rightarrow> jsnum \<Rightarrow> jsnum" where
  "num_scale c (Fin a) = Fin (c * a)"
| "num_scale c n = n"

text \<open>\<open>Math.round\<close>.\<close>

fun math_round :: "jsnum \<Rightarrow> jsnum" where
  "math_round (Fin q) = Fin (of_int (round_half_up q))"
| "math_round n = n"

section \<open>Letters\<close>

definition lower_char :: "char \<Rightarrow> char" where
  "lower_char c =
     (if (CHR ''A'' \<le> c \<and> c \<le> CHR ''Z'') \<or>
         (CHR 0xC0 \<le> c \<and> c \<le> CHR 0xDE \<and> c \<noteq> CHR 0xD7)
      then char_of (of_char c + 32 :: nat) else c)"

definition to_lower :: "string \<Rightarrow> string" where
  "to_lower s = map lower_char s"

text \<open>The first argument's occurrences in the second replaced by the third, for a one
  character pattern and only the first occurrence (\<open>replace\<close> with a string pattern).\<close>

fun replace_first :: "char \<Rightarrow> string \<Rightarrow> string \<Rightarrow> string" where
  "replace_first p r [] = []"
| "replace_first p r (c # s) = (if c = p then r @ s else c # replace_first p r s)"

fun split_on :: "char \<Rightarrow> string \<Rightarrow> string list" where
  "split_on p [] = [[]]"
| "split_on p (c # s) =
     (if c = p then [] # split_on p s
      else case split_on p s of [] \<Rightarrow> [[c]] | t # ts \<Rightarrow> (c # t) # ts)"

section \<open>Laws of the conversions\<close>

lemma num_eq_refl: "n \<noteq> NaN \<Longrightarrow> num_eq n n"
  by (cases n) auto

lemma num_eq_sym: "num_eq a b = num_eq b a"
  by (cases a; cases b) auto

lemma num_eq_iff: "num_eq a b \<longleftrightarrow> a = b \<and> a \<noteq> NaN"
  by (cases a; cases b) auto

lemma strict_eq_refl: "v \<noteq> Num NaN \<Longrightarrow> strict_eq v v"
  by (cases v) (auto simp: num_eq_refl)

lemma loose_eq_refl: "v \<noteq> Num NaN \<Longrightarrow> loose_eq v v"
  by (cases v) (auto simp: loose_eq_def num_eq_refl)

lemma prim_eq_sym: "prim_eq a b = prim_eq b a"
  by (cases a; cases b) (auto simp: num_eq_sym)

lemma loose_eq_sym: "loose_eq a b = loose_eq b a"
  by (cases a; cases b) (auto simp: loose_eq_def prim_eq_sym num_eq_sym)

lemma loose_eq_Undefined: "loose_eq Undefined v \<longleftrightarrow> v = Undefined \<or> v = Null"
  by (cases v) (auto simp: loose_eq_def)

lemma loose_eq_Str: "loose_eq (Str s) (Str t) \<longleftrightarrow> s = t"
  by (simp add: loose_eq_def)

lemma get_update: "js_get (AList.update k v d) k' = (if k' = k then v else js_get d k')"
  by (simp add: js_get_def AList.update_conv')

lemma get_delete: "js_get (AList.delete k d) k' = (if k' = k then Undefined else js_get d k')"
  by (simp add: js_get_def AList.delete_conv')

lemma get_Nil [simp]: "js_get [] k = Undefined"
  by (simp add: js_get_def)

lemma get_put_all: "wf_dict src \<Longrightarrow>
  js_get (put_all d src) k = (case map_of src k of None \<Rightarrow> js_get d k | Some v \<Rightarrow> v)"
  by (simp add: js_get_def map_of_put_all map_add_def split: option.split)

lemmas get_simps = get_update get_delete get_Nil

end
