(* ===== verification/ExtCore.thy ===== *)
theory ExtCore
  imports JsValue
begin

text \<open>
  The helpers every component calls: the parts of Ext JS's core that the interface's own code
  uses (\<open>ext-base-debug.js\<close>, \<open>ext-all-debug.js\<close>) and the ones that
  \<open>deluge-all/Deluge.js\<close> adds to them.
\<close>

section \<open>Ext JS core\<close>

definition isEmpty :: "jsval \<Rightarrow> bool \<Rightarrow> bool" where
  "isEmpty v allowBlank \<longleftrightarrow>
     v = Null \<or> v = Undefined \<or> (case v of Arr _ vs \<Rightarrow> vs = [] | _ \<Rightarrow> False) \<or>
     (\<not> allowBlank \<and> v = Str [])"

definition isPrimitive :: "jsval \<Rightarrow> bool" where
  "isPrimitive v = (case v of Str _ \<Rightarrow> True | Num (Fin _) \<Rightarrow> True | Bool _ \<Rightarrow> True | _ \<Rightarrow> False)"

definition ext_value :: "jsval \<Rightarrow> jsval \<Rightarrow> jsval" where
  "ext_value v defaultValue = (if isEmpty v False then defaultValue else v)"

text \<open>\<open>Ext.type\<close>: \<open>None\<close> is the \<open>false\<close> it returns for null and undefined.\<close>

fun ext_type :: "jsval \<Rightarrow> string option" where
  "ext_type Undefined = None"
| "ext_type Null = None"
| "ext_type (Obj i kvs) =
     (if truthy (js_get kvs ''htmlElement'') then Some ''element''
      else if truthy (js_get kvs ''nodeName'') \<and> strict_eq (js_get kvs ''nodeType'') (num 1)
      then Some ''element''
      else if truthy (js_get kvs ''nodeName'') \<and> strict_eq (js_get kvs ''nodeType'') (num 3)
      then Some (if list_ex (\<lambda>c. \<not> is_space c) (js_string (js_get kvs ''nodeValue''))
                 then ''textnode'' else ''whitespace'')
      else Some ''object'')"
| "ext_type (Arr _ _) = Some ''array''"
| "ext_type v = Some (js_typeof v)"

text \<open>\<open>Ext.apply\<close> and \<open>Ext.applyIf\<close> on objects that may be missing (\<open>None\<close>).\<close>

fun ext_apply :: "jsval dict option \<Rightarrow> jsval dict option \<Rightarrow> jsval dict option" where
  "ext_apply (Some obj) (Some c) = Some (put_all obj c)"
| "ext_apply obj _ = obj"

definition ext_applyIf :: "jsval dict \<Rightarrow> jsval dict \<Rightarrow> jsval dict" where
  "ext_applyIf obj c =
     fold (\<lambda>(p, v) d. if js_get d p = Undefined then AList.update p v d else d) c obj"

text \<open>\<open>String.format\<close>: \<open>{0}\<close>, \<open>{1}\<close>, ... replaced by the arguments; a number with no
  argument reads as undefined.\<close>

definition format_arg :: "jsval list \<Rightarrow> string \<Rightarrow> string" where
  "format_arg args ds =
     (let i = digits_val 10 ds
      in js_string (if i < int (length args) \<and> nat_str i = ds then args ! nat i else Undefined))"

function string_format :: "string \<Rightarrow> jsval list \<Rightarrow> string" where
  "string_format [] args = []"
| "string_format (c # s) args =
     (let ds = takeWhile is_digit s; r = dropWhile is_digit s
      in if c = CHR ''{'' \<and> ds \<noteq> [] \<and> r \<noteq> [] \<and> hd r = CHR ''}''
         then format_arg args ds @ string_format (tl r) args
         else c # string_format s args)"
  by pat_completeness auto
termination
proof (relation "measure (\<lambda>(s, args). length s)")
  fix c :: char and s :: string and args :: "jsval list" and ds r
  assume "ds = takeWhile is_digit s" and r: "r = dropWhile is_digit s"
  have "length (tl r) \<le> length s" unfolding r
    by (metis le_SucI length_dropWhile_le length_tl diff_le_self le_trans)
  then show "((tl r, args), (c # s, args)) \<in> measure (\<lambda>(s, args). length s)" by simp
qed auto

section \<open>Additions to Ext in Deluge.js\<close>

definition isObjectEmpty :: "'v dict \<Rightarrow> bool" where
  "isObjectEmpty obj = (case obj of [] \<Rightarrow> True | _ # _ \<Rightarrow> False)"

fun areObjectsEqual :: "jsval dict option \<Rightarrow> jsval dict option \<Rightarrow> bool" where
  "areObjectsEqual (Some obj1) (Some obj2) =
     fold (\<lambda>(i, v) equal. if \<not> loose_eq v (js_get obj2 i) then False else equal) obj1 True"
| "areObjectsEqual _ _ = False"

definition ext_keys :: "'v dict \<Rightarrow> string list" where
  "ext_keys obj = fold (\<lambda>(i, v) ks. ks @ [i]) obj []"

definition ext_values :: "'v dict \<Rightarrow> 'v list" where
  "ext_values obj = fold (\<lambda>(i, v) vs. vs @ [v]) obj []"

fun splat :: "jsval \<Rightarrow> jsval list" where
  "splat (Arr _ vs) = vs"
| "splat v = (case ext_type v of None \<Rightarrow> [] | Some _ \<Rightarrow> [v])"

section \<open>Helpers of the Deluge namespace\<close>

definition deluge_number :: "jsval \<Rightarrow> rat \<Rightarrow> jsnum" where
  "deluge_number value fallback =
     (let parsed = to_number value
      in if value = Str [] \<or> value = Null \<or> parsed = NaN then Fin fallback else parsed)"

text \<open>The pattern \<open>/width\s*:\s*(\d+)/\<close> at the front of a string, then anywhere in it.\<close>

definition width_here :: "string \<Rightarrow> string option" where
  "width_here s =
     (if take 5 s = ''width''
      then let r = dropWhile is_space (drop 5 s)
           in if r \<noteq> [] \<and> hd r = CHR '':''
              then let ds = takeWhile is_digit (dropWhile is_space (tl r))
                   in if ds = [] then None else Some ds
              else None
      else None)"

fun width_match :: "string \<Rightarrow> string option" where
  "width_match [] = None"
| "width_match (c # s) = (case width_here (c # s) of Some ds \<Rightarrow> Some ds | None \<Rightarrow> width_match s)"

text \<open>\<open>meta\<close> is the \<open>style\<close> of the metadata object, undefined when there is no object.\<close>

definition columnWidth :: "jsval \<Rightarrow> int \<Rightarrow> int" where
  "columnWidth style fallback =
     (case (if truthy style then width_match (js_string style) else None) of
        Some ds \<Rightarrow> digits_val 10 ds
      | None \<Rightarrow> fallback)"

definition progressTpl :: string where
  "progressTpl =
     ''<div class=\"x-progress-wrap x-progress-renderered\">'' @
     ''<div class=\"x-progress-inner\">'' @
     ''<div style=\"width: {2}px\" class=\"x-progress-bar\">'' @
     ''<div style=\"z-index: 99; width: {3}px\" class=\"x-progress-text\">'' @
     ''<div style=\"width: {1}px;\">{0}</div>'' @
     ''</div>'' @
     ''</div>'' @
     ''<div class=\"x-progress-text x-progress-text-back\">'' @
     ''<div style=\"width: {1}px;\">{0}</div>'' @
     ''</div>'' @
     ''</div>'' @
     ''</div>''"

text \<open>The two pixel widths \<open>progressBar\<close> computes: of the bar and of the text on it.  The
  product is printed without decimals and read back as a number.\<close>

definition progressWidths :: "jsnum \<Rightarrow> rat \<Rightarrow> jsval \<Rightarrow> jsnum \<times> jsnum" where
  "progressWidths progress width modifier =
     (let md = to_number (ext_value modifier (num 10));
          progressWidth = str_num (to_fixed 0 (num_scale (width / 100) progress));
          barWidth = num_add progressWidth (Fin (-1));
          diff = num_add progressWidth (num_uminus md);
          textWidth = (if num_less (Fin 0) diff then diff else Fin 0)
      in (barWidth, textWidth))"

definition progressBar :: "jsnum \<Rightarrow> rat \<Rightarrow> string \<Rightarrow> jsval \<Rightarrow> string" where
  "progressBar progress width text modifier =
     (let (barWidth, textWidth) = progressWidths progress width modifier
      in string_format progressTpl [Str text, num width, Num barWidth, Num textWidth])"

text \<open>The file priorities, by number and by name.\<close>

definition FILE_PRIORITY :: "nat \<Rightarrow> string option" where
  "FILE_PRIORITY n = map_of
     [(0, ''Skip''), (1, ''Low''), (2, ''Low''), (3, ''Low''), (4, ''Normal''), (5, ''High''),
      (6, ''High''), (7, ''High''), (9, ''Mixed'')] n"

definition FILE_PRIORITY_value :: "string \<Rightarrow> nat option" where
  "FILE_PRIORITY_value s =
     map_of [(''Skip'', 0), (''Low'', 1), (''Normal'', 4), (''High'', 7), (''Mixed'', 9)] s"

definition FILE_PRIORITY_CSS :: "nat \<Rightarrow> string option" where
  "FILE_PRIORITY_CSS n = map_of
     [(0, ''x-no-download''), (1, ''x-low-download''), (2, ''x-low-download''),
      (3, ''x-low-download''), (4, ''x-normal-download''), (5, ''x-high-download''),
      (6, ''x-high-download''), (7, ''x-high-download''), (9, ''x-mixed-download'')] n"

section \<open>Laws\<close>

lemma isEmpty_simps [simp]:
  "isEmpty Undefined b" "isEmpty Null b" "\<not> isEmpty (Bool x) b" "\<not> isEmpty (Num n) b"
  "isEmpty (Str s) b \<longleftrightarrow> \<not> b \<and> s = []" "isEmpty (Arr i vs) b \<longleftrightarrow> vs = []" "\<not> isEmpty (Obj i o') b"
  by (auto simp: isEmpty_def)

lemma areObjectsEqual_fold:
  "fold (\<lambda>(i, v) equal. if \<not> P i v then False else equal) d b \<longleftrightarrow> b \<and> (\<forall>(i, v) \<in> set d. P i v)"
  by (induction d arbitrary: b) (auto split: if_splits)

lemma areObjectsEqual_iff:
  "areObjectsEqual (Some a) (Some b) \<longleftrightarrow> (\<forall>(i, v) \<in> set a. loose_eq v (js_get b i))"
  by (simp add: areObjectsEqual_fold)

lemma ext_keys_eq: "ext_keys d = map fst d"
proof -
  have "fold (\<lambda>(i, v) ks. ks @ [i]) d acc = acc @ map fst d" for acc
    by (induction d arbitrary: acc) auto
  then show ?thesis by (simp add: ext_keys_def)
qed

lemma ext_values_eq: "ext_values d = map snd d"
proof -
  have "fold (\<lambda>(i, v) ks. ks @ [v]) d acc = acc @ map snd d" for acc
    by (induction d arbitrary: acc) auto
  then show ?thesis by (simp add: ext_values_def)
qed

lemma map_of_applyIf_step:
  "map_of (ext_applyIf d c) k =
     (if js_get d k \<noteq> Undefined then map_of d k
      else case map_of (filter (\<lambda>(p, v). v \<noteq> Undefined) c) k of
             Some v \<Rightarrow> Some v
           | None \<Rightarrow> if k \<in> fst ` set c then Some Undefined else map_of d k)"
proof (induction c arbitrary: d)
  case Nil
  then show ?case by (simp add: ext_applyIf_def)
next
  case (Cons x c)
  obtain p v where x: "x = (p, v)" by (cases x)
  show ?case
  proof (cases "js_get d p = Undefined")
    case True
    then have "ext_applyIf d (x # c) = ext_applyIf (AList.update p v d) c"
      by (simp add: ext_applyIf_def x)
    then show ?thesis
      using True Cons.IH[of "AList.update p v d"]
      by (auto simp: x get_update AList.update_conv' split: option.splits)
  next
    case False
    then have "ext_applyIf d (x # c) = ext_applyIf d c"
      by (simp add: ext_applyIf_def x)
    then show ?thesis using False Cons.IH[of d] by (auto simp: x split: option.splits)
  qed
qed

lemma get_applyIf:
  assumes "wf_dict c"
  shows "js_get (ext_applyIf d c) k = (if js_get d k \<noteq> Undefined then js_get d k else js_get c k)"
proof -
  have "map_of (filter (\<lambda>(p, v). v \<noteq> Undefined) c) k =
      (case map_of c k of None \<Rightarrow> None | Some v \<Rightarrow> if v \<noteq> Undefined then Some v else None)"
    using assms by (rule map_of_filter_wf)
  then show ?thesis
    by (auto simp: js_get_def map_of_applyIf_step in_keys_iff split: option.splits if_splits)
qed

text \<open>The priorities' names and classes are defined for the same numbers, and a name reads back
  as a number of that name.\<close>

lemma FILE_PRIORITY_roundtrip:
  "FILE_PRIORITY_value s = Some n \<Longrightarrow> FILE_PRIORITY n = Some s"
  by (auto simp: FILE_PRIORITY_value_def FILE_PRIORITY_def split: if_splits)

end
