(* ===== verification/Formatters.thy ===== *)
theory Formatters
  imports ExtCore
begin

text \<open>
  \<open>deluge-all/Formatters.js\<close>: sizes, speeds, durations, dates and the HTML encoding of text.
  The calendar of the browser's time zone is a parameter of \<open>fdate\<close>; a call of a method that a
  value does not have is the error \<open>TypeError\<close>.
\<close>

datatype jserr = TypeError

section \<open>Sizes and speeds\<close>

definition kib :: "jsnum \<Rightarrow> jsnum" where
  "kib n = num_scale (1 / 1024) n"

text \<open>The three-unit ladder of \<open>size\<close> and \<open>sizeShort\<close>, with their units.\<close>

definition size_ladder :: "string \<Rightarrow> string \<Rightarrow> string \<Rightarrow> jsval \<Rightarrow> bool \<Rightarrow> string" where
  "size_ladder ku mu gu bytes showZero =
     (if \<not> truthy bytes \<and> \<not> showZero then []
      else let k = kib (to_number bytes) in
           if num_less k (Fin 1024) then to_fixed 1 k @ ku
           else let m = kib k in
                if num_less m (Fin 1024) then to_fixed 1 m @ mu
                else to_fixed 1 (kib m) @ gu)"

definition fsize :: "jsval \<Rightarrow> bool \<Rightarrow> string" where
  "fsize bytes showZero = size_ladder '' KiB'' '' MiB'' '' GiB'' bytes showZero"

definition fsize_short :: "jsval \<Rightarrow> bool \<Rightarrow> string" where
  "fsize_short bytes showZero = size_ladder '' K'' '' M'' '' G'' bytes showZero"

definition fspeed :: "jsval \<Rightarrow> bool \<Rightarrow> string" where
  "fspeed bytes showZero =
     (if \<not> truthy bytes \<and> \<not> showZero then [] else fsize bytes showZero @ ''/s'')"

section \<open>Durations\<close>

definition missing :: "jsval \<Rightarrow> bool" where
  "missing v = (v = Undefined \<or> v = Null)"

text \<open>\<open>a + unit + ' ' + b + unit\<close>, without the second part when it is not positive.\<close>

definition two_units :: "int \<Rightarrow> string \<Rightarrow> int \<Rightarrow> string \<Rightarrow> string" where
  "two_units a ua b ub =
     (if 0 < b then int_str a @ ua @ '' '' @ int_str b @ ub else int_str a @ ua)"

text \<open>The part of \<open>timeRemaining\<close> after \<open>toFixed(0)\<close>, on a whole number of seconds.\<close>

definition time_parts :: "int \<Rightarrow> string" where
  "time_parts s =
     (if s < 60 then int_str s @ ''s''
      else let t = of_int s / 60 :: rat in
           if t < 60 then two_units \<lfloor>t\<rfloor> ''m'' (round_half_up (60 * (t - of_int \<lfloor>t\<rfloor>))) ''s''
           else let t = t / 60 in
                if t < 24 then two_units \<lfloor>t\<rfloor> ''h'' (round_half_up (60 * (t - of_int \<lfloor>t\<rfloor>))) ''m''
                else let t = t / 24 in
                     two_units \<lfloor>t\<rfloor> ''d'' (round_half_up (24 * (t - of_int \<lfloor>t\<rfloor>))) ''h'')"

fun ftime :: "jsval \<Rightarrow> jserr + string" where
  "ftime time =
     (if missing time \<or> is_nan time then Inr []
      else if \<not> num_less (Fin 0) (to_number time) then Inr ''&infin;''
      else case time of
             Num (Fin q) \<Rightarrow> Inr (time_parts (round_half_up q))
           | Num _ \<Rightarrow> Inr ''Infinityd''
           | _ \<Rightarrow> Inl TypeError)"

declare ftime.simps [simp del]

section \<open>Dates\<close>

record calendar =
  year :: int
  month :: int
  day :: int
  hours :: int
  minutes :: int
  seconds :: int

function zeroPad_loop :: "string \<Rightarrow> nat \<Rightarrow> string" where
  "zeroPad_loop s count = (if length s < count then zeroPad_loop (CHR ''0'' # s) count else s)"
  by pat_completeness auto
termination
  by (relation "measure (\<lambda>(s, count). count - length s)") auto

declare zeroPad_loop.simps [simp del]

definition zeroPad :: "int \<Rightarrow> nat \<Rightarrow> string" where
  "zeroPad n count = zeroPad_loop (int_str n) count"

text \<open>\<open>local ms\<close> is the local time of a \<open>Date\<close> made from \<open>ms\<close>, with months from zero as
  \<open>getMonth\<close> has them.\<close>

definition fdate :: "(jsnum \<Rightarrow> calendar) \<Rightarrow> jsval \<Rightarrow> string" where
  "fdate local timestamp =
     (if missing timestamp \<or> is_nan timestamp then []
      else let d = local (num_scale 1000 (to_number timestamp))
           in string_format ''{0}/{1}/{2} {3}:{4}:{5}''
                [Str (zeroPad (day d) 2), Str (zeroPad (month d + 1) 2), num (of_int (year d)),
                 Str (zeroPad (hours d) 2), Str (zeroPad (minutes d) 2), Str (zeroPad (seconds d) 2)])"

section \<open>Text\<close>

definition fplain :: "jsval \<Rightarrow> jsval" where
  "fplain value = value"

definition cssClassEscape :: "string \<Rightarrow> string" where
  "cssClassEscape value = replace_first (CHR ''.'') ''_'' (to_lower value)"

definition charToEntity :: "char \<Rightarrow> string option" where
  "charToEntity c =
     (if c = CHR ''&'' then Some ''&amp;''
      else if c = CHR ''>'' then Some ''&gt;''
      else if c = CHR ''<'' then Some ''&lt;''
      else if c = CHR 0x22 then Some ''&quot;''
      else if c = CHR 0x27 then Some ''&#39;''
      else None)"

definition encode_char :: "char \<Rightarrow> string" where
  "encode_char c = (case charToEntity c of None \<Rightarrow> [c] | Some e \<Rightarrow> e)"

definition encode_text :: "string \<Rightarrow> string" where
  "encode_text s = concat (map encode_char s)"

definition htmlEncode :: "jsval \<Rightarrow> jsval" where
  "htmlEncode value = (if \<not> truthy value then value else Str (encode_text (js_string value)))"

section \<open>Whole numbers of seconds\<close>

lemma round_half_up_int [simp]: "round_half_up (of_int i) = i"
  by (simp add: round_half_up_def floor_eq_iff)

lemma round_half_up_div:
  fixes a b :: int
  assumes "0 < b"
  shows "round_half_up (of_int a / of_int b) = (2 * a + b) div (2 * b)"
proof -
  have "(of_int a / of_int b + 1 / 2 :: rat) = of_int (2 * a + b) / of_int (2 * b)"
    using assms by (simp add: field_simps)
  then show ?thesis by (simp add: round_half_up_def floor_divide_of_int_eq del: of_int_mult of_int_add)
qed

lemma floor_ratio: "\<lfloor>of_int a / of_int b :: rat\<rfloor> = a div b"
  by (simp add: floor_divide_of_int_eq)

lemma frac_scale:
  fixes a b c :: int
  assumes "0 < b"
  shows "of_int c * (of_int a / of_int b - of_int (a div b)) = (of_int (c * (a mod b)) / of_int b :: rat)"
proof -
  have "(of_int a :: rat) = of_int (b * (a div b) + a mod b)" by simp
  also have "\<dots> = of_int b * of_int (a div b) + of_int (a mod b)" by (simp only: of_int_add of_int_mult)
  finally have "(of_int a :: rat) - of_int b * of_int (a div b) = of_int (a mod b)" by simp
  moreover have "of_int c * (of_int a / of_int b - of_int (a div b)) =
      of_int c * ((of_int a - of_int b * of_int (a div b)) / of_int b :: rat)"
    using assms by (simp add: field_simps)
  ultimately show ?thesis by simp
qed

lemma half_units:
  fixes r u c :: int
  assumes "0 < c"
  shows "(2 * (c * r) + c * u) div (2 * (c * u)) = (2 * r + u) div (2 * u)"
  using assms div_mult_mult1 [of c "2 * r + u" "2 * u"] by (simp add: algebra_simps)

lemma time_parts_unfold:
  "time_parts s =
     (if s < 60 then int_str s @ ''s''
      else if s < 3600 then two_units (s div 60) ''m'' ((2 * (s mod 60) + 1) div (2 * 1)) ''s''
      else if s < 86400
      then two_units (s div 3600) ''h'' ((2 * (s mod 3600) + 60) div (2 * 60)) ''m''
      else two_units (s div 86400) ''d'' ((2 * (s mod 86400) + 3600) div (2 * 3600)) ''h'')"
proof -
  have c1: "(of_int s / 60 :: rat) < 60 \<longleftrightarrow> s < 3600"
    using of_int_less_iff [where 'a = rat, of s 3600] by simp
  have c2: "(of_int s / 60 / 60 :: rat) < 24 \<longleftrightarrow> s < 86400"
    using of_int_less_iff [where 'a = rat, of s 86400] by simp
  have f: "\<lfloor>of_int s / 60 :: rat\<rfloor> = s div 60" "\<lfloor>of_int s / 60 / 60 :: rat\<rfloor> = s div 3600"
    "\<lfloor>of_int s / 60 / 60 / 24 :: rat\<rfloor> = s div 86400"
    using floor_ratio [of s 60] floor_ratio [of s 3600] floor_ratio [of s 86400] by simp_all
  have r: "round_half_up (of_int c * (of_int s / of_int b - of_int (s div b)) :: rat) =
      (2 * (s mod b) + u) div (2 * u)" if "0 < c" "0 < b" "b = c * u" for b c u :: int
    using that by (simp only: frac_scale round_half_up_div half_units)
  have t: "(of_int s / 60 / 60 :: rat) = of_int s / of_int 3600"
    "(of_int s / 60 / 60 / 24 :: rat) = of_int s / of_int 86400"
    "(of_int s / 60 :: rat) = of_int s / of_int 60" by simp_all
  have u1: "round_half_up (60 * (of_int s / 60 - of_int (s div 60)) :: rat) =
      (2 * (s mod 60) + 1) div (2 * 1)"
    using r [of 60 60 1] unfolding t by (simp only: of_int_numeral zero_less_numeral mult_1_right)
  have e: "(3600 :: int) = 60 * 60" "(86400 :: int) = 24 * 3600" by simp_all
  have u2: "round_half_up (60 * (of_int s / 60 / 60 - of_int (s div 3600)) :: rat) =
      (2 * (s mod 3600) + 60) div (2 * 60)"
    using r [OF _ _ e(1)] unfolding t(1) by (simp only: of_int_numeral zero_less_numeral)
  have u3: "round_half_up (24 * (of_int s / 60 / 60 / 24 - of_int (s div 86400)) :: rat) =
      (2 * (s mod 86400) + 3600) div (2 * 3600)"
    using r [OF _ _ e(2)] unfolding t(2) by (simp only: of_int_numeral zero_less_numeral)
  show ?thesis
    unfolding time_parts_def Let_def c1 c2 f u1 u2 u3 by (rule refl)
qed

lemma ftime_seconds: "0 < s \<Longrightarrow> ftime (num (of_int s)) = Inr (time_parts s)"
  by (simp add: ftime.simps missing_def is_nan_def)

text \<open>The larger and the smaller unit a time is shown in.\<close>

definition time_unit :: "int \<Rightarrow> int \<times> string \<times> int \<times> string" where
  "time_unit s = (if s < 3600 then (60, ''m'', 1, ''s'') else if s < 86400 then (3600, ''h'', 60, ''m'')
     else (86400, ''d'', 3600, ''h''))"

lemma time_parts_units:
  assumes "60 \<le> s" "time_unit s = (big, ua, small, ub)"
  shows "time_parts s = two_units (s div big) ua ((2 * (s mod big) + small) div (2 * small)) ub"
proof -
  consider "s < 3600" | "\<not> s < 3600" "s < 86400" | "\<not> s < 86400" "\<not> s < 3600" by linarith
  then show ?thesis
    using assms unfolding time_parts_unfold time_unit_def
    by cases (simp_all only: if_True if_False prod.inject not_less [symmetric])
qed

lemma rounded_part:
  fixes r u :: int
  assumes "0 < u"
  shows "2 * \<bar>r - (2 * r + u) div (2 * u) * u\<bar> \<le> u"
proof -
  define q where "q = (2 * r + u) div (2 * u)"
  have "2 * u * q \<le> 2 * r + u" "2 * r + u < 2 * u * q + 2 * u"
    using assms pos_mod_bound [of "2 * u" "2 * r + u"] pos_mod_sign [of "2 * u" "2 * r + u"]
      mult_div_mod_eq [of "2 * u" "2 * r + u"] unfolding q_def by linarith+
  then have "2 * (q * u) \<le> 2 * r + u" "2 * r + u < 2 * (q * u) + 2 * u" by (simp_all add: algebra_simps)
  then show ?thesis unfolding q_def [symmetric] by arith
qed

section \<open>Encoding\<close>

lemma encode_text_append: "encode_text (s @ t) = encode_text s @ encode_text t"
  by (simp add: encode_text_def)

lemma encode_char_cases:
  "encode_char c = ''&amp;'' \<and> c = CHR ''&'' \<or> encode_char c = ''&gt;'' \<and> c = CHR ''>'' \<or>
   encode_char c = ''&lt;'' \<and> c = CHR ''<'' \<or> encode_char c = ''&quot;'' \<and> c = CHR 0x22 \<or>
   encode_char c = ''&#39;'' \<and> c = CHR 0x27 \<or>
   encode_char c = [c] \<and> c \<notin> {CHR ''&'', CHR ''>'', CHR ''<'', CHR 0x22, CHR 0x27}"
  by (auto simp: encode_char_def charToEntity_def)

lemma encode_char_safe: "set (encode_char c) \<inter> {CHR ''<'', CHR ''>'', CHR 0x22, CHR 0x27} = {}"
  using encode_char_cases [of c] by (elim disjE) auto

lemma encode_text_safe: "set (encode_text s) \<inter> {CHR ''<'', CHR ''>'', CHR 0x22, CHR 0x27} = {}"
  using encode_char_safe by (fastforce simp: encode_text_def)

text \<open>What a browser reads the five entities back as.\<close>

function decode_text :: "string \<Rightarrow> string" where
  "decode_text s =
     (if s = [] then []
      else if take 5 s = ''&amp;'' then CHR ''&'' # decode_text (drop 5 s)
      else if take 4 s = ''&gt;'' then CHR ''>'' # decode_text (drop 4 s)
      else if take 4 s = ''&lt;'' then CHR ''<'' # decode_text (drop 4 s)
      else if take 6 s = ''&quot;'' then CHR 0x22 # decode_text (drop 6 s)
      else if take 5 s = ''&#39;'' then CHR 0x27 # decode_text (drop 5 s)
      else hd s # decode_text (tl s))"
  by pat_completeness auto
termination
  by (relation "measure length") auto

declare decode_text.simps [simp del]

lemma decode_plain: "c \<noteq> CHR ''&'' \<Longrightarrow> decode_text (c # s) = c # decode_text s"
  by (subst decode_text.simps) simp

lemma decode_encode_char: "decode_text (encode_char c @ s) = c # decode_text s"
  using encode_char_cases [of c]
  by (elim disjE) (auto simp: decode_plain decode_text.simps [of "_ # _"])

lemma decode_encode_text: "decode_text (encode_text s) = s"
proof (induction s)
  case Nil
  then show ?case by (simp add: encode_text_def decode_text.simps)
next
  case (Cons c s)
  then show ?case by (simp add: encode_text_def decode_encode_char)
qed

section \<open>Properties\<close>

text \<open>C15: encoded text is inert and loses nothing. For every value that is drawn, the encoded text
  holds none of the characters that open a tag or end an attribute, every \<open>&\<close> of it belongs to an
  entity the encoder wrote, so that reading the entities back gives the original text, and two
  different texts never encode alike.\<close>

theorem htmlEncode_safe:
  "(\<forall>c \<in> set (encode_text s). c \<notin> {CHR ''<'', CHR ''>'', CHR 0x22, CHR 0x27}) \<and>
   decode_text (encode_text s) = s \<and>
   (encode_text s = encode_text t \<longleftrightarrow> s = t) \<and>
   (htmlEncode v = (if truthy v then Str (encode_text (js_string v)) else v))"
proof -
  have "encode_text s = encode_text t \<longleftrightarrow> s = t"
    by (metis decode_encode_text)
  then show ?thesis
    using encode_text_safe [of s] by (auto simp: decode_encode_text htmlEncode_def)
qed

theorem htmlEncode_safe_witness:
  "CHR ''<'' \<notin> set (encode_text ''<b>'') \<and> decode_text (encode_text ''<b>'') = ''<b>'' \<and>
   encode_text ''<b>'' = ''&lt;b&gt;''"
  using htmlEncode_safe [of "''<b>''" "''b''" Null]
  by (simp add: encode_text_def encode_char_def charToEntity_def)

text \<open>A remaining time is shown to within half of its smaller unit. A positive number of seconds
  below a minute is shown exactly; otherwise the text is a pair of units, minutes and seconds,
  hours and minutes or days and hours by its length, whose total differs from the time by at most
  half of the smaller unit; a missing time draws as nothing, and a time that is not positive as
  infinity.\<close>

theorem ftime_accurate:
  "ftime Undefined = Inr [] \<and> ftime Null = Inr [] \<and>
   (s \<le> 0 \<longrightarrow> ftime (num (of_int s)) = Inr ''&infin;'') \<and>
   (0 < s \<and> s < 60 \<longrightarrow> ftime (num (of_int s)) = Inr (int_str s @ ''s'')) \<and>
   (60 \<le> s \<longrightarrow> (case time_unit s of (big, ua, small, ub) \<Rightarrow>
      (\<exists>a b. ftime (num (of_int s)) = Inr (two_units a ua b ub) \<and>
        0 < a \<and> 0 \<le> b \<and> 2 * \<bar>s - (a * big + b * small)\<bar> \<le> small)))"
proof -
  have "\<exists>a b. ftime (num (of_int s)) = Inr (two_units a ua b ub) \<and>
      0 < a \<and> 0 \<le> b \<and> 2 * \<bar>s - (a * big + b * small)\<bar> \<le> small"
    if s: "60 \<le> s" and u: "time_unit s = (big, ua, small, ub)" for big ua small ub
  proof (intro exI conjI)
    have pos: "0 < small" "0 < big" "big \<le> s" using u s by (auto simp: time_unit_def split: if_splits)
    then show "0 < s div big" by (simp add: pos_imp_zdiv_pos_iff)
    show "0 \<le> (2 * (s mod big) + small) div (2 * small)"
      using pos by (simp add: pos_imp_zdiv_nonneg_iff)
    show "ftime (num (of_int s)) =
        Inr (two_units (s div big) ua ((2 * (s mod big) + small) div (2 * small)) ub)"
      using s ftime_seconds [of s] time_parts_units [OF s u] by simp
    show "2 * \<bar>s - (s div big * big + (2 * (s mod big) + small) div (2 * small) * small)\<bar> \<le> small"
      using rounded_part [OF pos(1), of "s mod big"] minus_div_mult_eq_mod [of s big]
      by (simp only: diff_diff_eq [symmetric])
  qed
  moreover have "s \<le> 0 \<Longrightarrow> ftime (num (of_int s)) = Inr ''&infin;''"
    by (simp add: ftime.simps missing_def is_nan_def)
  moreover have "0 < s \<and> s < 60 \<longrightarrow> ftime (num (of_int s)) = Inr (int_str s @ ''s'')"
    using ftime_seconds [of s] by (simp add: time_parts_unfold)
  ultimately show ?thesis by (simp add: ftime.simps [of Undefined] ftime.simps [of Null] missing_def split: prod.split)
qed

theorem ftime_accurate_witness:
  "\<exists>a b. ftime (num 3700) = Inr (two_units a ''h'' b ''m'') \<and> 0 < a \<and> 0 \<le> b \<and>
     2 * \<bar>3700 - (a * 3600 + b * 60)\<bar> \<le> (60 :: int)"
  using ftime_accurate [of 3700] by (simp add: time_unit_def)

text \<open>The smaller unit is rounded and never carried. In the last thirty seconds of an hour the
  time reads as sixty minutes of the hour before, and in the last half hour of a day as twenty-four
  hours of the day before.\<close>

theorem ftime_not_carried:
  assumes "1 \<le> h" "h < 24" "1 \<le> d" "0 \<le> k" "k < 30" "0 \<le> j" "j < 1800"
  shows "ftime (num (of_int (3600 * h + 3570 + k))) = Inr (int_str h @ ''h 60m'') \<and>
         ftime (num (of_int (86400 * d + 84600 + j))) = Inr (int_str d @ ''d 24h'')"
proof
  let ?s = "3600 * h + 3570 + k"
  have "time_parts ?s = two_units (?s div 3600) ''h'' ((2 * (?s mod 3600) + 60) div (2 * 60)) ''m''"
    by (rule time_parts_units) (use assms in \<open>auto simp: time_unit_def\<close>)
  moreover have "?s div 3600 = h" "?s mod 3600 = 3570 + k"
    using assms int_div_pos_eq [of ?s 3600 h "3570 + k"] int_mod_pos_eq [of ?s 3600 h "3570 + k"] by simp_all
  moreover have "(2 * (3570 + k) + 60) div (2 * 60) = 60"
    using assms int_div_pos_eq [of "2 * (3570 + k) + 60" "2 * 60" 60 "2 * k"] by simp
  ultimately have "time_parts ?s = two_units h ''h'' 60 ''m''" by simp
  moreover have "int_str 60 = ''60''" by code_simp
  ultimately show "ftime (num (of_int ?s)) = Inr (int_str h @ ''h 60m'')"
    using assms ftime_seconds [of ?s] by (simp add: two_units_def)
next
  let ?s = "86400 * d + 84600 + j"
  have "time_parts ?s = two_units (?s div 86400) ''d'' ((2 * (?s mod 86400) + 3600) div (2 * 3600)) ''h''"
    by (rule time_parts_units) (use assms in \<open>auto simp: time_unit_def\<close>)
  moreover have "?s div 86400 = d" "?s mod 86400 = 84600 + j"
    using assms int_div_pos_eq [of ?s 86400 d "84600 + j"] int_mod_pos_eq [of ?s 86400 d "84600 + j"]
    by simp_all
  moreover have "(2 * (84600 + j) + 3600) div (2 * 3600) = 24"
    using assms int_div_pos_eq [of "2 * (84600 + j) + 3600" "2 * 3600" 24 "2 * j"] by simp
  ultimately have "time_parts ?s = two_units d ''d'' 24 ''h''" by simp
  moreover have "int_str 24 = ''24''" by code_simp
  ultimately show "ftime (num (of_int ?s)) = Inr (int_str d @ ''d 24h'')"
    using assms ftime_seconds [of ?s] by (simp add: two_units_def)
qed

theorem ftime_not_carried_witness:
  "ftime (num (of_int 7199)) = Inr (int_str 1 @ ''h 60m'')"
  using ftime_not_carried [of 1 1 29 0] by (simp)

end
