(* ===== verification/GridColumns.thy ===== *)
theory GridColumns
  imports Formatters
begin

text \<open>
  What the torrent grid draws and how it orders: the renderers, the column table and the field
  table at the top of \<open>deluge-all/TorrentGrid.js\<close>, the sort types of
  \<open>data/SortTypes.js\<close>, the field list of \<open>data/TorrentRecord.js\<close> and the
  identity translation of \<open>gettext.js\<close>.  A renderer takes the style of its column, the
  fields of its record and the value of its own field; it returns what it draws, or the error it
  throws.  The clock (seconds since the epoch) and the calendar of the browser are parameters.
\<close>

section \<open>Translation\<close>

definition gettext :: "'a \<Rightarrow> 'a" where
  "gettext s = s"

definition ngettext :: "string \<Rightarrow> string \<Rightarrow> jsval \<Rightarrow> string" where
  "ngettext singular plural count = (if strict_eq count (num 1) then singular else plural)"

section \<open>Operators\<close>

text \<open>\<open>a <= b\<close>, which is false when either side is not a number.\<close>

definition js_le :: "jsval \<Rightarrow> jsval \<Rightarrow> bool" where
  "js_le a b = (case (to_prim a, to_prim b) of
                  (Str s, Str t) \<Rightarrow> s \<le> t
                | (p, q) \<Rightarrow> num_less (to_number p) (to_number q) \<or> num_eq (to_number p) (to_number q))"

text \<open>\<open>a + n\<close>: text is appended to, anything else is a number.\<close>

definition js_plus :: "jsval \<Rightarrow> rat \<Rightarrow> jsval" where
  "js_plus a n = (case to_prim a of
                    Str s \<Rightarrow> Str (s @ num_string (Fin n))
                  | p \<Rightarrow> Num (num_add (to_number p) (Fin n)))"

text \<open>\<open>Number(v) || 0\<close>.\<close>

definition number_or_zero :: "jsval \<Rightarrow> jsnum" where
  "number_or_zero v = (let n = to_number v in if n = NaN then Fin 0 else n)"

section \<open>Renderers\<close>

definition queueRenderer :: "jsval \<Rightarrow> jsval" where
  "queueRenderer value =
     (if missing value then Str []
      else if loose_eq value (num (-1)) then Str [] else js_plus value 1)"

definition class_char :: "char \<Rightarrow> bool" where
  "class_char c =
     ((CHR ''a'' \<le> c \<and> c \<le> CHR ''z'') \<or> (CHR ''0'' \<le> c \<and> c \<le> CHR ''9'') \<or> c = CHR ''_'' \<or> c = CHR ''-'')"

definition torrentNameRenderer :: "jsval dict \<Rightarrow> jsval \<Rightarrow> jsval" where
  "torrentNameRenderer r value =
     (let state = to_lower (js_string (js_or (js_get r ''state'') (Str [])))
      in Str (string_format ''<div class=\"torrent-name x-deluge-{0}\">{1}</div>''
                [Str (filter class_char state), htmlEncode (js_or value (Str []))]))"

definition torrentSpeedRenderer :: "jsval \<Rightarrow> jsval" where
  "torrentSpeedRenderer value = (if \<not> truthy value then Undefined else Str (fspeed value False))"

definition torrentLimitRenderer :: "jsval \<Rightarrow> jsval" where
  "torrentLimitRenderer value =
     (if loose_eq value (num (-1)) then Str []
      else Str (fspeed (Num (num_scale 1024 (to_number value))) False))"

definition torrentProgressRenderer :: "jsval \<Rightarrow> jsval dict \<Rightarrow> jsval \<Rightarrow> jsval" where
  "torrentProgressRenderer style r value =
     (if missing value then Str []
      else let n = to_number value;
               text = js_string (gettext (js_or (js_get r ''state'') (Str []))) @ '' '' @ to_fixed 2 n @ ''%'';
               width = columnWidth style 150
           in Str (progressBar n (of_int (width - 8)) text Undefined))"

definition with_total :: "string \<Rightarrow> jsval dict \<Rightarrow> jsval \<Rightarrow> jsval" where
  "with_total key r value =
     (if js_less (num (-1)) (js_get r key)
      then Str (string_format ''{0} ({1})'' [value, js_get r key]) else value)"

definition seedsRenderer :: "jsval dict \<Rightarrow> jsval \<Rightarrow> jsval" where
  "seedsRenderer r value = with_total ''total_seeds'' r value"

definition peersRenderer :: "jsval dict \<Rightarrow> jsval \<Rightarrow> jsval" where
  "peersRenderer r value = with_total ''total_peers'' r value"

definition availRenderer :: "jsval \<Rightarrow> jsval" where
  "availRenderer value =
     (if missing value \<or> is_nan value then Str []
      else if js_less value (num 0) then Str ''&infin;''
      else Num (str_num (to_fixed 3 (to_number value))))"

definition trackerRenderer :: "jsval \<Rightarrow> jsval" where
  "trackerRenderer value = htmlEncode (js_or value (Str []))"

text \<open>\<open>ftime\<close> in the text of a countdown.\<close>

definition countdown :: "string \<Rightarrow> jsnum \<Rightarrow> jserr + jsval" where
  "countdown fmt left =
     (case ftime (Num left) of
        Inl e \<Rightarrow> Inl e
      | Inr s \<Rightarrow> Inr (Str (string_format (gettext fmt) [Str s])))"

definition idleRenderer :: "rat \<Rightarrow> jsval dict \<Rightarrow> jserr + jsval" where
  "idleRenderer now r =
     (let resumeAt = number_or_zero (js_get r ''idle_resume_at'');
          pauseAt = number_or_zero (js_get r ''idle_pause_at'')
      in if num_less (Fin now) resumeAt
         then countdown ''resumes in {0}'' (math_round (num_add resumeAt (Fin (- now))))
         else if num_less (Fin now) pauseAt
         then countdown ''pauses in {0}'' (math_round (num_add pauseAt (Fin (- now))))
         else if num_less (Fin 0) pauseAt then Inr (Str (gettext ''idle''))
         else Inr (Str []))"

definition trackerRuleRenderer :: "rat \<Rightarrow> jsval dict \<Rightarrow> jserr + jsval" where
  "trackerRuleRenderer now r =
     (let removeAt = number_or_zero (js_get r ''tracker_remove_at'');
          moveAt = number_or_zero (js_get r ''tracker_move_at'')
      in if num_less (Fin 0) removeAt
         then let left = math_round (num_add removeAt (Fin (- now)))
              in if num_less (Fin 0) left then countdown ''removed in {0}'' left
                 else Inr (Str (gettext ''removed shortly''))
         else if num_less (Fin 0) moveAt
         then let until = math_round (num_add moveAt (Fin (- now)))
              in if num_less (Fin 0) until then countdown ''moved in {0}'' until
                 else Inr (Str (gettext ''moved shortly''))
         else Inr (Str []))"

definition MAX_VALUE :: rat where
  "MAX_VALUE = (2 ^ 53 - 1) * 2 ^ 971"

definition MAX_SAFE_INTEGER :: rat where
  "MAX_SAFE_INTEGER = 2 ^ 53 - 1"

definition etaSorter :: "jsval \<Rightarrow> jsval" where
  "etaSorter eta =
     (if strict_eq eta (num 0) then num MAX_VALUE
      else if js_le eta (num (-1)) then num MAX_SAFE_INTEGER else eta)"

definition dateOrNever :: "(jsnum \<Rightarrow> calendar) \<Rightarrow> jsval \<Rightarrow> jsval" where
  "dateOrNever local date =
     (if missing date then Str []
      else if js_less (num 0) date then Str (fdate local date) else Str (gettext ''Never''))"

definition timeOrInf :: "jsval \<Rightarrow> jserr + jsval" where
  "timeOrInf time =
     (if missing time \<or> strict_eq time (num 0) then Inr (Str [])
      else if js_le time (num (-1)) then Inr (Str ''&infin;'')
      else map_sum id Str (ftime time))"

section \<open>The columns\<close>

datatype renderer =
    QueueR | NameR | SizeR | ProgressR | SeedsR | PeersR | SpeedR | EtaR | AvailR | DateR
  | DateOrNeverR | TrackerR | PlainR | IdleR | TrackerRuleR | LimitR | TimeR

record column =
  header :: string
  width :: nat
  hidden :: bool
  rend :: renderer
  dataIndex :: string

abbreviation shown :: "string \<Rightarrow> nat \<Rightarrow> renderer \<Rightarrow> string \<Rightarrow> column" where
  "shown h w r d \<equiv> \<lparr>header = h, width = w, hidden = False, rend = r, dataIndex = d\<rparr>"

abbreviation off :: "string \<Rightarrow> nat \<Rightarrow> renderer \<Rightarrow> string \<Rightarrow> column" where
  "off h w r d \<equiv> \<lparr>header = h, width = w, hidden = True, rend = r, dataIndex = d\<rparr>"

text \<open>Every column is sortable, so that flag is left out.\<close>

definition columns1 :: "column list" where
  "columns1 =
     [shown ''#'' 30 QueueR ''queue'',
      shown ''Name'' 150 NameR ''name'',
      shown ''Size'' 75 SizeR ''total_wanted'',
      shown ''Progress'' 150 ProgressR ''progress'',
      off ''Seeds'' 60 SeedsR ''num_seeds'',
      off ''Peers'' 60 PeersR ''num_peers'',
      shown ''Down Speed'' 80 SpeedR ''download_payload_rate'',
      shown ''Up Speed'' 80 SpeedR ''upload_payload_rate'',
      shown ''ETA'' 60 EtaR ''eta'',
      off ''Ratio'' 60 AvailR ''ratio'',
      off ''Avail'' 60 AvailR ''distributed_copies'',
      off ''Added'' 80 DateR ''time_added'',
      off ''Complete Seen'' 80 DateOrNeverR ''last_seen_complete'',
      off ''Completed'' 80 DateOrNeverR ''completed_time'']"

definition columns2 :: "column list" where
  "columns2 =
     [off ''Tracker'' 120 TrackerR ''tracker_host'',
      off ''Download Folder'' 120 PlainR ''download_location'',
      shown ''Idle'' 110 IdleR ''idle_pause_at'',
      shown ''Tracker Rule'' 150 TrackerRuleR ''tracker_remove_at'',
      shown ''Label'' 90 PlainR ''label'',
      shown ''Owner'' 80 PlainR ''owner'',
      off ''Public'' 80 PlainR ''public'',
      off ''Shared'' 80 PlainR ''shared'',
      off ''Downloaded'' 75 SizeR ''total_done'',
      off ''Uploaded'' 75 SizeR ''total_uploaded'',
      off ''Remaining'' 75 SizeR ''total_remaining'',
      off ''Down Limit'' 75 LimitR ''max_download_speed'',
      off ''Up Limit'' 75 LimitR ''max_upload_speed'',
      off ''Seeds:Peers'' 75 AvailR ''seeds_peers_ratio'',
      off ''Last Transfer'' 75 TimeR ''time_since_transfer'']"

definition columns :: "column list" where
  "columns = columns1 @ columns2"

text \<open>The call the grid's view makes for a cell: the value, the metadata object and the record.  The
  second parameter of \<open>fsize\<close> is then the metadata object, which counts as true.\<close>

fun render :: "(jsnum \<Rightarrow> calendar) \<Rightarrow> rat \<Rightarrow> renderer \<Rightarrow> jsval \<Rightarrow> jsval dict \<Rightarrow> jsval \<Rightarrow> jserr + jsval" where
  "render local now QueueR style r v = Inr (queueRenderer v)"
| "render local now NameR style r v = Inr (torrentNameRenderer r v)"
| "render local now SizeR style r v = Inr (Str (fsize v True))"
| "render local now ProgressR style r v = Inr (torrentProgressRenderer style r v)"
| "render local now SeedsR style r v = Inr (seedsRenderer r v)"
| "render local now PeersR style r v = Inr (peersRenderer r v)"
| "render local now SpeedR style r v = Inr (torrentSpeedRenderer v)"
| "render local now EtaR style r v = timeOrInf v"
| "render local now AvailR style r v = Inr (availRenderer v)"
| "render local now DateR style r v = Inr (Str (fdate local v))"
| "render local now DateOrNeverR style r v = Inr (dateOrNever local v)"
| "render local now TrackerR style r v = Inr (trackerRenderer v)"
| "render local now PlainR style r v = Inr (fplain v)"
| "render local now IdleR style r v = idleRenderer now r"
| "render local now TrackerRuleR style r v = trackerRuleRenderer now r"
| "render local now LimitR style r v = Inr (torrentLimitRenderer v)"
| "render local now TimeR style r v = map_sum id Str (ftime v)"

section \<open>Sorting\<close>

definition asQueuePosition :: "jsval \<Rightarrow> jsval" where
  "asQueuePosition value = (if js_less (num (-1)) value then value else num MAX_VALUE)"

definition asName :: "jsval \<Rightarrow> jsval" where
  "asName value = Str (to_lower (js_string value))"

text \<open>The four octets and the port in front of which \<open>asIPAddress\<close> looks for them, from a position
  of the text: at most three digits each and a dot between, then a colon and a digit.\<close>

definition octet :: "string \<Rightarrow> char \<Rightarrow> (int \<times> string) option" where
  "octet s stop =
     (let ds = takeWhile is_digit s; r = dropWhile is_digit s
      in if ds \<noteq> [] \<and> length ds \<le> 3 \<and> r \<noteq> [] \<and> hd r = stop then Some (digits_val 10 ds, tl r) else None)"

definition address_here :: "string \<Rightarrow> int option" where
  "address_here s =
     Option.bind (octet s (CHR ''.'')) (\<lambda>(a, s).
     Option.bind (octet s (CHR ''.'')) (\<lambda>(b, s).
     Option.bind (octet s (CHR ''.'')) (\<lambda>(c, s).
     Option.bind (octet s (CHR '':'')) (\<lambda>(d, s).
       if s \<noteq> [] \<and> is_digit (hd s) then Some (((a * 256 + b) * 256 + c) * 256 + d) else None))))"

fun asIPAddress :: "string \<Rightarrow> jserr + int" where
  "asIPAddress [] = Inl TypeError"
| "asIPAddress (c # s) = (case address_here (c # s) of Some n \<Rightarrow> Inr n | None \<Rightarrow> asIPAddress s)"

datatype field_type = Auto | IntT | FloatT | BoolT | StringT

datatype sort_type = NoSort | QueueSort | NameSort | EtaSort

record field =
  fname :: string
  ftype :: field_type
  fsort :: sort_type

abbreviation fld :: "string \<Rightarrow> field_type \<Rightarrow> field" where
  "fld n t \<equiv> \<lparr>fname = n, ftype = t, fsort = NoSort\<rparr>"

definition meta_fields :: "field list" where
  "meta_fields =
     [\<lparr>fname = ''queue'', ftype = Auto, fsort = QueueSort\<rparr>,
      \<lparr>fname = ''name'', ftype = Auto, fsort = NameSort\<rparr>,
      fld ''total_wanted'' IntT, fld ''state'' Auto, fld ''progress'' FloatT, fld ''num_seeds'' IntT,
      fld ''total_seeds'' IntT, fld ''num_peers'' IntT, fld ''total_peers'' IntT,
      fld ''download_payload_rate'' IntT, fld ''upload_payload_rate'' IntT,
      \<lparr>fname = ''eta'', ftype = IntT, fsort = EtaSort\<rparr>,
      fld ''ratio'' FloatT, fld ''distributed_copies'' FloatT, fld ''time_added'' IntT,
      fld ''last_seen_complete'' IntT, fld ''completed_time'' IntT, fld ''tracker_host'' Auto,
      fld ''download_location'' Auto, fld ''total_done'' IntT, fld ''total_uploaded'' IntT,
      fld ''total_remaining'' IntT, fld ''max_download_speed'' IntT, fld ''max_upload_speed'' IntT,
      fld ''seeds_peers_ratio'' FloatT, fld ''time_since_transfer'' IntT, fld ''label'' Auto,
      fld ''owner'' Auto, fld ''idle_since'' FloatT, fld ''idle_pause_at'' FloatT,
      fld ''idle_resume_at'' FloatT, fld ''tracker_move_at'' FloatT, fld ''tracker_remove_at'' FloatT,
      fld ''space_paused'' BoolT]"

definition Torrent_fields :: "(string \<times> field_type) list" where
  "Torrent_fields =
     [(''queue'', IntT), (''name'', StringT), (''total_wanted'', IntT), (''state'', StringT),
      (''progress'', IntT), (''num_seeds'', IntT), (''total_seeds'', IntT), (''num_peers'', IntT),
      (''total_peers'', IntT), (''download_payload_rate'', IntT), (''upload_payload_rate'', IntT),
      (''eta'', IntT), (''ratio'', FloatT), (''distributed_copies'', FloatT), (''time_added'', IntT),
      (''tracker_host'', StringT), (''save_path'', StringT), (''total_done'', IntT),
      (''total_uploaded'', IntT), (''total_remaining'', IntT), (''max_download_speed'', IntT),
      (''max_upload_speed'', IntT), (''seeds_peers_ratio'', FloatT), (''time_since_transfer'', IntT)]"

fun sort_value :: "sort_type \<Rightarrow> jsval \<Rightarrow> jsval" where
  "sort_value NoSort v = v"
| "sort_value QueueSort v = asQueuePosition v"
| "sort_value NameSort v = asName v"
| "sort_value EtaSort v = etaSorter v"

text \<open>\<open>createSortFunction\<close>, the function \<open>sortData\<close> makes of it and the direction that
  \<open>MixedCollection.sort\<close> applies: each multiplies by \<open>-1\<close> for \<open>DESC\<close>, three times in all.\<close>

definition sort_compare :: "sort_type \<Rightarrow> bool \<Rightarrow> string \<Rightarrow> jsval dict \<Rightarrow> jsval dict \<Rightarrow> int" where
  "sort_compare st desc f r1 r2 =
     (let v1 = sort_value st (js_get r1 f); v2 = sort_value st (js_get r2 f);
          m = (if desc then -1 else 1)
      in m * (m * (m * (if js_less v2 v1 then 1 else if js_less v1 v2 then -1 else 0))))"

definition store_field :: "string \<Rightarrow> field option" where
  "store_field n = find (\<lambda>f. fname f = n) meta_fields"

section \<open>Laws\<close>

lemma ftime_Num: "\<exists>s. ftime (Num n) = Inr s"
  by (cases n) (auto simp: ftime.simps missing_def is_nan_def)

lemma countdown_ok: "\<exists>v. countdown fmt n = Inr v"
  using ftime_Num [of n] by (auto simp: countdown_def)

lemma idleRenderer_ok: "\<exists>v. idleRenderer now r = Inr v"
  unfolding idleRenderer_def Let_def using countdown_ok by (auto split: if_splits)

lemma trackerRuleRenderer_ok: "\<exists>v. trackerRuleRenderer now r = Inr v"
  unfolding trackerRuleRenderer_def Let_def using countdown_ok by (auto split: if_splits)

lemma timeOrInf_ok:
  assumes "missing v \<or> (\<exists>n. v = Num n)"
  shows "\<exists>w. timeOrInf v = Inr w"
proof -
  have "\<exists>w. map_sum id Str (ftime v) = Inr w" if nm: "\<not> missing v"
  proof -
    obtain n where v: "v = Num n" using assms nm by auto
    obtain t where "ftime (Num n) = Inr t" using ftime_Num by blast
    then show ?thesis using v by simp
  qed
  then show ?thesis by (auto simp: timeOrInf_def)
qed

lemma string_format_Nil: "string_format [] args = []"
  by (rule string_format.simps)

lemma string_format_plain: "c \<noteq> CHR ''{'' \<Longrightarrow> string_format (c # s) args = c # string_format s args"
  by (simp add: Let_def)

lemma string_format_hole:
  assumes "is_digit d" "digit_val d = int n" "nat_str (int n) = [d]" "n < length args"
  shows "string_format (CHR ''{'' # d # CHR ''}'' # s) args = js_string (args ! n) @ string_format s args"
proof -
  have "\<not> is_digit (CHR ''}'')" by code_simp
  then show ?thesis using assms by (simp add: Let_def format_arg_def digits_val_def)
qed

lemma format_hole0: "a0 # rest = args \<Longrightarrow>
    string_format (CHR ''{'' # CHR ''0'' # CHR ''}'' # s) args = js_string a0 @ string_format s args"
  by (subst string_format_hole [where n = 0]) (code_simp | auto)+

lemma format_hole1: "a0 # a1 # rest = args \<Longrightarrow>
    string_format (CHR ''{'' # CHR ''1'' # CHR ''}'' # s) args = js_string a1 @ string_format s args"
  by (subst string_format_hole [where n = 1]) (code_simp | auto)+

lemmas format_simps = string_format_plain string_format_Nil format_hole0 [OF refl] format_hole1 [OF refl]

lemma torrentNameRenderer_text:
  "torrentNameRenderer r v =
     Str (''<div class=\"torrent-name x-deluge-'' @
          filter class_char (to_lower (js_string (js_or (js_get r ''state'') (Str [])))) @ ''\">'' @
          encode_text (if truthy v then js_string v else []) @ ''</div>'')"
proof -
  have "js_string (htmlEncode (js_or v (Str []))) = encode_text (if truthy v then js_string v else [])"
    by (simp add: htmlEncode_def js_or_def encode_text_def)
  then show ?thesis
    unfolding torrentNameRenderer_def Let_def
    by (simp del: string_format.simps add: format_simps)
qed

lemma fsize_NaN: "to_number v = NaN \<Longrightarrow> fsize v True = ''NaN GiB''"
  by (simp add: fsize_def size_ladder_def kib_def Let_def)

section \<open>Properties\<close>

text \<open>No cell of the grid throws. Whatever the fields of a record hold, each renderer of the column
  table returns something to draw; the two that format a duration need it to be a number, undefined
  or null, which is what an unasked field and a field of the daemon's are.\<close>

theorem render_total:
  assumes "rn \<in> {EtaR, TimeR} \<Longrightarrow> missing v \<or> (\<exists>n. v = Num n)"
  shows "\<exists>w. render local now rn style r v = Inr w"
proof (cases rn)
  case TimeR
  have "\<exists>t. ftime v = Inr t" using assms ftime_Num TimeR by (auto simp: ftime.simps [of Undefined] ftime.simps [of Null] missing_def)
  then show ?thesis using TimeR by auto
qed (use assms timeOrInf_ok idleRenderer_ok trackerRuleRenderer_ok in auto)

theorem render_total_witness:
  "\<exists>w. render (\<lambda>_. \<lparr>year = 2024, month = 0, day = 1, hours = 0, minutes = 0, seconds = 0\<rparr>) 0
        TimeR Undefined [] Null = Inr w"
  by (rule render_total) (simp add: missing_def)

text \<open>A torrent's name cannot leave its cell. The cell is one \<open>div\<close> whose class is made of the
  letters, digits, underscores and dashes of the state and whose text, the encoded name, holds no
  character that opens a tag or ends an attribute; the tracker column is encoded the same way.\<close>

theorem name_cell_safe:
  "\<exists>cls txt. torrentNameRenderer r v =
        Str (''<div class=\"torrent-name x-deluge-'' @ cls @ ''\">'' @ txt @ ''</div>'') \<and>
     list_all class_char cls \<and>
     set txt \<inter> {CHR ''<'', CHR ''>'', CHR 0x22, CHR 0x27} = {} \<and>
     trackerRenderer v = Str txt \<and> decode_text txt = (if truthy v then js_string v else [])"
proof (intro exI conjI)
  show "torrentNameRenderer r v = Str (''<div class=\"torrent-name x-deluge-'' @
      filter class_char (to_lower (js_string (js_or (js_get r ''state'') (Str [])))) @ ''\">'' @
      encode_text (if truthy v then js_string v else []) @ ''</div>'')"
    by (rule torrentNameRenderer_text)
  show "list_all class_char (filter class_char (to_lower (js_string (js_or (js_get r ''state'') (Str [])))))"
    by (simp add: list_all_iff)
  show "trackerRenderer v = Str (encode_text (if truthy v then js_string v else []))"
    by (simp add: trackerRenderer_def htmlEncode_def js_or_def encode_text_def)
qed (rule encode_text_safe, rule decode_encode_text)

text \<open>The size columns draw a field that did not arrive as \<open>NaN GiB\<close>. The grid's view passes its
  metadata object where \<open>size\<close> expects \<open>showZero\<close>, so a missing value is not dropped the way the
  other formatters drop it.\<close>

theorem size_cell_missing:
  "render local now SizeR style r Undefined = Inr (Str ''NaN GiB'') \<and>
   fsize Undefined False = [] \<and>
   (\<forall>c \<in> set columns. rend c \<in> {EtaR, DateR, DateOrNeverR, QueueR, ProgressR, TimeR} \<longrightarrow>
      render local now (rend c) style r Undefined = Inr (Str []))"
proof (intro conjI ballI impI)
  show "render local now SizeR style r Undefined = Inr (Str ''NaN GiB'')" by (simp add: fsize_NaN)
  show "fsize Undefined False = []" by (simp add: fsize_def size_ladder_def)
  fix c
  assume "rend c \<in> {EtaR, DateR, DateOrNeverR, QueueR, ProgressR, TimeR}"
  then show "render local now (rend c) style r Undefined = Inr (Str [])"
    by (auto simp: timeOrInf_def missing_def fdate_def dateOrNever_def queueRenderer_def
        torrentProgressRenderer_def ftime.simps)
qed

theorem size_cell_missing_witness:
  "\<forall>local now style r. render local now EtaR style r Undefined = Inr (Str [])"
proof (intro allI)
  fix local now style r
  have "shown ''ETA'' 60 EtaR ''eta'' \<in> set columns" by (simp add: columns_def columns1_def)
  then show "render local now EtaR style r Undefined = Inr (Str [])"
    using size_cell_missing [of local now style r] by fastforce
qed

end
