(* ===== verification/BufferView.thy ===== *)
theory BufferView
  imports GridColumns
begin

text \<open>
  \<open>ext-extensions/grid/BufferView.js\<close>: the view that draws only the rows near the viewport.
  Its state is what the browser reports (scroll position, height of the viewport, the rectangles of
  the rows), the measured height of a row, the number of records and, for each row of the body, the
  HTML in it, empty for a place holder.  Heights and positions are in pixels, as rationals.
\<close>

record view =
  rowHeight :: rat
  borderHeight :: rat
  isBorderBox :: bool
  measuredRowHeight :: rat
  scrollTop :: rat
  clientHeight :: rat
  rects :: "(rat \<times> rat) list"
  count :: nat
  body :: "string list"
  cacheSize :: int
  scrollDelay :: bool
  updateQueued :: bool
  cleanQueued :: bool

text \<open>\<open>rects\<close> is the top and the height of each row's element; a measured height of zero is the
  \<open>null\<close> it is reset to, which is not greater than zero either.\<close>

section \<open>Measuring\<close>

definition getStyleRowHeight :: "view \<Rightarrow> rat" where
  "getStyleRowHeight w = (if isBorderBox w then rowHeight w + borderHeight w else rowHeight w)"

definition getCalculatedRowHeight :: "view \<Rightarrow> rat \<times> view" where
  "getCalculatedRowHeight w =
     (if 0 < measuredRowHeight w then (measuredRowHeight w, w)
      else
        let rs = rects w;
            pitch = (fst (last rs) - fst (hd rs)) / of_nat (length rs - 1)
        in if 1 < length rs \<and> 0 < pitch then (pitch, w\<lparr>measuredRowHeight := pitch\<rparr>)
           else if length rs = 1 \<and> 0 < snd (hd rs)
           then (snd (hd rs), w\<lparr>measuredRowHeight := snd (hd rs)\<rparr>)
           else (rowHeight w + borderHeight w, w))"

definition forgetRowHeight :: "view \<Rightarrow> view" where
  "forgetRowHeight w = w\<lparr>measuredRowHeight := 0\<rparr>"

section \<open>The window\<close>

definition getVisibleRowCount :: "view \<Rightarrow> int \<times> view" where
  "getVisibleRowCount w =
     (let (rh, w) = getCalculatedRowHeight w
      in (if clientHeight w < 1 then 0 else \<lceil>clientHeight w / rh\<rceil>, w))"

definition getVisibleRows :: "view \<Rightarrow> (int \<times> int) \<times> view" where
  "getVisibleRows w =
     (let (n, w) = getVisibleRowCount w;
          (rh, w) = getCalculatedRowHeight w;
          sc = scrollTop w;
          start = (if sc = 0 then 0 else \<lfloor>sc / rh\<rfloor> - 1);
          stop = int (count w) - 1;
          first = max (min start stop) 0;
          last = max (min (start + n + 4) stop) first
      in ((first, last), w))"

section \<open>Drawing\<close>

text \<open>The text of a cell: nothing and the empty string draw as a space.\<close>

definition cell_value :: "jsval \<Rightarrow> jsval" where
  "cell_value v = (if v = Undefined \<or> v = Str [] then Str ''&#160;'' else v)"

definition cell_css :: "nat \<Rightarrow> nat \<Rightarrow> bool \<Rightarrow> string" where
  "cell_css i lastc dirty =
     (if i = 0 then ''x-grid3-cell-first '' else if i = lastc then ''x-grid3-cell-last '' else []) @
     (if dirty then '' x-grid3-dirty-cell'' else [])"

text \<open>A cell of a row: its column's position, class, style and value.\<close>

record cell =
  cell_index :: nat
  css :: string
  style :: jsval
  shown_text :: jsval

definition row_alt :: "bool \<Rightarrow> bool \<Rightarrow> int \<Rightarrow> string" where
  "row_alt stripe dirty rowIndex =
     (if stripe \<and> (rowIndex + 1) mod 2 = 0 then ''x-grid3-row-alt'' else []) @
     (if dirty then '' '' @ '' x-grid3-dirty-row'' else [])"

text \<open>A column is its field's name, its style and what it draws for a record; \<open>Inl\<close> is an exception,
  which leaves \<open>doRender\<close> and every row after it undrawn.  \<open>edits r\<close> is the fields of a record that
  were edited and not committed.\<close>

type_synonym 'r draw_column = "string \<times> jsval \<times> ('r \<Rightarrow> jserr + jsval)"

fun render_cells ::
    "'r draw_column list \<Rightarrow> nat \<Rightarrow> nat \<Rightarrow> string list \<Rightarrow> 'r \<Rightarrow> jserr + cell list" where
  "render_cells [] i lastc edits r = Inr []"
| "render_cells ((name, st, f) # cs) i lastc edits r =
     (case f r of
        Inl e \<Rightarrow> Inl e
      | Inr v \<Rightarrow> map_sum id ((#) \<lparr>cell_index = i, css = cell_css i lastc (name \<in> set edits), style = st,
                                 shown_text = cell_value v\<rparr>)
                   (render_cells cs (i + 1) lastc edits r))"

text \<open>One row: a place holder outside the window, its cells inside.\<close>

datatype row_html = Holder string | Row string "cell list"

fun doRender ::
    "'r draw_column list \<Rightarrow> ('r \<Rightarrow> string list) \<Rightarrow> int \<times> int \<Rightarrow> bool \<Rightarrow> int \<Rightarrow> 'r list \<Rightarrow> jserr + row_html list" where
  "doRender cs edits vr stripe startRow [] = Inr []"
| "doRender cs edits vr stripe startRow (r # rs) =
     (let alt = row_alt stripe (edits r \<noteq> []) startRow;
          visible = (fst vr \<le> startRow \<and> startRow \<le> snd vr)
      in case (if visible then map_sum id (Row alt) (render_cells cs 0 (length cs - 1) (edits r) r)
               else Inr (Holder alt)) of
           Inl e \<Rightarrow> Inl e
         | Inr h \<Rightarrow> map_sum id ((#) h) (doRender cs edits vr stripe (startRow + 1) rs))"

section \<open>Updating and cleaning\<close>

definition isRowRendered :: "view \<Rightarrow> int \<Rightarrow> bool" where
  "isRowRendered w i = (0 \<le> i \<and> i < int (length (body w)) \<and> body w ! nat i \<noteq> [])"

text \<open>\<open>draw i\<close> is what \<open>doRender\<close> gives for the record of row \<open>i\<close>.\<close>

definition draw_row :: "(nat \<Rightarrow> string) \<Rightarrow> int \<Rightarrow> view \<Rightarrow> view" where
  "draw_row draw i w =
     (if \<not> isRowRendered w i \<and> 0 \<le> i \<and> i < int (length (body w))
      then w\<lparr>body := (body w)[nat i := draw (nat i)]\<rparr> else w)"

definition clean :: "view \<Rightarrow> view" where
  "clean w = w\<lparr>cleanQueued := True\<rparr>"

definition doUpdate :: "(nat \<Rightarrow> string) \<Rightarrow> view \<Rightarrow> view" where
  "doUpdate draw w =
     (let (n, w) = getVisibleRowCount w
      in if 0 < n
         then let ((first, last), w) = getVisibleRows w
              in clean (fold (draw_row draw) [first..last] w)
         else w)"

definition view_update :: "(nat \<Rightarrow> string) \<Rightarrow> view \<Rightarrow> view" where
  "view_update draw w = (if scrollDelay w then w\<lparr>updateQueued := True\<rparr> else doUpdate draw w)"

definition clean_row :: "int \<Rightarrow> int \<Rightarrow> int \<Rightarrow> view \<Rightarrow> view" where
  "clean_row lo hi i w =
     (if (i < lo \<or> hi < i) \<and> body w ! nat i \<noteq> [] then w\<lparr>body := (body w)[nat i := []]\<rparr> else w)"

definition doClean :: "view \<Rightarrow> view" where
  "doClean w =
     (let (n, w) = getVisibleRowCount w
      in if 0 < n
         then let ((first, last), w) = getVisibleRows w;
                  first = first - cacheSize w;
                  last = last + cacheSize w;
                  i = (if first \<le> 0 then last + 1 else 0);
                  len = min (int (count w)) (int (length (body w)))
              in fold (clean_row first last) [i..len - 1] w
         else w)"

definition view_layout :: "(nat \<Rightarrow> string) \<Rightarrow> view \<Rightarrow> view" where
  "view_layout draw w = view_update draw (forgetRowHeight w)"

definition view_onRemove :: "(nat \<Rightarrow> string) \<Rightarrow> bool \<Rightarrow> view \<Rightarrow> view" where
  "view_onRemove draw isUpdate w = (if isUpdate then w else view_update draw w)"

definition view_destroy :: "view \<Rightarrow> view" where
  "view_destroy w = w\<lparr>cleanQueued := False, updateQueued := False\<rparr>"

section \<open>The row height\<close>

definition row_height :: "view \<Rightarrow> rat" where
  "row_height w = fst (getCalculatedRowHeight w)"

definition measured :: "view \<Rightarrow> view" where
  "measured w = snd (getCalculatedRowHeight w)"

lemma calculated: "getCalculatedRowHeight w = (row_height w, measured w)"
  by (simp add: row_height_def measured_def)

lemma measured_fields [simp]:
  "scrollTop (measured w) = scrollTop w" "clientHeight (measured w) = clientHeight w"
  "count (measured w) = count w" "body (measured w) = body w" "cacheSize (measured w) = cacheSize w"
  by (auto simp: measured_def getCalculatedRowHeight_def Let_def)

lemma measured_again: "getCalculatedRowHeight (measured w) = (row_height w, measured w)"
  by (auto simp: measured_def row_height_def getCalculatedRowHeight_def Let_def)

lemma row_height_pos:
  "0 < rowHeight w \<Longrightarrow> 0 \<le> borderHeight w \<Longrightarrow> 0 < row_height w"
  by (auto simp: row_height_def getCalculatedRowHeight_def Let_def)

definition window :: "view \<Rightarrow> int \<times> int" where
  "window w = fst (getVisibleRows w)"

lemma visible_count: "getVisibleRowCount w =
    ((if clientHeight w < 1 then 0 else \<lceil>clientHeight w / row_height w\<rceil>), measured w)"
  by (simp add: getVisibleRowCount_def calculated)

lemma visible_rows: "getVisibleRows w = (window w, measured w)"
  by (simp add: window_def getVisibleRows_def visible_count measured_again Let_def)

lemma window_eq:
  "window w =
     (let start = (if scrollTop w = 0 then 0 else \<lfloor>scrollTop w / row_height w\<rfloor> - 1);
          n = (if clientHeight w < 1 then 0 else \<lceil>clientHeight w / row_height w\<rceil>);
          stop = int (count w) - 1; first = max (min start stop) 0
      in (first, max (min (start + n + 4) stop) first))"
  by (simp add: window_def getVisibleRows_def visible_count measured_again Let_def)

lemma window_measured [simp]: "window (measured w) = window w"
proof -
  have "row_height (measured w) = row_height w" by (simp add: row_height_def measured_again)
  then show ?thesis by (simp add: window_eq)
qed

lemma visible_count_measured: "getVisibleRowCount (measured w) = getVisibleRowCount w"
proof -
  have "row_height (measured w) = row_height w" "measured (measured w) = measured w"
    by (simp_all add: row_height_def measured_def measured_again [unfolded measured_def])
  then show ?thesis by (simp add: visible_count)
qed

section \<open>Laws\<close>

lemma window_bounds: "0 \<le> fst (window w)" "fst (window w) \<le> snd (window w)"
  by (simp_all add: window_eq Let_def)

lemma isRowRendered_body:
  "isRowRendered w i \<longleftrightarrow> 0 \<le> i \<and> nat i < length (body w) \<and> body w ! nat i \<noteq> []"
  by (auto simp: isRowRendered_def)

lemma draw_row_body:
  "0 \<le> i \<Longrightarrow> body (draw_row draw i w) =
     (if nat i < length (body w) \<and> body w ! nat i = [] then (body w)[nat i := draw (nat i)] else body w)"
  by (auto simp: draw_row_def isRowRendered_body)

lemma draw_row_length [simp]: "length (body (draw_row draw i w)) = length (body w)"
  by (simp add: draw_row_def)

lemma fold_draw_row:
  assumes "\<forall>i \<in> set is. 0 \<le> i" "\<And>j. draw j \<noteq> []"
  shows "length (body (fold (draw_row draw) is w)) = length (body w) \<and>
    (\<forall>j < length (body w). body (fold (draw_row draw) is w) ! j =
       (if int j \<in> set is \<and> body w ! j = [] then draw j else body w ! j))"
  using assms
proof (induction "is" arbitrary: w)
  case Nil
  then show ?case by simp
next
  case (Cons i "is")
  have IH: "length (body (fold (draw_row draw) is w')) = length (body w') \<and>
    (\<forall>j < length (body w'). body (fold (draw_row draw) is w') ! j =
       (if int j \<in> set is \<and> body w' ! j = [] then draw j else body w' ! j))" for w'
    using Cons by simp
  have i: "0 \<le> i" using Cons.prems by simp
  have "body (draw_row draw i w) ! j = (if int j = i \<and> body w ! j = [] then draw j else body w ! j)"
    if "j < length (body w)" for j
    using that i by (auto simp: draw_row_body nth_list_update)
  then show ?case using IH [of "draw_row draw i w"] Cons.prems(2) by auto
qed

lemma fold_clean_row:
  assumes "\<forall>i \<in> set is. 0 \<le> i"
  shows "length (body (fold (clean_row lo hi) is w)) = length (body w) \<and>
    (\<forall>j < length (body w). body (fold (clean_row lo hi) is w) ! j =
       (if int j \<in> set is \<and> (int j < lo \<or> hi < int j) then [] else body w ! j))"
  using assms
proof (induction "is" arbitrary: w)
  case Nil
  then show ?case by simp
next
  case (Cons i "is")
  have i: "0 \<le> i" using Cons.prems by simp
  have l: "length (body (clean_row lo hi i w)) = length (body w)" by (simp add: clean_row_def)
  have "body (clean_row lo hi i w) ! j = (if int j = i \<and> (int j < lo \<or> hi < int j) then [] else body w ! j)"
    if "j < length (body w)" for j
    using that i by (auto simp: clean_row_def nth_list_update)
  then show ?case using Cons l by auto
qed

text \<open>The cell of a column: its own style, and what its renderer drew.\<close>

definition cell_of :: "'r \<Rightarrow> 'r draw_column \<Rightarrow> cell \<Rightarrow> bool" where
  "cell_of r c x \<longleftrightarrow> style x = fst (snd c) \<and> (\<exists>v. snd (snd c) r = Inr v \<and> shown_text x = cell_value v)"

definition draws_all :: "'r draw_column list \<Rightarrow> 'r \<Rightarrow> bool" where
  "draws_all cs r \<longleftrightarrow> (\<forall>c \<in> set cs. \<exists>v. snd (snd c) r = Inr v)"

lemma render_cells_ok:
  "draws_all cs r \<Longrightarrow> \<exists>cells. render_cells cs i lastc edits r = Inr cells \<and> list_all2 (cell_of r) cs cells"
proof (induction cs arbitrary: i)
  case Nil
  then show ?case by simp
next
  case (Cons c cs)
  obtain name st f where c: "c = (name, st, f)" by (cases c)
  obtain v where v: "f r = Inr v" using Cons.prems c by (auto simp: draws_all_def)
  have "draws_all cs r" using Cons.prems by (simp add: draws_all_def)
  then obtain cells where "render_cells cs (i + 1) lastc edits r = Inr cells" "list_all2 (cell_of r) cs cells"
    using Cons.IH by blast
  then show ?case using v by (simp add: c cell_of_def [of r "(name, st, f)"])
qed

lemma render_cells_error:
  "\<not> draws_all cs r \<Longrightarrow> \<exists>e. render_cells cs i lastc edits r = Inl e"
proof (induction cs arbitrary: i)
  case Nil
  then show ?case by (simp add: draws_all_def)
next
  case (Cons c cs)
  obtain name st f where c: "c = (name, st, f)" by (cases c)
  show ?case
  proof (cases "f r")
    case (Inr v)
    then have "\<not> draws_all cs r" using Cons.prems c by (auto simp: draws_all_def)
    then obtain e where "render_cells cs (i + 1) lastc edits r = Inl e" using Cons.IH by blast
    then show ?thesis using Inr by (simp add: c)
  qed (simp add: c)
qed

definition in_window :: "int \<times> int \<Rightarrow> int \<Rightarrow> bool" where
  "in_window vr i \<longleftrightarrow> fst vr \<le> i \<and> i \<le> snd vr"

definition row_of :: "'r draw_column list \<Rightarrow> bool \<Rightarrow> 'r \<Rightarrow> row_html \<Rightarrow> bool" where
  "row_of cs visible r h \<longleftrightarrow>
     (case h of Holder alt \<Rightarrow> \<not> visible | Row alt cells \<Rightarrow> visible \<and> list_all2 (cell_of r) cs cells)"

lemma doRender_ok:
  "(\<And>k. k < length rs \<Longrightarrow> in_window vr (n + int k) \<Longrightarrow> draws_all cs (rs ! k)) \<Longrightarrow>
   \<exists>hs. doRender cs edits vr stripe n rs = Inr hs \<and> length hs = length rs \<and>
     (\<forall>k < length rs. row_of cs (in_window vr (n + int k)) (rs ! k) (hs ! k))"
proof (induction rs arbitrary: n)
  case Nil
  then show ?case by simp
next
  case (Cons r rs)
  have "in_window vr (n + 1 + int k) \<Longrightarrow> draws_all cs (rs ! k)" if "k < length rs" for k
    using Cons.prems [of "Suc k"] that by (simp add: algebra_simps)
  then obtain hs where hs: "doRender cs edits vr stripe (n + 1) rs = Inr hs" "length hs = length rs"
     "\<forall>k < length rs. row_of cs (in_window vr (n + 1 + int k)) (rs ! k) (hs ! k)"
    using Cons.IH [of "n + 1"] by blast
  obtain h where h: "row_of cs (in_window vr n) r h" "doRender cs edits vr stripe n (r # rs) = Inr (h # hs)"
  proof (cases "in_window vr n")
    case True
    then have "draws_all cs r" using Cons.prems [of 0] by simp
    then obtain cells where "render_cells cs 0 (length cs - 1) (edits r) r = Inr cells" "list_all2 (cell_of r) cs cells"
      using render_cells_ok [of cs r 0 "length cs - 1" "edits r"] by blast
    then show ?thesis using True hs
      by (intro that [of "Row (row_alt stripe (edits r \<noteq> []) n) cells"]) (simp_all add: row_of_def in_window_def)
  next
    case False
    then show ?thesis using hs
      by (intro that [of "Holder (row_alt stripe (edits r \<noteq> []) n)"]) (auto simp: row_of_def in_window_def)
  qed
  have "row_of cs (in_window vr (n + int k)) ((r # rs) ! k) ((h # hs) ! k)" if k: "k < length (r # rs)" for k
  proof (cases k)
    case 0
    then show ?thesis using h(1) by simp
  next
    case (Suc j)
    then show ?thesis using hs(3) k by (simp add: algebra_simps)
  qed
  then show ?case using h(2) hs(2) by auto
qed

lemma doRender_error:
  "k < length rs \<Longrightarrow> in_window vr (n + int k) \<Longrightarrow> \<not> draws_all cs (rs ! k) \<Longrightarrow>
   \<exists>e. doRender cs edits vr stripe n rs = Inl e"
proof (induction rs arbitrary: n k)
  case (Cons r rs)
  show ?case
  proof (cases k)
    case 0
    then obtain e where "render_cells cs 0 (length cs - 1) (edits r) r = Inl e"
      using render_cells_error Cons.prems(3) by fastforce
    then show ?thesis using Cons.prems 0 by (simp add: in_window_def)
  next
    case (Suc j)
    then obtain e where "doRender cs edits vr stripe (n + 1) rs = Inl e"
      using Cons.IH [of j "n + 1"] Cons.prems by (auto simp: algebra_simps)
    then show ?thesis by (auto simp: Let_def split: sum.split)
  qed
qed simp

section \<open>Properties\<close>

text \<open>C17: Every row in view is in the window. Whatever the scroll position, the height of the viewport
  and the measured height of a row, a row of which any part lies in the viewport is one the view draws;
  the window is never inverted, starts at a row and holds at most six rows more than fit.\<close>

theorem window_covers:
  assumes "0 < rowHeight w" "0 \<le> borderHeight w" "0 \<le> scrollTop w" "1 \<le> clientHeight w"
    and row: "i < count w"
    and seen: "of_nat i * row_height w < scrollTop w + clientHeight w"
      "scrollTop w < (of_nat i + 1) * row_height w"
  shows "fst (window w) \<le> int i \<and> int i \<le> snd (window w) \<and> 0 \<le> fst (window w) \<and>
     snd (window w) - fst (window w) < \<lceil>clientHeight w / row_height w\<rceil> + 5"
proof -
  let ?rh = "row_height w" and ?sc = "scrollTop w" and ?ch = "clientHeight w"
  have rh: "0 < ?rh" using row_height_pos assms(1,2) .
  define s n where "s = \<lfloor>?sc / ?rh\<rfloor>" and "n = \<lceil>?ch / ?rh\<rceil>"
  define start where "start = (if ?sc = 0 then 0 else s - 1)"
  have win: "window w = (let stop = int (count w) - 1; first = max (min start stop) 0
      in (first, max (min (start + n + 4) stop) first))"
    using assms(4) by (simp add: window_eq s_def n_def start_def)
  have "?sc / ?rh < of_nat i + 1" using seen(2) rh by (simp add: pos_divide_less_eq)
  then have "?sc / ?rh < of_int (int i + 1)" by simp
  then have "s < int i + 1" unfolding s_def by (simp only: floor_less_iff)
  moreover have "0 \<le> s" using assms(3) rh by (simp add: s_def)
  moreover have "?sc = 0 \<Longrightarrow> s = 0" by (simp add: s_def)
  ultimately have lo: "start \<le> int i" "s \<le> start + 1" "- 1 \<le> start" by (auto simp: start_def)
  have "of_nat i < ?sc / ?rh + ?ch / ?rh"
    using seen(1) rh by (simp add: pos_less_divide_eq flip: add_divide_distrib)
  also have "\<dots> < of_int (s + 1) + of_int n"
    unfolding s_def n_def by (intro add_less_le_mono) (linarith, simp)
  finally have "(of_int (int i) :: rat) < of_int (s + 1 + n)" by simp
  then have hi: "int i < s + 1 + n" by (simp only: of_int_less_iff)
  have "0 \<le> ?ch / ?rh" using assms(4) rh by simp
  then have "0 \<le> n" unfolding n_def by linarith
  then show ?thesis using lo hi row unfolding win n_def [symmetric] by (simp add: Let_def)
qed

theorem window_covers_witness:
  "let w = \<lparr>rowHeight = 26, borderHeight = 2, isBorderBox = True, measuredRowHeight = 0, scrollTop = 280,
      clientHeight = 100, rects = [], count = 50, body = [], cacheSize = 20, scrollDelay = False,
      updateQueued = False, cleanQueued = False\<rparr>
   in fst (window w) \<le> 12 \<and> 12 \<le> snd (window w)"
  using window_covers [of "\<lparr>rowHeight = 26, borderHeight = 2, isBorderBox = True, measuredRowHeight = 0,
      scrollTop = 280, clientHeight = 100, rects = [], count = 50, body = [], cacheSize = 20,
      scrollDelay = False, updateQueued = False, cleanQueued = False\<rparr>" 12]
  by (simp add: row_height_def getCalculatedRowHeight_def Let_def)

text \<open>Scrolling draws what comes into view and cleaning keeps it. After an update every row of the
  window holds its record and no other row has changed; the clean-up that follows empties the rows
  further than the cache from the window, and none within it.\<close>

theorem update_then_clean:
  assumes draw: "\<And>j. draw j \<noteq> []" and h: "1 \<le> clientHeight w" "0 < rowHeight w" "0 \<le> borderHeight w"
    and cache: "0 \<le> cacheSize w" and sync: "length (body w) = count w" and j: "j < count w"
  shows "body (doUpdate draw w) ! j =
       (if fst (window w) \<le> int j \<and> int j \<le> snd (window w) \<and> body w ! j = [] then draw j else body w ! j) \<and>
     body (doClean w) ! j =
       (if int j < fst (window w) - cacheSize w \<or> snd (window w) + cacheSize w < int j then [] else body w ! j)"
proof
  have rh: "0 < row_height w" using row_height_pos h(2,3) .
  have n: "fst (getVisibleRowCount w) > 0" using h(1) rh by (simp add: visible_count)
  then have c: "getVisibleRowCount w = (fst (getVisibleRowCount w), measured w)" by (simp add: visible_count)
  have vr: "getVisibleRows (measured w) = (window w, measured (measured w))" by (simp add: visible_rows)
  obtain lo hi where lh: "window w = (lo, hi)" by (cases "window w")
  have b: "0 \<le> lo" "lo \<le> hi" using window_bounds [of w] by (simp_all add: lh)
  have "body (doUpdate draw w) = body (fold (draw_row draw) [lo..hi] (measured (measured w)))"
    unfolding doUpdate_def using n by (subst c) (simp add: vr lh clean_def)
  then show "body (doUpdate draw w) ! j =
       (if fst (window w) \<le> int j \<and> int j \<le> snd (window w) \<and> body w ! j = [] then draw j else body w ! j)"
    using fold_draw_row [of "[lo..hi]" draw "measured (measured w)"] draw b j sync by (simp add: lh)
  let ?lo = "lo - cacheSize w" and ?hi = "hi + cacheSize w"
  let ?i = "if ?lo \<le> 0 then ?hi + 1 else 0"
  let ?is = "[?i..min (int (count w)) (int (length (body w))) - 1]"
  have "body (doClean w) = body (fold (clean_row ?lo ?hi) ?is (measured (measured w)))"
    unfolding doClean_def using n by (subst c) (simp add: vr lh Let_def)
  then show "body (doClean w) ! j =
       (if int j < fst (window w) - cacheSize w \<or> snd (window w) + cacheSize w < int j then [] else body w ! j)"
    using fold_clean_row [of ?is ?lo ?hi "measured (measured w)"] b cache j sync by (auto simp: lh)
qed

definition scrolled_view :: view where
  "scrolled_view = \<lparr>rowHeight = 26, borderHeight = 2, isBorderBox = True, measuredRowHeight = 0,
     scrollTop = 0, clientHeight = 56, rects = [], count = 3, body = [[], [], ''x''], cacheSize = 20,
     scrollDelay = False, updateQueued = False, cleanQueued = False\<rparr>"

theorem update_then_clean_witness:
  "body (doUpdate (\<lambda>_. ''row'') scrolled_view) ! 1 = ''row'' \<and> body (doClean scrolled_view) ! 2 = ''x''"
proof -
  have w: "window scrolled_view = (0, 2)" by (simp add: window_eq Let_def scrolled_view_def row_height_def getCalculatedRowHeight_def)
  show ?thesis
    using update_then_clean [of "\<lambda>_. ''row''" scrolled_view 1] update_then_clean [of "\<lambda>_. ''row''" scrolled_view 2] w
    by (simp add: scrolled_view_def)
qed

text \<open>A row is drawn column by column, each with its own style, and one exception blanks them all.
  Drawing some rows succeeds exactly when no renderer throws on a row of the window; it then gives one
  piece of HTML for each row, a place holder outside the window and inside it a cell for each column
  with that column's style and what its renderer drew.\<close>

theorem doRender_rows:
  "(\<exists>hs. doRender cs edits vr stripe n rs = Inr hs) =
     (\<forall>k < length rs. in_window vr (n + int k) \<longrightarrow> draws_all cs (rs ! k)) \<and>
   (\<forall>hs. doRender cs edits vr stripe n rs = Inr hs \<longrightarrow> length hs = length rs \<and>
     (\<forall>k < length rs. row_of cs (in_window vr (n + int k)) (rs ! k) (hs ! k)))"
proof (cases "\<forall>k < length rs. in_window vr (n + int k) \<longrightarrow> draws_all cs (rs ! k)")
  case True
  then show ?thesis using doRender_ok [of rs vr n cs edits stripe] by auto
next
  case False
  then obtain e where "doRender cs edits vr stripe n rs = Inl e" using doRender_error by blast
  then show ?thesis using False by auto
qed

theorem doRender_rows_witness:
  "\<exists>hs. doRender [(''name'', Str ''w'', \<lambda>r :: nat. Inr (num 1)), (''bad'', Str ''v'', \<lambda>r. if r = 7 then Inl TypeError else Inr Null)]
     (\<lambda>_. []) (0, 0) True 0 [3, 7] = Inr hs \<and> length hs = 2"
proof -
  let ?cs = "[(''name'', Str ''w'', \<lambda>r :: nat. Inr (num 1)), (''bad'', Str ''v'', \<lambda>r. if r = 7 then Inl TypeError else Inr Null)]"
  have "\<exists>hs. doRender ?cs (\<lambda>_. []) (0, 0) True 0 [3, 7] = Inr hs"
    using doRender_rows [of ?cs "\<lambda>_. []" "(0, 0)" True 0 "[3, 7]"]
    by (auto simp: in_window_def draws_all_def less_Suc_eq numeral_2_eq_2)
  then show ?thesis using doRender_rows [of ?cs "\<lambda>_. []" "(0, 0)" True 0 "[3, 7]"] by fastforce
qed

end
