(* ===== verification/CreateTorrent.thy ===== *)
theory CreateTorrent
  imports Formatters
begin

text \<open>
  \<open>deluge-all/CreateTorrentWindow.js\<close>: browsing the daemon's disk, the options of a torrent to be made, and the
  job that makes it, which the window starts and then asks about every half second until it is done.  The
  fields and the layout of the window are not modelled; a form is the record of what its fields hold.
\<close>

section \<open>Options\<close>

record create_form =
  cf_trackers :: string
  cf_webseeds :: string
  cf_comment :: string
  cf_piece_length :: jsval
  cf_torrent_format :: jsval
  cf_private :: bool
  cf_add_to_session :: bool
  cf_target :: string
  cf_download :: bool

text \<open>What the fields hold before anything is entered, and the sizes of a piece there are to choose from.\<close>

definition create_form_new :: create_form where
  "create_form_new =
     \<lparr>cf_trackers = [], cf_webseeds = [], cf_comment = [], cf_piece_length = Num (Fin 0), cf_torrent_format = Str ''v1'',
      cf_private = False, cf_add_to_session = True, cf_target = [], cf_download = True\<rparr>"

definition PIECE_SIZES :: "(nat \<times> string) list" where
  "PIECE_SIZES =
     [(0, ''Auto''), (16384, ''16 KiB''), (32768, ''32 KiB''), (65536, ''64 KiB''), (131072, ''128 KiB''), (262144, ''256 KiB''),
      (524288, ''512 KiB''), (1048576, ''1 MiB''), (2097152, ''2 MiB''), (4194304, ''4 MiB''), (8388608, ''8 MiB''), (16777216, ''16 MiB'')]"

record create_options =
  co_path :: string
  co_trackers :: "string list"
  co_webseeds :: "string list"
  co_comment :: string
  co_piece_length :: int
  co_torrent_format :: jsval
  co_private :: bool
  co_add_to_session :: bool
  co_target :: string

definition lines_of :: "string \<Rightarrow> string list" where
  "lines_of text = (if text = [] then [] else filter (\<lambda>line. 0 < length line) (map trim (split_on (CHR 0x0A) text)))"

text \<open>\<open>parseInt(v, 10) || 0\<close>.\<close>

definition int_or_0 :: "jsval \<Rightarrow> int" where
  "int_or_0 v =
     (let s = dropWhile is_space (js_string v);
          digits = (\<lambda>t. digits_val 10 (takeWhile is_digit t))
      in if s \<noteq> [] \<and> hd s = CHR ''-'' then - digits (tl s)
         else if s \<noteq> [] \<and> hd s = CHR ''+'' then digits (tl s)
         else digits s)"

definition create_options_of :: "string \<Rightarrow> create_form \<Rightarrow> create_options" where
  "create_options_of path f =
     \<lparr>co_path = path, co_trackers = lines_of (cf_trackers f), co_webseeds = lines_of (cf_webseeds f), co_comment = cf_comment f,
      co_piece_length = int_or_0 (cf_piece_length f), co_torrent_format = js_or (cf_torrent_format f) (Str ''v1''),
      co_private = cf_private f, co_add_to_session = cf_add_to_session f, co_target = trim (cf_target f)\<rparr>"

section \<open>The window\<close>

record disk_entry =
  de_path :: string
  de_kind :: string
  de_name :: string
  de_size :: jsval

record listing =
  li_path :: string
  li_parent :: "string option"
  li_entries :: "disk_entry list"

record job_status =
  js_state :: string
  js_progress :: jsnum
  js_piece :: jsval
  js_pieces :: jsval
  js_error :: jsval
  js_name :: jsval
  js_size :: jsval
  js_written_to :: jsval
  js_torrent_id :: jsval

text \<open>What the progress bar says; the percentage, the piece and the pieces of a job that runs.\<close>

datatype bar_text = BarReady | BarStarting | BarHashing jsnum jsval jsval | BarFailed | BarDone string

text \<open>The requests that are out, with what their functions remember, and what they are answered;
  \<open>list_directory\<close> with the path \<open>browse\<close> was called with and the one that was asked for.\<close>

datatype cw_ask = AskDir string string | AskSize string | AskCreate create_options | AskJob string | AskLocation

datatype cw_reply = Listed listing | Sized jsval | Started string | Status job_status | Located jsval | Refused jsval

text \<open>\<open>cw_timer\<close> is \<open>this.timer\<close>, \<open>cw_running\<close> the timers the browser has; \<open>cw_boxes\<close>: the messages shown;
  \<open>cw_sent\<close>: the jobs whose file the browser was pointed at.\<close>

record create_window =
  cw_visible :: bool
  cw_here :: string
  cw_parentPath :: "string option"
  cw_entries :: "disk_entry list"
  cw_selected :: "string option"
  cw_chosen :: string
  cw_job :: "string option"
  cw_bar :: "jsnum \<times> bar_text"
  cw_createOn :: bool
  cw_downloadOn :: bool
  cw_wantsDownload :: bool
  cw_timer :: "nat option"
  cw_running :: "nat list"
  cw_next :: nat
  cw_asks :: "cw_ask list"
  cw_boxes :: "string list"
  cw_sent :: "string list"

definition create_window_new :: create_window where
  "create_window_new =
     \<lparr>cw_visible = False, cw_here = [], cw_parentPath = None, cw_entries = [], cw_selected = None, cw_chosen = ''Nothing chosen yet'',
      cw_job = None, cw_bar = (Fin 0, BarReady), cw_createOn = True, cw_downloadOn = False, cw_wantsDownload = False,
      cw_timer = None, cw_running = [], cw_next = 0, cw_asks = [], cw_boxes = [], cw_sent = []\<rparr>"

definition send_ask :: "cw_ask \<Rightarrow> create_window \<Rightarrow> create_window" where
  "send_ask a w = w\<lparr>cw_asks := cw_asks w @ [a]\<rparr>"

definition show_box :: "string \<Rightarrow> create_window \<Rightarrow> create_window" where
  "show_box msg w = w\<lparr>cw_boxes := cw_boxes w @ [msg]\<rparr>"

subsection \<open>The disk\<close>

definition cw_browse :: "string \<Rightarrow> create_window \<Rightarrow> create_window" where
  "cw_browse path w = send_ask (AskDir path (if path = [] then ''/'' else path)) w"

definition cw_listed :: "listing \<Rightarrow> create_window \<Rightarrow> create_window" where
  "cw_listed l w = w\<lparr>cw_here := li_path l, cw_parentPath := li_parent l, cw_entries := li_entries l\<rparr>"

definition cw_onUp :: "create_window \<Rightarrow> create_window" where
  "cw_onUp w = (case cw_parentPath w of None \<Rightarrow> w | Some p \<Rightarrow> if p = [] then w else cw_browse p w)"

definition cw_choose :: "disk_entry \<Rightarrow> create_window \<Rightarrow> create_window" where
  "cw_choose r w =
     send_ask (AskSize (de_path r))
       (w\<lparr>cw_selected := Some (de_path r), cw_chosen := string_format ''Chosen: {0}'' [htmlEncode (Str (de_path r))]\<rparr>)"

definition cw_sized :: "string \<Rightarrow> jsval \<Rightarrow> create_window \<Rightarrow> create_window" where
  "cw_sized path sz w =
     (if cw_selected w \<noteq> Some path then w
      else if sz = Null \<or> js_less sz (Num (Fin 0)) then w
      else w\<lparr>cw_chosen := string_format ''Chosen: {0} ({1})'' [htmlEncode (Str path), Str (fsize sz False)]\<rparr>)"

definition cw_onRowClick :: "nat \<Rightarrow> create_window \<Rightarrow> create_window" where
  "cw_onRowClick i w = (if i < length (cw_entries w) then cw_choose (cw_entries w ! i) w else w)"

definition cw_onRowDoubleClick :: "nat \<Rightarrow> create_window \<Rightarrow> create_window" where
  "cw_onRowDoubleClick i w =
     (let r = cw_entries w ! i
      in if de_kind r = ''dir'' then cw_choose r (cw_browse (de_path r) w) else w)"

subsection \<open>The build\<close>

definition stopPolling :: "create_window \<Rightarrow> create_window" where
  "stopPolling w =
     (case cw_timer w of None \<Rightarrow> w | Some i \<Rightarrow> w\<lparr>cw_running := removeAll i (cw_running w), cw_timer := None\<rparr>)"

definition cw_poll :: "create_window \<Rightarrow> create_window" where
  "cw_poll w =
     (let w = stopPolling w
      in w\<lparr>cw_timer := Some (cw_next w), cw_running := cw_running w @ [cw_next w], cw_next := Suc (cw_next w)\<rparr>)"

definition cw_askJob :: "create_window \<Rightarrow> create_window" where
  "cw_askJob w = (case cw_job w of None \<Rightarrow> w | Some j \<Rightarrow> if j = [] then w else send_ask (AskJob j) w)"

definition cw_download :: "create_window \<Rightarrow> create_window" where
  "cw_download w = (case cw_job w of None \<Rightarrow> w | Some j \<Rightarrow> if j = [] then w else w\<lparr>cw_sent := cw_sent w @ [j]\<rparr>)"

definition done_text :: "job_status option \<Rightarrow> string" where
  "done_text status =
     (case status of
        None \<Rightarrow> string_format ''Created {0}'' [Str []]
      | Some s \<Rightarrow>
          join [CHR 0x20, CHR 0xB7, CHR 0x20]
            ([string_format ''Created {0}'' [js_or (js_name s) (Str [])]] @
             (if truthy (js_size s) then [fsize (js_size s) False] else []) @
             (if truthy (js_written_to s) then [''saved''] else []) @
             (if truthy (js_torrent_id s) then [''seeding''] else [])))"

definition cw_finish :: "bool \<Rightarrow> jsval \<Rightarrow> job_status option \<Rightarrow> create_window \<Rightarrow> create_window" where
  "cw_finish worked error status w =
     (let w = (stopPolling w)\<lparr>cw_createOn := True\<rparr>
      in if \<not> worked then
           show_box (js_string (htmlEncode (js_or error (Str ''The torrent could not be created.''))))
             (w\<lparr>cw_bar := (Fin 0, BarFailed)\<rparr>)
         else
           let w = w\<lparr>cw_bar := (Fin 1, BarDone (done_text status))\<rparr>;
               w = (case status of
                      None \<Rightarrow> w
                    | Some s \<Rightarrow>
                        if truthy (js_written_to s)
                        then w\<lparr>cw_chosen := string_format ''Written to {0}'' [htmlEncode (js_written_to s)]\<rparr> else w);
               w = w\<lparr>cw_downloadOn := True\<rparr>
           in if cw_wantsDownload w then cw_download w else w)"

definition cw_onCreate :: "create_form \<Rightarrow> create_window \<Rightarrow> create_window" where
  "cw_onCreate f w =
     (case cw_selected w of
        None \<Rightarrow> show_box ''Choose a file or a folder on the Content tab first.'' w
      | Some path \<Rightarrow>
          if path = [] then show_box ''Choose a file or a folder on the Content tab first.'' w
          else send_ask (AskCreate (create_options_of path f))
            (w\<lparr>cw_wantsDownload := cf_download f, cw_createOn := False, cw_downloadOn := False, cw_bar := (Fin 0, BarStarting)\<rparr>))"

definition cw_status :: "job_status \<Rightarrow> create_window \<Rightarrow> create_window" where
  "cw_status s w =
     (if js_state s = ''running''
      then cw_poll (w\<lparr>cw_bar := (js_progress s, BarHashing (math_round (num_scale 100 (js_progress s))) (js_piece s) (js_pieces s))\<rparr>)
      else cw_finish (js_state s = ''done'') (js_error s) (Some s) w)"

definition cw_show :: "create_window \<Rightarrow> create_window" where
  "cw_show w =
     send_ask AskLocation
       (w\<lparr>cw_visible := True, cw_selected := None, cw_job := None, cw_chosen := ''Nothing chosen yet'', cw_bar := (Fin 0, BarReady),
          cw_downloadOn := False, cw_createOn := True\<rparr>)"

definition cw_hide :: "create_window \<Rightarrow> create_window" where
  "cw_hide w = (if cw_visible w then stopPolling (w\<lparr>cw_visible := False\<rparr>) else w)"

subsection \<open>Answers and events\<close>

text \<open>The function of a request that is given its answer.\<close>

fun cw_handle :: "cw_ask \<Rightarrow> cw_reply \<Rightarrow> create_window \<Rightarrow> create_window" where
  "cw_handle (AskDir path asked) (Listed l) w = cw_listed l w"
| "cw_handle (AskDir path asked) _ w = show_box (string_format ''Could not read {0}'' [htmlEncode (Str path)]) w"
| "cw_handle (AskSize path) (Sized sz) w = cw_sized path sz w"
| "cw_handle (AskSize path) _ w = w"
| "cw_handle (AskCreate opts) (Started job) w = cw_poll (w\<lparr>cw_job := Some job\<rparr>)"
| "cw_handle (AskCreate opts) (Refused error) w = cw_finish False error None w"
| "cw_handle (AskCreate opts) _ w = cw_finish False Undefined None w"
| "cw_handle (AskJob job) (Status s) w = cw_status s w"
| "cw_handle (AskJob job) _ w = cw_poll w"
| "cw_handle AskLocation (Located loc) w = cw_browse (js_string (js_or loc (Str ''/''))) w"
| "cw_handle AskLocation _ w = cw_browse ''/'' w"

definition cw_answer :: "nat \<Rightarrow> cw_reply \<Rightarrow> create_window \<Rightarrow> create_window" where
  "cw_answer i r w = cw_handle (cw_asks w ! i) r (w\<lparr>cw_asks := take i (cw_asks w) @ drop (Suc i) (cw_asks w)\<rparr>)"

definition cw_fire :: "nat \<Rightarrow> create_window \<Rightarrow> create_window" where
  "cw_fire i w = cw_askJob (w\<lparr>cw_running := removeAll i (cw_running w)\<rparr>)"

datatype cw_event =
    CwShow
  | CwHide
  | CwBrowse string
  | CwUp
  | CwClick nat
  | CwDouble nat
  | CwCreate create_form
  | CwDownload
  | CwTimer nat
  | CwReply nat cw_reply

fun cw_event_step :: "cw_event \<Rightarrow> create_window \<Rightarrow> create_window" where
  "cw_event_step CwShow w = cw_show w"
| "cw_event_step CwHide w = cw_hide w"
| "cw_event_step (CwBrowse path) w = cw_browse path w"
| "cw_event_step CwUp w = cw_onUp w"
| "cw_event_step (CwClick i) w = cw_onRowClick i w"
| "cw_event_step (CwDouble i) w = cw_onRowDoubleClick i w"
| "cw_event_step (CwCreate f) w = cw_onCreate f w"
| "cw_event_step CwDownload w = cw_download w"
| "cw_event_step (CwTimer i) w = cw_fire i w"
| "cw_event_step (CwReply i r) w = cw_answer i r w"

text \<open>A request is refused or answered with what it asks for; a job has a name.\<close>

fun answers_ask :: "cw_ask \<Rightarrow> cw_reply \<Rightarrow> bool" where
  "answers_ask _ (Refused _) \<longleftrightarrow> True"
| "answers_ask (AskDir _ _) r \<longleftrightarrow> (\<exists>l. r = Listed l)"
| "answers_ask (AskSize _) r \<longleftrightarrow> (\<exists>v. r = Sized v)"
| "answers_ask (AskCreate _) r \<longleftrightarrow> (\<exists>j. r = Started j \<and> j \<noteq> [])"
| "answers_ask (AskJob _) r \<longleftrightarrow> (\<exists>s. r = Status s)"
| "answers_ask AskLocation r \<longleftrightarrow> (\<exists>v. r = Located v)"

fun cw_possible :: "create_window \<Rightarrow> cw_event \<Rightarrow> bool" where
  "cw_possible w CwShow \<longleftrightarrow> True"
| "cw_possible w (CwCreate f) \<longleftrightarrow> cw_visible w \<and> cw_createOn w"
| "cw_possible w CwDownload \<longleftrightarrow> cw_visible w \<and> cw_downloadOn w"
| "cw_possible w (CwDouble i) \<longleftrightarrow> cw_visible w \<and> i < length (cw_entries w)"
| "cw_possible w (CwTimer i) \<longleftrightarrow> i \<in> set (cw_running w)"
| "cw_possible w (CwReply i r) \<longleftrightarrow> i < length (cw_asks w) \<and> answers_ask (cw_asks w ! i) r"
| "cw_possible w e \<longleftrightarrow> cw_visible w"

text \<open>A window that is neither hidden nor shown again.\<close>

inductive stays_open :: "create_window \<Rightarrow> create_window \<Rightarrow> bool" where
  now: "stays_open w w"
| later: "stays_open w w' \<Longrightarrow> cw_possible w' e \<Longrightarrow> e \<noteq> CwShow \<Longrightarrow> e \<noteq> CwHide \<Longrightarrow> stays_open w (cw_event_step e w')"

section \<open>Following a build\<close>

fun is_build :: "cw_ask \<Rightarrow> bool" where
  "is_build (AskCreate _) \<longleftrightarrow> True"
| "is_build (AskJob _) \<longleftrightarrow> True"
| "is_build _ \<longleftrightarrow> False"

text \<open>What is on its way for the build: requests to start it or about it, and timers.\<close>

definition busy :: "create_window \<Rightarrow> nat" where
  "busy w = length (filter is_build (cw_asks w)) + length (cw_running w)"

definition has_job :: "create_window \<Rightarrow> bool" where
  "has_job w \<longleftrightarrow> cw_job w \<noteq> None \<and> cw_job w \<noteq> Some []"

definition follows :: "create_window \<Rightarrow> bool" where
  "follows w \<longleftrightarrow>
     busy w = (if cw_createOn w then 0 else 1) \<and> (\<forall>i \<in> set (cw_running w). cw_timer w = Some i) \<and>
     (cw_running w \<noteq> [] \<longrightarrow> has_job w) \<and> (\<forall>j. AskJob j \<in> set (cw_asks w) \<longrightarrow> has_job w)"

lemma send_ask_simps [simp]:
  "cw_asks (send_ask a w) = cw_asks w @ [a]" "cw_running (send_ask a w) = cw_running w" "cw_timer (send_ask a w) = cw_timer w"
  "cw_createOn (send_ask a w) = cw_createOn w" "cw_job (send_ask a w) = cw_job w" "cw_boxes (send_ask a w) = cw_boxes w"
  "cw_bar (send_ask a w) = cw_bar w" "cw_next (send_ask a w) = cw_next w" "cw_visible (send_ask a w) = cw_visible w"
  by (simp_all add: send_ask_def)

lemma show_box_simps [simp]:
  "cw_asks (show_box a w) = cw_asks w" "cw_running (show_box a w) = cw_running w" "cw_timer (show_box a w) = cw_timer w"
  "cw_createOn (show_box a w) = cw_createOn w" "cw_job (show_box a w) = cw_job w"
  by (simp_all add: show_box_def)

lemma stop_simps [simp]:
  "cw_asks (stopPolling w) = cw_asks w" "cw_createOn (stopPolling w) = cw_createOn w" "cw_job (stopPolling w) = cw_job w"
  "cw_next (stopPolling w) = cw_next w" "cw_boxes (stopPolling w) = cw_boxes w" "cw_bar (stopPolling w) = cw_bar w"
  "cw_visible (stopPolling w) = cw_visible w" "cw_timer (stopPolling w) = None" "cw_wantsDownload (stopPolling w) = cw_wantsDownload w"
  "cw_sent (stopPolling w) = cw_sent w"
  by (simp_all add: stopPolling_def split: option.split)

lemma stop_running: "\<forall>i \<in> set (cw_running w). cw_timer w = Some i \<Longrightarrow> cw_running (stopPolling w) = []"
  by (cases "cw_timer w") (auto simp: stopPolling_def filter_empty_conv removeAll_filter_not_eq intro: list.set_cases)

lemma poll_simps [simp]:
  "cw_asks (cw_poll w) = cw_asks w" "cw_createOn (cw_poll w) = cw_createOn w" "cw_job (cw_poll w) = cw_job w"
  "cw_boxes (cw_poll w) = cw_boxes w" "cw_bar (cw_poll w) = cw_bar w" "cw_visible (cw_poll w) = cw_visible w"
  "cw_timer (cw_poll w) = Some (cw_next w)" "cw_running (cw_poll w) = cw_running (stopPolling w) @ [cw_next w]"
  by (simp_all add: cw_poll_def Let_def)

lemma finish_build:
  "cw_createOn (cw_finish ok e st w)" "cw_asks (cw_finish ok e st w) = cw_asks w"
  "cw_running (cw_finish ok e st w) = cw_running (stopPolling w)" "cw_job (cw_finish ok e st w) = cw_job w"
  by (simp_all add: cw_finish_def Let_def show_box_def cw_download_def split: option.split)

text \<open>What neither starts nor ends anything for the build.\<close>

definition build_calm :: "create_window \<Rightarrow> create_window \<Rightarrow> bool" where
  "build_calm w w' \<longleftrightarrow>
     filter is_build (cw_asks w') = filter is_build (cw_asks w) \<and> cw_running w' = cw_running w \<and> cw_timer w' = cw_timer w \<and>
     cw_createOn w' = cw_createOn w \<and> cw_job w' = cw_job w"

lemma build_calm_follows:
  assumes "build_calm w w'" "follows w"
  shows "follows w'"
proof -
  have "AskJob j \<in> set (cw_asks w)" if "AskJob j \<in> set (cw_asks w')" for j
  proof -
    have "AskJob j \<in> set (filter is_build (cw_asks w'))" using that by simp
    also have "filter is_build (cw_asks w') = filter is_build (cw_asks w)" using assms(1) by (simp add: build_calm_def)
    finally show ?thesis by simp
  qed
  moreover have "busy w' = busy w" "has_job w' = has_job w" using assms(1) by (simp_all add: build_calm_def busy_def has_job_def)
  ultimately show ?thesis using assms by (auto simp: follows_def build_calm_def)
qed

lemma build_calm_events:
  "build_calm w (cw_browse p w)" "build_calm w (cw_onUp w)" "build_calm w (cw_choose r w)" "build_calm w (cw_onRowClick i w)"
  "build_calm w (cw_onRowDoubleClick i w)" "build_calm w (cw_download w)" "build_calm w (cw_listed l w)" "build_calm w (cw_sized p sz w)" "build_calm w (show_box m w)"
proof -
  show b: "build_calm w (cw_browse p w)" for p w by (simp add: build_calm_def cw_browse_def)
  show "build_calm w (cw_onUp w)" using b by (auto simp: cw_onUp_def build_calm_def split: option.split)
  show c: "build_calm w (cw_choose r w)" for r w by (simp add: build_calm_def cw_choose_def)
  show "build_calm w (cw_onRowClick i w)" using c by (auto simp: cw_onRowClick_def build_calm_def)
  show "build_calm w (cw_onRowDoubleClick i w)" using b c by (auto simp: cw_onRowDoubleClick_def Let_def build_calm_def)
  show "build_calm w (cw_download w)" by (simp add: build_calm_def cw_download_def split: option.split)
  show "build_calm w (cw_listed l w)" by (simp add: build_calm_def cw_listed_def)
  show "build_calm w (cw_sized p sz w)" by (simp add: build_calm_def cw_sized_def)
  show "build_calm w (show_box m w)" by (simp add: build_calm_def)
qed

text \<open>A request that is not of the build is answered.\<close>

definition ask_answered :: "nat \<Rightarrow> create_window \<Rightarrow> create_window" where
  "ask_answered i w = w\<lparr>cw_asks := take i (cw_asks w) @ drop (Suc i) (cw_asks w)\<rparr>"

lemma filter_at: "i < length xs \<Longrightarrow> filter P xs = filter P (take i xs) @ (if P (xs ! i) then [xs ! i] else []) @ filter P (drop (Suc i) xs)"
  by (subst id_take_nth_drop [of i xs]) simp_all

lemma ask_answered_calm: "i < length (cw_asks w) \<Longrightarrow> \<not> is_build (cw_asks w ! i) \<Longrightarrow> build_calm w (ask_answered i w)"
  using filter_at [of i "cw_asks w" is_build] by (simp add: build_calm_def ask_answered_def)

lemma build_calm_trans: "build_calm w w' \<Longrightarrow> build_calm w' w'' \<Longrightarrow> build_calm w w''"
  by (simp add: build_calm_def)

text \<open>When one of the build's requests is answered nothing else is on its way.\<close>

lemma ask_answered_idle:
  assumes "follows w" "i < length (cw_asks w)" "is_build (cw_asks w ! i)"
  shows "\<not> cw_createOn w" "cw_running w = []" "filter is_build (cw_asks (ask_answered i w)) = []"
proof -
  have "filter is_build (cw_asks w) = filter is_build (take i (cw_asks w)) @ [cw_asks w ! i] @ filter is_build (drop (Suc i) (cw_asks w))"
    using filter_at [OF assms(2), of is_build] assms(3) by simp
  moreover have "busy w = (if cw_createOn w then 0 else 1)" using assms(1) by (simp add: follows_def)
  ultimately show "\<not> cw_createOn w" "cw_running w = []" "filter is_build (cw_asks (ask_answered i w)) = []"
    by (auto simp: busy_def ask_answered_def split: if_splits)
qed

lemma no_build: "filter is_build as = [] \<Longrightarrow> AskJob j \<notin> set as"
  by (auto simp: filter_empty_conv)

lemma poll_follows:
  assumes "cw_running w = []" "filter is_build (cw_asks w) = []" "\<not> cw_createOn w" "has_job w"
  shows "follows (cw_poll w)"
proof -
  have "cw_running (stopPolling w) = []" by (rule stop_running) (simp add: assms(1))
  then show ?thesis using assms no_build by (auto simp: follows_def busy_def has_job_def)
qed

lemma finish_follows:
  assumes "cw_running w = []" "filter is_build (cw_asks w) = []"
  shows "follows (cw_finish ok e st w)"
proof -
  have "cw_running (stopPolling w) = []" by (rule stop_running) (simp add: assms(1))
  then show ?thesis using assms no_build by (auto simp: follows_def busy_def finish_build)
qed

lemma answer_follows:
  assumes "follows w" "i < length (cw_asks w)" "answers_ask (cw_asks w ! i) r"
  shows "follows (cw_answer i r w)"
proof -
  let ?w = "ask_answered i w"
  have e: "cw_answer i r w = cw_handle (cw_asks w ! i) r ?w" by (simp add: cw_answer_def ask_answered_def)
  have same: "cw_running ?w = cw_running w" "cw_createOn ?w = cw_createOn w" "cw_job ?w = cw_job w" by (simp_all add: ask_answered_def)
  show ?thesis
  proof (cases "is_build (cw_asks w ! i)")
    case True
    note idle = ask_answered_idle [OF assms(1,2) True]
    have poll: "follows (cw_poll (?w\<lparr>cw_bar := b\<rparr>))" "follows (cw_poll ?w)" if "has_job w" for b
      using that idle same by (auto intro!: poll_follows simp: has_job_def)
    have fin: "follows (cw_finish ok er st ?w)" for ok er st using idle same by (intro finish_follows) simp_all
    show ?thesis
    proof (cases "cw_asks w ! i")
      case (AskCreate opts)
      have "follows (cw_poll (?w\<lparr>cw_job := Some j\<rparr>))" if "j \<noteq> []" for j
        using that idle same by (intro poll_follows) (simp_all add: has_job_def)
      then show ?thesis using assms(3) fin unfolding e AskCreate by (cases r) auto
    next
      case (AskJob j)
      have "AskJob j \<in> set (cw_asks w)" using AskJob assms(2) by (metis nth_mem)
      then have "has_job w" using assms(1) by (auto simp: follows_def)
      from poll [OF this] show ?thesis using assms(3) fin unfolding e AskJob by (cases r) (auto simp: cw_status_def)
    qed (use True in simp_all)
  next
    case False
    have c: "build_calm w ?w" by (rule ask_answered_calm [OF assms(2) False])
    have "build_calm ?w (cw_handle (cw_asks w ! i) r ?w)"
      using False build_calm_events by (cases "cw_asks w ! i"; cases r) (simp_all add: build_calm_def)
    then show ?thesis unfolding e using build_calm_follows [OF build_calm_trans [OF c] assms(1)] by blast
  qed
qed

lemma fire_follows:
  assumes "follows w" "i \<in> set (cw_running w)"
  shows "follows (cw_fire i w)"
proof -
  have b: "busy w = (if cw_createOn w then 0 else 1)" using assms(1) by (simp add: follows_def)
  have "cw_running w \<noteq> []" using assms(2) by auto
  then have one: "length (cw_running w) = 1" "filter is_build (cw_asks w) = []" "\<not> cw_createOn w"
    using b by (cases "cw_running w"; auto simp: busy_def split: if_splits)+
  then have "cw_running w = [i]" using assms(2) by (auto simp: length_Suc_conv)
  moreover obtain j where "cw_job w = Some j" "j \<noteq> []" using assms by (auto simp: follows_def has_job_def)
  ultimately show ?thesis using one(2,3) no_build by (auto simp: cw_fire_def cw_askJob_def follows_def busy_def has_job_def)
qed

lemma create_follows:
  assumes "follows w" "cw_createOn w"
  shows "follows (cw_onCreate f w)"
proof -
  have "busy w = 0" using assms by (simp add: follows_def)
  then have "cw_running w = []" "filter is_build (cw_asks w) = []" by (simp_all add: busy_def)
  then have "follows (send_ask (AskCreate opts)
      (w\<lparr>cw_wantsDownload := d, cw_createOn := False, cw_downloadOn := False, cw_bar := b\<rparr>))" for opts d b
    using no_build by (auto simp: follows_def busy_def)
  moreover have "follows (show_box m w)" for m by (rule build_calm_follows [OF build_calm_events(9) assms(1)])
  ultimately show ?thesis by (simp add: cw_onCreate_def split: option.split)
qed

lemma follows_stays: "stays_open w w' \<Longrightarrow> follows w \<Longrightarrow> follows w'"
proof (induction rule: stays_open.induct)
  case (later w w' e)
  then have f: "follows w'" by simp
  show ?case
  proof (cases e)
    case (CwReply i r)
    then show ?thesis using answer_follows [OF f] later.hyps(2) by simp
  next
    case (CwTimer i)
    then show ?thesis using fire_follows [OF f] later.hyps(2) by simp
  next
    case (CwCreate g)
    then show ?thesis using create_follows [OF f] later.hyps(2) by simp
  qed (use build_calm_follows [OF _ f] build_calm_events later.hyps(3,4) in simp_all)
qed

text \<open>C26: As long as the window is neither hidden nor shown again, a build is followed and followed once: while the
  Create button is off there is exactly one of a request to start the build, a timer or a question about it
  on its way, and when it is on there is none, whatever is clicked and however the answers come.\<close>

lemma build_followed:
  assumes "stays_open w w'" "cw_createOn w" "busy w = 0"
  shows "busy w' = (if cw_createOn w' then 0 else 1)"
proof -
  have "cw_running w = []" "filter is_build (cw_asks w) = []" using assms(3) by (simp_all add: busy_def)
  then have "follows w" using assms(2,3) no_build by (auto simp: follows_def)
  then show ?thesis using follows_stays [OF assms(1)] by (simp add: follows_def)
qed

text \<open>A job the daemon no longer knows, as after it was restarted: every question about it is refused.\<close>

definition refused_round :: "jsval \<Rightarrow> create_window \<Rightarrow> create_window" where
  "refused_round error w = (let w = cw_fire (hd (cw_running w)) w in cw_answer (length (cw_asks w) - 1) (Refused error) w)"

definition waiting :: "create_window \<Rightarrow> bool" where
  "waiting w \<longleftrightarrow> (\<exists>i. cw_running w = [i] \<and> cw_timer w = Some i) \<and> has_job w \<and> \<not> cw_createOn w"

lemma refused_step:
  assumes "waiting w"
  shows "waiting (refused_round error w) \<and> cw_asks (refused_round error w) = cw_asks w \<and> cw_boxes (refused_round error w) = cw_boxes w \<and>
    cw_bar (refused_round error w) = cw_bar w"
proof -
  obtain i j where w: "cw_running w = [i]" "cw_timer w = Some i" "cw_job w = Some j" "j \<noteq> []" "\<not> cw_createOn w"
    using assms by (auto simp: waiting_def has_job_def)
  let ?w = "w\<lparr>cw_running := []\<rparr>"
  have "cw_fire (hd (cw_running w)) w = send_ask (AskJob j) ?w" using w by (simp add: cw_fire_def cw_askJob_def)
  then have "refused_round error w = cw_poll ((send_ask (AskJob j) ?w)\<lparr>cw_asks := cw_asks w\<rparr>)"
    by (simp add: refused_round_def cw_answer_def Let_def)
  moreover have "cw_running (stopPolling v) = []" if "cw_running v = []" for v by (rule stop_running) (simp add: that)
  ultimately show ?thesis using w by (simp add: waiting_def has_job_def)
qed

text \<open>When the daemon no longer knows the job, the window goes on asking for ever: however often it has been
  refused, it has said nothing, its bar is as it was and the Create button stays off.\<close>

lemma lost_job_asked_for_ever:
  assumes "waiting w"
  shows "let w' = (refused_round error ^^ n) w
    in \<not> cw_createOn w' \<and> length (cw_running w') = 1 \<and> cw_boxes w' = cw_boxes w \<and> cw_bar w' = cw_bar w \<and> cw_asks w' = cw_asks w"
proof -
  have "waiting ((refused_round error ^^ n) w) \<and> cw_asks ((refused_round error ^^ n) w) = cw_asks w \<and>
      cw_boxes ((refused_round error ^^ n) w) = cw_boxes w \<and> cw_bar ((refused_round error ^^ n) w) = cw_bar w"
    by (induction n) (use assms refused_step in auto)
  then show ?thesis by (auto simp: Let_def waiting_def)
qed

text \<open>An answer about a job that comes after the window was hidden sets the timer again, and when it fires the
  daemon is asked again, although nobody is watching.\<close>

lemma hidden_window_polls:
  assumes "cw_visible w" "follows w" "i < length (cw_asks w)" "cw_asks w ! i = AskJob j" "js_state s = ''running''"
  shows "\<exists>k job. let w' = cw_answer i (Status s) (cw_hide w)
    in \<not> cw_visible w' \<and> cw_running w' = [k] \<and> cw_job w = Some job \<and> AskJob job \<in> set (cw_asks (cw_fire k w'))"
proof -
  have "has_job w" using assms(2-4) by (auto simp: follows_def intro: nth_mem [of i "cw_asks w", unfolded assms(4)])
  then obtain job where job: "cw_job w = Some job" "job \<noteq> []" by (auto simp: has_job_def)
  let ?h = "stopPolling (w\<lparr>cw_visible := False\<rparr>)"
  have h: "cw_running ?h = []" by (rule stop_running) (use assms(2) in \<open>simp add: follows_def\<close>)
  let ?a = "ask_answered i ?h"
  let ?b = "?a\<lparr>cw_bar := (js_progress s, BarHashing (math_round (num_scale 100 (js_progress s))) (js_piece s) (js_pieces s))\<rparr>"
  have "cw_answer i (Status s) (cw_hide w) = cw_poll ?b"
    using assms(1,4,5) by (simp add: cw_hide_def cw_answer_def ask_answered_def cw_status_def)
  moreover have "cw_running (stopPolling ?b) = []" by (rule stop_running) (simp add: ask_answered_def h)
  moreover have "cw_visible ?b = False" "cw_job ?b = Some job" using job by (simp_all add: ask_answered_def)
  ultimately show ?thesis using job by (auto simp: Let_def cw_fire_def cw_askJob_def)
qed

text \<open>An answer is taken for one about the job of the window whichever job it is about.  When a build is left
  for another one, the news that the first is done ends the following of the second: Create is on again, no
  timer and no question is left, and the browser is sent to the file of the second, which is not made
  yet.  If the news comes before the second build has its name, Create is on while that build starts.\<close>

lemma stale_news_ends_next_build:
  fixes w r f opts j2 s
  defines "w3 \<equiv> cw_onCreate f (cw_choose r (cw_show (cw_hide w)))"
  assumes "cw_visible w" "cw_asks w = [AskJob j1]" "cw_running w = []" "de_path r \<noteq> []" "cf_download f" "j2 \<noteq> []" "js_state s = ''done''"
  shows "let w4 = cw_answer 3 (Started j2) w3; w5 = cw_answer 0 (Status s) w4; w6 = cw_answer 0 (Status s) w3
    in length (cw_running w4) = 1 \<and> cw_createOn w5 \<and> busy w5 = 0 \<and> cw_sent w5 = cw_sent w @ [j2] \<and>
       cw_bar w5 = (Fin 1, BarDone (done_text (Some s))) \<and> cw_createOn w6 \<and> busy w6 = 1"
proof -
  let ?h = "stopPolling (w\<lparr>cw_visible := False\<rparr>)"
  have h: "cw_running ?h = []" by (rule stop_running) (simp add: assms(4))
  define w0 where "w0 = w3\<lparr>cw_asks := []\<rparr>"
  have w3: "cw_asks w3 = [AskJob j1, AskLocation, AskSize (de_path r), AskCreate (create_options_of (de_path r) f)]"
    "cw_running w3 = []" "cw_timer w3 = None" "\<not> cw_createOn w3" "cw_wantsDownload w3" "cw_sent w3 = cw_sent w" "cw_job w3 = None"
    using assms(2-6) h by (simp_all add: w3_def cw_onCreate_def cw_choose_def cw_show_def cw_hide_def send_ask_def)
  define v where "v = cw_poll (w3\<lparr>cw_asks := [AskJob j1, AskLocation, AskSize (de_path r)], cw_job := Some j2\<rparr>)"
  have w4: "cw_answer 3 (Started j2) w3 = v" by (simp add: cw_answer_def w3(1) numeral_3_eq_3 v_def)
  have v: "cw_asks v = [AskJob j1, AskLocation, AskSize (de_path r)]" "cw_running v = [cw_next w3]" "cw_timer v = Some (cw_next w3)"
    "cw_job v = Some j2" "cw_wantsDownload v" "cw_sent v = cw_sent w"
    using w3 by (simp_all add: v_def cw_poll_def stopPolling_def)
  have w5: "cw_answer 0 (Status s) v = cw_finish True (js_error s) (Some s) (v\<lparr>cw_asks := [AskLocation, AskSize (de_path r)]\<rparr>)"
    using assms(8) by (simp add: cw_answer_def v(1) cw_status_def)
  have w6: "cw_answer 0 (Status s) w3 =
      cw_finish True (js_error s) (Some s) (w3\<lparr>cw_asks := [AskLocation, AskSize (de_path r), AskCreate (create_options_of (de_path r) f)]\<rparr>)"
    using assms(8) by (simp add: cw_answer_def w3(1) cw_status_def)
  have stop: "cw_running (stopPolling (v\<lparr>cw_asks := as\<rparr>)) = []" "cw_running (stopPolling (w3\<lparr>cw_asks := as\<rparr>)) = []" for as
    by (rule stop_running, simp add: v(2,3) w3(2))+
  have "cw_sent (cw_finish True e (Some s) (v\<lparr>cw_asks := as\<rparr>)) = cw_sent w @ [j2]"
    "cw_bar (cw_finish True e (Some s) (v\<lparr>cw_asks := as\<rparr>)) = (Fin 1, BarDone (done_text (Some s)))" for e as
    using v(4-6) assms(7) by (simp_all add: cw_finish_def cw_download_def Let_def)
  then show ?thesis using v(2) stop by (simp add: w4 w5 w6 Let_def busy_def finish_build)
qed

section \<open>Lines\<close>

lemma dropWhile_trim: "dropWhile is_space (trim s) = trim s"
proof (cases "trim s")
  case (Cons c t)
  let ?d = "dropWhile is_space s"
  have "?d = trim s @ rev (takeWhile is_space (rev ?d))"
    by (simp add: trim_def flip: rev_append)
  then have "?d \<noteq> []" "c = hd ?d" using Cons by (metis append_is_Nil_conv list.distinct(1), metis hd_append2 list.distinct(1) list.sel(1))
  then have "\<not> is_space c" using hd_dropWhile [of is_space s] by simp
  then show ?thesis using Cons by simp
qed simp

lemma trim_trim [simp]: "trim (trim s) = trim s"
proof -
  have "dropWhile is_space (rev (trim s)) = rev (trim s)" by (simp add: trim_def)
  then show ?thesis unfolding trim_def [of "trim s"] dropWhile_trim by simp
qed

lemma trim_subset: "set (trim s) \<subseteq> set s"
  unfolding trim_def by (auto dest!: set_dropWhileD)

lemma split_on_free: "t \<in> set (split_on p s) \<Longrightarrow> p \<notin> set t"
proof (induction s arbitrary: t)
  case (Cons c s)
  then show ?case by (cases "split_on p s") (auto split: if_splits)
qed simp

lemma split_on_plain: "p \<notin> set s \<Longrightarrow> split_on p s = [s]"
  by (induction s) auto

lemma split_on_append: "p \<notin> set s \<Longrightarrow> split_on p (s @ p # t) = s # split_on p t"
  by (induction s) (auto split: list.split)

lemma split_join:
  "ls \<noteq> [] \<Longrightarrow> \<forall>l \<in> set ls. p \<notin> set l \<Longrightarrow> split_on p (join [p] ls) = ls"
  by (induction ls rule: induct_list012) (simp_all add: split_on_plain split_on_append)

lemma line_facts:
  assumes "l \<in> set (lines_of text)"
  shows "l \<noteq> []" "trim l = l" "CHR 0x0A \<notin> set l"
proof -
  obtain t where t: "t \<in> set (split_on (CHR 0x0A) text)" "l = trim t" "l \<noteq> []"
    using assms by (auto simp: lines_of_def split: if_splits)
  show "l \<noteq> []" "trim l = l" using t by simp_all
  show "CHR 0x0A \<notin> set l" using split_on_free [OF t(1)] trim_subset [of t] t(2) by auto
qed

lemma lines_of_join:
  assumes "list_all (\<lambda>l. CHR 0x0A \<notin> set l) ls"
  shows "lines_of (join [CHR 0x0A] ls) = filter (\<lambda>l. l \<noteq> []) (map trim ls)"
proof (cases "ls = []")
  case False
  have s: "split_on (CHR 0x0A) (join [CHR 0x0A] ls) = ls"
    by (rule split_join [OF False]) (use assms in \<open>simp add: list_all_iff\<close>)
  show ?thesis
  proof (cases "join [CHR 0x0A] ls = []")
    case True
    then have "ls = [[]]" using s by simp
    then show ?thesis by (simp add: lines_of_def trim_def)
  qed (simp add: lines_of_def s)
qed (simp add: lines_of_def)

lemma lines_again: "lines_of (join [CHR 0x0A] (lines_of s)) = lines_of s"
proof -
  have "filter (\<lambda>l. l \<noteq> []) (map trim (lines_of s)) = lines_of s"
    using map_idI [of "lines_of s" trim] line_facts(1,2) [of _ s] by (simp add: filter_id_conv)
  then show ?thesis using lines_of_join [of "lines_of s"] line_facts(3) [of _ s] by (simp add: list_all_iff)
qed

text \<open>C27: What \<open>Create\<close> sends of the trackers and web seeds is what was typed.  With a file or folder
  chosen, \<open>Create\<close> asks for one build of it; whatever lines were typed into the two fields, the build has
  the lines that are not blank, all of them, in their order, without the spaces around them.  Those lists
  written into the fields again, one to a line, ask for the same build.\<close>

lemma lines_roundtrip:
  assumes "cw_selected w = Some path" "path \<noteq> []"
    and "cf_trackers f = join [CHR 0x0A] ts" "cf_webseeds f = join [CHR 0x0A] ss"
    and "list_all (\<lambda>l. CHR 0x0A \<notin> set l) (ts @ ss)"
  shows "\<exists>o1. cw_asks (cw_onCreate f w) = cw_asks w @ [AskCreate o1] \<and> co_path o1 = path \<and>
    co_trackers o1 = filter (\<lambda>l. l \<noteq> []) (map trim ts) \<and> co_webseeds o1 = filter (\<lambda>l. l \<noteq> []) (map trim ss) \<and>
    (let f' = f\<lparr>cf_trackers := join [CHR 0x0A] (co_trackers o1), cf_webseeds := join [CHR 0x0A] (co_webseeds o1)\<rparr>
     in cw_asks (cw_onCreate f' w) = cw_asks w @ [AskCreate o1])"
proof -
  let ?o = "create_options_of path f"
  have "list_all (\<lambda>l. CHR 0x0A \<notin> set l) ts" "list_all (\<lambda>l. CHR 0x0A \<notin> set l) ss" using assms(5) by simp_all
  then have l: "co_trackers ?o = filter (\<lambda>l. l \<noteq> []) (map trim ts)" "co_webseeds ?o = filter (\<lambda>l. l \<noteq> []) (map trim ss)"
    using lines_of_join assms(3,4) by (simp_all add: create_options_of_def)
  have sent: "cw_asks (cw_onCreate g w) = cw_asks w @ [AskCreate (create_options_of path g)]" for g
    using assms(1,2) by (simp add: cw_onCreate_def send_ask_def)
  let ?f = "f\<lparr>cf_trackers := join [CHR 0x0A] (co_trackers ?o), cf_webseeds := join [CHR 0x0A] (co_webseeds ?o)\<rparr>"
  have "create_options_of path ?f = ?o" by (simp add: create_options_of_def lines_again)
  then show ?thesis unfolding Let_def using l sent [of f] sent [of ?f]
    by (intro exI [of _ ?o]) (simp add: create_options_of_def)
qed

section \<open>Examples\<close>

text \<open>A window with a folder chosen, and its build started and asked about.\<close>

definition demo_pick :: disk_entry where
  "demo_pick = \<lparr>de_path = ''/srv/a'', de_kind = ''dir'', de_name = ''a'', de_size = Null\<rparr>"

definition demo_form :: create_form where
  "demo_form = create_form_new\<lparr>cf_trackers := ''udp://t''\<rparr>"

definition demo_open :: create_window where
  "demo_open = cw_choose demo_pick (cw_show create_window_new)"

definition demo_waiting :: create_window where
  "demo_waiting = cw_answer 2 (Started ''j1'') (cw_onCreate demo_form demo_open)"

definition demo_asked :: create_window where
  "demo_asked = (cw_fire 0 demo_waiting)\<lparr>cw_asks := [AskJob ''j1'']\<rparr>"

definition demo_running :: job_status where
  "demo_running = \<lparr>js_state = ''running'', js_progress = Fin (1/4), js_piece = Num (Fin 1), js_pieces = Num (Fin 4), js_error = Undefined,
     js_name = Str ''a'', js_size = Undefined, js_written_to = Undefined, js_torrent_id = Undefined\<rparr>"

lemma demo_create:
  "cw_createOn demo_open" "busy demo_open = 0" "cw_visible demo_open" "waiting demo_waiting" "busy demo_waiting = 1" "\<not> cw_createOn demo_waiting"
  "follows demo_asked" "cw_asks demo_asked = [AskJob ''j1'']" "cw_running demo_asked = []" "cw_visible demo_asked"
  "cw_boxes demo_waiting = []"
  by (simp_all add: demo_open_def demo_waiting_def demo_asked_def cw_choose_def cw_show_def create_window_new_def busy_def waiting_def
      has_job_def cw_answer_def cw_onCreate_def demo_pick_def cw_poll_def stopPolling_def send_ask_def cw_fire_def cw_askJob_def follows_def
      numeral_2_eq_2)

lemma build_followed_witness:
  "stays_open demo_open demo_waiting \<and> busy demo_waiting = (if cw_createOn demo_waiting then 0 else 1)"
proof -
  let ?e1 = "CwCreate demo_form" let ?e2 = "CwReply 2 (Started ''j1'')"
  have "stays_open demo_open (cw_event_step ?e1 demo_open)"
    by (rule stays_open.later [OF stays_open.now]) (simp_all add: demo_create)
  then have "stays_open demo_open (cw_event_step ?e2 (cw_event_step ?e1 demo_open))"
    by (rule stays_open.later) (simp_all add: cw_onCreate_def demo_open_def cw_choose_def cw_show_def create_window_new_def send_ask_def
        demo_pick_def numeral_2_eq_2)
  then have s: "stays_open demo_open demo_waiting" by (simp add: demo_waiting_def)
  then show ?thesis using build_followed [OF s] demo_create by simp
qed

lemma lines_roundtrip_witness:
  "\<exists>o1. cw_asks (cw_onCreate (demo_form\<lparr>cf_trackers := join [CHR 0x0A] [''  udp://t '', '''', ''http://u'']\<rparr>) demo_open) =
      cw_asks demo_open @ [AskCreate o1] \<and> co_trackers o1 = [''udp://t'', ''http://u'']"
proof -
  have t: "filter (\<lambda>l. l \<noteq> []) (map trim [''  udp://t '', '''', ''http://u'']) = [''udp://t'', ''http://u'']" by code_simp
  have "cw_selected demo_open = Some ''/srv/a''" "list_all (\<lambda>l. CHR 0x0A \<notin> set l) ([''  udp://t '', '''', ''http://u''] @ [])"
    by (simp_all add: demo_open_def cw_choose_def cw_show_def create_window_new_def demo_pick_def send_ask_def)
  then show ?thesis
    using lines_roundtrip [of demo_open "''/srv/a''" "demo_form\<lparr>cf_trackers := join [CHR 0x0A] [''  udp://t '', '''', ''http://u'']\<rparr>"
        "[''  udp://t '', '''', ''http://u'']" "[]"] t
    by (auto simp: demo_form_def create_form_new_def)
qed

lemma lost_job_asked_for_ever_witness:
  "let w' = (refused_round Undefined ^^ 7) demo_waiting in \<not> cw_createOn w' \<and> length (cw_running w') = 1 \<and> cw_boxes w' = []"
  using lost_job_asked_for_ever [where w = demo_waiting and error = Undefined and n = 7] demo_create by (simp add: Let_def)

lemma hidden_window_polls_witness:
  "\<exists>k job. let w' = cw_answer 0 (Status demo_running) (cw_hide demo_asked)
    in \<not> cw_visible w' \<and> cw_running w' = [k] \<and> cw_job demo_asked = Some job \<and> AskJob job \<in> set (cw_asks (cw_fire k w'))"
  by (rule hidden_window_polls [where j = "''j1''"]) (simp_all add: demo_create demo_running_def)

lemma stale_news_ends_next_build_witness:
  "let w3 = cw_onCreate demo_form (cw_choose demo_pick (cw_show (cw_hide demo_asked)));
       w5 = cw_answer 0 (Status (demo_running\<lparr>js_state := ''done''\<rparr>)) (cw_answer 3 (Started ''j2'') w3)
   in cw_createOn w5 \<and> busy w5 = 0 \<and> cw_sent w5 = cw_sent demo_asked @ [''j2'']"
  using stale_news_ends_next_build [of demo_asked "''j1''" demo_pick demo_form "''j2''" "demo_running\<lparr>js_state := ''done''\<rparr>"] demo_create
  by (simp add: Let_def demo_pick_def demo_form_def create_form_new_def)

end
