(* ===== verification/ExtStore.thy ===== *)
theory ExtStore
  imports ExtCore "HOL-Library.Multiset"
begin

text \<open>
  The part of \<open>Ext.util.MixedCollection\<close> and \<open>Ext.data.Store\<close> (\<open>ext-all-debug.js\<close>) that the
  grids and lists of the interface keep their records in.  A collection holds its items, their
  keys at the same positions and a map from keys to items; a store adds and removes records by
  their \<open>id\<close>.  What the rest of the development relies on is the locale \<open>record_store\<close>, which
  a collection of records interprets.  Stores of the interface are never filtered, so there is no
  \<open>snapshot\<close>; the dirty marks that \<open>commitChanges\<close> clears are not kept.
\<close>

section \<open>MixedCollection\<close>

record 'a mc =
  items :: "'a list"
  mkeys :: "string list"
  mmap :: "'a dict"

definition mc_empty :: "'a mc" where
  "mc_empty = \<lparr>items = [], mkeys = [], mmap = []\<rparr>"

text \<open>\<open>Array.indexOf\<close>; \<open>None\<close> is the \<open>-1\<close> of a missing element.\<close>

fun index_of :: "'a list \<Rightarrow> 'a \<Rightarrow> nat option" where
  "index_of [] x = None"
| "index_of (y # ys) x = (if y = x then Some 0 else map_option Suc (index_of ys x))"

text \<open>\<open>Array.splice(i, 1)\<close> and \<open>Array.splice(i, 0, x)\<close>.\<close>

definition drop_at :: "nat \<Rightarrow> 'a list \<Rightarrow> 'a list" where
  "drop_at i xs = take i xs @ drop (Suc i) xs"

definition put_at :: "nat \<Rightarrow> 'a \<Rightarrow> 'a list \<Rightarrow> 'a list" where
  "put_at i x xs = take i xs @ x # drop i xs"

definition mc_replace :: "string \<Rightarrow> 'a \<Rightarrow> 'a mc \<Rightarrow> 'a mc" where
  "mc_replace key obj c =
     (case index_of (mkeys c) key of
        None \<Rightarrow> c\<lparr>mmap := AList.update key obj (mmap c)\<rparr>
      | Some i \<Rightarrow> c\<lparr>items := (items c)[i := obj], mmap := AList.update key obj (mmap c)\<rparr>)"

definition mc_add :: "string \<Rightarrow> 'a \<Rightarrow> 'a mc \<Rightarrow> 'a mc" where
  "mc_add key obj c =
     (case map_of (mmap c) key of
        Some old \<Rightarrow> mc_replace key obj c
      | None \<Rightarrow> \<lparr>items = items c @ [obj], mkeys = mkeys c @ [key],
                 mmap = AList.update key obj (mmap c)\<rparr>)"

definition mc_removeAt :: "nat option \<Rightarrow> 'a mc \<Rightarrow> 'a mc" where
  "mc_removeAt index c =
     (case index of
        None \<Rightarrow> c
      | Some i \<Rightarrow>
          if i < length (items c)
          then \<lparr>items = drop_at i (items c), mkeys = drop_at i (mkeys c),
                mmap = AList.delete (mkeys c ! i) (mmap c)\<rparr>
          else c)"

definition mc_removeKey :: "string \<Rightarrow> 'a mc \<Rightarrow> 'a mc" where
  "mc_removeKey key c = mc_removeAt (index_of (mkeys c) key) c"

definition mc_remove :: "'a \<Rightarrow> 'a mc \<Rightarrow> 'a mc" where
  "mc_remove obj c = mc_removeAt (index_of (items c) obj) c"

definition mc_containsKey :: "string \<Rightarrow> 'a mc \<Rightarrow> bool" where
  "mc_containsKey key c = (map_of (mmap c) key \<noteq> None)"

definition mc_insert :: "nat \<Rightarrow> string \<Rightarrow> 'a \<Rightarrow> 'a mc \<Rightarrow> 'a mc" where
  "mc_insert index key obj c0 =
     (let c = (if mc_containsKey key c0 then mc_removeKey key c0 else c0)
      in if length (items c) \<le> index then mc_add key obj c
         else \<lparr>items = put_at index obj (items c), mkeys = put_at index key (mkeys c),
               mmap = AList.update key obj (mmap c)\<rparr>)"

definition mc_key :: "'a mc \<Rightarrow> string \<Rightarrow> 'a option" where
  "mc_key c key = map_of (mmap c) key"

definition mc_clear :: "'a mc \<Rightarrow> 'a mc" where
  "mc_clear c = mc_empty"

text \<open>The three views of a collection agree.\<close>

definition mc_wf :: "'a mc \<Rightarrow> bool" where
  "mc_wf c \<longleftrightarrow> length (mkeys c) = length (items c) \<and> distinct (mkeys c) \<and>
     map_of (mmap c) = map_of (zip (mkeys c) (items c))"

text \<open>The ordered dictionary a collection stands for.\<close>

definition mc_abs :: "'a mc \<Rightarrow> 'a dict" where
  "mc_abs c = zip (mkeys c) (items c)"

lemma index_of_None: "index_of xs x = None \<longleftrightarrow> x \<notin> set xs"
  by (induction xs) auto

lemma index_of_Some: "index_of xs x = Some i \<Longrightarrow> i < length xs \<and> xs ! i = x"
  by (induction xs arbitrary: i) (auto split: if_splits)

lemma index_of_nth: "distinct xs \<Longrightarrow> i < length xs \<Longrightarrow> index_of xs (xs ! i) = Some i"
  by (induction xs arbitrary: i) (auto simp: nth_Cons split: nat.split)

lemma zip_drop_at:
  "length xs = length ys \<Longrightarrow> zip (drop_at i xs) (drop_at i ys) = drop_at i (zip xs ys)"
  by (simp add: drop_at_def zip_append take_zip drop_zip)

lemma zip_put_at:
  "length xs = length ys \<Longrightarrow> zip (put_at i x xs) (put_at i y ys) = put_at i (x, y) (zip xs ys)"
  by (simp add: put_at_def zip_append take_zip drop_zip)

lemma length_drop_at: "i < length xs \<Longrightarrow> length (drop_at i xs) = length xs - 1"
  by (simp add: drop_at_def)

lemma length_put_at: "i \<le> length xs \<Longrightarrow> length (put_at i x xs) = Suc (length xs)"
  by (simp add: put_at_def)

lemma drop_at_filter:
  "distinct xs \<Longrightarrow> i < length xs \<Longrightarrow> drop_at i xs = filter (\<lambda>x. x \<noteq> xs ! i) xs"
proof -
  assume d: "distinct xs" "i < length xs"
  have xs: "xs = take i xs @ xs ! i # drop (Suc i) xs" using d(2) by (simp add: id_take_nth_drop)
  define u where "u = take i xs"
  define x where "x = xs ! i"
  define v where "v = drop (Suc i) xs"
  have "x \<notin> set u" "x \<notin> set v" using d(1) xs unfolding u_def x_def v_def
    by (metis distinct.simps(2) distinct_append disjoint_iff list.set_intros(1))+
  then have "filter (\<lambda>y. y \<noteq> x) u = u" "filter (\<lambda>y. y \<noteq> x) v = v"
    by (auto simp: filter_id_conv)
  then have "filter (\<lambda>y. y \<noteq> x) (u @ x # v) = u @ v" by simp
  then show ?thesis using xs by (simp add: drop_at_def u_def x_def v_def)
qed

lemma drop_at_keys:
  "distinct (map fst d) \<Longrightarrow> i < length d \<Longrightarrow> drop_at i d = AList.delete (fst (d ! i)) d"
proof -
  assume d: "distinct (map fst d)" "i < length d"
  have "distinct d" using d(1) by (simp add: distinct_map)
  then have "drop_at i d = filter (\<lambda>x. x \<noteq> d ! i) d" using d(2) by (rule drop_at_filter)
  also have "\<dots> = filter (\<lambda>(k, v). fst (d ! i) \<noteq> k) d"
  proof (rule filter_cong [OF refl])
    fix x assume x: "x \<in> set d"
    obtain k v where kv: "x = (k, v)" by (cases x)
    obtain k' v' where kv': "d ! i = (k', v')" by (cases "d ! i")
    have "(k', v') \<in> set d" using d(2) kv' by (metis nth_mem)
    then have "k = k' \<Longrightarrow> v = v'" using x kv d(1) by (auto dest: eq_key_imp_eq_value)
    then show "(x \<noteq> d ! i) = (case x of (k, v) \<Rightarrow> fst (d ! i) \<noteq> k)"
      using kv kv' by auto
  qed
  finally show ?thesis by (simp add: AList.delete_eq)
qed

lemma mc_abs_wf: "mc_wf c \<Longrightarrow> wf_dict (mc_abs c) \<and> map_of (mmap c) = map_of (mc_abs c) \<and>
    map fst (mc_abs c) = mkeys c \<and> map snd (mc_abs c) = items c"
  by (simp add: mc_wf_def mc_abs_def)

lemma update_present:
  "wf_dict d \<Longrightarrow> i < length d \<Longrightarrow> fst (d ! i) = k \<Longrightarrow> AList.update k v d = d[i := (k, v)]"
proof (induction d arbitrary: i)
  case Nil
  then show ?case by simp
next
  case (Cons x d)
  obtain k' v' where x: "x = (k', v')" by (cases x)
  show ?case
  proof (cases i)
    case 0
    then show ?thesis using Cons.prems x by simp
  next
    case (Suc j)
    then have "k \<in> fst ` set d" using Cons.prems by force
    then have "k' \<noteq> k" using Cons.prems(1) x by (metis distinct.simps(2) fst_conv list.simps(9) set_map)
    then show ?thesis using Cons Suc x by simp
  qed
qed

lemma update_absent: "k \<notin> fst ` set d \<Longrightarrow> AList.update k v d = d @ [(k, v)]"
  by (induction d) auto

lemma distinct_put_at: "distinct xs \<Longrightarrow> x \<notin> set xs \<Longrightarrow> distinct (put_at i x xs)"
  by (auto simp: put_at_def set_take_disj_set_drop_if_distinct dest: in_set_takeD in_set_dropD)

lemma map_of_put_at:
  assumes "k \<notin> fst ` set d"
  shows "map_of (put_at i (k, v) d) = (map_of d)(k \<mapsto> v)"
proof -
  have "k \<notin> fst ` set (take i d)" using assms set_take_subset [of i d] by auto
  then have "map_of (take i d) k = None" by (simp add: map_of_eq_None_iff)
  moreover have "map_of d = map_of (drop i d) ++ map_of (take i d)"
    by (metis append_take_drop_id map_of_append)
  ultimately show ?thesis by (auto simp: put_at_def map_add_def fun_eq_iff split: option.split)
qed

text \<open>Adding is an update of the dictionary, in place when the key is known.\<close>

lemma mc_abs_add: "mc_wf c \<Longrightarrow> mc_abs (mc_add k v c) = AList.update k v (mc_abs c) \<and> mc_wf (mc_add k v c)"
proof -
  assume wf: "mc_wf c"
  note abs = mc_abs_wf [OF wf]
  have len: "length (mkeys c) = length (items c)" using wf by (simp add: mc_wf_def)
  show ?thesis
  proof (cases "k \<in> set (mkeys c)")
    case True
    then obtain i where i: "index_of (mkeys c) k = Some i" by (metis index_of_None not_None_eq)
    then have ii: "i < length (mkeys c)" "mkeys c ! i = k" by (auto dest: index_of_Some)
    have "map_of (mmap c) k \<noteq> None" using True abs by (simp add: map_of_eq_None_iff flip: set_map)
    then have eq: "mc_add k v c = c\<lparr>items := (items c)[i := v], mmap := AList.update k v (mmap c)\<rparr>"
      using i by (auto simp: mc_add_def mc_replace_def split: option.split)
    have "AList.update k v (mc_abs c) = (mc_abs c)[i := (k, v)]"
      by (rule update_present) (use abs ii len in \<open>auto simp: mc_abs_def\<close>)
    also have "\<dots> = zip (mkeys c) ((items c)[i := v])"
      using ii len by (auto simp: mc_abs_def nth_list_update intro: nth_equalityI)
    finally have a: "mc_abs (mc_add k v c) = AList.update k v (mc_abs c)"
      by (simp add: eq mc_abs_def)
    have "mc_wf (mc_add k v c)" using a abs wf len
      by (simp add: mc_wf_def eq AList.update_conv' mc_abs_def)
    with a show ?thesis by simp
  next
    case False
    then have none: "map_of (mmap c) k = None" using abs by (simp add: map_of_eq_None_iff flip: set_map)
    have eq: "mc_add k v c = \<lparr>items = items c @ [v], mkeys = mkeys c @ [k],
        mmap = AList.update k v (mmap c)\<rparr>"
      using none by (simp add: mc_add_def)
    have "AList.update k v (mc_abs c) = mc_abs c @ [(k, v)]"
      by (rule update_absent) (use False abs in \<open>simp flip: set_map\<close>)
    then have a: "mc_abs (mc_add k v c) = AList.update k v (mc_abs c)"
      using len by (simp add: eq mc_abs_def)
    moreover have "mc_wf (mc_add k v c)"
      using a abs False len wf unfolding mc_wf_def mc_abs_def [symmetric]
      by (simp add: eq AList.update_conv')
    ultimately show ?thesis by simp
  qed
qed

lemma mc_abs_removeAt:
  assumes wf: "mc_wf c" and i: "i < length (items c)"
  shows "mc_abs (mc_removeAt (Some i) c) = AList.delete (mkeys c ! i) (mc_abs c) \<and>
         mc_wf (mc_removeAt (Some i) c)"
proof -
  note abs = mc_abs_wf [OF wf]
  have len: "length (mkeys c) = length (items c)" using wf by (simp add: mc_wf_def)
  have a: "mc_abs (mc_removeAt (Some i) c) = drop_at i (mc_abs c)"
    using i len by (simp add: mc_abs_def mc_removeAt_def zip_drop_at)
  also have "\<dots> = AList.delete (fst (mc_abs c ! i)) (mc_abs c)"
    by (rule drop_at_keys) (use abs i len in \<open>auto simp: mc_abs_def\<close>)
  also have "fst (mc_abs c ! i) = mkeys c ! i" using i len by (simp add: mc_abs_def)
  finally have b: "mc_abs (mc_removeAt (Some i) c) = AList.delete (mkeys c ! i) (mc_abs c)" .
  have "distinct (mkeys (mc_removeAt (Some i) c))"
    using i len wf by (auto simp: mc_removeAt_def drop_at_filter mc_wf_def distinct_filter)
  then have "mc_wf (mc_removeAt (Some i) c)"
    using b abs i len unfolding mc_wf_def mc_abs_def [symmetric]
    by (simp add: mc_removeAt_def length_drop_at AList.delete_conv' mc_abs_def)
  with b show ?thesis by simp
qed

lemma mc_abs_removeKey:
  assumes wf: "mc_wf c"
  shows "mc_abs (mc_removeKey k c) = AList.delete k (mc_abs c) \<and> mc_wf (mc_removeKey k c)"
proof (cases "index_of (mkeys c) k")
  case None
  then have "k \<notin> fst ` set (mc_abs c)"
    using mc_abs_wf [OF wf] by (simp add: index_of_None flip: set_map)
  then show ?thesis using None wf
    by (simp add: mc_removeKey_def mc_removeAt_def AList.delete_idem)
next
  case (Some i)
  then show ?thesis using mc_abs_removeAt [OF wf, of i] index_of_Some [OF Some] wf
    by (simp add: mc_removeKey_def mc_wf_def)
qed

lemma mc_abs_insert:
  assumes wf: "mc_wf c"
  shows "mc_abs (mc_insert i k v c) =
           (let d = AList.delete k (mc_abs c) in put_at (min i (length d)) (k, v) d) \<and>
         mc_wf (mc_insert i k v c)"
proof -
  define c' where "c' = (if mc_containsKey k c then mc_removeKey k c else c)"
  have k: "mc_containsKey k c \<longleftrightarrow> k \<in> fst ` set (mc_abs c)"
    using mc_abs_wf [OF wf] by (simp add: mc_containsKey_def map_of_eq_None_iff)
  have a: "mc_abs c' = AList.delete k (mc_abs c)" and wf': "mc_wf c'"
    using mc_abs_removeKey [OF wf, of k] wf k by (auto simp: c'_def AList.delete_idem)
  note abs = mc_abs_wf [OF wf']
  have nk: "k \<notin> set (mkeys c')" using abs a by (metis AList.delete_keys set_removeAll Diff_iff insertI1)
  have len: "length (mkeys c') = length (items c')" "length (mc_abs c') = length (items c')"
    using wf' by (simp_all add: mc_wf_def mc_abs_def)
  show ?thesis
  proof (cases "length (items c') \<le> i")
    case True
    have "AList.update k v (mc_abs c') = mc_abs c' @ [(k, v)]"
      by (rule update_absent) (use nk abs in \<open>simp flip: set_map\<close>)
    then show ?thesis using True mc_abs_add [OF wf', of k v] len
      by (simp add: mc_insert_def Let_def put_at_def flip: c'_def a)
  next
    case False
    have z: "zip (put_at i k (mkeys c')) (put_at i v (items c')) = put_at i (k, v) (mc_abs c')"
      using len by (simp add: zip_put_at mc_abs_def)
    have "map_of (put_at i (k, v) (mc_abs c')) = (map_of (mc_abs c'))(k \<mapsto> v)"
      by (rule map_of_put_at) (use nk abs in \<open>simp flip: set_map\<close>)
    moreover have "distinct (put_at i k (mkeys c'))"
      using nk wf' by (simp add: distinct_put_at mc_wf_def)
    ultimately show ?thesis using False z abs len wf'
      by (simp add: mc_insert_def Let_def mc_abs_def [symmetric] AList.update_conv' mc_wf_def
          length_put_at min_def flip: c'_def a) (simp add: mc_abs_def)
  qed
qed


section \<open>Sorting\<close>

text \<open>
  \<open>Array.sort\<close> with the comparison of \<open>MixedCollection._sort\<close>, which breaks ties by position:
  stable insertion, where \<open>gt a b\<close> says that the comparison of \<open>a\<close> with \<open>b\<close> is positive.  For a
  comparison that orders its values, every sorting algorithm gives this result.
\<close>

fun ins_gt :: "('a \<Rightarrow> 'a \<Rightarrow> bool) \<Rightarrow> 'a \<Rightarrow> 'a list \<Rightarrow> 'a list" where
  "ins_gt gt x [] = [x]"
| "ins_gt gt x (y # ys) = (if gt x y then y # ins_gt gt x ys else x # y # ys)"

definition sort_gt :: "('a \<Rightarrow> 'a \<Rightarrow> bool) \<Rightarrow> 'a list \<Rightarrow> 'a list" where
  "sort_gt gt xs = foldr (ins_gt gt) xs []"

definition mc_sort :: "('a \<Rightarrow> 'a \<Rightarrow> bool) \<Rightarrow> 'a mc \<Rightarrow> 'a mc" where
  "mc_sort gt c =
     (let d = sort_gt (\<lambda>x y. gt (snd x) (snd y)) (zip (mkeys c) (items c))
      in c\<lparr>items := map snd d, mkeys := map fst d\<rparr>)"

lemma mset_ins_gt: "mset (ins_gt gt x ys) = {#x#} + mset ys"
  by (induction ys) auto

lemma mset_sort_gt: "mset (sort_gt gt xs) = mset xs"
  unfolding sort_gt_def by (induction xs) (auto simp: mset_ins_gt)

lemma set_ins_gt: "set (ins_gt gt x ys) = insert x (set ys)"
  by (induction ys) auto

lemma sorted_ins_gt:
  assumes "\<And>x y. gt x y \<Longrightarrow> \<not> gt y x" and "\<And>x y z. \<not> gt x y \<Longrightarrow> \<not> gt y z \<Longrightarrow> \<not> gt x z"
  shows "sorted_wrt (\<lambda>x y. \<not> gt x y) ys \<Longrightarrow> sorted_wrt (\<lambda>x y. \<not> gt x y) (ins_gt gt x ys)"
proof (induction ys)
  case Nil
  then show ?case by simp
next
  case (Cons y ys)
  show ?case
  proof (cases "gt x y")
    case True
    with Cons assms(1) show ?thesis by (auto simp: set_ins_gt)
  next
    case False
    have "\<not> gt x z" if "z \<in> set ys" for z using assms(2) [OF False] Cons.prems that by auto
    with Cons.prems False show ?thesis by simp
  qed
qed

lemma sorted_sort_gt:
  assumes "\<And>x y. gt x y \<Longrightarrow> \<not> gt y x" and "\<And>x y z. \<not> gt x y \<Longrightarrow> \<not> gt y z \<Longrightarrow> \<not> gt x z"
  shows "sorted_wrt (\<lambda>x y. \<not> gt x y) (sort_gt gt xs)"
proof (induction xs)
  case Nil
  then show ?case by (simp add: sort_gt_def)
next
  case (Cons x xs)
  have "sorted_wrt (\<lambda>x y. \<not> gt x y) (ins_gt gt x (sort_gt gt xs))"
    by (rule sorted_ins_gt [OF assms Cons])
  then show ?case by (simp add: sort_gt_def)
qed

lemma mset_mc_sort: "mset (mc_abs (mc_sort gt c)) = mset (mc_abs c)"
  by (simp add: mc_sort_def Let_def mc_abs_def zip_map_fst_snd mset_sort_gt)

lemma mc_wf_sort: "mc_wf c \<Longrightarrow> mc_wf (mc_sort gt c)"
proof -
  assume wf: "mc_wf c"
  note abs = mc_abs_wf [OF wf]
  have keys: "mset (map fst (mc_abs (mc_sort gt c))) = mset (map fst (mc_abs c))"
    by (simp only: mset_map mset_mc_sort)
  then have d: "wf_dict (mc_abs (mc_sort gt c))" using abs by (metis mset_eq_imp_distinct_iff)
  have k: "map fst (mc_abs (mc_sort gt c)) = mkeys (mc_sort gt c)"
      "map snd (mc_abs (mc_sort gt c)) = items (mc_sort gt c)"
    by (simp_all add: mc_sort_def Let_def mc_abs_def zip_map_fst_snd)
  have "set (mc_abs (mc_sort gt c)) = set (mc_abs c)" by (metis mset_mc_sort set_mset_mset)
  then have "map_of (mc_abs (mc_sort gt c)) = map_of (mc_abs c)"
    using d abs by (metis map_of_inject_set)
  then show ?thesis
    using d k abs unfolding mc_wf_def mc_abs_def [symmetric]
    by (simp add: mc_sort_def Let_def)
qed

section \<open>Store\<close>

lemma delete_middle:
  "k \<notin> fst ` set (xs @ ys) \<Longrightarrow> AList.delete k (xs @ (k, v) # ys) = xs @ ys"
  by (induction xs) (auto simp: AList.delete_idem)

type_synonym 'd store = "(string \<times> 'd) mc"

text \<open>A record is its \<open>id\<close> and what it holds.\<close>

definition store_add1 :: "string \<times> 'd \<Rightarrow> 'd store \<Rightarrow> 'd store" where
  "store_add1 rec s = mc_add (fst rec) rec s"

definition store_add :: "(string \<times> 'd) list \<Rightarrow> 'd store \<Rightarrow> 'd store" where
  "store_add records s = fold store_add1 records s"

definition store_remove :: "string \<times> 'd \<Rightarrow> 'd store \<Rightarrow> 'd store" where
  "store_remove rec s = mc_removeAt (index_of (items s) rec) s"

definition store_removeAll :: "'d store \<Rightarrow> 'd store" where
  "store_removeAll s = mc_clear s"

definition store_insert1 :: "nat \<Rightarrow> string \<times> 'd \<Rightarrow> 'd store \<Rightarrow> 'd store" where
  "store_insert1 index rec s = mc_insert index (fst rec) rec s"

definition store_getById :: "'d store \<Rightarrow> string \<Rightarrow> (string \<times> 'd) option" where
  "store_getById s i = mc_key s i"

definition store_getAt :: "'d store \<Rightarrow> nat \<Rightarrow> (string \<times> 'd) option" where
  "store_getAt s i = (if i < length (items s) then Some (items s ! i) else None)"

definition store_getCount :: "'d store \<Rightarrow> nat" where
  "store_getCount s = length (items s)"

definition store_inv :: "'d store \<Rightarrow> bool" where
  "store_inv s \<longleftrightarrow> mc_wf s \<and> mkeys s = map fst (items s)"

text \<open>
  What the components rely on: records are found by id, adding a new id appends, removing takes
  out that record and nothing else, and the ids stay distinct.
\<close>

locale record_store =
  fixes rows :: "'s \<Rightarrow> (string \<times> 'd) list"
    and inv :: "'s \<Rightarrow> bool"
    and getById :: "'s \<Rightarrow> string \<Rightarrow> (string \<times> 'd) option"
    and add :: "string \<times> 'd \<Rightarrow> 's \<Rightarrow> 's"
    and remove :: "string \<times> 'd \<Rightarrow> 's \<Rightarrow> 's"
    and clear :: "'s \<Rightarrow> 's"
  assumes wf_rows: "inv s \<Longrightarrow> wf_dict (rows s)"
    and getById_rows: "inv s \<Longrightarrow> getById s k = map_option (Pair k) (map_of (rows s) k)"
    and rows_add: "inv s \<Longrightarrow> fst r \<notin> fst ` set (rows s) \<Longrightarrow> rows (add r s) = rows s @ [r]"
    and inv_add: "inv s \<Longrightarrow> fst r \<notin> fst ` set (rows s) \<Longrightarrow> inv (add r s)"
    and rows_remove: "inv s \<Longrightarrow> r \<in> set (rows s) \<Longrightarrow> rows (remove r s) = AList.delete (fst r) (rows s)"
    and inv_remove: "inv s \<Longrightarrow> r \<in> set (rows s) \<Longrightarrow> inv (remove r s)"
    and rows_clear: "rows (clear s) = []"
    and inv_clear: "inv (clear s)"
begin

lemma rows_adds:
  "inv s \<Longrightarrow> wf_dict (rows s @ rs) \<Longrightarrow> rows (fold add rs s) = rows s @ rs \<and> inv (fold add rs s)"
proof (induction rs arbitrary: s)
  case Nil
  then show ?case by simp
next
  case (Cons r rs)
  then have "fst r \<notin> fst ` set (rows s)" by auto
  then have "rows (add r s) = rows s @ [r]" "inv (add r s)"
    using Cons.prems by (simp_all add: rows_add inv_add)
  then show ?case using Cons.IH [of "add r s"] Cons.prems by simp
qed

text \<open>The clean-up loop: walk the rows as they were and remove those that are not kept.\<close>

lemma prune_gen:
  "inv s \<Longrightarrow> wf_dict rs \<Longrightarrow> rows s = filter (\<lambda>r. P (fst r)) qs @ rs \<Longrightarrow> wf_dict (qs @ rs) \<Longrightarrow>
   let s' = fold (\<lambda>r s. if P (fst r) then s else remove r s) rs s
   in rows s' = filter (\<lambda>r. P (fst r)) (qs @ rs) \<and> inv s'"
proof (induction rs arbitrary: s qs)
  case Nil
  then show ?case by simp
next
  case (Cons r rs)
  show ?case
  proof (cases "P (fst r)")
    case True
    then show ?thesis using Cons.IH [of s "qs @ [r]"] Cons.prems by simp
  next
    case False
    have "fst r \<notin> fst ` set (filter (\<lambda>r. P (fst r)) qs @ rs)" using Cons.prems by auto
    then have "AList.delete (fst r) (filter (\<lambda>r. P (fst r)) qs @ r # rs) = filter (\<lambda>r. P (fst r)) qs @ rs"
      using delete_middle [of "fst r" _ rs "snd r"] by simp
    then have "rows (remove r s) = filter (\<lambda>r. P (fst r)) (qs @ [r]) @ rs" "inv (remove r s)"
      using Cons.prems False by (simp_all add: rows_remove inv_remove)
    then show ?thesis using Cons.IH [of "remove r s" "qs @ [r]"] Cons.prems False by simp
  qed
qed

lemma prune:
  assumes "inv s"
  shows "rows (fold (\<lambda>r s. if P (fst r) then s else remove r s) (rows s) s) =
           filter (\<lambda>r. P (fst r)) (rows s) \<and>
         inv (fold (\<lambda>r s. if P (fst r) then s else remove r s) (rows s) s)"
  using prune_gen [of s "rows s" P "[]"] assms wf_rows [OF assms] by (simp add: Let_def)

end

lemma store_abs: "store_inv s \<Longrightarrow> mc_abs s = map (\<lambda>r. (fst r, r)) (items s)"
  by (simp add: store_inv_def mc_abs_def zip_map1 zip_same_conv_map)

lemma store_inv_abs: "mc_wf s \<Longrightarrow> mc_abs s = map (\<lambda>r. (fst r, r)) xs \<Longrightarrow> items s = xs \<and> store_inv s"
  using mc_abs_wf [of s] by (auto simp: store_inv_def comp_def)

lemma map_of_self: "map_of (map (\<lambda>r. (fst r, r)) xs) k = map_option (Pair k) (map_of xs k)"
  by (induction xs) auto

lemma delete_self:
  "AList.delete k (map (\<lambda>r. (fst r, r)) xs) = map (\<lambda>r. (fst r, r)) (AList.delete k xs)"
  by (induction xs) auto

lemma store_remove_rows:
  assumes inv: "store_inv s" and r: "r \<in> set (items s)"
  shows "items (store_remove r s) = AList.delete (fst r) (items s) \<and> store_inv (store_remove r s)"
proof -
  obtain i where i: "index_of (items s) r = Some i" using r by (metis index_of_None not_None_eq)
  then have ii: "i < length (items s)" "items s ! i = r" by (auto dest: index_of_Some)
  have wf: "mc_wf s" and k: "mkeys s = map fst (items s)" using inv by (simp_all add: store_inv_def)
  have "mc_abs (store_remove r s) = map (\<lambda>r. (fst r, r)) (AList.delete (fst r) (items s))"
    using mc_abs_removeAt [OF wf ii(1)] k ii
    by (simp add: store_remove_def i store_abs [OF inv] delete_self)
  moreover have "mc_wf (store_remove r s)"
    using mc_abs_removeAt [OF wf ii(1)] by (simp add: store_remove_def i)
  ultimately show ?thesis
    using store_inv_abs [of "store_remove r s" "AList.delete (fst r) (items s)"] by simp
qed

lemma store_add1_rows:
  assumes inv: "store_inv s" and r: "fst r \<notin> fst ` set (items s)"
  shows "items (store_add1 r s) = items s @ [r] \<and> store_inv (store_add1 r s)"
proof -
  have wf: "mc_wf s" using inv by (simp add: store_inv_def)
  have "fst r \<notin> fst ` set (map (\<lambda>r. (fst r, r)) (items s))" using r by (simp add: image_image)
  then have "mc_abs (store_add1 r s) = map (\<lambda>r. (fst r, r)) (items s @ [r])"
    using mc_abs_add [OF wf, of "fst r" r] by (simp add: store_add1_def store_abs [OF inv] update_absent)
  moreover have "mc_wf (store_add1 r s)" using mc_abs_add [OF wf] by (simp add: store_add1_def)
  ultimately show ?thesis using store_inv_abs [of "store_add1 r s" "items s @ [r]"] by simp
qed

lemma store_empty: "items mc_empty = [] \<and> store_inv mc_empty"
  by (simp add: mc_empty_def store_inv_def mc_wf_def)

interpretation rstore: record_store items store_inv store_getById store_add1 store_remove store_removeAll
proof unfold_locales
  fix s :: "'d store" and k and r :: "string \<times> 'd"
  assume inv: "store_inv s"
  then have wf: "mc_wf s" by (simp add: store_inv_def)
  show "wf_dict (items s)" using inv unfolding store_inv_def mc_wf_def by metis
  show "store_getById s k = map_option (Pair k) (map_of (items s) k)"
    using mc_abs_wf [OF wf] by (simp add: store_getById_def mc_key_def store_abs [OF inv] map_of_self)
  show "fst r \<notin> fst ` set (items s) \<Longrightarrow> items (store_add1 r s) = items s @ [r]"
    and "fst r \<notin> fst ` set (items s) \<Longrightarrow> store_inv (store_add1 r s)"
    using store_add1_rows [OF inv] by auto
  show "r \<in> set (items s) \<Longrightarrow> items (store_remove r s) = AList.delete (fst r) (items s)"
    and "r \<in> set (items s) \<Longrightarrow> store_inv (store_remove r s)"
    using store_remove_rows [OF inv] by auto
qed (simp_all add: store_removeAll_def mc_clear_def store_empty)

lemma store_sort_rows:
  assumes inv: "store_inv s"
  shows "mset (items (mc_sort gt s)) = mset (items s) \<and> store_inv (mc_sort gt s)"
proof -
  have wf: "mc_wf s" using inv by (simp add: store_inv_def)
  have "items (mc_sort gt s) = map snd (mc_abs (mc_sort gt s))"
      "mkeys (mc_sort gt s) = map fst (mc_abs (mc_sort gt s))"
    by (simp_all add: mc_sort_def Let_def mc_abs_def zip_map_fst_snd)
  moreover have "fst x = fst (snd x)" if "x \<in> set (mc_abs (mc_sort gt s))" for x
  proof -
    have "x \<in> set (mc_abs s)" using that by (metis mset_mc_sort set_mset_mset)
    then show ?thesis by (auto simp: store_abs [OF inv])
  qed
  moreover have "mset (map snd (mc_abs (mc_sort gt s))) = mset (map snd (mc_abs s))"
    by (simp only: mset_map mset_mc_sort)
  ultimately show ?thesis using mc_wf_sort [OF wf, of gt] mc_abs_wf [OF wf]
    by (auto simp: store_inv_def)
qed


text \<open>Lists of the interface also insert at a position.\<close>

locale ordered_store = record_store rows inv getById add remove clear
  for rows :: "'s \<Rightarrow> (string \<times> 'd) list" and inv getById add remove clear +
  fixes insert_at :: "nat \<Rightarrow> string \<times> 'd \<Rightarrow> 's \<Rightarrow> 's"
  assumes rows_insert: "inv s \<Longrightarrow> fst r \<notin> fst ` set (rows s) \<Longrightarrow>
      rows (insert_at i r s) = put_at (min i (length (rows s))) r (rows s)"
    and inv_insert: "inv s \<Longrightarrow> fst r \<notin> fst ` set (rows s) \<Longrightarrow> inv (insert_at i r s)"
begin

lemma set_insert:
  assumes "inv s" "fst r \<notin> fst ` set (rows s)"
  shows "set (rows (insert_at i r s)) = insert r (set (rows s))"
proof -
  let ?i = "min i (length (rows s))"
  have "set (rows s) = set (take ?i (rows s)) \<union> set (drop ?i (rows s))"
    by (metis append_take_drop_id set_append)
  then show ?thesis using rows_insert [OF assms] by (auto simp: put_at_def)
qed

end

lemma store_insert_rows:
  assumes inv: "store_inv s" and r: "fst r \<notin> fst ` set (items s)"
  shows "items (store_insert1 i r s) = put_at (min i (length (items s))) r (items s) \<and> store_inv (store_insert1 i r s)"
proof -
  have wf: "mc_wf s" using inv by (simp add: store_inv_def)
  have "fst r \<notin> fst ` set (mc_abs s)" using r by (simp add: store_abs [OF inv] image_image)
  then have "mc_abs (store_insert1 i r s) = put_at (min i (length (items s))) (fst r, r) (mc_abs s)"
    using mc_abs_insert [OF wf, of i "fst r" r]
    by (simp add: store_insert1_def Let_def AList.delete_idem store_abs [OF inv])
  also have "\<dots> = map (\<lambda>r. (fst r, r)) (put_at (min i (length (items s))) r (items s))"
    by (simp add: store_abs [OF inv] put_at_def take_map drop_map)
  finally show ?thesis using mc_abs_insert [OF wf, of i "fst r" r]
    by (intro store_inv_abs) (simp_all add: store_insert1_def)
qed

interpretation rlist: ordered_store items store_inv store_getById store_add1 store_remove store_removeAll store_insert1
  by unfold_locales (use store_insert_rows in blast)+


section \<open>Properties\<close>

text \<open>C14: a \<open>MixedCollection\<close> implements an ordered dictionary.  With its items, keys and map in
  agreement, adding updates the dictionary (in place for a known key, at the end for a new one),
  removing a key deletes it, inserting takes the key out of its old place and puts it at the
  given position (or at the end), looking up reads the dictionary, sorting permutes it; and each
  of these keeps the three views in agreement.\<close>

theorem mc_refines_dict:
  assumes "mc_wf c"
  shows "mc_abs (mc_add k v c) = AList.update k v (mc_abs c) \<and> mc_wf (mc_add k v c) \<and>
         mc_abs (mc_removeKey k c) = AList.delete k (mc_abs c) \<and> mc_wf (mc_removeKey k c) \<and>
         mc_abs (mc_insert i k v c) =
           (let d = AList.delete k (mc_abs c) in put_at (min i (length d)) (k, v) d) \<and>
         mc_wf (mc_insert i k v c) \<and>
         mc_key c k = map_of (mc_abs c) k \<and>
         mset (mc_abs (mc_sort gt c)) = mset (mc_abs c) \<and> mc_wf (mc_sort gt c)"
  using mc_abs_add [OF assms] mc_abs_removeKey [OF assms] mc_abs_insert [OF assms]
    mc_abs_wf [OF assms] mset_mc_sort mc_wf_sort [OF assms] unfolding mc_key_def by metis

theorem mc_refines_dict_witness:
  "mc_abs (mc_insert 0 ''b'' (9 :: nat) (mc_add ''b'' 2 (mc_add ''a'' 1 mc_empty))) =
     [(''b'', 9), (''a'', 1)]"
proof -
  define c :: "nat mc" where "c = mc_add ''b'' 2 (mc_add ''a'' 1 mc_empty)"
  have "mc_wf c" unfolding c_def
    by (simp add: mc_add_def mc_empty_def mc_wf_def)
  moreover have "mc_abs c = [(''a'', 1), (''b'', 2)]" unfolding c_def by code_simp
  ultimately show ?thesis using mc_refines_dict [of c "''b''" 9 0] unfolding c_def [symmetric]
    by (simp add: Let_def put_at_def)
qed

end
