(* ===== verification/DataView.thy ===== *)
theory DataView
  imports ExtStore
begin

text \<open>
  \<open>Ext.DataView\<close> (\<open>ext-all-debug.js\<close>), which the lists of the interface are, on top of the store:
  the nodes it draws, the index each carries, which are selected, and what it does when the store
  adds, removes or changes a record.  Records live at addresses, because the store, its list of
  modified records and the view share them; nodes are numbered as they are created, and what a node
  shows is the data it was drawn from.  The view is rendered, and no handler vetoes an event.
\<close>

section \<open>State\<close>

record 'd dview =
  v_store :: "nat store"
  v_heap :: "nat \<Rightarrow> 'd"
  v_fresh :: nat
  v_dirty :: "nat \<Rightarrow> bool"
  v_modified :: "(string \<times> nat) list"
  v_all :: "nat list"
  v_index :: "nat \<Rightarrow> nat"
  v_text :: "nat \<Rightarrow> 'd"
  v_node :: nat
  v_sel :: "nat list"
  v_last :: "nat option"
  v_multi :: bool
  v_single :: bool
  v_simple :: bool
  v_log :: "string option list list"

text \<open>\<open>v_log\<close> is one entry for each \<open>selectionchange\<close>: the ids of what is selected then.\<close>

section \<open>Selection\<close>

definition getRecords :: "nat list \<Rightarrow> 'd dview \<Rightarrow> (string \<times> nat) option list" where
  "getRecords ns v = map (\<lambda>n. store_getAt (v_store v) (v_index v n)) ns"

definition getSelectedRecords :: "'d dview \<Rightarrow> (string \<times> nat) option list" where
  "getSelectedRecords v = getRecords (v_sel v) v"

definition getSelectionCount :: "'d dview \<Rightarrow> nat" where
  "getSelectionCount v = length (v_sel v)"

definition dv_fire :: "'d dview \<Rightarrow> 'd dview" where
  "dv_fire v = v\<lparr>v_log := v_log v @ [map (map_option fst) (getSelectedRecords v)]\<rparr>"

definition getNode :: "nat \<Rightarrow> 'd dview \<Rightarrow> nat option" where
  "getNode i v = (if i < length (v_all v) then Some (v_all v ! i) else None)"

definition isSelected :: "nat option \<Rightarrow> 'd dview \<Rightarrow> bool" where
  "isSelected n v = (case n of None \<Rightarrow> False | Some n \<Rightarrow> index_of (v_sel v) n \<noteq> None)"

definition clearSelections :: "bool \<Rightarrow> 'd dview \<Rightarrow> 'd dview" where
  "clearSelections suppress v =
     (if (v_multi v \<or> v_single v) \<and> v_sel v \<noteq> []
      then let v = v\<lparr>v_sel := [], v_last := None\<rparr> in if suppress then v else dv_fire v
      else v)"

definition removeElement :: "nat \<Rightarrow> nat list \<Rightarrow> nat list" where
  "removeElement n els = (case index_of els n of None \<Rightarrow> els | Some i \<Rightarrow> drop_at i els)"

definition deselect :: "nat option \<Rightarrow> 'd dview \<Rightarrow> 'd dview" where
  "deselect node v =
     (case node of
        None \<Rightarrow> v
      | Some n \<Rightarrow>
          if isSelected node v
          then dv_fire (v\<lparr>v_sel := removeElement n (v_sel v),
                          v_last := (if v_last v = Some (v_index v n) then None else v_last v)\<rparr>)
          else v)"

definition select :: "nat option \<Rightarrow> bool \<Rightarrow> bool \<Rightarrow> 'd dview \<Rightarrow> 'd dview" where
  "select node keepExisting suppress v =
     (let v = (if keepExisting then v else clearSelections True v)
      in case node of
           None \<Rightarrow> v
         | Some n \<Rightarrow>
             if isSelected node v then v
             else let v = v\<lparr>v_sel := v_sel v @ [n], v_last := Some (v_index v n)\<rparr>
                  in if suppress then v else dv_fire v)"

text \<open>\<open>select\<close> of an array.\<close>

definition select_nodes :: "nat list \<Rightarrow> bool \<Rightarrow> bool \<Rightarrow> 'd dview \<Rightarrow> 'd dview" where
  "select_nodes ns keepExisting suppress v =
     (let v = (if keepExisting then v else clearSelections True v);
          v = fold (\<lambda>n. select (Some n) True True) ns v
      in if suppress then v else dv_fire v)"

definition getNodes :: "nat \<Rightarrow> nat \<Rightarrow> 'd dview \<Rightarrow> nat list" where
  "getNodes start stop v =
     (let ns = v_all v
      in if start \<le> stop then take (stop + 1 - start) (drop start ns)
         else if start < length ns then rev (take (start + 1 - stop) (drop stop ns)) else [])"

definition selectRange :: "nat \<Rightarrow> nat \<Rightarrow> bool \<Rightarrow> 'd dview \<Rightarrow> 'd dview" where
  "selectRange start stop keepExisting v =
     (let v = (if keepExisting then v else clearSelections True v)
      in select_nodes (getNodes start stop v) True False v)"

definition doSingleSelection :: "nat \<Rightarrow> bool \<Rightarrow> 'd dview \<Rightarrow> 'd dview" where
  "doSingleSelection i ctrl v =
     (if ctrl \<and> isSelected (getNode i v) v then deselect (getNode i v) v
      else select (getNode i v) False False v)"

definition doMultiSelection :: "nat \<Rightarrow> bool \<Rightarrow> bool \<Rightarrow> 'd dview \<Rightarrow> 'd dview" where
  "doMultiSelection i shift ctrl v =
     (case (shift, v_last v) of
        (True, Some l) \<Rightarrow> (selectRange l i ctrl v)\<lparr>v_last := Some l\<rparr>
      | _ \<Rightarrow>
          if (ctrl \<or> v_simple v) \<and> isSelected (getNode i v) v then deselect (getNode i v) v
          else select (getNode i v) (ctrl \<or> shift \<or> v_simple v) False v)"

definition onItemClick :: "nat \<Rightarrow> bool \<Rightarrow> bool \<Rightarrow> 'd dview \<Rightarrow> 'd dview" where
  "onItemClick i shift ctrl v =
     (if v_multi v then doMultiSelection i shift ctrl v
      else if v_single v then doSingleSelection i ctrl v else v)"

definition onContainerClick :: "'d dview \<Rightarrow> 'd dview" where
  "onContainerClick v = clearSelections False v"

section \<open>Drawing\<close>

definition bufferRender :: "(string \<times> nat) list \<Rightarrow> 'd dview \<Rightarrow> nat list \<times> 'd dview" where
  "bufferRender recs v =
     (let ns = [v_node v ..< v_node v + length recs];
          text = fold (\<lambda>(n, r) t. t(n := v_heap v (snd r))) (zip ns recs) (v_text v)
      in (ns, v\<lparr>v_text := text, v_node := v_node v + length recs\<rparr>))"

text \<open>\<open>updateIndexes(start)\<close>, up to the last node, and \<open>updateIndexes(i, i)\<close>.\<close>

definition updateIndexes :: "nat \<Rightarrow> 'd dview \<Rightarrow> 'd dview" where
  "updateIndexes start v =
     v\<lparr>v_index := fold (\<lambda>i ix. ix(v_all v ! i := i)) [start ..< length (v_all v)] (v_index v)\<rparr>"

definition updateIndex :: "nat \<Rightarrow> 'd dview \<Rightarrow> 'd dview" where
  "updateIndex i v = v\<lparr>v_index := (v_index v)(v_all v ! i := i)\<rparr>"

definition refresh :: "'d dview \<Rightarrow> 'd dview" where
  "refresh v =
     (let v = clearSelections False v; records = items (v_store v)
      in if records = [] then v\<lparr>v_all := []\<rparr>
         else let (ns, v) = bufferRender records v in updateIndexes 0 (v\<lparr>v_all := ns\<rparr>))"

definition dv_onUpdate :: "string \<times> nat \<Rightarrow> 'd dview \<Rightarrow> 'd dview" where
  "dv_onUpdate rec v =
     (case index_of (items (v_store v)) rec of
        None \<Rightarrow> v
      | Some i \<Rightarrow>
          let sel = isSelected (getNode i v) v; original = v_all v ! i;
              (ns, v) = bufferRender [rec] v; n = hd ns;
              v = v\<lparr>v_all := (v_all v)[i := n]\<rparr>;
              v = (if sel then (case index_of (v_sel v) original of
                                  None \<Rightarrow> v | Some k \<Rightarrow> v\<lparr>v_sel := (v_sel v)[k := n]\<rparr>) else v)
          in updateIndex i v)"

definition dv_onAdd :: "(string \<times> nat) list \<Rightarrow> nat \<Rightarrow> 'd dview \<Rightarrow> 'd dview" where
  "dv_onAdd recs i v =
     (if v_all v = [] then refresh v
      else let (ns, v) = bufferRender recs v; a = v_all v;
               v = v\<lparr>v_all := (if i < length a then take i a @ ns @ drop i a else a @ ns)\<rparr>
           in updateIndexes i v)"

definition dv_onRemove :: "nat \<Rightarrow> 'd dview \<Rightarrow> 'd dview" where
  "dv_onRemove i v =
     (let v = deselect (getNode i v) v;
          v = updateIndexes i (v\<lparr>v_all := drop_at i (v_all v)\<rparr>)
      in if store_getCount (v_store v) = 0 then refresh v else v)"

section \<open>The store's operations, with the events they fire\<close>

text \<open>\<open>store.insert(index, new recordType(data))\<close>, the record's id set before: it is a phantom, so it is
  among the modified ones from the start.\<close>

definition dv_insert :: "nat \<Rightarrow> string \<Rightarrow> 'd \<Rightarrow> 'd dview \<Rightarrow> 'd dview" where
  "dv_insert i k d v =
     (let a = v_fresh v;
          v = v\<lparr>v_heap := (v_heap v)(a := d), v_dirty := (v_dirty v)(a := False), v_fresh := a + 1\<rparr>;
          v = v\<lparr>v_store := store_insert1 i (k, a) (v_store v), v_modified := v_modified v @ [(k, a)]\<rparr>
      in dv_onAdd [(k, a)] i v)"

definition dv_remove :: "string \<times> nat \<Rightarrow> 'd dview \<Rightarrow> 'd dview" where
  "dv_remove rec v =
     (case index_of (items (v_store v)) rec of
        None \<Rightarrow> v
      | Some i \<Rightarrow> dv_onRemove i (v\<lparr>v_store := store_remove rec (v_store v)\<rparr>))"

definition afterEdit :: "string \<times> nat \<Rightarrow> 'd dview \<Rightarrow> 'd dview" where
  "afterEdit rec v =
     dv_onUpdate rec (if rec \<in> set (v_modified v) then v else v\<lparr>v_modified := v_modified v @ [rec]\<rparr>)"

text \<open>\<open>beginEdit\<close>, some calls of \<open>set\<close> whose effect together is \<open>f\<close>, and \<open>endEdit\<close>: a field is only
  assigned, and the record only marked, when its value changes.\<close>

definition dv_edit :: "('d \<Rightarrow> 'd) \<Rightarrow> string \<times> nat \<Rightarrow> 'd dview \<Rightarrow> 'd dview" where
  "dv_edit f rec v =
     (let a = snd rec; d = f (v_heap v a);
          v = v\<lparr>v_heap := (v_heap v)(a := d), v_dirty := (v_dirty v)(a := v_dirty v a \<or> d \<noteq> v_heap v a)\<rparr>
      in if v_dirty v a then afterEdit rec v else v)"

text \<open>\<open>set\<close> on its own.\<close>

definition dv_set :: "('d \<Rightarrow> 'd) \<Rightarrow> string \<times> nat \<Rightarrow> 'd dview \<Rightarrow> 'd dview" where
  "dv_set f rec v =
     (let a = snd rec; d = f (v_heap v a)
      in if d = v_heap v a then v
         else afterEdit rec (v\<lparr>v_heap := (v_heap v)(a := d), v_dirty := (v_dirty v)(a := True)\<rparr>))"

text \<open>\<open>commit\<close>: a record that has left the store tells nobody.\<close>

definition dv_commit :: "string \<times> nat \<Rightarrow> 'd dview \<Rightarrow> 'd dview" where
  "dv_commit rec v =
     (let v = v\<lparr>v_dirty := (v_dirty v)(snd rec := False)\<rparr>
      in if rec \<in> set (items (v_store v))
         then dv_onUpdate rec (v\<lparr>v_modified := remove1 rec (v_modified v)\<rparr>) else v)"

definition commitChanges :: "'d dview \<Rightarrow> 'd dview" where
  "commitChanges v = (fold dv_commit (v_modified v) v)\<lparr>v_modified := []\<rparr>"

section \<open>What a view stands for\<close>

text \<open>The rows of the list in their order, and the ids of the selected ones.\<close>

definition dv_rows :: "'d dview \<Rightarrow> 'd dict" where
  "dv_rows v = map (\<lambda>(k, a). (k, v_heap v a)) (items (v_store v))"

definition node_rec :: "'d dview \<Rightarrow> nat \<Rightarrow> (string \<times> nat) option" where
  "node_rec v = map_of (zip (v_all v) (items (v_store v)))"

definition dv_picked :: "'d dview \<Rightarrow> string list" where
  "dv_picked v = map (\<lambda>n. fst (the (node_rec v n))) (v_sel v)"

text \<open>One node for each record, each carrying its position and showing its record as it is; what is
  selected are nodes of the view, and one at most unless several can be.\<close>

definition nodes_ok :: "'d dview \<Rightarrow> bool" where
  "nodes_ok v \<longleftrightarrow> length (v_all v) = length (items (v_store v)) \<and> distinct (v_all v) \<and>
     (\<forall>n \<in> set (v_all v). n < v_node v) \<and> (\<forall>i < length (v_all v). v_index v (v_all v ! i) = i)"

definition sel_ok :: "'d dview \<Rightarrow> bool" where
  "sel_ok v \<longleftrightarrow> distinct (v_sel v) \<and> set (v_sel v) \<subseteq> set (v_all v) \<and>
     (v_multi v \<or> length (v_sel v) \<le> 1) \<and> (v_multi v \<or> v_single v \<or> v_sel v = [])"

definition recs_ok :: "'d dview \<Rightarrow> bool" where
  "recs_ok v \<longleftrightarrow> store_inv (v_store v) \<and> distinct (map snd (items (v_store v))) \<and>
     (\<forall>r \<in> set (items (v_store v)). snd r < v_fresh v) \<and> (\<forall>r \<in> set (v_modified v). snd r < v_fresh v)"

definition shows_ok :: "'d dview \<Rightarrow> bool" where
  "shows_ok v \<longleftrightarrow> (\<forall>i < length (v_all v). v_text v (v_all v ! i) = v_heap v (snd (items (v_store v) ! i)))"

definition dv_ok :: "'d dview \<Rightarrow> bool" where
  "dv_ok v \<longleftrightarrow> nodes_ok v \<and> sel_ok v \<and> recs_ok v \<and> shows_ok v"

lemma fold_index:
  assumes "distinct xs" "\<forall>i \<in> set is. i < length xs" "j < length xs"
  shows "fold (\<lambda>i ix. ix(xs ! i := i)) is ix (xs ! j) = (if j \<in> set is then j else ix (xs ! j))"
  using assms(2)
proof (induction "is" arbitrary: ix)
  case Nil
  then show ?case by simp
next
  case (Cons i "is")
  then show ?case using assms(1,3) by (auto simp: nth_eq_iff_index_eq)
qed

lemma updateIndexes_ok:
  assumes "distinct (v_all v)" "\<forall>i < start. i < length (v_all v) \<longrightarrow> v_index v (v_all v ! i) = i"
    "j < length (v_all v)"
  shows "v_index (updateIndexes start v) (v_all v ! j) = j"
  using assms fold_index [OF assms(1), of "[start ..< length (v_all v)]" j "v_index v"]
  by (simp add: updateIndexes_def)

lemma fold_text:
  "distinct (map fst ps) \<Longrightarrow> fold (\<lambda>(n, r) t. t(n := g r)) ps t x = (case map_of ps x of None \<Rightarrow> t x | Some r \<Rightarrow> g r)"
proof (induction ps arbitrary: t)
  case Nil
  then show ?case by simp
next
  case (Cons p ps)
  obtain n r where p: "p = (n, r)" by (cases p)
  have "map_of ps n = None" using Cons.prems p by (simp add: map_of_eq_None_iff)
  then show ?case using Cons p by (auto split: option.split)
qed

lemma node_rec_nth:
  assumes "nodes_ok v" "i < length (v_all v)"
  shows "node_rec v (v_all v ! i) = Some (items (v_store v) ! i)"
  using assms by (simp add: node_rec_def nodes_ok_def map_of_zip_nth)

lemma node_rec_index:
  assumes "nodes_ok v" "n \<in> set (v_all v)"
  shows "node_rec v n = Some (items (v_store v) ! v_index v n)" "v_index v n < length (items (v_store v))"
  using assms node_rec_nth [OF assms(1)] by (auto simp: in_set_conv_nth nodes_ok_def)

lemma selected_records:
  assumes "nodes_ok v" "sel_ok v"
  shows "map (map_option fst) (getSelectedRecords v) = map Some (dv_picked v)"
  using assms node_rec_index [OF assms(1)]
  by (auto simp: getSelectedRecords_def getRecords_def dv_picked_def store_getAt_def sel_ok_def subset_iff)

section \<open>Selecting\<close>

text \<open>Selecting changes nothing but what is selected.\<close>

lemma sel_frame [simp]:
  "nodes_ok (v\<lparr>v_sel := s\<rparr>) = nodes_ok v" "recs_ok (v\<lparr>v_sel := s\<rparr>) = recs_ok v"
  "shows_ok (v\<lparr>v_sel := s\<rparr>) = shows_ok v" "node_rec (v\<lparr>v_sel := s\<rparr>) = node_rec v" "dv_rows (v\<lparr>v_sel := s\<rparr>) = dv_rows v"
  "nodes_ok (v\<lparr>v_last := l\<rparr>) = nodes_ok v" "recs_ok (v\<lparr>v_last := l\<rparr>) = recs_ok v" "sel_ok (v\<lparr>v_last := l\<rparr>) = sel_ok v"
  "shows_ok (v\<lparr>v_last := l\<rparr>) = shows_ok v" "node_rec (v\<lparr>v_last := l\<rparr>) = node_rec v" "dv_rows (v\<lparr>v_last := l\<rparr>) = dv_rows v"
  "nodes_ok (v\<lparr>v_log := g\<rparr>) = nodes_ok v" "recs_ok (v\<lparr>v_log := g\<rparr>) = recs_ok v" "sel_ok (v\<lparr>v_log := g\<rparr>) = sel_ok v"
  "shows_ok (v\<lparr>v_log := g\<rparr>) = shows_ok v" "node_rec (v\<lparr>v_log := g\<rparr>) = node_rec v" "dv_rows (v\<lparr>v_log := g\<rparr>) = dv_rows v"
  by (simp_all add: nodes_ok_def recs_ok_def shows_ok_def sel_ok_def node_rec_def dv_rows_def fun_eq_iff)

lemma sel_frame_picked [simp]:
  "dv_picked (v\<lparr>v_last := l\<rparr>) = dv_picked v" "dv_picked (v\<lparr>v_log := g\<rparr>) = dv_picked v"
  by (simp_all add: dv_picked_def)

lemma fire_frame [simp]:
  "nodes_ok (dv_fire v) = nodes_ok v" "recs_ok (dv_fire v) = recs_ok v" "sel_ok (dv_fire v) = sel_ok v"
  "shows_ok (dv_fire v) = shows_ok v" "node_rec (dv_fire v) = node_rec v" "dv_rows (dv_fire v) = dv_rows v"
  "dv_picked (dv_fire v) = dv_picked v" "v_sel (dv_fire v) = v_sel v" "v_all (dv_fire v) = v_all v"
  "v_store (dv_fire v) = v_store v" "v_multi (dv_fire v) = v_multi v" "v_single (dv_fire v) = v_single v"
  "v_heap (dv_fire v) = v_heap v" "v_index (dv_fire v) = v_index v" "v_node (dv_fire v) = v_node v"
  "v_text (dv_fire v) = v_text v" "v_fresh (dv_fire v) = v_fresh v" "v_modified (dv_fire v) = v_modified v"
  by (simp_all add: dv_fire_def)

lemma fire_ok: "dv_ok (dv_fire v) = dv_ok v"
  by (simp add: dv_ok_def)

lemma fire_log: "dv_ok v \<Longrightarrow> v_log (dv_fire v) = v_log v @ [map Some (dv_picked v)]"
  by (simp add: dv_fire_def selected_records dv_ok_def)

lemma removeElement_eq: "distinct els \<Longrightarrow> removeElement n els = filter (\<lambda>x. x \<noteq> n) els"
proof (cases "index_of els n")
  case None
  then have "n \<notin> set els" by (simp add: index_of_None)
  then have "filter (\<lambda>x. x \<noteq> n) els = els" by (auto simp: filter_id_conv)
  then show ?thesis using None by (simp add: removeElement_def)
next
  case (Some i)
  then show "distinct els \<Longrightarrow> ?thesis" using index_of_Some [OF Some] drop_at_filter [of els i] by (simp add: removeElement_def)
qed

lemma isSelected_iff: "isSelected (Some n) v \<longleftrightarrow> n \<in> set (v_sel v)"
  using index_of_None [of "v_sel v" n] by (simp add: isSelected_def)

lemma clearSelections_ok:
  assumes "dv_ok v"
  shows "dv_ok (clearSelections s v)" "dv_rows (clearSelections s v) = dv_rows v" "dv_picked (clearSelections s v) = []"
    "v_sel (clearSelections s v) = []"
    "v_log (clearSelections s v) = v_log v @ (if s \<or> dv_picked v = [] then [] else [[]])"
    "node_rec (clearSelections s v) = node_rec v" "v_all (clearSelections s v) = v_all v"
    "v_multi (clearSelections s v) = v_multi v" "v_single (clearSelections s v) = v_single v"
    "v_store (clearSelections s v) = v_store v" "v_heap (clearSelections s v) = v_heap v"
  using assms by (auto simp: clearSelections_def Let_def dv_ok_def sel_ok_def dv_picked_def dv_fire_def
      getSelectedRecords_def getRecords_def)

text \<open>The node of a row, and the id it stands for.\<close>

lemma getNode_rows:
  assumes "dv_ok v" "i < length (dv_rows v)"
  shows "\<exists>n. getNode i v = Some n \<and> n \<in> set (v_all v) \<and> node_rec v n = Some (items (v_store v) ! i) \<and>
    fst (the (node_rec v n)) = fst (dv_rows v ! i)"
proof -
  have l: "i < length (items (v_store v))" "i < length (v_all v)"
    using assms by (simp_all add: dv_rows_def dv_ok_def nodes_ok_def)
  moreover have "nodes_ok v" using assms(1) by (simp add: dv_ok_def)
  ultimately have "node_rec v (v_all v ! i) = Some (items (v_store v) ! i)" by (simp add: node_rec_nth)
  then show ?thesis using l by (auto simp: getNode_def dv_rows_def split: prod.split)
qed

lemma getNode_none:
  assumes "dv_ok v" "length (dv_rows v) \<le> i"
  shows "getNode i v = None"
  using assms by (simp add: getNode_def dv_rows_def dv_ok_def nodes_ok_def)

lemma node_rec_inj:
  assumes "dv_ok v" "n \<in> set (v_all v)" "m \<in> set (v_all v)" "fst (the (node_rec v n)) = fst (the (node_rec v m))"
  shows "n = m"
proof -
  have v: "nodes_ok v" "store_inv (v_store v)" using assms(1) by (simp_all add: dv_ok_def recs_ok_def)
  obtain i j where ij: "i < length (v_all v)" "n = v_all v ! i" "j < length (v_all v)" "m = v_all v ! j"
    using assms(2,3) by (auto simp: in_set_conv_nth)
  have len: "length (v_all v) = length (items (v_store v))" using v(1) by (simp add: nodes_ok_def)
  have "map fst (items (v_store v)) ! i = map fst (items (v_store v)) ! j"
    using assms(4) node_rec_nth [OF v(1)] ij len by simp
  then have "i = j" using rstore.wf_rows [OF v(2)] ij len by (simp only: nth_eq_iff_index_eq length_map)
  then show ?thesis using ij by simp
qed

lemma picked_iff:
  assumes "dv_ok v" "n \<in> set (v_all v)"
  shows "n \<in> set (v_sel v) \<longleftrightarrow> fst (the (node_rec v n)) \<in> set (dv_picked v)"
proof -
  have "set (v_sel v) \<subseteq> set (v_all v)" using assms(1) by (simp add: dv_ok_def sel_ok_def)
  then show ?thesis using node_rec_inj [OF assms(1,2)] unfolding dv_picked_def by (auto simp: image_iff)
qed

lemma deselect_ok:
  assumes "dv_ok v" "n \<in> set (v_all v)"
  shows "dv_ok (deselect (Some n) v)" "dv_rows (deselect (Some n) v) = dv_rows v"
    "dv_picked (deselect (Some n) v) = filter (\<lambda>k. k \<noteq> fst (the (node_rec v n))) (dv_picked v)"
    "v_log (deselect (Some n) v) = v_log v @
       (if fst (the (node_rec v n)) \<in> set (dv_picked v) then [map Some (dv_picked (deselect (Some n) v))] else [])"
proof -
  let ?k = "fst (the (node_rec v n))"
  have d: "distinct (v_sel v)" "set (v_sel v) \<subseteq> set (v_all v)" using assms(1) by (simp_all add: dv_ok_def sel_ok_def)
  let ?l = "if v_last v = Some (v_index v n) then None else v_last v"
  let ?w = "v\<lparr>v_sel := filter (\<lambda>x. x \<noteq> n) (v_sel v), v_last := ?l\<rparr>"
  have e: "deselect (Some n) v = (if ?k \<in> set (dv_picked v) then dv_fire ?w else v)"
    using picked_iff [OF assms] d(1) by (simp add: deselect_def isSelected_iff removeElement_eq)
  have "length (filter (\<lambda>x. x \<noteq> n) (v_sel v)) \<le> 1" if "length (v_sel v) \<le> 1"
    using that length_filter_le [of "\<lambda>x. x \<noteq> n" "v_sel v"] by linarith
  then have w: "dv_ok ?w" using assms(1) d by (auto simp: dv_ok_def sel_ok_def)
  have f: "filter (\<lambda>k. k \<noteq> ?k) (dv_picked v) = map (\<lambda>n. fst (the (node_rec v n))) (filter (\<lambda>x. x \<noteq> n) (v_sel v))"
    unfolding dv_picked_def filter_map comp_def
    by (rule arg_cong [where f = "map _"], rule filter_cong [OF refl]) (use node_rec_inj [OF assms(1) _ assms(2)] d(2) in blast)
  have p: "dv_picked ?w = filter (\<lambda>k. k \<noteq> ?k) (dv_picked v)" unfolding f by (simp add: dv_picked_def)
  show "dv_ok (deselect (Some n) v)" "dv_rows (deselect (Some n) v) = dv_rows v"
    using w assms(1) by (simp_all add: e fire_ok)
  show "dv_picked (deselect (Some n) v) = filter (\<lambda>k. k \<noteq> ?k) (dv_picked v)"
    using p by (simp add: e) (metis (mono_tags, lifting) filter_True)
  then show "v_log (deselect (Some n) v) = v_log v @
       (if ?k \<in> set (dv_picked v) then [map Some (dv_picked (deselect (Some n) v))] else [])"
    using fire_log [OF w] by (simp add: e)
qed

lemma select_ok:
  assumes "dv_ok v" "n \<in> set (v_all v)" "v_multi v \<or> v_single v \<and> \<not> keep"
  shows "dv_ok (select (Some n) keep s v)" "dv_rows (select (Some n) keep s v) = dv_rows v"
    "dv_picked (select (Some n) keep s v) =
       (let k = fst (the (node_rec v n)); old = (if keep then dv_picked v else [])
        in if k \<in> set old then old else old @ [k])"
    "node_rec (select (Some n) keep s v) = node_rec v" "v_all (select (Some n) keep s v) = v_all v"
    "v_multi (select (Some n) keep s v) = v_multi v" "v_single (select (Some n) keep s v) = v_single v"
proof -
  let ?k = "fst (the (node_rec v n))"
  define u where "u = (if keep then v else clearSelections True v)"
  have u: "dv_ok u" "dv_rows u = dv_rows v" "dv_picked u = (if keep then dv_picked v else [])" "node_rec u = node_rec v"
    "v_all u = v_all v" "v_multi u = v_multi v" "v_single u = v_single v" "\<not> keep \<Longrightarrow> v_sel u = []"
    unfolding u_def using clearSelections_ok [OF assms(1), of True] assms(1) by simp_all
  let ?w = "u\<lparr>v_sel := v_sel u @ [n], v_last := Some (v_index u n)\<rparr>"
  have e: "select (Some n) keep s v = (if ?k \<in> set (dv_picked u) then u else if s then ?w else dv_fire ?w)"
    using picked_iff [OF u(1)] assms(2) u(4,5) unfolding select_def u_def [symmetric] by (simp add: Let_def isSelected_iff)
  have w: "dv_ok ?w" if "?k \<notin> set (dv_picked u)"
    using u assms(2,3) that picked_iff [OF u(1), of n] by (auto simp: dv_ok_def sel_ok_def)
  show "dv_ok (select (Some n) keep s v)" "dv_rows (select (Some n) keep s v) = dv_rows v"
    using w u by (simp_all add: e fire_ok)
  have "dv_picked ?w = dv_picked u @ [?k]" using u(4) by (simp add: dv_picked_def)
  then show "dv_picked (select (Some n) keep s v) =
       (let k = ?k; old = (if keep then dv_picked v else []) in if k \<in> set old then old else old @ [k])"
    using u(3) by (simp add: e Let_def)
  show "node_rec (select (Some n) keep s v) = node_rec v" "v_all (select (Some n) keep s v) = v_all v"
    "v_multi (select (Some n) keep s v) = v_multi v" "v_single (select (Some n) keep s v) = v_single v"
    using u by (simp_all add: e)
qed

section \<open>The store's events\<close>

definition shows_but :: "nat \<Rightarrow> 'd dview \<Rightarrow> bool" where
  "shows_but a v \<longleftrightarrow> (\<forall>i < length (v_all v). snd (items (v_store v) ! i) \<noteq> a \<longrightarrow>
     v_text v (v_all v ! i) = v_heap v (snd (items (v_store v) ! i)))"

lemma shows_but_ok: "shows_ok v \<Longrightarrow> shows_but a v"
  by (simp add: shows_ok_def shows_but_def)

lemma update_map:
  "distinct xs \<Longrightarrow> k < length xs \<Longrightarrow> xs ! k = x \<Longrightarrow> xs[k := y] = map (\<lambda>z. if z = x then y else z) xs"
  by (rule nth_equalityI) (auto simp: nth_list_update nth_eq_iff_index_eq)

lemma index_of_in: "x \<in> set xs \<Longrightarrow> \<exists>i. index_of xs x = Some i \<and> i < length xs \<and> xs ! i = x"
proof -
  assume "x \<in> set xs"
  then have "index_of xs x \<noteq> None" by (simp add: index_of_None)
  then obtain i where "index_of xs x = Some i" by blast
  then show ?thesis using index_of_Some by fast
qed

text \<open>What a view is, given its fields.\<close>

lemma onUpdate_fields:
  assumes v: "nodes_ok v" "sel_ok v" and i: "index_of (items (v_store v)) rec = Some i"
  shows "v_all (dv_onUpdate rec v) = (v_all v)[i := v_node v]"
    "v_sel (dv_onUpdate rec v) = map (\<lambda>z. if z = v_all v ! i then v_node v else z) (v_sel v)"
    "v_index (dv_onUpdate rec v) = (v_index v)(v_node v := i)"
    "v_text (dv_onUpdate rec v) = (v_text v)(v_node v := v_heap v (snd rec))"
    "v_node (dv_onUpdate rec v) = v_node v + 1"
proof -
  have l: "i < length (v_all v)" using v(1) index_of_Some [OF i] by (simp add: nodes_ok_def)
  have r: "bufferRender [rec] v = ([v_node v], v\<lparr>v_text := (v_text v)(v_node v := v_heap v (snd rec)), v_node := v_node v + 1\<rparr>)"
    by (simp add: bufferRender_def)
  have sel: "isSelected (getNode i v) v \<longleftrightarrow> v_all v ! i \<in> set (v_sel v)" using l by (simp add: getNode_def isSelected_iff)
  have id: "v_all v ! i \<notin> set (v_sel v) \<Longrightarrow> map (\<lambda>z. if z = v_all v ! i then v_node v else z) (v_sel v) = v_sel v"
    by (rule map_idI) auto
  have up: "(v_sel v)[k := v_node v] = map (\<lambda>z. if z = v_all v ! i then v_node v else z) (v_sel v)"
    if "index_of (v_sel v) (v_all v ! i) = Some k" for k
    using index_of_Some [OF that] v(2) update_map [of "v_sel v" k "v_all v ! i"] by (simp add: sel_ok_def)
  have ex: "v_all v ! i \<in> set (v_sel v) \<Longrightarrow> \<exists>k. index_of (v_sel v) (v_all v ! i) = Some k"
    using index_of_in [of "v_all v ! i" "v_sel v"] by blast
  let ?u = "v\<lparr>v_text := (v_text v)(v_node v := v_heap v (snd rec)), v_node := v_node v + 1, v_all := (v_all v)[i := v_node v]\<rparr>"
  have "dv_onUpdate rec v = updateIndex i (?u\<lparr>v_sel := map (\<lambda>z. if z = v_all v ! i then v_node v else z) (v_sel v)\<rparr>)"
    using id ex up by (auto simp: dv_onUpdate_def i r sel Let_def split: option.split)
  then show "v_all (dv_onUpdate rec v) = (v_all v)[i := v_node v]"
    "v_sel (dv_onUpdate rec v) = map (\<lambda>z. if z = v_all v ! i then v_node v else z) (v_sel v)"
    "v_index (dv_onUpdate rec v) = (v_index v)(v_node v := i)"
    "v_text (dv_onUpdate rec v) = (v_text v)(v_node v := v_heap v (snd rec))"
    "v_node (dv_onUpdate rec v) = v_node v + 1"
    using l by (simp_all add: updateIndex_def)
qed

lemma onUpdate_frame [simp]:
  "v_store (dv_onUpdate rec v) = v_store v" "v_heap (dv_onUpdate rec v) = v_heap v" "v_fresh (dv_onUpdate rec v) = v_fresh v"
  "v_modified (dv_onUpdate rec v) = v_modified v" "v_log (dv_onUpdate rec v) = v_log v" "v_multi (dv_onUpdate rec v) = v_multi v"
  "v_single (dv_onUpdate rec v) = v_single v" "v_dirty (dv_onUpdate rec v) = v_dirty v"
  by (auto simp: dv_onUpdate_def bufferRender_def updateIndex_def Let_def split: option.split)

lemma node_rec_other:
  assumes "nodes_ok v" "i < length (v_all v)" "x \<in> set (v_all v)" "x \<noteq> v_all v ! i"
  shows "map_of (zip ((v_all v)[i := n]) (items (v_store v))) x = node_rec v x \<or> x = n"
proof (cases "x = n")
  case False
  obtain j where j: "j < length (v_all v)" "x = v_all v ! j" using assms(3) by (auto simp: in_set_conv_nth)
  have "j \<noteq> i" using j assms(4) by auto
  have m: "x \<notin> set ((v_all v)[i := n]) - {x}" by simp
  have "(x, items (v_store v) ! j) \<in> set (zip ((v_all v)[i := n]) (items (v_store v)))"
    using j \<open>j \<noteq> i\<close> assms(1) by (auto simp: in_set_conv_nth nodes_ok_def intro!: exI [of _ j])
  have u: "y = items (v_store v) ! j" if "(x, y) \<in> set (zip ((v_all v)[i := n]) (items (v_store v)))" for y
  proof -
    obtain l where l: "l < length (v_all v)" "((v_all v)[i := n]) ! l = x" "items (v_store v) ! l = y"
      using \<open>(x, y) \<in> _\<close> by (auto simp: in_set_conv_nth)
    then have "l \<noteq> i" using False by auto
    then have "v_all v ! l = v_all v ! j" using l j by simp
    then show ?thesis using l j assms(1) by (simp add: nodes_ok_def nth_eq_iff_index_eq)
  qed
  obtain y where "map_of (zip ((v_all v)[i := n]) (items (v_store v))) x = Some y"
    using \<open>(x, items (v_store v) ! j) \<in> _\<close> by (metis not_None_eq weak_map_of_SomeI)
  then show ?thesis using u map_of_SomeD node_rec_nth [OF assms(1) j(1)] j(2) by fastforce
qed simp

lemma onUpdate_ok:
  assumes v: "nodes_ok v" "sel_ok v" "recs_ok v" "shows_but (snd rec) v" and r: "rec \<in> set (items (v_store v))"
  shows "dv_ok (dv_onUpdate rec v)" "dv_rows (dv_onUpdate rec v) = dv_rows v" "dv_picked (dv_onUpdate rec v) = dv_picked v"
proof -
  obtain i where i: "index_of (items (v_store v)) rec = Some i" "i < length (items (v_store v))" "items (v_store v) ! i = rec"
    using index_of_in [OF r] by blast
  note f = onUpdate_fields [OF v(1,2) i(1)]
  let ?w = "dv_onUpdate rec v" and ?n = "v_node v"
  have len: "length (v_all v) = length (items (v_store v))" and d: "distinct (v_all v)"
    and nn: "?n \<notin> set (v_all v)" and ix: "j < length (v_all v) \<Longrightarrow> v_index v (v_all v ! j) = j" for j
    using v(1) by (auto simp: nodes_ok_def)
  have "v_all v ! j \<noteq> ?n" if "j < length (v_all v)" for j using nn that by (metis nth_mem)
  moreover have "x < Suc ?n" if "x \<in> set ((v_all v)[i := ?n])" for x
    using that v(1) set_update_subset_insert [of "v_all v" i ?n] by (fastforce simp: nodes_ok_def)
  ultimately have n: "nodes_ok ?w" using d nn len ix i(2)
    by (auto simp: nodes_ok_def f distinct_list_update nth_list_update)
  have sub: "set (v_sel v) \<subseteq> set (v_all v)" and ds: "distinct (v_sel v)" using v(2) by (simp_all add: sel_ok_def)
  have "x \<in> set ((v_all v)[i := ?n])" if "x \<in> set (v_all v)" "x \<noteq> v_all v ! i" for x
    using that by (metis in_set_conv_nth length_list_update nth_list_update_neq)
  moreover have "?n \<in> set ((v_all v)[i := ?n])" using i(2) len by (simp add: set_update_memI)
  moreover have "inj_on (\<lambda>z. if z = v_all v ! i then ?n else z) (set (v_sel v))"
    using nn sub by (auto simp: inj_on_def)
  ultimately have s: "sel_ok ?w" using v(2) sub ds by (auto simp: sel_ok_def f distinct_map)
  have rc: "recs_ok ?w" using v(3) by (simp add: recs_ok_def)
  have ad: "distinct (map snd (items (v_store v)))" using v(3) by (simp add: recs_ok_def)
  have "snd (items (v_store v) ! j) \<noteq> snd rec" if "j < length (items (v_store v))" "j \<noteq> i" for j
    using ad that i(2,3) by (metis length_map nth_eq_iff_index_eq nth_map)
  then have "shows_ok ?w" using v(4) i(2,3) len \<open>\<And>j. j < length (v_all v) \<Longrightarrow> v_all v ! j \<noteq> ?n\<close>
    by (auto simp: shows_ok_def shows_but_def f nth_list_update)
  then show "dv_ok ?w" using n s rc by (simp add: dv_ok_def)
  show "dv_rows ?w = dv_rows v" by (simp add: dv_rows_def)
  have rn: "node_rec ?w ?n = Some rec" using node_rec_nth [OF n, of i] i len by (simp add: f)
  have "fst (the (node_rec ?w (if z = v_all v ! i then ?n else z))) = fst (the (node_rec v z))" if "z \<in> set (v_sel v)" for z
  proof (cases "z = v_all v ! i")
    case True
    then show ?thesis using rn node_rec_nth [OF v(1), of i] i len by simp
  next
    case False
    have z: "z \<in> set (v_all v)" using that sub by blast
    then show ?thesis using node_rec_other [OF v(1) _ z False, of ?n] False i(2) len nn by (auto simp: node_rec_def f)
  qed
  then show "dv_picked ?w = dv_picked v" by (simp add: dv_picked_def f)
qed

lemma put_at_nth:
  "i \<le> length xs \<Longrightarrow> j \<le> length xs \<Longrightarrow>
   put_at i x xs ! j = (if j < i then xs ! j else if j = i then x else xs ! (j - 1))"
  by (auto simp: put_at_def nth_append nth_Cons' min_def)

lemma set_put_at: "set (put_at i x xs) = insert x (set xs)"
proof -
  have "set xs = set (take i xs) \<union> set (drop i xs)" by (metis append_take_drop_id set_append)
  then show ?thesis by (auto simp: put_at_def)
qed

lemma map_put_at: "map f (put_at i x xs) = put_at i (f x) (map f xs)"
  by (simp add: put_at_def take_map drop_map)

text \<open>The whole view drawn anew, with nothing selected.\<close>

lemma refresh_ok:
  assumes rc: "recs_ok v" and s: "v_sel v = []"
  shows "dv_ok (refresh v)" "dv_rows (refresh v) = dv_rows v" "dv_picked (refresh v) = []"
    "v_log (refresh v) = v_log v" "v_store (refresh v) = v_store v" "v_heap (refresh v) = v_heap v"
    "v_modified (refresh v) = v_modified v" "v_multi (refresh v) = v_multi v" "v_single (refresh v) = v_single v"
    "v_fresh (refresh v) = v_fresh v" "v_dirty (refresh v) = v_dirty v"
proof -
  let ?r = "items (v_store v)" and ?ns = "[v_node v ..< v_node v + length (items (v_store v))]"
  let ?t = "fold (\<lambda>(n, r) t. t(n := v_heap v (snd r))) (zip ?ns ?r) (v_text v)"
  let ?u = "v\<lparr>v_text := ?t, v_node := v_node v + length ?r, v_all := ?ns\<rparr>"
  have c: "clearSelections False v = v" using s by (simp add: clearSelections_def)
  have e: "refresh v = (if ?r = [] then v\<lparr>v_all := []\<rparr> else updateIndexes 0 ?u)"
    by (simp add: refresh_def c Let_def bufferRender_def)
  have t: "?t (?ns ! i) = v_heap v (snd (?r ! i))" if "i < length ?r" for i
  proof -
    have "map_of (zip ?ns ?r) (?ns ! i) = Some (?r ! i)" using that by (intro map_of_zip_nth) simp_all
    then show ?thesis
      using fold_text [of "zip ?ns ?r" "\<lambda>r. v_heap v (snd r)" "v_text v" "?ns ! i"] by simp
  qed
  have ix: "v_index (updateIndexes 0 ?u) (?ns ! i) = i" if "i < length ?r" for i
    using updateIndexes_ok [of ?u 0 i] that by simp
  have "nodes_ok (refresh v)" using ix by (auto simp: e nodes_ok_def updateIndexes_def)
  moreover have "sel_ok (refresh v)" using s by (simp add: e sel_ok_def updateIndexes_def)
  moreover have "recs_ok (refresh v)" using rc by (simp add: e recs_ok_def updateIndexes_def)
  moreover have "shows_ok (refresh v)" using t by (auto simp: e shows_ok_def updateIndexes_def)
  ultimately show "dv_ok (refresh v)" by (simp add: dv_ok_def)
  show "dv_rows (refresh v) = dv_rows v" "dv_picked (refresh v) = []"
    "v_log (refresh v) = v_log v" "v_store (refresh v) = v_store v" "v_heap (refresh v) = v_heap v"
    "v_modified (refresh v) = v_modified v" "v_multi (refresh v) = v_multi v" "v_single (refresh v) = v_single v"
    "v_fresh (refresh v) = v_fresh v" "v_dirty (refresh v) = v_dirty v"
    using s by (simp_all add: e dv_rows_def dv_picked_def updateIndexes_def)
qed

text \<open>A node put among the others.  A position past the end would leave the new node without an index.\<close>

definition with_node :: "nat \<Rightarrow> 'd \<Rightarrow> 'd dview \<Rightarrow> 'd dview" where
  "with_node i d v =
     updateIndexes i (v\<lparr>v_text := (v_text v)(v_node v := d), v_node := v_node v + 1,
       v_all := put_at (min i (length (v_all v))) (v_node v) (v_all v)\<rparr>)"

lemma onAdd_one:
  "v_all v \<noteq> [] \<Longrightarrow> dv_onAdd [r] i v = with_node i (v_heap v (snd r)) v"
  by (cases "i < length (v_all v)") (simp_all add: dv_onAdd_def bufferRender_def with_node_def put_at_def Let_def min_def)

lemma insert_ok:
  assumes ok: "dv_ok v" and k: "k \<notin> fst ` set (dv_rows v)" and i: "i \<le> length (dv_rows v)"
  shows "dv_ok (dv_insert i k d v)" "dv_rows (dv_insert i k d v) = put_at i (k, d) (dv_rows v)"
    "dv_picked (dv_insert i k d v) = dv_picked v" "v_log (dv_insert i k d v) = v_log v"
    "v_multi (dv_insert i k d v) = v_multi v" "v_single (dv_insert i k d v) = v_single v"
proof -
  let ?a = "v_fresh v" and ?s = "v_store v"
  let ?v = "v\<lparr>v_heap := (v_heap v)(?a := d), v_dirty := (v_dirty v)(?a := False), v_fresh := ?a + 1,
    v_store := store_insert1 i (k, ?a) ?s, v_modified := v_modified v @ [(k, ?a)]\<rparr>"
  have o: "nodes_ok v" "sel_ok v" "recs_ok v" "shows_ok v" using ok by (simp_all add: dv_ok_def)
  have si: "store_inv ?s" and ad: "distinct (map snd (items ?s))" and af: "r \<in> set (items ?s) \<Longrightarrow> snd r < ?a" for r
    using o(3) by (simp_all add: recs_ok_def)
  have len: "length (v_all v) = length (items ?s)" using o(1) by (simp add: nodes_ok_def)
  have il: "i \<le> length (items ?s)" using i by (simp add: dv_rows_def)
  have fk: "fst ` set (dv_rows v) = fst ` set (items ?s)" by (force simp: dv_rows_def)
  have it: "items (store_insert1 i (k, ?a) ?s) = put_at i (k, ?a) (items ?s)"
    "store_inv (store_insert1 i (k, ?a) ?s)"
    using rlist.rows_insert [OF si, of "(k, ?a)" i] rlist.inv_insert [OF si, of "(k, ?a)" i] k fk il by (simp_all add: min_def)
  have "?a \<notin> set (map snd (items ?s))" using af by fastforce
  then have rc: "recs_ok ?v" using o(3) it ad
    by (auto simp: recs_ok_def set_put_at map_put_at distinct_put_at less_Suc_eq)
  have rows: "map (\<lambda>(k, b). (k, ((v_heap v)(?a := d)) b)) (items ?s) = dv_rows v"
    unfolding dv_rows_def using af by (intro map_cong [OF refl]) fastforce
  have rv: "dv_rows ?v = put_at i (k, d) (dv_rows v)"
    unfolding rows [symmetric] by (simp add: dv_rows_def it map_put_at del: map_eq_conv)
  have e: "dv_insert i k d v = dv_onAdd [(k, ?a)] i ?v" by (simp add: dv_insert_def Let_def)
  have goal: "dv_ok (dv_insert i k d v) \<and> dv_rows (dv_insert i k d v) = dv_rows ?v \<and>
    dv_picked (dv_insert i k d v) = dv_picked v \<and> v_log (dv_insert i k d v) = v_log v \<and>
    v_multi (dv_insert i k d v) = v_multi v \<and> v_single (dv_insert i k d v) = v_single v"
  proof (cases "v_all v = []")
    case True
    then have sel: "v_sel v = []" using o(2) by (simp add: sel_ok_def)
    have "dv_insert i k d v = refresh ?v" using True by (simp add: e dv_onAdd_def)
    then show ?thesis using refresh_ok [OF rc] sel by (simp add: dv_picked_def)
  next
    case False
    let ?n = "v_node v" and ?i = "i"
    define w where "w = with_node i d ?v"
    have ew: "dv_insert i k d v = w" using False by (simp add: e onAdd_one w_def)
    have mi: "min i (length (v_all v)) = i" using il len by simp
    have f: "v_all w = put_at ?i ?n (v_all v)" "v_node w = ?n + 1" "v_text w = (v_text v)(?n := d)" "v_sel w = v_sel v"
      "v_store w = v_store ?v" "v_heap w = v_heap ?v" "v_fresh w = v_fresh ?v" "v_modified w = v_modified ?v"
      "v_multi w = v_multi v" "v_single w = v_single v" "v_log w = v_log v"
      by (simp_all add: w_def with_node_def updateIndexes_def mi)
    have nn: "?n \<notin> set (v_all v)" and dd: "distinct (v_all v)" using o(1) by (auto simp: nodes_ok_def)
    have da: "distinct (put_at ?i ?n (v_all v))" using dd nn by (rule distinct_put_at)
    have "v_index w (v_all w ! j) = j" if "j < length (v_all w)" for j
    proof -
      let ?x = "?v\<lparr>v_text := (v_text v)(?n := d), v_node := ?n + 1, v_all := put_at ?i ?n (v_all v)\<rparr>"
      have x: "w = updateIndexes i ?x" by (simp add: w_def with_node_def mi)
      have "v_index ?x (v_all ?x ! l) = l" if "l < i" "l < length (v_all ?x)" for l
        using that o(1) il len by (auto simp: put_at_nth length_put_at nodes_ok_def split: if_splits)
      moreover have "j < length (v_all ?x)" using that unfolding f(1) by simp
      moreover have "distinct (v_all ?x)" using da by simp
      ultimately have "v_index (updateIndexes i ?x) (v_all ?x ! j) = j" using updateIndexes_ok [of ?x i j] by blast
      then show ?thesis unfolding x [symmetric] f(1) by simp
    qed
    then have n: "nodes_ok w" using da len o(1)
      using il by (auto simp: nodes_ok_def f it length_put_at set_put_at less_Suc_eq)
    have s: "sel_ok w" using o(2) by (auto simp: sel_ok_def f set_put_at)
    have r: "recs_ok w" using rc by (simp add: recs_ok_def f)
    have "shows_ok w" unfolding shows_ok_def
    proof (intro allI impI)
      fix j assume j: "j < length (v_all w)"
      have old: "v_text w (v_all v ! l) = v_heap w (snd (items ?s ! l))" if "l < length (v_all v)" for l
      proof -
        have "v_all v ! l \<noteq> ?n" using nn that by (metis nth_mem)
        moreover have "snd (items ?s ! l) \<noteq> ?a" using af [of "items ?s ! l"] that len by auto
        ultimately show ?thesis using o(4) that by (simp add: f shows_ok_def)
      qed
      have c: "j < ?i \<or> j = ?i \<or> ?i < j \<and> j - 1 < length (v_all v)" using j il len by (auto simp: f length_put_at)
      show "v_text w (v_all w ! j) = v_heap w (snd (items (v_store w) ! j))"
        using c old [of j] old [of "j - 1"] j len il by (auto simp: f it put_at_nth length_put_at)
    qed
    then have ok': "dv_ok w" using n s r by (simp add: dv_ok_def)
    have z: "zip (v_all w) (items (v_store w)) = put_at ?i (?n, (k, ?a)) (zip (v_all v) (items ?s))"
      using len by (simp add: f it zip_put_at)
    have "?n \<notin> fst ` set (zip (v_all v) (items ?s))" using nn by (auto dest: set_zip_leftD)
    then have "node_rec w = (node_rec v)(?n \<mapsto> (k, ?a))" by (simp add: node_rec_def z map_of_put_at)
    moreover have "?n \<notin> set (v_sel v)" using nn o(2) by (auto simp: sel_ok_def)
    ultimately have "dv_picked w = dv_picked v" by (auto simp: dv_picked_def f)
    then show ?thesis using ok' by (simp add: ew f dv_rows_def)
  qed
  then show "dv_ok (dv_insert i k d v)" "dv_rows (dv_insert i k d v) = put_at i (k, d) (dv_rows v)"
    "dv_picked (dv_insert i k d v) = dv_picked v" "v_log (dv_insert i k d v) = v_log v"
    "v_multi (dv_insert i k d v) = v_multi v" "v_single (dv_insert i k d v) = v_single v"
    using rv by simp_all
qed

definition set_row :: "string \<Rightarrow> ('d \<Rightarrow> 'd) \<Rightarrow> 'd dict \<Rightarrow> 'd dict" where
  "set_row k f d = map (\<lambda>(k', x). (k', if k' = k then f x else x)) d"

lemma key_address:
  assumes "recs_ok v" "r \<in> set (items (v_store v))" "q \<in> set (items (v_store v))"
  shows "fst q = fst r \<longleftrightarrow> snd q = snd r"
proof -
  have "wf_dict (items (v_store v))" "distinct (map snd (items (v_store v)))"
    using assms(1) rstore.wf_rows [of "v_store v"] by (simp_all add: recs_ok_def)
  then show ?thesis using assms(2,3) by (metis prod.collapse eq_key_imp_eq_value distinct_snd_eq)
qed

lemma changed_rows:
  assumes "recs_ok v" "r \<in> set (items (v_store v))"
  shows "map (\<lambda>(k, b). (k, ((v_heap v)(snd r := f (v_heap v (snd r)))) b)) (items (v_store v)) = set_row (fst r) f (dv_rows v)"
  unfolding set_row_def dv_rows_def map_map
  by (rule map_cong [OF refl]) (use key_address [OF assms] in \<open>fastforce split: prod.split\<close>)

lemma changed_shows:
  "shows_ok v \<Longrightarrow> shows_but a (v\<lparr>v_heap := (v_heap v)(a := d), v_dirty := y, v_modified := m\<rparr>)"
  by (simp add: shows_ok_def shows_but_def)

lemma changed_frame:
  "nodes_ok (v\<lparr>v_heap := h, v_dirty := y, v_modified := m\<rparr>) = nodes_ok v"
  "sel_ok (v\<lparr>v_heap := h, v_dirty := y, v_modified := m\<rparr>) = sel_ok v"
  "dv_picked (v\<lparr>v_heap := h, v_dirty := y, v_modified := m\<rparr>) = dv_picked v"
  "recs_ok v \<Longrightarrow> (\<forall>r \<in> set m. snd r < v_fresh v) \<Longrightarrow> recs_ok (v\<lparr>v_heap := h, v_dirty := y, v_modified := m\<rparr>)"
  by (simp_all add: nodes_ok_def sel_ok_def dv_picked_def recs_ok_def node_rec_def)

lemma changed_ok:
  fixes f :: "'d \<Rightarrow> 'd" and y :: "nat \<Rightarrow> bool" and v :: "'d dview"
  assumes ok: "dv_ok v" and r: "r \<in> set (items (v_store v))" and m: "\<forall>r \<in> set m. snd r < v_fresh v"
  defines "w \<equiv> dv_onUpdate r (v\<lparr>v_heap := (v_heap v)(snd r := f (v_heap v (snd r))), v_dirty := y, v_modified := m\<rparr>)"
  shows "dv_ok w \<and> dv_rows w = set_row (fst r) f (dv_rows v) \<and> dv_picked w = dv_picked v \<and> v_log w = v_log v \<and>
    v_multi w = v_multi v \<and> v_single w = v_single v \<and> v_store w = v_store v"
proof -
  let ?u = "v\<lparr>v_heap := (v_heap v)(snd r := f (v_heap v (snd r))), v_dirty := y, v_modified := m\<rparr>"
  have o: "nodes_ok v" "sel_ok v" "recs_ok v" "shows_ok v" using ok by (simp_all add: dv_ok_def)
  have n: "nodes_ok ?u" using o(1) by (simp only: changed_frame(1))
  have s: "sel_ok ?u" using o(2) by (simp only: changed_frame(2))
  have rc: "recs_ok ?u" using o(3) m by (rule changed_frame(4))
  have sh: "shows_but (snd r) ?u" using o(4) by (rule changed_shows)
  have ru: "r \<in> set (items (v_store ?u))" using r by simp
  have "dv_rows ?u = set_row (fst r) f (dv_rows v)"
    using changed_rows [OF o(3) r, of f] by (simp add: dv_rows_def)
  moreover have "dv_picked ?u = dv_picked v" by (simp only: changed_frame(3))
  ultimately show ?thesis unfolding w_def
    using onUpdate_ok [OF n s rc sh ru] by simp
qed

lemma set_row_id: "f = (\<lambda>x. x) \<or> (\<forall>x. (k, x) \<in> set d \<longrightarrow> f x = x) \<Longrightarrow> set_row k f d = d"
  unfolding set_row_def by (rule map_idI) auto

lemma edit_ok:
  assumes ok: "dv_ok v" and r: "r \<in> set (items (v_store v))"
  shows "dv_ok (dv_edit f r v) \<and> dv_rows (dv_edit f r v) = set_row (fst r) f (dv_rows v) \<and>
    dv_picked (dv_edit f r v) = dv_picked v \<and> v_log (dv_edit f r v) = v_log v \<and>
    v_multi (dv_edit f r v) = v_multi v \<and> v_single (dv_edit f r v) = v_single v \<and> v_store (dv_edit f r v) = v_store v"
proof -
  let ?d = "f (v_heap v (snd r))" and ?h = "(v_heap v)(snd r := f (v_heap v (snd r)))"
  let ?y = "(v_dirty v)(snd r := v_dirty v (snd r) \<or> ?d \<noteq> v_heap v (snd r))"
  have rc: "recs_ok v" using ok by (simp add: dv_ok_def)
  show ?thesis
  proof (cases "v_dirty v (snd r) \<or> ?d \<noteq> v_heap v (snd r)")
    case True
    let ?m = "if r \<in> set (v_modified v) then v_modified v else v_modified v @ [r]"
    have m: "\<forall>r \<in> set ?m. snd r < v_fresh v" using rc r by (auto simp: recs_ok_def)
    have "dv_edit f r v = dv_onUpdate r (v\<lparr>v_heap := ?h, v_dirty := ?y, v_modified := ?m\<rparr>)"
      using True by (auto simp: dv_edit_def Let_def afterEdit_def)
    then show ?thesis using changed_ok [OF ok r m, where f = f and y = ?y] by simp
  next
    case False
    then have "dv_edit f r v = v"
      by (simp add: dv_edit_def Let_def fun_upd_idem)
    moreover have "set_row (fst r) f (dv_rows v) = dv_rows v"
      unfolding changed_rows [OF rc r, of f, symmetric] using False by (simp add: dv_rows_def fun_upd_idem)
    ultimately show ?thesis using ok by simp
  qed
qed

lemma set_ok:
  assumes ok: "dv_ok v" and r: "r \<in> set (items (v_store v))"
  shows "dv_ok (dv_set f r v) \<and> dv_rows (dv_set f r v) = set_row (fst r) f (dv_rows v) \<and>
    dv_picked (dv_set f r v) = dv_picked v \<and> v_log (dv_set f r v) = v_log v \<and>
    v_multi (dv_set f r v) = v_multi v \<and> v_single (dv_set f r v) = v_single v \<and> v_store (dv_set f r v) = v_store v"
proof -
  let ?d = "f (v_heap v (snd r))" and ?h = "(v_heap v)(snd r := f (v_heap v (snd r)))"
  have rc: "recs_ok v" using ok by (simp add: dv_ok_def)
  show ?thesis
  proof (cases "?d = v_heap v (snd r)")
    case False
    let ?m = "if r \<in> set (v_modified v) then v_modified v else v_modified v @ [r]"
    have m: "\<forall>r \<in> set ?m. snd r < v_fresh v" using rc r by (auto simp: recs_ok_def)
    have "dv_set f r v = dv_onUpdate r (v\<lparr>v_heap := ?h, v_dirty := (v_dirty v)(snd r := True), v_modified := ?m\<rparr>)"
      using False by (auto simp: dv_set_def Let_def afterEdit_def)
    then show ?thesis using changed_ok [OF ok r m, where f = f and y = "(v_dirty v)(snd r := True)"] by simp
  next
    case True
    then have "dv_set f r v = v" by (simp add: dv_set_def Let_def)
    moreover have "set_row (fst r) f (dv_rows v) = dv_rows v"
      unfolding changed_rows [OF rc r, of f, symmetric] using True by (simp add: dv_rows_def fun_upd_idem)
    ultimately show ?thesis using ok by simp
  qed
qed

lemma commit_ok:
  assumes ok: "dv_ok v"
  shows "dv_ok (dv_commit r v) \<and> dv_rows (dv_commit r v) = dv_rows v \<and>
    dv_picked (dv_commit r v) = dv_picked v \<and> v_log (dv_commit r v) = v_log v \<and>
    v_multi (dv_commit r v) = v_multi v \<and> v_single (dv_commit r v) = v_single v \<and> v_store (dv_commit r v) = v_store v"
proof (cases "r \<in> set (items (v_store v))")
  case True
  have m: "\<forall>q \<in> set (remove1 r (v_modified v)). snd q < v_fresh v"
    using ok set_remove1_subset [of r "v_modified v"] by (auto simp: dv_ok_def recs_ok_def)
  have "dv_commit r v = dv_onUpdate r (v\<lparr>v_heap := (v_heap v)(snd r := id (v_heap v (snd r))),
      v_dirty := (v_dirty v)(snd r := False), v_modified := remove1 r (v_modified v)\<rparr>)"
    using True by (simp add: dv_commit_def)
  then show ?thesis using changed_ok [OF ok True m, where f = id and y = "(v_dirty v)(snd r := False)"] set_row_id [of id]
    by (simp add: id_def)
next
  case False
  then have "dv_commit r v = v\<lparr>v_dirty := (v_dirty v)(snd r := False)\<rparr>" by (simp add: dv_commit_def)
  then show ?thesis using ok
    by (simp add: dv_ok_def nodes_ok_def sel_ok_def recs_ok_def shows_ok_def dv_rows_def dv_picked_def node_rec_def)
qed

lemma modified_none:
  "dv_ok w \<Longrightarrow> dv_ok (w\<lparr>v_modified := []\<rparr>)" "dv_rows (w\<lparr>v_modified := m\<rparr>) = dv_rows w"
  "dv_picked (w\<lparr>v_modified := m\<rparr>) = dv_picked w"
  by (simp_all add: dv_ok_def nodes_ok_def sel_ok_def recs_ok_def shows_ok_def dv_rows_def dv_picked_def node_rec_def)

lemma commitChanges_ok:
  assumes ok: "dv_ok v"
  shows "dv_ok (commitChanges v) \<and> dv_rows (commitChanges v) = dv_rows v \<and>
    dv_picked (commitChanges v) = dv_picked v \<and> v_log (commitChanges v) = v_log v \<and>
    v_multi (commitChanges v) = v_multi v \<and> v_single (commitChanges v) = v_single v \<and> v_store (commitChanges v) = v_store v"
proof -
  have "dv_ok (fold dv_commit rs v) \<and> dv_rows (fold dv_commit rs v) = dv_rows v \<and>
    dv_picked (fold dv_commit rs v) = dv_picked v \<and> v_log (fold dv_commit rs v) = v_log v \<and>
    v_multi (fold dv_commit rs v) = v_multi v \<and> v_single (fold dv_commit rs v) = v_single v \<and>
    v_store (fold dv_commit rs v) = v_store v" for rs
    using ok
  proof (induction rs arbitrary: v)
    case (Cons r rs)
    then show ?case using commit_ok [OF Cons.prems, of r] by simp
  qed simp
  from this [of "v_modified v"] show ?thesis
    by (simp add: commitChanges_def modified_none)
qed

lemma drop_at_nth:
  "i < length xs \<Longrightarrow> j < length xs - 1 \<Longrightarrow> drop_at i xs ! j = (if j < i then xs ! j else xs ! Suc j)"
  by (auto simp: drop_at_def nth_append min_def)

lemma map_drop_at: "map f (drop_at i xs) = drop_at i (map f xs)"
  by (simp add: drop_at_def take_map drop_map)

lemma set_drop_at: "distinct xs \<Longrightarrow> i < length xs \<Longrightarrow> set (drop_at i xs) = set xs - {xs ! i}"
  by (simp add: drop_at_filter set_diff_eq)

lemma remove_ok:
  assumes ok: "dv_ok v" and r: "r \<in> set (items (v_store v))"
  shows "dv_ok (dv_remove r v)" "dv_rows (dv_remove r v) = AList.delete (fst r) (dv_rows v)"
    "dv_picked (dv_remove r v) = filter (\<lambda>k. k \<noteq> fst r) (dv_picked v)"
    "\<not> v_multi v \<Longrightarrow> v_log (dv_remove r v) = v_log v @ (if fst r \<in> set (dv_picked v) then [[]] else [])"
    "v_multi (dv_remove r v) = v_multi v" "v_single (dv_remove r v) = v_single v"
    "items (v_store (dv_remove r v)) = AList.delete (fst r) (items (v_store v))"
proof -
  have o: "nodes_ok v" "sel_ok v" "recs_ok v" "shows_ok v" using ok by (simp_all add: dv_ok_def)
  obtain i where i: "index_of (items (v_store v)) r = Some i" "i < length (items (v_store v))" "items (v_store v) ! i = r"
    using index_of_in [OF r] by blast
  have len: "length (v_all v) = length (items (v_store v))" and da: "distinct (v_all v)" using o(1) by (simp_all add: nodes_ok_def)
  have si: "store_inv (v_store v)" using o(3) by (simp add: recs_ok_def)
  let ?s = "store_remove r (v_store v)" and ?n = "v_all v ! i" and ?u = "v\<lparr>v_store := store_remove r (v_store v)\<rparr>"
  have wf: "wf_dict (items (v_store v))" by (rule rstore.wf_rows [OF si])
  have it: "items ?s = AList.delete (fst r) (items (v_store v))" "store_inv ?s"
    using rstore.rows_remove [OF si r] rstore.inv_remove [OF si r] by simp_all
  have itd: "items ?s = drop_at i (items (v_store v))" using drop_at_keys [OF wf i(2)] i(3) it(1) by simp
  have nall: "?n \<in> set (v_all v)" using i(2) len by simp
  have rn: "node_rec v ?n = Some r" using node_rec_nth [OF o(1), of i] i len by simp
  have ps: "?n \<in> set (v_sel v) \<longleftrightarrow> fst r \<in> set (dv_picked v)" using picked_iff [OF ok nall] rn by simp
  define sel where "sel = filter (\<lambda>x. x \<noteq> ?n) (v_sel v)"
  have ds: "distinct (v_sel v)" "set (v_sel v) \<subseteq> set (v_all v)" using o(2) by (simp_all add: sel_ok_def)
  have selid: "?n \<notin> set (v_sel v) \<Longrightarrow> v_sel v = sel" unfolding sel_def by (rule filter_True [symmetric]) auto
  define log where "log = (if ?n \<in> set (v_sel v) then [map (map_option fst) (getRecords sel ?u)] else [])"
  obtain l where des: "deselect (getNode i ?u) ?u = ?u\<lparr>v_sel := sel, v_last := l, v_log := v_log v @ log\<rparr>"
  proof (cases "?n \<in> set (v_sel v)")
    case True
    let ?x = "?u\<lparr>v_sel := sel, v_last := (if v_last v = Some (v_index v ?n) then None else v_last v)\<rparr>"
    have "deselect (getNode i ?u) ?u = dv_fire ?x"
      using True i(2) len ds by (simp add: deselect_def getNode_def isSelected_iff removeElement_eq sel_def)
    also have "dv_fire ?x = ?x\<lparr>v_log := v_log v @ log\<rparr>"
      using True by (simp add: dv_fire_def getSelectedRecords_def getRecords_def log_def)
    finally show ?thesis using that by simp
  next
    case False
    then have "deselect (getNode i ?u) ?u = ?u" using i(2) len by (simp add: deselect_def getNode_def isSelected_iff)
    then show ?thesis using that [of "v_last v"] False selid by (simp add: log_def)
  qed
  let ?x = "?u\<lparr>v_sel := sel, v_last := l, v_log := v_log v @ log, v_all := drop_at i (v_all v)\<rparr>"
  define w where "w = updateIndexes i ?x"
  have e: "dv_remove r v = (if items ?s = [] then refresh w else w)"
    by (simp add: dv_remove_def i(1) dv_onRemove_def des Let_def w_def updateIndexes_def store_getCount_def)
  have f: "v_all w = drop_at i (v_all v)" "v_sel w = sel" "v_store w = ?s" "v_heap w = v_heap v" "v_text w = v_text v"
    "v_node w = v_node v" "v_fresh w = v_fresh v" "v_modified w = v_modified v" "v_multi w = v_multi v"
    "v_single w = v_single v" "v_log w = v_log v @ log"
    by (simp_all add: w_def updateIndexes_def)
  have il: "i < length (v_all v)" using i(2) len by simp
  have dd: "distinct (drop_at i (v_all v))" using da il by (simp add: drop_at_filter)
  have "v_index w (v_all w ! j) = j" if "j < length (v_all w)" for j
  proof -
    have "v_index ?x (v_all ?x ! q) = q" if "q < i" "q < length (v_all ?x)" for q
      using that o(1) il by (auto simp: drop_at_nth length_drop_at nodes_ok_def)
    then show ?thesis using updateIndexes_ok [of ?x i j] dd that f(1) by (simp add: w_def)
  qed
  moreover have "\<forall>n \<in> set (drop_at i (v_all v)). n < v_node v"
    using o(1) set_drop_at [OF da il] by (auto simp: nodes_ok_def)
  ultimately have n: "nodes_ok w" using dd len by (simp add: nodes_ok_def f itd length_drop_at il i(2))
  have "length sel \<le> length (v_sel v)" by (simp add: sel_def)
  moreover have "distinct sel" "set sel \<subseteq> set (v_sel v) - {?n}" "v_sel v = [] \<Longrightarrow> sel = []" using ds by (auto simp: sel_def)
  ultimately have s: "sel_ok w" using o(2) set_drop_at [OF da il] by (auto simp: sel_ok_def f)
  have "set (items ?s) \<subseteq> set (items (v_store v))" unfolding it(1) by (auto simp: AList.delete_eq)
  moreover have "distinct (map snd (items ?s))"
    using o(3) i(2) by (simp add: itd map_drop_at drop_at_filter recs_ok_def)
  ultimately have rc: "recs_ok w" using o(3) it(2) by (auto simp: recs_ok_def f)
  have "shows_ok w" using o(4) il i(2) len
    by (auto simp: shows_ok_def f itd length_drop_at drop_at_nth)
  then have okw: "dv_ok w" using n s rc by (simp add: dv_ok_def)
  have rows: "dv_rows w = AList.delete (fst r) (dv_rows v)"
    unfolding dv_rows_def f it AList.delete_eq filter_map comp_def
    by (rule arg_cong [where f = "map _"], rule filter_cong [OF refl]) auto
  have z: "zip (v_all w) (items (v_store w)) = drop_at i (zip (v_all v) (items (v_store v)))"
    using len by (simp add: f itd zip_drop_at)
  have wz: "distinct (map fst (zip (v_all v) (items (v_store v))))" using da len by simp
  have "zip (v_all w) (items (v_store w)) = AList.delete ?n (zip (v_all v) (items (v_store v)))"
    using drop_at_keys [OF wz, of i] il len z by simp
  then have nr: "node_rec w x = node_rec v x" if "x \<noteq> ?n" for x
    using that by (simp add: node_rec_def AList.delete_conv')
  have "dv_picked w = map (\<lambda>n. fst (the (node_rec v n))) sel"
    unfolding dv_picked_def f by (rule map_cong [OF refl]) (simp add: nr sel_def)
  also have "\<dots> = filter (\<lambda>k. k \<noteq> fst r) (dv_picked v)"
    unfolding dv_picked_def filter_map comp_def sel_def
    by (rule arg_cong [where f = "map _"], rule filter_cong [OF refl])
      (use node_rec_inj [OF ok _ nall] ds(2) rn in force)
  finally have p: "dv_picked w = filter (\<lambda>k. k \<noteq> fst r) (dv_picked v)" .
  have empty: "v_sel w = []" if "items ?s = []"
  proof -
    have "v_all w = []" using n that by (simp add: nodes_ok_def f)
    then show ?thesis using s by (simp add: sel_ok_def)
  qed
  note rf = refresh_ok [OF rc]
  show "dv_ok (dv_remove r v)" "dv_rows (dv_remove r v) = AList.delete (fst r) (dv_rows v)"
    "v_multi (dv_remove r v) = v_multi v" "v_single (dv_remove r v) = v_single v"
    "items (v_store (dv_remove r v)) = AList.delete (fst r) (items (v_store v))"
    using okw rows rf empty f it by (simp_all add: e)
  have "dv_picked w = []" if "items ?s = []" using empty [OF that] by (simp add: dv_picked_def)
  then show "dv_picked (dv_remove r v) = filter (\<lambda>k. k \<noteq> fst r) (dv_picked v)"
    using p rf(3) empty by (auto simp: e)
  have "log = (if fst r \<in> set (dv_picked v) then [[]] else [])" if "\<not> v_multi v"
  proof (cases "?n \<in> set (v_sel v)")
    case True
    then have "v_sel v = [?n]" using that o(2) by (cases "v_sel v"; cases "tl (v_sel v)") (auto simp: sel_ok_def)
    then have "sel = []" by (simp add: sel_def)
    then show ?thesis using True ps by (simp add: log_def getRecords_def)
  next
    case False
    then show ?thesis using ps by (simp add: log_def)
  qed
  then show "\<not> v_multi v \<Longrightarrow> v_log (dv_remove r v) = v_log v @ (if fst r \<in> set (dv_picked v) then [[]] else [])"
    using rf(4) empty f by (simp add: e)
qed

section \<open>Events\<close>

text \<open>What can happen to a list: its owner inserts, removes or edits a record by its id or commits the
  changes, the user clicks a row, with or without shift and control, or beside the rows, or the owner
  selects a row.\<close>

datatype 'd dv_event =
    Insert nat string 'd
  | Remove string
  | Edit string "'d \<Rightarrow> 'd"
  | Commit
  | Click nat bool bool
  | ClickBeside
  | SelectRow nat

definition find_rec :: "string \<Rightarrow> 'd dview \<Rightarrow> (string \<times> nat) option" where
  "find_rec k v = store_getById (v_store v) k"

fun dv_handle :: "'d dv_event \<Rightarrow> 'd dview \<Rightarrow> 'd dview" where
  "dv_handle (Insert i k d) v = (if find_rec k v = None \<and> i \<le> store_getCount (v_store v) then dv_insert i k d v else v)"
| "dv_handle (Remove k) v = (case find_rec k v of None \<Rightarrow> v | Some r \<Rightarrow> dv_remove r v)"
| "dv_handle (Edit k f) v = (case find_rec k v of None \<Rightarrow> v | Some r \<Rightarrow> dv_edit f r v)"
| "dv_handle Commit v = commitChanges v"
| "dv_handle (Click i shift ctrl) v = (if i < store_getCount (v_store v) then onItemClick i shift ctrl v else v)"
| "dv_handle ClickBeside v = onContainerClick v"
| "dv_handle (SelectRow i) v = select (getNode i v) False False v"

text \<open>The list as its owner and the user see it: rows and the ids selected.  Selection is single.\<close>

fun list_spec :: "'d dv_event \<Rightarrow> 'd dict \<times> string list \<Rightarrow> 'd dict \<times> string list" where
  "list_spec (Insert i k d) (rs, sel) =
     (if map_of rs k = None \<and> i \<le> length rs then (put_at i (k, d) rs, sel) else (rs, sel))"
| "list_spec (Remove k) (rs, sel) = (AList.delete k rs, filter (\<lambda>x. x \<noteq> k) sel)"
| "list_spec (Edit k f) (rs, sel) = (set_row k f rs, sel)"
| "list_spec Commit (rs, sel) = (rs, sel)"
| "list_spec (Click i shift ctrl) (rs, sel) =
     (rs, if i < length rs then if ctrl \<and> sel = [fst (rs ! i)] then [] else [fst (rs ! i)] else sel)"
| "list_spec ClickBeside (rs, sel) = (rs, [])"
| "list_spec (SelectRow i) (rs, sel) = (rs, if i < length rs then [fst (rs ! i)] else [])"

lemma find_rec_rows:
  assumes "dv_ok v"
  shows "find_rec k v = map_option (Pair k) (map_of (items (v_store v)) k)"
    "map_of (dv_rows v) k = map_option (v_heap v) (map_of (items (v_store v)) k)"
    "find_rec k v = Some r \<Longrightarrow> r \<in> set (items (v_store v)) \<and> fst r = k"
proof -
  have si: "store_inv (v_store v)" using assms by (simp add: dv_ok_def recs_ok_def)
  show f: "find_rec k v = map_option (Pair k) (map_of (items (v_store v)) k)"
    using rstore.getById_rows [OF si] by (simp add: find_rec_def)
  show "map_of (dv_rows v) k = map_option (v_heap v) (map_of (items (v_store v)) k)"
    by (simp add: dv_rows_def map_of_map)
  show "find_rec k v = Some r \<Longrightarrow> r \<in> set (items (v_store v)) \<and> fst r = k"
    using map_of_SomeD [of "items (v_store v)" k] by (auto simp: f)
qed

lemma rows_length: "length (dv_rows v) = store_getCount (v_store v)"
  by (simp add: dv_rows_def store_getCount_def)

lemma single_picked:
  assumes "dv_ok v" "\<not> v_multi v"
  shows "length (dv_picked v) \<le> 1"
  using assms by (simp add: dv_ok_def sel_ok_def dv_picked_def)

lemma select_row_ok:
  assumes ok: "dv_ok v" and m: "\<not> v_multi v" "v_single v"
  shows "dv_ok (select (getNode i v) False False v)" "dv_rows (select (getNode i v) False False v) = dv_rows v"
    "dv_picked (select (getNode i v) False False v) = (if i < length (dv_rows v) then [fst (dv_rows v ! i)] else [])"
    "\<not> v_multi (select (getNode i v) False False v) \<and> v_single (select (getNode i v) False False v)"
    "v_log (select (getNode i v) False False v) = v_log v @ (if i < length (dv_rows v) then [[Some (fst (dv_rows v ! i))]] else [])"
proof -
  let ?w = "select (getNode i v) False False v"
  have "dv_ok ?w \<and> dv_rows ?w = dv_rows v \<and> dv_picked ?w = (if i < length (dv_rows v) then [fst (dv_rows v ! i)] else []) \<and>
    (\<not> v_multi ?w \<and> v_single ?w) \<and>
    v_log ?w = v_log v @ (if i < length (dv_rows v) then [[Some (fst (dv_rows v ! i))]] else [])"
  proof (cases "i < length (dv_rows v)")
    case True
    obtain n where n: "getNode i v = Some n" "n \<in> set (v_all v)" "fst (the (node_rec v n)) = fst (dv_rows v ! i)"
      using getNode_rows [OF ok True] by blast
    note s = select_ok [OF ok n(2), of False False]
    have p: "dv_picked (select (Some n) False False v) = [fst (dv_rows v ! i)]" using s(3) m n(3) by (simp add: Let_def)
    let ?c = "clearSelections True v"
    note c = clearSelections_ok [OF ok, of True]
    have e: "select (Some n) False False v = dv_fire (?c\<lparr>v_sel := v_sel ?c @ [n], v_last := Some (v_index ?c n)\<rparr>)"
      using c(4) by (simp add: select_def Let_def isSelected_iff)
    have "dv_ok (?c\<lparr>v_sel := v_sel ?c @ [n], v_last := Some (v_index ?c n)\<rparr>)" using s(1) m by (simp add: e fire_ok)
    then have "v_log (select (Some n) False False v) = v_log v @ [map Some (dv_picked (select (Some n) False False v))]"
      unfolding e by (subst fire_log) (simp_all add: c(5))
    then show ?thesis using s m n p True by simp
  next
    case False
    then have "?w = clearSelections True v" using getNode_none [OF ok, of i] by (simp add: select_def)
    then show ?thesis using clearSelections_ok [OF ok, of True] m False by simp
  qed
  then show "dv_ok ?w" "dv_rows ?w = dv_rows v" "dv_picked ?w = (if i < length (dv_rows v) then [fst (dv_rows v ! i)] else [])"
    "\<not> v_multi ?w \<and> v_single ?w" "v_log ?w = v_log v @ (if i < length (dv_rows v) then [[Some (fst (dv_rows v ! i))]] else [])"
    by blast+
qed

text \<open>C7: A list view with single selection implements a list of rows with a current row.  For every
  event, what the store holds and what is selected afterwards are what the abstract list has; there is one
  node for each row, in order, showing the row as it is; and the ids of the selected rows never change when
  rows are put in, edited or committed around them.\<close>

theorem view_refines_list:
  assumes ok: "dv_ok v" and m: "\<not> v_multi v" "v_single v"
  shows "dv_ok (dv_handle e v) \<and> \<not> v_multi (dv_handle e v) \<and> v_single (dv_handle e v) \<and>
    (dv_rows (dv_handle e v), dv_picked (dv_handle e v)) = list_spec e (dv_rows v, dv_picked v)"
proof (cases e)
  case (Insert i k d)
  have "fst ` set (dv_rows v) = fst ` set (items (v_store v))" by (force simp: dv_rows_def)
  then have k: "find_rec k v = None \<longleftrightarrow> k \<notin> fst ` set (dv_rows v)"
    using find_rec_rows(1) [OF ok, of k] by (simp add: map_of_eq_None_iff)
  then show ?thesis using insert_ok [OF ok, of k i d] m ok
    by (simp add: Insert rows_length [symmetric] map_of_eq_None_iff)
next
  case (Remove k)
  show ?thesis
  proof (cases "find_rec k v")
    case None
    then have n: "k \<notin> fst ` set (items (v_store v))"
      using find_rec_rows(1) [OF ok, of k] by (simp add: map_of_eq_None_iff)
    moreover have f: "fst ` set (dv_rows v) = fst ` set (items (v_store v))" by (force simp: dv_rows_def)
    moreover have "k \<notin> set (dv_picked v)"
    proof
      assume "k \<in> set (dv_picked v)"
      then obtain x where x: "x \<in> set (v_all v)" "k = fst (the (node_rec v x))"
        using ok by (auto simp: dv_picked_def dv_ok_def sel_ok_def)
      then show False using n node_rec_index [of v x] ok by (force simp: dv_ok_def)
    qed
    then have "filter (\<lambda>x. x \<noteq> k) (dv_picked v) = dv_picked v" by (auto simp: filter_id_conv)
    ultimately show ?thesis using None Remove ok m by (simp add: AList.delete_idem)
  next
    case (Some r)
    then show ?thesis using remove_ok [OF ok, of r] find_rec_rows(3) [OF ok Some] Remove m by simp
  qed
next
  case (Edit k f)
  show ?thesis
  proof (cases "find_rec k v")
    case None
    then have "k \<notin> fst ` set (dv_rows v)"
      using find_rec_rows(1,2) [OF ok, of k] by (simp add: map_of_eq_None_iff [symmetric])
    then have "set_row k f (dv_rows v) = dv_rows v" by (intro set_row_id) force
    then show ?thesis using None Edit ok m by simp
  next
    case (Some r)
    then show ?thesis using edit_ok [OF ok, of r f] find_rec_rows(3) [OF ok Some] Edit m by simp
  qed
next
  case Commit
  then show ?thesis using commitChanges_ok [OF ok] m by simp
next
  case (Click i shift ctrl)
  show ?thesis
  proof (cases "i < length (dv_rows v)")
    case True
    obtain n where n: "getNode i v = Some n" "n \<in> set (v_all v)" "fst (the (node_rec v n)) = fst (dv_rows v ! i)"
      using getNode_rows [OF ok True] by blast
    have len: "dv_picked v = [] \<or> (\<exists>k. dv_picked v = [k])"
      using single_picked [OF ok m(1)] by (cases "dv_picked v") auto
    have sel: "isSelected (Some n) v \<longleftrightarrow> dv_picked v = [fst (dv_rows v ! i)]"
      using picked_iff [OF ok n(2)] n(3) len by (auto simp: isSelected_iff)
    have f: "v_multi (deselect x v) = v_multi v" "v_single (deselect x v) = v_single v" for x
      by (auto simp: deselect_def split: option.split)
    show ?thesis using deselect_ok [OF ok n(2)] select_row_ok [OF ok m, of i] n True m sel f
      by (auto simp: Click rows_length [symmetric] onItemClick_def doSingleSelection_def)
  next
    case False
    then show ?thesis using ok m by (simp add: Click rows_length [symmetric])
  qed
next
  case ClickBeside
  then show ?thesis using clearSelections_ok [OF ok, of False] m by (simp add: onContainerClick_def)
next
  case (SelectRow i)
  then show ?thesis using select_row_ok [OF ok m, of i] by simp
qed

definition dv_new :: "bool \<Rightarrow> 'd \<Rightarrow> 'd dview" where
  "dv_new single d = \<lparr>v_store = mc_empty, v_heap = \<lambda>_. d, v_fresh = 0, v_dirty = \<lambda>_. False, v_modified = [],
     v_all = [], v_index = \<lambda>_. 0, v_text = \<lambda>_. d, v_node = 0, v_sel = [], v_last = None,
     v_multi = \<not> single, v_single = single, v_simple = False, v_log = []\<rparr>"

lemma dv_new_ok: "dv_ok (dv_new s d)" "dv_rows (dv_new s d) = []" "dv_picked (dv_new s d) = []" "v_log (dv_new s d) = []"
  "v_multi (dv_new s d) = (\<not> s)" "v_single (dv_new s d) = s"
  by (simp_all add: dv_new_def dv_ok_def nodes_ok_def sel_ok_def recs_ok_def shows_ok_def dv_rows_def dv_picked_def store_empty)

theorem view_refines_list_witness:
  "dv_rows (dv_handle (Insert 0 ''a'' (1 :: int)) (dv_new True 0)) = [(''a'', 1)]"
  using view_refines_list [OF dv_new_ok(1), of True "0 :: int" "Insert 0 ''a'' 1"]
  by (simp add: dv_new_ok put_at_def)

end
