(* ===== verification/TorrentGrid.thy ===== *)
theory TorrentGrid
  imports GridColumns ExtStore
begin

text \<open>
  \<open>deluge-all/TorrentGrid.js\<close>: the list of torrents, folding a difference into it
  (\<open>merge\<close>), bringing the rows in step with it (\<open>update\<close>), the labels hidden from the view and
  the events that take rows away.  A torrent that is new becomes the \<open>data\<close> of its record as the
  very object that arrived, so a row and the last answer may share an object: the objects live in
  a heap, and rows and answers hold addresses.  A record is its id and the address of its data;
  which of its fields were edited is forgotten by \<open>commitChanges\<close> at the end of every update and
  is not kept.
\<close>

section \<open>Encoding\<close>

text \<open>\<open>Ext.encode\<close>, which \<open>Record.set\<close> compares values by.\<close>

definition hex_char :: "int \<Rightarrow> char" where
  "hex_char n = (if n < 10 then digit_char n else char_of (87 + n))"

definition json_char :: "char \<Rightarrow> string" where
  "json_char c =
     (if c = CHR 0x08 then [CHR 0x5C, CHR ''b'']
      else if c = CHR 0x09 then [CHR 0x5C, CHR ''t'']
      else if c = CHR 0x0A then [CHR 0x5C, CHR ''n'']
      else if c = CHR 0x0C then [CHR 0x5C, CHR ''f'']
      else if c = CHR 0x0D then [CHR 0x5C, CHR ''r'']
      else if c = CHR 0x22 then [CHR 0x5C, CHR 0x22]
      else if c = CHR 0x5C then [CHR 0x5C, CHR 0x5C]
      else if of_char c < (32 :: int)
      then [CHR 0x5C, CHR ''u'', CHR ''0'', CHR ''0'', hex_char (of_char c div 16), hex_char (of_char c mod 16)]
      else [c])"

definition json_string :: "string \<Rightarrow> string" where
  "json_string s = CHR 0x22 # concat (map json_char s) @ [CHR 0x22]"

fun json_encode :: "jsval \<Rightarrow> string" where
  "json_encode Undefined = ''null''"
| "json_encode Null = ''null''"
| "json_encode (Bool b) = (if b then ''true'' else ''false'')"
| "json_encode (Num n) = (case n of Fin _ \<Rightarrow> num_string n | _ \<Rightarrow> ''null'')"
| "json_encode (Str s) = json_string s"
| "json_encode (Arr i vs) =
     ''['' @ join '','' (map json_encode (filter (\<lambda>v. v \<noteq> Undefined) vs)) @ '']''"
| "json_encode (Obj i kvs) =
     ''{'' @ join '','' (map (\<lambda>(k, v). json_string k @ '':'' @ json_encode v)
        (filter (\<lambda>(k, v). v \<noteq> Undefined) kvs)) @ ''}''"

text \<open>The test at the top of \<open>Record.set\<close>.\<close>

definition same_encoding :: "jsval \<Rightarrow> jsval \<Rightarrow> bool" where
  "same_encoding old value =
     (if isPrimitive value then js_string old = js_string value
      else json_encode old = json_encode value)"

definition record_set :: "string \<Rightarrow> jsval \<Rightarrow> jsval dict \<Rightarrow> jsval dict" where
  "record_set name value d =
     (if same_encoding (js_get d name) value then d else AList.update name value d)"

section \<open>The grid\<close>

record grid =
  heap :: "nat \<Rightarrow> jsval dict"
  nextobj :: nat
  store :: "nat store"
  gtorrents :: "nat dict"
  lastTorrents :: "nat dict option"
  hiddenLabels :: "bool dict"
  labelChoices :: "bool dict"
  sortInfo :: "(string \<times> bool) option"
  selected :: "string list"

definition grid_new :: grid where
  "grid_new = \<lparr>heap = \<lambda>_. [], nextobj = 0, store = mc_empty, gtorrents = [], lastTorrents = None,
     hiddenLabels = [], labelChoices = [], sortInfo = None, selected = []\<rparr>"

text \<open>Decoding an answer puts its torrents in fresh objects.\<close>

definition alloc :: "jsval dict dict \<Rightarrow> grid \<Rightarrow> nat dict \<times> grid" where
  "alloc answer g =
     (let n = nextobj g; m = length answer
      in (zip (map fst answer) [n..<n + m],
          g\<lparr>heap := \<lambda>a. if n \<le> a \<and> a < n + m then snd (answer ! (a - n)) else heap g a,
            nextobj := n + m\<rparr>))"

subsection \<open>Folding a difference\<close>

definition merge1 :: "string \<times> nat \<Rightarrow> nat dict \<times> (nat \<Rightarrow> jsval dict) \<Rightarrow> nat dict \<times> (nat \<Rightarrow> jsval dict)" where
  "merge1 = (\<lambda>(i, fields) (all, h).
     case map_of all i of
       None \<Rightarrow> (AList.update i fields all, h)
     | Some a \<Rightarrow> (all, h(a := put_all (h a) (h fields))))"

definition merge :: "nat dict option \<Rightarrow> string list option \<Rightarrow> grid \<Rightarrow> nat dict \<times> grid" where
  "merge changed removed g =
     (let all = (case lastTorrents g of None \<Rightarrow> [] | Some d \<Rightarrow> d);
          all = delete_all (case removed of None \<Rightarrow> [] | Some is \<Rightarrow> is) all;
          (all, h) = fold merge1 (case changed of None \<Rightarrow> [] | Some d \<Rightarrow> d) (all, heap g)
      in (all, g\<lparr>heap := h, lastTorrents := map_option (\<lambda>_. all) (lastTorrents g)\<rparr>))"

subsection \<open>Hidden labels\<close>

text \<open>\<open>states\<close> is what the sidebar's filters select, \<open>None\<close> without a sidebar.\<close>

definition asked_label :: "jsval dict option \<Rightarrow> jsval" where
  "asked_label states =
     (case states of
        None \<Rightarrow> Null
      | Some d \<Rightarrow> if js_get d ''label'' \<noteq> Undefined then js_get d ''label'' else Null)"

definition label_hidden :: "bool dict \<Rightarrow> string \<Rightarrow> bool" where
  "label_hidden hid name = (map_of hid name = Some True)"

definition withoutHiddenLabels :: "jsval dict option \<Rightarrow> nat dict option \<Rightarrow> grid \<Rightarrow> nat dict option" where
  "withoutHiddenLabels states torrents g =
     (let any = list_ex snd (hiddenLabels g)
      in if \<not> any then torrents
         else map_option (filter (\<lambda>(i, a).
                let label = js_or (js_get (heap g a) ''label'') (Str [])
                in \<not> label_hidden (hiddenLabels g) (js_string label) \<or> strict_eq label (asked_label states)))
              torrents)"

subsection \<open>Updating the rows\<close>

definition edit_fields :: "jsval dict \<Rightarrow> jsval dict \<Rightarrow> jsval dict" where
  "edit_fields torrent d =
     fold (\<lambda>(k, v) d. if \<not> loose_eq (js_get d k) v then record_set k v d else d) torrent d"

definition edit_record :: "nat \<Rightarrow> nat \<Rightarrow> grid \<Rightarrow> grid" where
  "edit_record a b g = g\<lparr>heap := (heap g)(a := edit_fields (heap g b) (heap g a))\<rparr>"

fun update_loop :: "nat dict \<Rightarrow> grid \<Rightarrow> (string \<times> nat) list \<Rightarrow> jserr + grid \<times> (string \<times> nat) list" where
  "update_loop [] g new = Inr (g, new)"
| "update_loop ((t, b) # ts) g new =
     (if map_of (gtorrents g) t \<noteq> None
      then case store_getById (store g) t of
             None \<Rightarrow> Inl TypeError
           | Some (_, a) \<Rightarrow> update_loop ts (edit_record a b g) new
      else update_loop ts (g\<lparr>gtorrents := AList.update t 1 (gtorrents g)\<rparr>) (new @ [(t, b)]))"

definition remove_gone :: "nat dict \<Rightarrow> grid \<Rightarrow> grid" where
  "remove_gone ts g =
     fold (\<lambda>r g. if map_of ts (fst r) \<noteq> None then g
                 else g\<lparr>store := store_remove r (store g), gtorrents := AList.delete (fst r) (gtorrents g)\<rparr>)
       (items (store g)) g"

definition wipe_rows :: "grid \<Rightarrow> grid" where
  "wipe_rows g = g\<lparr>store := store_removeAll (store g), gtorrents := []\<rparr>"

text \<open>\<open>store.sort(field, direction)\<close>: nothing for a field the store does not have.\<close>

definition row_after :: "field \<Rightarrow> bool \<Rightarrow> (nat \<Rightarrow> jsval dict) \<Rightarrow> string \<times> nat \<Rightarrow> string \<times> nat \<Rightarrow> bool" where
  "row_after f desc h r1 r2 = (0 < sort_compare (fsort f) desc (fname f) (h (snd r1)) (h (snd r2)))"

definition sort_rows :: "grid \<Rightarrow> grid" where
  "sort_rows g =
     (case sortInfo g of
        None \<Rightarrow> g
      | Some (n, desc) \<Rightarrow>
          (case store_field n of
             None \<Rightarrow> g
           | Some f \<Rightarrow> g\<lparr>store := mc_sort (row_after f desc (heap g)) (store g)\<rparr>))"

text \<open>An exception leaves the handler with the list half updated; only that it is raised is modelled.\<close>

definition update :: "nat dict option \<Rightarrow> bool \<Rightarrow> jsval dict option \<Rightarrow> grid \<Rightarrow> jserr + grid" where
  "update torrents wipe states g =
     (let g = g\<lparr>lastTorrents := torrents\<rparr>;
          torrents = withoutHiddenLabels states torrents g;
          g = (if wipe then wipe_rows g else g)
      in case torrents of
           None \<Rightarrow> if items (store g) \<noteq> [] then Inl TypeError else Inr (sort_rows g)
         | Some ts \<Rightarrow>
             (case update_loop ts g [] of
                Inl e \<Rightarrow> Inl e
              | Inr (g, new) \<Rightarrow>
                  Inr (sort_rows (remove_gone ts (g\<lparr>store := store_add new (store g)\<rparr>)))))"

subsection \<open>The other operations\<close>

definition redraw :: "jsval dict option \<Rightarrow> grid \<Rightarrow> jserr + grid" where
  "redraw states g =
     (case lastTorrents g of None \<Rightarrow> Inr g | Some ts \<Rightarrow> update (Some ts) True states g)"

definition hide_by_default :: "jsval \<Rightarrow> bool" where
  "hide_by_default options =
     (case options of Obj _ kvs \<Rightarrow> truthy (js_get kvs ''hide_by_default'') | _ \<Rightarrow> False)"

definition loadHiddenLabels1 :: "string \<times> jsval \<Rightarrow> grid \<times> bool \<Rightarrow> grid \<times> bool" where
  "loadHiddenLabels1 = (\<lambda>(name, options) (g, changed).
     if map_of (labelChoices g) name = Some True then (g, changed)
     else if hide_by_default options \<and> \<not> label_hidden (hiddenLabels g) name
     then (g\<lparr>hiddenLabels := AList.update name True (hiddenLabels g)\<rparr>, True)
     else (g, changed))"

text \<open>The success of \<open>label.get_config\<close>; its failure does nothing.\<close>

definition loadHiddenLabels :: "jsval dict \<Rightarrow> jsval dict option \<Rightarrow> grid \<Rightarrow> jserr + grid" where
  "loadHiddenLabels labels states g =
     (let (g, changed) = fold loadHiddenLabels1 labels (g, False)
      in if changed then redraw states g else Inr g)"

definition setLabelHidden :: "string \<Rightarrow> bool \<Rightarrow> jsval dict option \<Rightarrow> grid \<Rightarrow> jserr + grid" where
  "setLabelHidden name hid states g =
     (let g = g\<lparr>labelChoices := AList.update name True (labelChoices g)\<rparr>;
          g = g\<lparr>hiddenLabels := if hid then AList.update name True (hiddenLabels g)
                               else AList.delete name (hiddenLabels g)\<rparr>
      in redraw states g)"

definition showEveryLabel :: "jsval dict option \<Rightarrow> grid \<Rightarrow> jserr + grid" where
  "showEveryLabel states g =
     redraw states (g\<lparr>labelChoices := fold (\<lambda>(name, _). AList.update name True) (hiddenLabels g) (labelChoices g),
                      hiddenLabels := []\<rparr>)"

record label_item =
  item_text :: string
  item_checked :: bool
  item_label :: string

text \<open>The items of the Label column's header menu, from the sidebar's label states; an empty list is
  drawn as the disabled item \<open>No labels yet\<close>, any other is followed by \<open>Show all\<close>.\<close>

definition label_menu :: "'v dict option \<Rightarrow> grid \<Rightarrow> label_item list" where
  "label_menu states g =
     map (\<lambda>(name, _). \<lparr>item_text = (if name = [] then gettext ''No Label'' else name),
                       item_checked = (\<not> label_hidden (hiddenLabels g) name), item_label = name\<rparr>)
       (filter (\<lambda>(name, _). name \<noteq> ''All'') (case states of None \<Rightarrow> [] | Some d \<Rightarrow> d))"

definition grid_onDisconnect :: "grid \<Rightarrow> grid" where
  "grid_onDisconnect g = wipe_rows g"

definition onTorrentRemoved :: "string \<Rightarrow> grid \<Rightarrow> grid" where
  "onTorrentRemoved t g =
     (let g = (case store_getById (store g) t of
                 None \<Rightarrow> g
               | Some r \<Rightarrow> g\<lparr>selected := filter (\<lambda>i. i \<noteq> t) (selected g), store := store_remove r (store g)\<rparr>)
      in g\<lparr>gtorrents := AList.delete t (gtorrents g)\<rparr>)"

definition onTorrentsRemoved :: "string list \<Rightarrow> grid \<Rightarrow> grid" where
  "onTorrentsRemoved torrentIds g = fold onTorrentRemoved torrentIds g"

definition getTorrent :: "nat \<Rightarrow> grid \<Rightarrow> (string \<times> nat) option" where
  "getTorrent index g = store_getAt (store g) index"

definition getSelectedIds :: "grid \<Rightarrow> string list" where
  "getSelectedIds g = fold (\<lambda>r ids. ids @ [r]) (selected g) []"

definition getSelectedId :: "grid \<Rightarrow> jserr + string" where
  "getSelectedId g = (case selected g of [] \<Rightarrow> Inl TypeError | i # _ \<Rightarrow> Inr i)"

section \<open>Invariant\<close>

abbreviation rows :: "grid \<Rightarrow> (string \<times> nat) list" where
  "rows g \<equiv> items (store g)"

text \<open>The objects of an answer exist, are distinct, and one that is the data of a row is so under its
  own id.\<close>

definition fits :: "nat dict \<Rightarrow> grid \<Rightarrow> bool" where
  "fits ts g \<longleftrightarrow> wf_dict ts \<and> distinct (map snd ts) \<and>
     (\<forall>(i, b) \<in> set ts. b < nextobj g \<and> (\<forall>(j, a) \<in> set (rows g). a = b \<longrightarrow> j = i))"

definition grid_inv :: "grid \<Rightarrow> bool" where
  "grid_inv g \<longleftrightarrow> store_inv (store g) \<and> fst ` set (gtorrents g) = fst ` set (rows g) \<and>
     distinct (map snd (rows g)) \<and> (\<forall>(i, a) \<in> set (rows g). a < nextobj g) \<and>
     (\<forall>a. wf_dict (heap g a)) \<and> (\<forall>ts. lastTorrents g = Some ts \<longrightarrow> fits ts g)"

text \<open>What a field of a row may differ from the field of the answer by: nothing that \<open>==\<close> sees or
  that their encodings show.\<close>

definition agrees :: "jsval \<Rightarrow> jsval \<Rightarrow> bool" where
  "agrees old value \<longleftrightarrow> old = value \<or> loose_eq old value \<or> same_encoding old value"

lemma agrees_refl [simp]: "agrees v v"
  by (simp add: agrees_def)

lemma same_encoding_refl [simp]: "same_encoding v v"
  by (simp add: same_encoding_def)

lemma wf_record_set: "wf_dict d \<Longrightarrow> wf_dict (record_set k v d)"
  by (simp add: record_set_def AList.distinct_update)

lemma wf_edit_fields: "wf_dict d \<Longrightarrow> wf_dict (edit_fields t d)"
  unfolding edit_fields_def
  by (induction t arbitrary: d) (auto simp: wf_record_set)

lemma record_set_get: "js_get (record_set k v d) k' =
    (if k' = k \<and> \<not> same_encoding (js_get d k) v then v else js_get d k')"
  by (simp add: record_set_def get_update)

lemma edit_fields_get:
  "wf_dict t \<Longrightarrow> js_get (edit_fields t d) k =
     (case map_of t k of
        None \<Rightarrow> js_get d k
      | Some v \<Rightarrow> if agrees (js_get d k) v then js_get d k else v)"
proof (induction t arbitrary: d)
  case Nil
  then show ?case by (simp add: edit_fields_def)
next
  case (Cons x t)
  obtain k0 v0 where x: "x = (k0, v0)" by (cases x)
  let ?d = "if \<not> loose_eq (js_get d k0) v0 then record_set k0 v0 d else d"
  have e: "edit_fields (x # t) d = edit_fields t ?d" by (simp add: edit_fields_def x)
  have "map_of t k0 = None" using Cons.prems x by (simp add: map_of_eq_None_iff)
  moreover have "js_get ?d k = (if k = k0 \<and> \<not> agrees (js_get d k0) v0 then v0 else js_get d k)"
    by (auto simp: record_set_get agrees_def)
  ultimately show ?case
    using Cons.IH [of ?d] Cons.prems unfolding e by (auto simp: x split: option.splits)
qed

lemma edit_fields_agrees: "wf_dict t \<Longrightarrow> map_of t k = Some v \<Longrightarrow> agrees (js_get (edit_fields t d) k) v"
  by (simp add: edit_fields_get)

lemma edit_fields_noop:
  assumes "\<And>k v. (k, v) \<in> set t \<Longrightarrow> js_get d k = v"
  shows "edit_fields t d = d"
proof -
  have "fold (\<lambda>(k, v) d. if \<not> loose_eq (js_get d k) v then record_set k v d else d) t d = d"
    using assms
  proof (induction t)
    case (Cons x t)
    obtain k v where x: "x = (k, v)" by (cases x)
    have v: "v = js_get d k" using Cons.prems [of k v] x by simp
    have "(if \<not> loose_eq (js_get d k) v then record_set k v d else d) = d" by (simp add: v record_set_def)
    then show ?case using Cons x by simp
  qed simp
  then show ?thesis by (simp add: edit_fields_def)
qed

lemma edit_fields_self: "wf_dict d \<Longrightarrow> edit_fields d d = d"
  by (rule edit_fields_noop) (simp add: js_get_def)

lemma edit_record_simps [simp]:
  "store (edit_record a b g) = store g" "gtorrents (edit_record a b g) = gtorrents g"
  "lastTorrents (edit_record a b g) = lastTorrents g" "hiddenLabels (edit_record a b g) = hiddenLabels g"
  "nextobj (edit_record a b g) = nextobj g" "labelChoices (edit_record a b g) = labelChoices g"
  "sortInfo (edit_record a b g) = sortInfo g" "selected (edit_record a b g) = selected g"
  by (simp_all add: edit_record_def)

text \<open>The loop over the answer: it fails on no row, writes the fields of each known torrent into its
  row, and leaves the answer's objects as they arrived.\<close>

definition loop_result :: "nat dict \<Rightarrow> nat dict \<Rightarrow> grid \<Rightarrow> (string \<times> nat) list \<Rightarrow> (nat \<Rightarrow> jsval dict) \<Rightarrow> nat dict \<Rightarrow> bool" where
  "loop_result all ts g new h gt \<longleftrightarrow>
     update_loop ts g new =
       Inr (g\<lparr>heap := h, gtorrents := gt\<rparr>, new @ filter (\<lambda>(t, b). t \<notin> fst ` set (rows g)) ts) \<and>
     fst ` set gt = fst ` set (gtorrents g) \<union> fst ` set ts \<and>
     (\<forall>(i, b) \<in> set all. h b = heap g b) \<and> (\<forall>a. wf_dict (h a)) \<and>
     (\<forall>(i, a) \<in> set (rows g). h a =
        (case map_of ts i of None \<Rightarrow> heap g a | Some b \<Rightarrow> edit_fields (heap g b) (heap g a)))"

text \<open>What the loop needs: rows with ids and addresses of their own, the torrents it has counted
  among the rows' ids, and an answer whose objects are not other torrents' rows.\<close>

definition loop_ready :: "nat dict \<Rightarrow> nat dict \<Rightarrow> grid \<Rightarrow> bool" where
  "loop_ready all ts g \<longleftrightarrow>
     set ts \<subseteq> set all \<and> wf_dict ts \<and> fits all g \<and> store_inv (store g) \<and>
     distinct (map snd (rows g)) \<and> (\<forall>a. wf_dict (heap g a)) \<and>
     (\<forall>t \<in> fst ` set (rows g). map_of (gtorrents g) t \<noteq> None) \<and>
     (\<forall>t \<in> fst ` set ts. map_of (gtorrents g) t \<noteq> None \<longrightarrow> t \<in> fst ` set (rows g))"

lemma update_loop_ok: "loop_ready all ts g \<Longrightarrow> \<exists>h gt. loop_result all ts g new h gt"
proof (induction ts arbitrary: g new)
  case Nil
  then show ?case
    by (intro exI [of _ "heap g"] exI [of _ "gtorrents g"]) (auto simp: loop_result_def loop_ready_def)
next
  case (Cons x ts)
  obtain t b where x: "x = (t, b)" by (cases x)
  note pr = Cons.prems [unfolded loop_ready_def]
  have tb: "(t, b) \<in> set all" "t \<notin> fst ` set ts" using pr x by auto
  show ?case
  proof (cases "map_of (gtorrents g) t")
    case None
    let ?g = "g\<lparr>gtorrents := AList.update t 1 (gtorrents g)\<rparr>"
    have ne: "t' \<noteq> t" if "t' \<in> fst ` set ts" for t' using tb(2) that by metis
    have "fits all ?g" using pr by (simp add: fits_def)
    moreover have "\<forall>t' \<in> fst ` set ts. map_of (gtorrents ?g) t' \<noteq> None \<longrightarrow> t' \<in> fst ` set (rows ?g)"
      using pr ne by (simp add: AList.update_conv')
    moreover have "\<forall>t \<in> fst ` set (rows ?g). map_of (gtorrents ?g) t \<noteq> None"
      using pr by (simp add: AList.update_conv')
    ultimately have "loop_ready all ts ?g" using pr unfolding loop_ready_def by simp
    then obtain h gt where l: "loop_result all ts ?g (new @ [(t, b)]) h gt"
      using Cons.IH by blast
    note l = l [unfolded loop_result_def]
    have t: "t \<notin> fst ` set (rows g)" using None pr by blast
    have "loop_result all (x # ts) g new h gt"
      unfolding loop_result_def
    proof (intro conjI)
      show "update_loop (x # ts) g new = Inr (g\<lparr>heap := h, gtorrents := gt\<rparr>,
            new @ filter (\<lambda>(t, b). t \<notin> fst ` set (rows g)) (x # ts))"
        using l None t by (simp add: x)
      have "fst ` set gt = fst ` set (AList.update t 1 (gtorrents g)) \<union> fst ` set ts" using l by simp
      then show "fst ` set gt = fst ` set (gtorrents g) \<union> fst ` set (x # ts)"
        by (auto simp: x AList.dom_update)
      show "\<forall>(i, a) \<in> set (rows g). h a = (case map_of (x # ts) i of None \<Rightarrow> heap g a
             | Some b \<Rightarrow> edit_fields (heap g b) (heap g a))"
      proof (clarify)
        fix i a assume ia: "(i, a) \<in> set (rows g)"
        then have "i \<noteq> t" using t by (metis fst_conv imageI)
        then show "h a = (case map_of (x # ts) i of None \<Rightarrow> heap g a
             | Some b \<Rightarrow> edit_fields (heap g b) (heap g a))"
          using l ia by (auto simp: x split: option.splits)
      qed
    qed (use l in simp_all)
    then show ?thesis by blast
  next
    case (Some one)
    then have "t \<in> fst ` set (rows g)" using pr by (simp add: x)
    then obtain a where ta: "(t, a) \<in> set (rows g)" by auto
    have wfr: "wf_dict (rows g)" using rstore.wf_rows pr by blast
    have get: "store_getById (store g) t = Some (t, a)"
      using rstore.getById_rows [of "store g" t] wfr ta pr by simp
    let ?g = "edit_record a b g"
    have same: "heap ?g b' = heap g b'" if ib: "(i, b') \<in> set all" for i b'
    proof (cases "b' = a")
      case True
      have "i = t" using pr ib ta True unfolding fits_def by fastforce
      moreover have "wf_dict all" using pr by (simp add: fits_def)
      ultimately have "b' = b" using ib tb(1) by (metis map_of_eq_Some_iff option.inject)
      then show ?thesis using True pr by (simp add: edit_record_def edit_fields_self)
    next
      case False
      then show ?thesis by (simp add: edit_record_def)
    qed
    have "fits all ?g" using pr by (simp add: fits_def)
    moreover have "\<forall>a'. wf_dict (heap ?g a')"
      using pr by (simp add: edit_record_def wf_edit_fields)
    ultimately have "loop_ready all ts ?g" using pr unfolding loop_ready_def by simp
    then obtain h gt where l: "loop_result all ts ?g new h gt"
      using Cons.IH by blast
    note l = l [unfolded loop_result_def]
    have upd: "?g\<lparr>heap := h, gtorrents := gt\<rparr> = g\<lparr>heap := h, gtorrents := gt\<rparr>"
      by (simp add: edit_record_def)
    have ti: "t \<in> fst ` set (gtorrents g)" using Some by (auto simp: in_keys_iff)
    have "t \<in> fst ` set (rows g)" using ta by force
    then have "loop_result all (x # ts) g new h gt"
      unfolding loop_result_def
    proof (intro conjI)
      assume t: "t \<in> fst ` set (rows g)"
      show "update_loop (x # ts) g new = Inr (g\<lparr>heap := h, gtorrents := gt\<rparr>,
            new @ filter (\<lambda>(t, b). t \<notin> fst ` set (rows g)) (x # ts))"
        using l Some get t upd by (simp add: x)
      show "fst ` set gt = fst ` set (gtorrents g) \<union> fst ` set (x # ts)"
        using l ti by (auto simp: x)
      show "\<forall>(i, b) \<in> set all. h b = heap g b" using l same by fastforce
      show "\<forall>(i, a) \<in> set (rows g). h a = (case map_of (x # ts) i of None \<Rightarrow> heap g a
             | Some b \<Rightarrow> edit_fields (heap g b) (heap g a))"
      proof (clarify)
        fix i a'
        assume ia: "(i, a') \<in> set (rows g)"
        have h: "h a' = (case map_of ts i of None \<Rightarrow> heap ?g a'
            | Some b \<Rightarrow> edit_fields (heap ?g b) (heap ?g a'))" using l ia by auto
        show "h a' = (case map_of (x # ts) i of None \<Rightarrow> heap g a'
             | Some b \<Rightarrow> edit_fields (heap g b) (heap g a'))"
        proof (cases "i = t")
          case True
          then have "a' = a" using ia ta wfr by (metis map_of_eq_Some_iff option.inject)
          moreover have "map_of ts t = None" using tb(2) by (simp add: map_of_eq_None_iff)
          ultimately show ?thesis using h True by (simp add: x edit_record_def)
        next
          case False
          have "inj_on snd (set (rows g))" using pr by (simp add: distinct_map)
          then have "a' \<noteq> a" using ia ta False inj_onD [of snd _ "(i, a')" "(t, a)"] by auto
          then have ha: "heap ?g a' = heap g a'" by (simp add: edit_record_def)
          have "heap ?g b' = heap g b'" if "map_of ts i = Some b'" for b'
            using same [of i b'] that pr by (auto dest: map_of_SomeD)
          then show ?thesis using h False ha by (auto simp: x split: option.splits)
        qed
      qed
    qed (use l in simp_all)
    then show ?thesis by blast
  qed
qed

lemma remove_gone_split:
  "fold (\<lambda>r g. if map_of ts (fst r) \<noteq> None then g
           else g\<lparr>store := store_remove r (store g), gtorrents := AList.delete (fst r) (gtorrents g)\<rparr>) rs g =
   g\<lparr>store := fold (\<lambda>r s. if map_of ts (fst r) \<noteq> None then s else store_remove r s) rs (store g),
     gtorrents := fold (\<lambda>r d. if map_of ts (fst r) \<noteq> None then d else AList.delete (fst r) d) rs (gtorrents g)\<rparr>"
  by (induction rs arbitrary: g) auto

lemma fold_delete_keys:
  "fst ` set (fold (\<lambda>r d. if P (fst r) then d else AList.delete (fst r) d) rs d) =
     {k \<in> fst ` set d. k \<in> fst ` set rs \<longrightarrow> P k}"
proof (induction rs arbitrary: d)
  case Nil
  then show ?case by simp
next
  case (Cons r rs)
  then show ?case by (auto simp: keys_delete)
qed

lemma remove_gone_ok:
  assumes "store_inv (store g)" "fst ` set (gtorrents g) = fst ` set (rows g)"
  shows "\<exists>s gt. remove_gone ts g = g\<lparr>store := s, gtorrents := gt\<rparr> \<and> store_inv s \<and>
     items s = filter (\<lambda>r. map_of ts (fst r) \<noteq> None) (rows g) \<and> fst ` set gt = fst ` set (items s)"
proof -
  let ?s = "fold (\<lambda>r s. if map_of ts (fst r) \<noteq> None then s else store_remove r s) (rows g) (store g)"
  let ?gt = "fold (\<lambda>r d. if map_of ts (fst r) \<noteq> None then d else AList.delete (fst r) d) (rows g) (gtorrents g)"
  have s: "items ?s = filter (\<lambda>r. map_of ts (fst r) \<noteq> None) (rows g)" "store_inv ?s"
    using rstore.prune [OF assms(1), of "\<lambda>i. map_of ts i \<noteq> None"] by auto
  have "fst ` set ?gt = fst ` set (items ?s)"
    unfolding fold_delete_keys [where P = "\<lambda>k. map_of ts k \<noteq> None"] s using assms(2) by auto
  moreover have "remove_gone ts g = g\<lparr>store := ?s, gtorrents := ?gt\<rparr>"
    unfolding remove_gone_def by (rule remove_gone_split)
  ultimately show ?thesis using s by blast
qed

lemma sort_rows_ok:
  assumes "store_inv (store g)"
  shows "\<exists>s. sort_rows g = g\<lparr>store := s\<rparr> \<and> store_inv s \<and> mset (items s) = mset (rows g)"
proof -
  have "\<exists>s. g = g\<lparr>store := s\<rparr> \<and> store_inv s \<and> mset (items s) = mset (rows g)"
    using assms by (intro exI [of _ "store g"]) simp
  then show ?thesis
    using store_sort_rows [OF assms]
    unfolding sort_rows_def by (simp split: option.split prod.split) metis
qed

lemma sort_mset_rows:
  assumes "mset xs = mset (ys :: (string \<times> nat) list)"
  shows "set xs = set ys" "distinct (map snd xs) = distinct (map snd ys)"
    "fst ` set xs = fst ` set ys"
proof -
  show s: "set xs = set ys" using assms by (metis set_mset_mset)
  then show "fst ` set xs = fst ` set ys" by simp
  have "mset (map snd xs) = mset (map snd ys)" using assms by (metis mset_map)
  then show "distinct (map snd xs) = distinct (map snd ys)" by (metis mset_eq_imp_distinct_iff)
qed

text \<open>The torrents an update shows.\<close>

definition visible :: "jsval dict option \<Rightarrow> nat dict \<Rightarrow> grid \<Rightarrow> nat dict" where
  "visible states ts g = the (withoutHiddenLabels states (Some ts) g)"

lemma withoutHiddenLabels_visible: "withoutHiddenLabels states (Some ts) g = Some (visible states ts g)"
  by (simp add: visible_def withoutHiddenLabels_def Let_def)

lemma visible_subset: "set (visible states ts g) \<subseteq> set ts"
  by (auto simp: visible_def withoutHiddenLabels_def Let_def)

lemma wf_visible: "wf_dict ts \<Longrightarrow> wf_dict (visible states ts g)"
  by (auto simp: visible_def withoutHiddenLabels_def Let_def wf_filter)

lemma distinct_visible: "distinct (map snd ts) \<Longrightarrow> distinct (map snd (visible states ts g))"
  by (auto simp: visible_def withoutHiddenLabels_def Let_def distinct_map_filter)

lemma visible_cong:
  "hiddenLabels g' = hiddenLabels g \<Longrightarrow> heap g' = heap g \<Longrightarrow> visible states ts g' = visible states ts g"
  by (simp add: visible_def withoutHiddenLabels_def Let_def)

definition draws :: "nat dict \<Rightarrow> grid \<Rightarrow> grid \<Rightarrow> bool" where
  "draws vs g g' \<longleftrightarrow>
     set (map fst (rows g')) = set (map fst vs) \<and>
     (\<forall>(i, a) \<in> set (rows g'). \<exists>b. map_of vs i = Some b \<and>
        (\<forall>k v. map_of (heap g b) k = Some v \<longrightarrow> agrees (js_get (heap g' a) k) v))"

definition frame :: "grid \<Rightarrow> grid \<Rightarrow> bool" where
  "frame g g' \<longleftrightarrow> nextobj g' = nextobj g \<and> hiddenLabels g' = hiddenLabels g \<and>
     labelChoices g' = labelChoices g \<and> sortInfo g' = sortInfo g \<and> selected g' = selected g"

definition rows_inv :: "grid \<Rightarrow> bool" where
  "rows_inv g \<longleftrightarrow> store_inv (store g) \<and> fst ` set (gtorrents g) = fst ` set (rows g) \<and>
     distinct (map snd (rows g)) \<and> (\<forall>(i, a) \<in> set (rows g). a < nextobj g) \<and> (\<forall>a. wf_dict (heap g a))"

lemma grid_inv_rows: "grid_inv g \<longleftrightarrow> rows_inv g \<and> (\<forall>ts. lastTorrents g = Some ts \<longrightarrow> fits ts g)"
  by (auto simp: grid_inv_def rows_inv_def)

lemma wipe_rows_inv: "rows_inv g \<Longrightarrow> rows_inv (wipe_rows g) \<and> rows (wipe_rows g) = []"
  by (simp add: rows_inv_def wipe_rows_def rstore.rows_clear rstore.inv_clear)

lemma fits_wipe: "fits ts g \<Longrightarrow> fits ts (wipe_rows g)"
  by (auto simp: fits_def wipe_rows_def rstore.rows_clear)

lemma fits_subset: "fits ts g \<Longrightarrow> set vs \<subseteq> set ts \<Longrightarrow> wf_dict vs \<Longrightarrow> distinct (map snd vs) \<Longrightarrow> fits vs g"
  unfolding fits_def by blast

text \<open>The rows after the loop, the addition of the new records and the clean-up.\<close>

lemma rows_step:
  assumes inv: "rows_inv g" and vs: "fits vs g" and ts: "fits ts g" "set vs \<subseteq> set ts"
  shows "\<exists>g1 new g'. update_loop vs g [] = Inr (g1, new) \<and>
     g' = remove_gone vs (g1\<lparr>store := store_add new (store g1)\<rparr>) \<and>
     rows_inv g' \<and> draws vs g g' \<and> frame g g' \<and> lastTorrents g' = lastTorrents g \<and>
     (\<forall>(i, b) \<in> set ts. heap g' b = heap g b) \<and>
     (\<forall>(i, a) \<in> set (rows g'). (i, a) \<in> set (rows g) \<or> (i, a) \<in> set vs)"
proof -
  note I = inv [unfolded rows_inv_def]
  have wv: "wf_dict vs" "distinct (map snd vs)" using vs by (simp_all add: fits_def)
  have "loop_ready ts vs g"
    unfolding loop_ready_def using I ts wv by (auto simp: map_of_eq_None_iff)
  then obtain h gt where l: "loop_result ts vs g [] h gt" using update_loop_ok by blast
  note l = l [unfolded loop_result_def]
  define new where "new = filter (\<lambda>(t, b). t \<notin> fst ` set (rows g)) vs"
  define g1 where "g1 = g\<lparr>heap := h, gtorrents := gt\<rparr>"
  define g2 where "g2 = g1\<lparr>store := store_add new (store g1)\<rparr>"
  have loop: "update_loop vs g [] = Inr (g1, new)" using l by (simp add: g1_def new_def)
  have wr: "wf_dict (rows g)" using rstore.wf_rows I by blast
  have "wf_dict (rows g @ new)" using wr wf_filter [OF wv(1)] by (force simp: new_def)
  then have add: "rows g2 = rows g @ new" "store_inv (store g2)"
    using rstore.rows_adds [of "store g" new] I by (simp_all add: g2_def g1_def store_add_def)
  have new: "fst ` set new = fst ` set vs - fst ` set (rows g)" by (auto simp: new_def image_iff)
  have "fst ` set (gtorrents g2) = fst ` set (rows g) \<union> fst ` set vs"
    using l I by (simp add: g2_def g1_def)
  then have gt: "fst ` set (gtorrents g2) = fst ` set (rows g2)"
    by (simp only: add set_append image_Un new Un_Diff_cancel)
  obtain s gt' where rg: "remove_gone vs g2 = g2\<lparr>store := s, gtorrents := gt'\<rparr>" "store_inv s"
      "items s = filter (\<lambda>r. map_of vs (fst r) \<noteq> None) (rows g2)" "fst ` set gt' = fst ` set (items s)"
    using remove_gone_ok [OF add(2) gt] by blast
  define g' where "g' = remove_gone vs g2"
  have e: "g' = g2\<lparr>store := s, gtorrents := gt'\<rparr>" unfolding g'_def by (rule rg(1))
  have g': "store g' = s" "gtorrents g' = gt'" "heap g' = h" "nextobj g' = nextobj g"
      "lastTorrents g' = lastTorrents g" "frame g g'"
    unfolding e by (simp_all add: frame_def g2_def g1_def)
  have rows': "(i, a) \<in> set (rows g') \<longleftrightarrow>
      map_of vs i \<noteq> None \<and> ((i, a) \<in> set (rows g) \<or> (i, a) \<in> set vs \<and> i \<notin> fst ` set (rows g))" for i a
    by (auto simp: g' rg add new_def)
  have own: "(i, a) \<in> set (rows g) \<Longrightarrow> (j, a) \<in> set vs \<Longrightarrow> j = i" for i j a
    using vs by (fastforce simp: fits_def)
  have "distinct (map snd (rows g @ new))"
  proof -
    have "distinct (map snd new)" using wv(2) by (simp add: new_def distinct_map_filter)
    moreover have "a \<notin> snd ` set new" if ar: "a \<in> snd ` set (rows g)" for a
    proof
      assume "a \<in> snd ` set new"
      then obtain j where j: "(j, a) \<in> set vs" "j \<notin> fst ` set (rows g)" by (auto simp: new_def)
      obtain i where i: "(i, a) \<in> set (rows g)" using ar by auto
      then have "j = i" using own j by blast
      then show False using i j by force
    qed
    ultimately show ?thesis using I by auto
  qed
  then have d: "distinct (map snd (rows g'))"
    by (simp add: g' rg add distinct_map_filter del: filter_append map_append)
  have bound: "\<forall>(i, a) \<in> set (rows g'). a < nextobj g'"
  proof (clarify)
    fix i a assume "(i, a) \<in> set (rows g')"
    then have "(i, a) \<in> set (rows g) \<or> (i, a) \<in> set vs" using rows' by blast
    then show "a < nextobj g'" using I vs by (auto simp: g' fits_def)
  qed
  have inv': "rows_inv g'"
    unfolding rows_inv_def using rg g' d bound l by simp
  have keep: "(\<forall>(i, b) \<in> set ts. heap g' b = heap g b)" using l by (simp add: g')
  have "draws vs g g'"
    unfolding draws_def
  proof (intro conjI)
    show "set (map fst (rows g')) = set (map fst vs)"
    proof
      show "set (map fst (rows g')) \<subseteq> set (map fst vs)"
      proof (clarsimp)
        fix i a assume "(i, a) \<in> set (rows g')"
        then have "map_of vs i \<noteq> None" using rows' by blast
        then show "i \<in> fst ` set vs" by (simp add: in_keys_iff)
      qed
      show "set (map fst vs) \<subseteq> set (map fst (rows g'))"
      proof
        fix i assume "i \<in> set (map fst vs)"
        then obtain b where b: "(i, b) \<in> set vs" "map_of vs i \<noteq> None" by (auto simp: map_of_eq_None_iff)
        show "i \<in> set (map fst (rows g'))"
        proof (cases "i \<in> fst ` set (rows g)")
          case True
          then obtain a where "(i, a) \<in> set (rows g)" by auto
          then show ?thesis using rows' b by force
        next
          case False
          then show ?thesis using rows' b by force
        qed
      qed
    qed
    show "\<forall>(i, a) \<in> set (rows g'). \<exists>b. map_of vs i = Some b \<and>
        (\<forall>k v. map_of (heap g b) k = Some v \<longrightarrow> agrees (js_get (heap g' a) k) v)"
    proof (clarify)
      fix i a assume ia: "(i, a) \<in> set (rows g')"
      then obtain b where b: "map_of vs i = Some b" using rows' by blast
      have "agrees (js_get (heap g' a) k) v" if kv: "map_of (heap g b) k = Some v" for k v
      proof (cases "(i, a) \<in> set (rows g)")
        case True
        then have "h a = edit_fields (heap g b) (heap g a)" using l b by fastforce
        then show ?thesis using edit_fields_agrees kv I by (simp add: g')
      next
        case False
        then have v: "(i, a) \<in> set vs" using ia rows' by blast
        then have "a = b" using b wv(1) by (metis map_of_eq_Some_iff option.inject)
        moreover have "heap g' a = heap g a" using keep v ts(2) by blast
        ultimately show ?thesis using kv by (simp add: js_get_def)
      qed
      then show "\<exists>b. map_of vs i = Some b \<and>
          (\<forall>k v. map_of (heap g b) k = Some v \<longrightarrow> agrees (js_get (heap g' a) k) v)" using b by blast
    qed
  qed
  then show ?thesis using loop inv' keep g' rows' unfolding g'_def g2_def by blast
qed

lemma sort_step:
  assumes "rows_inv g"
  shows "\<exists>s. sort_rows g = g\<lparr>store := s\<rparr> \<and> rows_inv (g\<lparr>store := s\<rparr>) \<and> set (items s) = set (rows g)"
proof -
  obtain s where s: "sort_rows g = g\<lparr>store := s\<rparr>" "store_inv s" "mset (items s) = mset (rows g)"
    using sort_rows_ok [of g] assms by (auto simp: rows_inv_def)
  note m = sort_mset_rows [OF s(3)]
  have "rows_inv (g\<lparr>store := s\<rparr>)" using assms s(2) m by (simp add: rows_inv_def)
  then show ?thesis using s(1) m(1) by blast
qed

lemma draws_rows_cong: "set (rows g1) = set (rows g2) \<Longrightarrow> heap g1 = heap g2 \<Longrightarrow> draws vs g g1 = draws vs g g2"
  by (simp add: draws_def)

text \<open>What one update does, for an answer whose objects are not rows of other torrents.\<close>

lemma update_some:
  assumes inv: "rows_inv g" and ts: "fits ts g"
  shows "\<exists>g'. update (Some ts) wipe states g = Inr g' \<and> grid_inv g' \<and> lastTorrents g' = Some ts \<and>
     draws (visible states ts g) g g' \<and> frame g g' \<and> (\<forall>(i, b) \<in> set ts. heap g' b = heap g b) \<and>
     (wipe \<longrightarrow> set (rows g') = set (visible states ts g))"
proof -
  let ?last = "g\<lparr>lastTorrents := Some ts\<rparr>"
  let ?g = "if wipe then wipe_rows ?last else ?last"
  let ?vs = "visible states ts g"
  have vis: "withoutHiddenLabels states (Some ts) ?last = Some ?vs"
    using visible_cong [of ?last g] by (simp add: withoutHiddenLabels_visible)
  have i0: "rows_inv ?last" using inv by (simp add: rows_inv_def)
  have inv0: "rows_inv ?g" using i0 wipe_rows_inv by simp
  have f0: "fits ts ?last" using ts by (simp add: fits_def)
  have fits0: "fits ts ?g" using f0 fits_wipe by simp
  have fv: "fits ?vs ?g"
    using fits_subset [OF fits0 visible_subset] wf_visible distinct_visible ts by (simp add: fits_def)
  obtain g1 new g' where u: "update_loop ?vs ?g [] = Inr (g1, new)"
     "g' = remove_gone ?vs (g1\<lparr>store := store_add new (store g1)\<rparr>)"
     "rows_inv g'" "draws ?vs ?g g'" "frame ?g g'" "lastTorrents g' = lastTorrents ?g"
     "\<forall>(i, b) \<in> set ts. heap g' b = heap ?g b"
     "\<forall>(i, a) \<in> set (rows g'). (i, a) \<in> set (rows ?g) \<or> (i, a) \<in> set ?vs"
    using rows_step [OF inv0 fv fits0 visible_subset] by blast
  obtain s where s: "sort_rows g' = g'\<lparr>store := s\<rparr>" "rows_inv (g'\<lparr>store := s\<rparr>)"
      "set (items s) = set (rows g')" using sort_step [OF u(3)] by blast
  let ?r = "g'\<lparr>store := s\<rparr>"
  have "update (Some ts) wipe states g = Inr ?r"
    unfolding update_def Let_def vis using u(1) u(2) [symmetric] s(1) by simp
  moreover have last: "lastTorrents ?r = Some ts" using u(6) by (simp add: wipe_rows_def)
  moreover have hp: "heap ?g = heap g" by (simp add: wipe_rows_def)
  moreover have "draws ?vs g ?r"
    using u(4) s(3) hp unfolding draws_def by simp
  moreover have "frame g ?r" using u(5) by (simp add: frame_def wipe_rows_def)
  moreover have "\<forall>(i, b) \<in> set ts. heap ?r b = heap g b" using u(7) hp by simp
  moreover have from_vs: "set (rows ?r) \<subseteq> set (rows g) \<union> set ?vs"
    using u(8) s(3) by (auto simp: wipe_rows_def rstore.rows_clear split: if_splits)
  moreover have "fits ts ?r"
  proof -
    have "j = i" if b: "(i, b) \<in> set ts" and a: "(j, b) \<in> set (rows ?r)" for i j b
    proof (cases "(j, b) \<in> set (rows g)")
      case True
      then show ?thesis using ts b by (fastforce simp: fits_def)
    next
      case False
      then have "(j, b) \<in> set ts" using a from_vs visible_subset [of states ts g] by blast
      then show ?thesis using ts b unfolding fits_def by (blast intro: distinct_snd_eq)
    qed
    moreover have "nextobj ?r = nextobj g" using u(5) by (simp add: frame_def wipe_rows_def)
    ultimately show ?thesis using ts unfolding fits_def by (simp only:) blast
  qed
  moreover have "set (rows ?r) = set ?vs" if w: wipe
  proof
    show sub: "set (rows ?r) \<subseteq> set ?vs" using u(8) s(3) w by (auto simp: wipe_rows_def rstore.rows_clear)
    have "set (map fst (rows g')) = set (map fst ?vs)" using u(4) by (simp add: draws_def)
    then have k: "set (map fst (rows ?r)) = set (map fst ?vs)" using s(3) by simp
    have "wf_dict ?vs" using fv by (simp add: fits_def)
    then show "set ?vs \<subseteq> set (rows ?r)" using sub k
      by (smt (verit) eq_key_imp_eq_value imageE image_eqI list.set_map prod.exhaust_sel subsetD subsetI)
  qed
  moreover have "grid_inv ?r" if "fits ts ?r" using that last s(2) by (simp add: grid_inv_rows)
  ultimately show ?thesis by (intro exI [of _ ?r] conjI impI) simp_all
qed

section \<open>Folding a difference, on the values\<close>

definition obj_dict :: "(nat \<Rightarrow> jsval dict) \<Rightarrow> nat dict \<Rightarrow> jsval dict dict" where
  "obj_dict h d = map (\<lambda>(i, a). (i, h a)) d"

definition fold_fields :: "string \<times> jsval dict \<Rightarrow> jsval dict dict \<Rightarrow> jsval dict dict" where
  "fold_fields = (\<lambda>(i, f) all.
     AList.update i (case map_of all i of None \<Rightarrow> f | Some old \<Rightarrow> put_all old f) all)"

definition merge_dict :: "string list \<Rightarrow> jsval dict dict \<Rightarrow> jsval dict dict \<Rightarrow> jsval dict dict" where
  "merge_dict removed changed all = fold fold_fields changed (delete_all removed all)"

lemma obj_dict_Cons: "obj_dict h ((i, a) # d) = (i, h a) # obj_dict h d"
  by (simp add: obj_dict_def)

lemma map_of_obj_dict: "map_of (obj_dict h d) i = map_option h (map_of d i)"
  by (induction d) (auto simp: obj_dict_def)

lemma keys_obj_dict [simp]: "map fst (obj_dict h d) = map fst d"
  by (simp add: obj_dict_def comp_def case_prod_beta)

lemma obj_dict_cong: "(\<And>i a. (i, a) \<in> set d \<Longrightarrow> h a = h' a) \<Longrightarrow> obj_dict h d = obj_dict h' d"
  by (auto simp: obj_dict_def)

lemma obj_dict_update: "obj_dict h (AList.update i b d) = AList.update i (h b) (obj_dict h d)"
  by (induction d) (auto simp: obj_dict_def)

lemma obj_dict_delete: "obj_dict h (AList.delete i d) = AList.delete i (obj_dict h d)"
  by (induction d) (auto simp: obj_dict_def AList.delete_eq)

lemma obj_dict_delete_all: "obj_dict h (delete_all is d) = delete_all is (obj_dict h d)"
  unfolding delete_all_def by (induction "is" arbitrary: d) (auto simp: obj_dict_delete)

lemma obj_dict_write:
  assumes "(i, a) \<in> set d" "wf_dict d" "distinct (map snd d)"
  shows "obj_dict (h(a := x)) d = AList.update i x (obj_dict h d)"
  using assms
proof (induction d)
  case Nil
  then show ?case by simp
next
  case (Cons p d)
  obtain j b where p: "p = (j, b)" by (cases p)
  show ?case
  proof (cases "j = i")
    case True
    have ib: "(i, b) \<in> set (p # d)" using p True by simp
    have "b = a" using wf_dict_eq [OF Cons.prems(2) ib Cons.prems(1)] .
    moreover have "obj_dict (h(a := x)) d = obj_dict h d"
      using Cons.prems p \<open>b = a\<close> by (intro obj_dict_cong) (auto simp: rev_image_eqI)
    ultimately show ?thesis using p True by (simp add: obj_dict_def)
  next
    case False
    then have i: "(i, a) \<in> set d" using Cons.prems p by simp
    then have "a \<in> snd ` set d" by force
    then have "b \<noteq> a" using Cons.prems(3) p by auto
    then show ?thesis using Cons i p False by (simp add: obj_dict_def)
  qed
qed

lemma set_update_subset: "set (AList.update k v d) \<subseteq> insert (k, v) (set d)"
  by (induction d) auto

lemma set_delete_all_subset: "set (delete_all ks d) \<subseteq> set d"
  unfolding delete_all_def
proof (induction ks arbitrary: d)
  case (Cons k ks)
  have "set (AList.delete k d) \<subseteq> set d" by (auto simp: AList.delete_eq)
  then show ?case using Cons [of "AList.delete k d"] by auto
qed simp

lemma distinct_snd_update:
  "i \<notin> fst ` set d \<Longrightarrow> b \<notin> snd ` set d \<Longrightarrow> distinct (map snd d) \<Longrightarrow> distinct (map snd (AList.update i b d))"
  by (induction d) (auto dest: subsetD [OF set_update_subset])

lemma distinct_snd_delete_all: "distinct (map snd d) \<Longrightarrow> distinct (map snd (delete_all is d))"
  unfolding delete_all_def
  by (induction "is" arbitrary: d) (auto simp: AList.delete_eq distinct_map_filter)

text \<open>The fold on the objects does to the values what \<open>fold_fields\<close> says, when the objects of the
  difference are new.\<close>

lemma merge1_fold:
  assumes "wf_dict all" "distinct (map snd all)" "wf_dict ch" "distinct (map snd ch)"
    "snd ` set ch \<inter> snd ` set all = {}" "\<forall>a. wf_dict (h a)"
  shows "\<exists>all' h'. fold merge1 ch (all, h) = (all', h') \<and>
     obj_dict h' all' = fold fold_fields (obj_dict h ch) (obj_dict h all) \<and>
     wf_dict all' \<and> distinct (map snd all') \<and> set all' \<subseteq> set all \<union> set ch \<and> (\<forall>a. wf_dict (h' a))"
  using assms
proof (induction ch arbitrary: all h)
  case Nil
  then show ?case by (simp add: obj_dict_def)
next
  case (Cons x ch)
  obtain i b where x: "x = (i, b)" by (cases x)
  have b: "b \<notin> snd ` set ch" "b \<notin> snd ` set all" "i \<notin> fst ` set ch" using Cons.prems x by auto
  show ?case
  proof (cases "map_of all i")
    case None
    then have i: "i \<notin> fst ` set all" by (simp add: map_of_eq_None_iff)
    let ?all = "AList.update i b all"
    have sub: "set ?all \<subseteq> insert (i, b) (set all)" by (rule set_update_subset)
    have "snd ` set ?all \<subseteq> insert b (snd ` set all)" using image_mono [OF sub, of snd] by simp
    then have "snd ` set ch \<inter> snd ` set ?all = {}" using Cons.prems(5) b x by auto
    moreover have "wf_dict ?all" using Cons.prems(1) by (rule AList.distinct_update)
    moreover have "distinct (map snd ?all)" using Cons.prems(2) i b by (intro distinct_snd_update) auto
    moreover have "wf_dict ch" "distinct (map snd ch)" using Cons.prems(3,4) x by simp_all
    ultimately obtain all' h' where r: "fold merge1 ch (?all, h) = (all', h')"
        "obj_dict h' all' = fold fold_fields (obj_dict h ch) (obj_dict h ?all)"
        "wf_dict all'" "distinct (map snd all')" "set all' \<subseteq> set ?all \<union> set ch" "\<forall>a. wf_dict (h' a)"
      using Cons.IH [of ?all h] Cons.prems(6) by blast
    have "obj_dict h ?all = fold_fields (i, h b) (obj_dict h all)"
      using None by (simp add: fold_fields_def obj_dict_update map_of_obj_dict)
    then show ?thesis using r sub None
      by (intro exI [of _ all'] exI [of _ h']) (auto simp: x merge1_def obj_dict_Cons)
  next
    case (Some a)
    then have ia: "(i, a) \<in> set all" by (rule map_of_SomeD)
    let ?h = "h(a := put_all (h a) (h b))"
    have a: "a \<notin> snd ` set ch" using ia Cons.prems(5) by force
    have "\<forall>a. wf_dict (?h a)" using Cons.prems(6) by (simp add: wf_put_all)
    moreover have "wf_dict ch" "distinct (map snd ch)" "snd ` set ch \<inter> snd ` set all = {}"
      using Cons.prems(3,4,5) x by auto
    ultimately obtain all' h' where r: "fold merge1 ch (all, ?h) = (all', h')"
        "obj_dict h' all' = fold fold_fields (obj_dict ?h ch) (obj_dict ?h all)"
        "wf_dict all'" "distinct (map snd all')" "set all' \<subseteq> set all \<union> set ch" "\<forall>a. wf_dict (h' a)"
      using Cons.IH [of all ?h] Cons.prems(1,2) by blast
    have "obj_dict ?h all = fold_fields (i, h b) (obj_dict h all)"
      using Some obj_dict_write [OF ia Cons.prems(1,2)] by (simp add: fold_fields_def map_of_obj_dict)
    moreover have "obj_dict ?h ch = obj_dict h ch" using a by (intro obj_dict_cong) force
    ultimately show ?thesis using r Some
      by (intro exI [of _ all'] exI [of _ h']) (auto simp: x merge1_def obj_dict_Cons)
  qed
qed

section \<open>Receiving an answer\<close>

definition contents :: "grid \<Rightarrow> jsval dict dict option" where
  "contents g = map_option (obj_dict (heap g)) (lastTorrents g)"

definition row_data :: "grid \<Rightarrow> jsval dict dict" where
  "row_data g = obj_dict (heap g) (rows g)"

text \<open>The part of \<open>UI.onUpdate\<close> that hands an answer to the grid.\<close>

definition grid_receive ::
    "bool \<Rightarrow> jsval dict dict \<Rightarrow> string list \<Rightarrow> bool \<Rightarrow> jsval dict option \<Rightarrow> grid \<Rightarrow> jserr + grid" where
  "grid_receive delta answer removed wipe states g =
     (let (ts, g) = alloc answer g;
          (torrents, g) = (if delta then merge (Some ts) (Some removed) g else (ts, g))
      in update (Some torrents) wipe states g)"

definition good_answer :: "jsval dict dict \<Rightarrow> bool" where
  "good_answer d \<longleftrightarrow> wf_dict d \<and> list_all (\<lambda>(i, f). wf_dict f) d"

text \<open>What is not hidden, on the values.\<close>

definition visible_data :: "jsval dict option \<Rightarrow> bool dict \<Rightarrow> jsval dict dict \<Rightarrow> jsval dict dict" where
  "visible_data states hid d =
     (if \<not> list_ex snd hid then d
      else filter (\<lambda>(i, f). let label = js_or (js_get f ''label'') (Str [])
             in \<not> label_hidden hid (js_string label) \<or> strict_eq label (asked_label states)) d)"

lemma visible_obj_dict: "obj_dict (heap g) (visible states ts g) =
    visible_data states (hiddenLabels g) (obj_dict (heap g) ts)"
  by (simp add: visible_def withoutHiddenLabels_def visible_data_def Let_def obj_dict_def filter_map comp_def
      split_def)

lemma snd_zip_upt: "length xs = m \<Longrightarrow> map snd (zip xs [n..<n + m]) = [n..<n + m]"
  by simp

lemma alloc_ok:
  assumes inv: "grid_inv g" and good: "good_answer answer"
  obtains ts g1 where "alloc answer g = (ts, g1)" "grid_inv g1" "contents g1 = contents g"
    "lastTorrents g1 = lastTorrents g" "obj_dict (heap g1) ts = answer" "wf_dict ts" "distinct (map snd ts)"
    "\<forall>b \<in> snd ` set ts. nextobj g \<le> b \<and> b < nextobj g1" "nextobj g \<le> nextobj g1"
    "rows g1 = rows g" "hiddenLabels g1 = hiddenLabels g" "sortInfo g1 = sortInfo g"
proof -
  define n m where "n = nextobj g" and "m = length answer"
  define ts where "ts = zip (map fst answer) [n..<n + m]"
  define g1 where "g1 = g\<lparr>heap := \<lambda>a. if n \<le> a \<and> a < n + m then snd (answer ! (a - n)) else heap g a,
      nextobj := n + m\<rparr>"
  have "alloc answer g = (ts, g1)" unfolding alloc_def Let_def n_def m_def ts_def g1_def by (rule refl)
  moreover have old: "heap g1 a = heap g a" if "a < nextobj g" for a using that by (simp add: g1_def n_def)
  moreover have "obj_dict (heap g1) ts = answer"
  proof (rule nth_equalityI)
    show "length (obj_dict (heap g1) ts) = length answer" by (simp add: obj_dict_def ts_def m_def)
    fix j assume "j < length (obj_dict (heap g1) ts)"
    then have "j < m" by (simp add: obj_dict_def ts_def m_def)
    then show "obj_dict (heap g1) ts ! j = answer ! j"
      by (simp add: obj_dict_def ts_def m_def g1_def)
  qed
  moreover have "wf_dict ts" "distinct (map snd ts)" using good by (simp_all add: ts_def m_def good_answer_def)
  moreover have "\<forall>b \<in> snd ` set ts. nextobj g \<le> b \<and> b < nextobj g1"
    by (auto simp: ts_def g1_def n_def dest: set_zip_rightD)
  moreover have "grid_inv g1"
  proof -
    have h: "wf_dict (heap g1 a)" for a
    proof (cases "n \<le> a \<and> a < n + m")
      case True
      then have "answer ! (a - n) \<in> set answer" by (intro nth_mem) (auto simp: m_def)
      then have "wf_dict (snd (answer ! (a - n)))"
        using good unfolding good_answer_def list_all_iff by (metis (mono_tags, lifting) case_prod_beta)
      then show ?thesis using True by (simp add: g1_def)
    next
      case False
      then show ?thesis using inv by (auto simp: g1_def grid_inv_def)
    qed
    have f: "fits us g1" if "fits us g" for us
      using that by (fastforce simp: fits_def g1_def n_def)
    have "\<forall>(i, a) \<in> set (rows g1). a < nextobj g1" using inv by (fastforce simp: grid_inv_def g1_def n_def)
    moreover have "store g1 = store g" "gtorrents g1 = gtorrents g" "lastTorrents g1 = lastTorrents g"
      by (simp_all add: g1_def)
    ultimately show ?thesis using inv h f unfolding grid_inv_def by simp
  qed
  moreover have "contents g1 = contents g"
  proof -
    have "obj_dict (heap g1) us = obj_dict (heap g) us" if "fits us g" for us
      using that old by (intro obj_dict_cong) (auto simp: fits_def)
    moreover have "lastTorrents g1 = lastTorrents g" by (simp add: g1_def)
    ultimately show ?thesis using inv unfolding contents_def grid_inv_def
      by (cases "lastTorrents g") simp_all
  qed
  moreover have "lastTorrents g1 = lastTorrents g" "nextobj g \<le> nextobj g1" "rows g1 = rows g"
      "hiddenLabels g1 = hiddenLabels g" "sortInfo g1 = sortInfo g"
    by (simp_all add: g1_def n_def)
  ultimately show ?thesis using that by blast
qed

lemma fits_frame: "fits ts g \<Longrightarrow> rows g' = rows g \<Longrightarrow> nextobj g' = nextobj g \<Longrightarrow> fits ts g'"
  by (simp add: fits_def)

lemma merge_ok:
  assumes inv: "grid_inv g" and old: "lastTorrents g = Some old"
    and ts: "wf_dict ts" "distinct (map snd ts)" "fits ts g" "snd ` set ts \<inter> snd ` set old = {}"
  obtains all g' where "merge (Some ts) (Some removed) g = (all, g')" "rows_inv g'" "fits all g'"
    "obj_dict (heap g') all = merge_dict removed (obj_dict (heap g) ts) (obj_dict (heap g) old)"
    "rows g' = rows g" "hiddenLabels g' = hiddenLabels g" "sortInfo g' = sortInfo g"
proof -
  let ?all0 = "delete_all removed old"
  have fo: "fits old g" using inv old by (simp add: grid_inv_def)
  have o: "wf_dict ?all0" "distinct (map snd ?all0)" "set ?all0 \<subseteq> set old"
    using fo by (simp_all add: fits_def wf_delete_all distinct_snd_delete_all set_delete_all_subset)
  have disj: "snd ` set ts \<inter> snd ` set ?all0 = {}" using ts(4) o(3) by blast
  have wfh: "\<forall>a. wf_dict (heap g a)" using inv by (simp add: grid_inv_def)
  obtain all h where f: "fold merge1 ts (?all0, heap g) = (all, h)"
     "obj_dict h all = fold fold_fields (obj_dict (heap g) ts) (obj_dict (heap g) ?all0)"
     "wf_dict all" "distinct (map snd all)" "set all \<subseteq> set ?all0 \<union> set ts" "\<forall>a. wf_dict (h a)"
    using merge1_fold [OF o(1,2) ts(1,2) disj wfh] by blast
  define g' where "g' = g\<lparr>heap := h, lastTorrents := Some all\<rparr>"
  have "merge (Some ts) (Some removed) g = (all, g')"
    using f(1) by (simp add: merge_def old g'_def)
  moreover have "rows_inv g'" using inv f(6) by (simp add: rows_inv_def grid_inv_def g'_def)
  moreover have "fits all g'"
  proof -
    have "set all \<subseteq> set old \<union> set ts" using f(5) o(3) by blast
    then show ?thesis using fo ts(3) f(3,4) unfolding fits_def by (simp add: g'_def) blast
  qed
  moreover have "obj_dict (heap g') all = merge_dict removed (obj_dict (heap g) ts) (obj_dict (heap g) old)"
    using f(2) by (simp add: g'_def merge_dict_def obj_dict_delete_all)
  moreover have "rows g' = rows g" "hiddenLabels g' = hiddenLabels g" "sortInfo g' = sortInfo g"
    by (simp_all add: g'_def)
  ultimately show ?thesis using that by blast
qed

definition received :: "bool \<Rightarrow> jsval dict dict \<Rightarrow> string list \<Rightarrow> grid \<Rightarrow> jsval dict dict" where
  "received delta answer removed g =
     (if delta then merge_dict removed answer (the (contents g)) else answer)"

definition drawn :: "jsval dict option \<Rightarrow> bool dict \<Rightarrow> jsval dict dict \<Rightarrow> grid \<Rightarrow> bool" where
  "drawn states hid data g \<longleftrightarrow>
     set (map fst (row_data g)) = set (map fst (visible_data states hid data)) \<and>
     distinct (map fst (row_data g)) \<and>
     (\<forall>(i, d) \<in> set (row_data g). \<exists>f. map_of (visible_data states hid data) i = Some f \<and>
        (\<forall>k v. map_of f k = Some v \<longrightarrow> agrees (js_get d k) v))"

lemma draws_drawn:
  assumes "draws (visible states ts g) g g'" "grid_inv g'"
  shows "drawn states (hiddenLabels g) (obj_dict (heap g) ts) g'"
proof -
  let ?vs = "visible states ts g"
  have v: "visible_data states (hiddenLabels g) (obj_dict (heap g) ts) = obj_dict (heap g) ?vs"
    by (rule visible_obj_dict [symmetric])
  have "wf_dict (rows g')" using rstore.wf_rows assms(2) by (auto simp: grid_inv_def)
  moreover have "\<exists>f. map_of (obj_dict (heap g) ?vs) i = Some f \<and>
        (\<forall>k v. map_of f k = Some v \<longrightarrow> agrees (js_get d k) v)" if id: "(i, d) \<in> set (row_data g')" for i d
  proof -
    obtain a where "(i, a) \<in> set (rows g')" "d = heap g' a" using id by (auto simp: row_data_def obj_dict_def)
    then show ?thesis using assms(1) by (fastforce simp: draws_def map_of_obj_dict)
  qed
  moreover have "set (map fst (rows g')) = set (map fst ?vs)" using assms(1) by (simp only: draws_def)
  ultimately show ?thesis unfolding drawn_def v
    by (simp add: row_data_def del: set_map) blast
qed

lemma update_shows:
  assumes "rows_inv g" "fits ts g"
  shows "\<exists>g'. update (Some ts) wipe states g = Inr g' \<and> grid_inv g' \<and>
     contents g' = Some (obj_dict (heap g) ts) \<and>
     drawn states (hiddenLabels g) (obj_dict (heap g) ts) g' \<and> hiddenLabels g' = hiddenLabels g \<and>
     sortInfo g' = sortInfo g"
proof -
  obtain g' where u: "update (Some ts) wipe states g = Inr g'" "grid_inv g'" "lastTorrents g' = Some ts"
     "draws (visible states ts g) g g'" "frame g g'" "\<forall>(i, b) \<in> set ts. heap g' b = heap g b"
    using update_some [OF assms] by blast
  have "obj_dict (heap g') ts = obj_dict (heap g) ts" using u(6) by (intro obj_dict_cong) blast
  then show ?thesis using u draws_drawn [OF u(4,2)] by (auto simp: contents_def frame_def)
qed

lemma receive_ok:
  assumes inv: "grid_inv g" and good: "good_answer answer" and delta: "delta \<Longrightarrow> lastTorrents g \<noteq> None"
  shows "\<exists>g'. grid_receive delta answer removed wipe states g = Inr g' \<and> grid_inv g' \<and>
     contents g' = Some (received delta answer removed g) \<and>
     drawn states (hiddenLabels g) (received delta answer removed g) g' \<and>
     hiddenLabels g' = hiddenLabels g \<and> sortInfo g' = sortInfo g"
proof -
  obtain ts g1 where a: "alloc answer g = (ts, g1)" "grid_inv g1" "contents g1 = contents g"
    "lastTorrents g1 = lastTorrents g" "obj_dict (heap g1) ts = answer" "wf_dict ts" "distinct (map snd ts)"
    "\<forall>b \<in> snd ` set ts. nextobj g \<le> b \<and> b < nextobj g1" "nextobj g \<le> nextobj g1"
    "rows g1 = rows g" "hiddenLabels g1 = hiddenLabels g" "sortInfo g1 = sortInfo g"
    using alloc_ok [OF inv good] by blast
  have "b \<noteq> a" if "(i, b) \<in> set ts" "(j, a) \<in> set (rows g1)" for i b j a
    using a(8,10) inv that by (fastforce simp: grid_inv_def)
  moreover have "b < nextobj g1" if "(i, b) \<in> set ts" for i b using a(8) that by force
  ultimately have fts: "fits ts g1" unfolding fits_def using a(6,7) by blast
  show ?thesis
  proof (cases delta)
    case False
    have "rows_inv g1" using a(2) by (simp add: grid_inv_rows)
    then show ?thesis
      using update_shows [OF _ fts, of wipe states] False a by (auto simp: grid_receive_def received_def)
  next
    case True
    obtain old where old: "lastTorrents g = Some old" using delta True by auto
    have fo: "fits old g" using inv old by (simp add: grid_inv_def)
    then have disj: "snd ` set ts \<inter> snd ` set old = {}" using a(8) by (fastforce simp: fits_def)
    have old1: "lastTorrents g1 = Some old" using old a(4) by simp
    obtain all g2 where m: "merge (Some ts) (Some removed) g1 = (all, g2)" "rows_inv g2" "fits all g2"
      "obj_dict (heap g2) all = merge_dict removed (obj_dict (heap g1) ts) (obj_dict (heap g1) old)"
      "rows g2 = rows g1" "hiddenLabels g2 = hiddenLabels g1" "sortInfo g2 = sortInfo g1"
      using merge_ok [OF a(2) old1 a(6,7) fts disj, of removed] by blast
    have "the (contents g) = obj_dict (heap g1) old"
      using a(3) old1 by (simp add: contents_def [of g1] flip: a(3))
    then have "obj_dict (heap g2) all = received delta answer removed g"
      using m(4) a(5) True by (simp add: received_def)
    then show ?thesis
      using update_shows [OF m(2,3), of wipe states] True a m by (auto simp: grid_receive_def)
  qed
qed

section \<open>Sequences of events\<close>

lemma grid_new_inv: "grid_inv grid_new"
  by (simp add: grid_new_def grid_inv_def store_empty)

lemma redraw_ok:
  assumes "grid_inv g"
  shows "\<exists>g'. redraw states g = Inr g' \<and> grid_inv g' \<and> contents g' = contents g \<and>
     hiddenLabels g' = hiddenLabels g \<and>
     (\<forall>d. contents g = Some d \<longrightarrow> drawn states (hiddenLabels g) d g')"
proof (cases "lastTorrents g")
  case None
  then show ?thesis using assms by (simp add: redraw_def contents_def)
next
  case (Some ts)
  then have "rows_inv g" "fits ts g" using assms by (simp_all add: grid_inv_rows)
  then show ?thesis using update_shows [of g ts True states] Some
    by (auto simp: redraw_def contents_def)
qed

lemma grid_inv_flags:
  "grid_inv g \<Longrightarrow> store g' = store g \<Longrightarrow> gtorrents g' = gtorrents g \<Longrightarrow> heap g' = heap g \<Longrightarrow>
   nextobj g' = nextobj g \<Longrightarrow> lastTorrents g' = lastTorrents g \<Longrightarrow> grid_inv g'"
  by (simp add: grid_inv_def fits_def)

lemma contents_flags: "heap g' = heap g \<Longrightarrow> lastTorrents g' = lastTorrents g \<Longrightarrow> contents g' = contents g"
  by (simp add: contents_def)

lemma setLabelHidden_ok:
  assumes "grid_inv g"
  shows "\<exists>g'. setLabelHidden name hid states g = Inr g' \<and> grid_inv g' \<and> contents g' = contents g \<and>
     hiddenLabels g' = (if hid then AList.update name True (hiddenLabels g) else AList.delete name (hiddenLabels g)) \<and>
     (\<forall>d. contents g = Some d \<longrightarrow> drawn states (hiddenLabels g') d g')"
proof -
  let ?g = "g\<lparr>labelChoices := AList.update name True (labelChoices g),
      hiddenLabels := if hid then AList.update name True (hiddenLabels g) else AList.delete name (hiddenLabels g)\<rparr>"
  have "grid_inv ?g" by (rule grid_inv_flags [OF assms]) simp_all
  moreover have "contents ?g = contents g" by (rule contents_flags) simp_all
  moreover have "setLabelHidden name hid states g = redraw states ?g" by (simp add: setLabelHidden_def Let_def)
  ultimately show ?thesis using redraw_ok [of ?g states] by auto
qed

lemma showEveryLabel_ok:
  assumes "grid_inv g"
  shows "\<exists>g'. showEveryLabel states g = Inr g' \<and> grid_inv g' \<and> contents g' = contents g \<and>
     hiddenLabels g' = [] \<and> (\<forall>d. contents g = Some d \<longrightarrow> drawn states [] d g')"
proof -
  let ?g = "g\<lparr>labelChoices := fold (\<lambda>(name, _). AList.update name True) (hiddenLabels g) (labelChoices g),
                      hiddenLabels := []\<rparr>"
  have "grid_inv ?g" by (rule grid_inv_flags [OF assms]) simp_all
  moreover have "contents ?g = contents g" by (rule contents_flags) simp_all
  ultimately show ?thesis using redraw_ok [of ?g states] by (auto simp: showEveryLabel_def)
qed

lemma loadHiddenLabels_fold:
  "fold loadHiddenLabels1 labels (g, changed) = (g1, c) \<Longrightarrow>
   \<exists>hid. g1 = g\<lparr>hiddenLabels := hid\<rparr> \<and> (\<not> c \<longrightarrow> \<not> changed \<and> hid = hiddenLabels g)"
proof (induction labels arbitrary: g changed)
  case Nil
  then show ?case by (intro exI [of _ "hiddenLabels g"]) auto
next
  case (Cons x labels)
  obtain g2 c2 where x: "loadHiddenLabels1 x (g, changed) = (g2, c2)" by (metis surj_pair)
  obtain hid where h: "g2 = g\<lparr>hiddenLabels := hid\<rparr>" "\<not> c2 \<longrightarrow> \<not> changed \<and> hid = hiddenLabels g"
  proof (cases "g2 = g")
    case True
    then show ?thesis using that [of "hiddenLabels g"] x
      by (cases x) (auto simp: loadHiddenLabels1_def split: if_splits)
  next
    case False
    then show ?thesis using that [of "hiddenLabels g2"] x
      by (cases x) (auto simp: loadHiddenLabels1_def split: if_splits)
  qed
  obtain hid' where h': "g1 = g2\<lparr>hiddenLabels := hid'\<rparr>" "\<not> c \<longrightarrow> \<not> c2 \<and> hid' = hiddenLabels g2"
    using Cons.IH [of g2 c2] Cons.prems x by auto
  show ?case
    by (rule exI [of _ hid']) (use h h' in auto)
qed

lemma loadHiddenLabels_ok:
  assumes "grid_inv g"
  shows "\<exists>g'. loadHiddenLabels labels states g = Inr g' \<and> grid_inv g' \<and> contents g' = contents g"
proof -
  obtain g1 c where f: "fold loadHiddenLabels1 labels (g, False) = (g1, c)" by (metis surj_pair)
  obtain hid where h: "g1 = g\<lparr>hiddenLabels := hid\<rparr>" using loadHiddenLabels_fold [OF f] by blast
  have "grid_inv g1" unfolding h by (rule grid_inv_flags [OF assms]) simp_all
  moreover have "contents g1 = contents g" unfolding h by (rule contents_flags) simp_all
  ultimately show ?thesis using redraw_ok [of g1 states] f by (auto simp: loadHiddenLabels_def)
qed

lemma onTorrentRemoved_ok:
  assumes inv: "grid_inv g"
  shows "grid_inv (onTorrentRemoved t g) \<and> rows (onTorrentRemoved t g) = AList.delete t (rows g) \<and>
     heap (onTorrentRemoved t g) = heap g \<and> lastTorrents (onTorrentRemoved t g) = lastTorrents g"
proof -
  have si: "store_inv (store g)" using inv by (simp add: grid_inv_def)
  have get: "store_getById (store g) t = map_option (Pair t) (map_of (rows g) t)"
    using rstore.getById_rows [OF si] .
  obtain s sel where g': "onTorrentRemoved t g = g\<lparr>selected := sel, store := s, gtorrents := AList.delete t (gtorrents g)\<rparr>"
      and s: "items s = AList.delete t (rows g)" "store_inv s"
  proof (cases "map_of (rows g) t")
    case None
    then have "onTorrentRemoved t g = g\<lparr>selected := selected g, store := store g, gtorrents := AList.delete t (gtorrents g)\<rparr>"
      using get by (simp add: onTorrentRemoved_def)
    moreover have "AList.delete t (rows g) = rows g" using None by (simp add: AList.delete_idem map_of_eq_None_iff)
    ultimately show ?thesis using that si by metis
  next
    case (Some a)
    then have "(t, a) \<in> set (rows g)" by (rule map_of_SomeD)
    then show ?thesis
      using that [of "store_remove (t, a) (store g)" "filter (\<lambda>i. i \<noteq> t) (selected g)"]
        store_remove_rows [OF si, of "(t, a)"] get Some by (simp add: onTorrentRemoved_def)
  qed
  have sub: "set (AList.delete t (rows g)) \<subseteq> set (rows g)" by (auto simp: AList.delete_eq)
  have k: "fst ` set (AList.delete t (gtorrents g)) = fst ` set (AList.delete t (rows g))"
    using inv by (simp add: grid_inv_def keys_delete)
  have f: "fits ts (onTorrentRemoved t g)" if "fits ts g" for ts
    using that sub unfolding g' fits_def by (fastforce simp: s)
  have "rows_inv (onTorrentRemoved t g)"
    using inv k s sub unfolding grid_inv_rows rows_inv_def g'
    by (auto simp: AList.delete_eq distinct_map_filter)
  moreover have "lastTorrents (onTorrentRemoved t g) = lastTorrents g" by (simp add: g')
  ultimately have "grid_inv (onTorrentRemoved t g)" using inv f by (simp add: grid_inv_rows)
  then show ?thesis using s by (simp add: g')
qed

lemma onTorrentsRemoved_ok:
  assumes "grid_inv g"
  shows "grid_inv (onTorrentsRemoved ts g) \<and> rows (onTorrentsRemoved ts g) = delete_all ts (rows g) \<and>
     heap (onTorrentsRemoved ts g) = heap g \<and> lastTorrents (onTorrentsRemoved ts g) = lastTorrents g"
  using assms unfolding onTorrentsRemoved_def delete_all_def
proof (induction ts arbitrary: g)
  case (Cons t ts)
  then show ?case using onTorrentRemoved_ok [of g t] by simp
qed simp

lemma grid_onDisconnect_ok: "grid_inv g \<Longrightarrow> grid_inv (grid_onDisconnect g) \<and> rows (grid_onDisconnect g) = []"
  using wipe_rows_inv [of g] fits_wipe [of _ g]
  by (auto simp: grid_inv_rows grid_onDisconnect_def wipe_rows_def rstore.rows_clear)

text \<open>A click on a column header, which makes it the order of the rows.\<close>

definition header_click :: "string \<Rightarrow> bool \<Rightarrow> grid \<Rightarrow> grid" where
  "header_click n desc g = sort_rows (g\<lparr>sortInfo := Some (n, desc)\<rparr>)"

lemma header_click_ok:
  assumes "grid_inv g"
  shows "grid_inv (header_click n desc g)"
proof -
  let ?g = "g\<lparr>sortInfo := Some (n, desc)\<rparr>"
  have "grid_inv ?g" by (rule grid_inv_flags [OF assms]) simp_all
  then obtain s where "sort_rows ?g = ?g\<lparr>store := s\<rparr>" "rows_inv (?g\<lparr>store := s\<rparr>)" "set (items s) = set (rows ?g)"
    using sort_step [of ?g] by (auto simp: grid_inv_rows)
  then show ?thesis using \<open>grid_inv ?g\<close> by (simp add: header_click_def grid_inv_rows fits_def)
qed

text \<open>The events of the grid.  \<open>Answer\<close> is a list or a difference, \<open>NoList\<close> the null the server sends for
  the torrents when the daemon did not answer; the flag says that the filters are not those of the last
  poll.  \<open>Inl\<close> is an exception out of a handler.\<close>

datatype grid_event =
    Answer bool "jsval dict dict" "string list" bool
  | NoList bool
  | HideLabel string bool
  | ShowAll
  | Register "jsval dict"
  | Removed "string list"
  | Disconnect
  | SortBy string bool

fun grid_handle :: "grid_event \<Rightarrow> jsval dict option \<Rightarrow> grid \<Rightarrow> jserr + grid" where
  "grid_handle (Answer delta answer removed wipe) states g = grid_receive delta answer removed wipe states g"
| "grid_handle (NoList wipe) states g = update None wipe states g"
| "grid_handle (HideLabel name hid) states g = setLabelHidden name hid states g"
| "grid_handle ShowAll states g = showEveryLabel states g"
| "grid_handle (Register labels) states g = loadHiddenLabels labels states g"
| "grid_handle (Removed ids) states g = Inr (onTorrentsRemoved ids g)"
| "grid_handle Disconnect states g = Inr (grid_onDisconnect g)"
| "grid_handle (SortBy n desc) states g = Inr (header_click n desc g)"

text \<open>What the poll loop guarantees of an answer: decoded objects have each name once, and a
  difference is handed over only when there is a list to fold it into.\<close>

fun well_timed :: "grid_event \<Rightarrow> grid \<Rightarrow> bool" where
  "well_timed (Answer delta answer removed wipe) g =
     (good_answer answer \<and> (delta \<longrightarrow> lastTorrents g \<noteq> None))"
| "well_timed _ g = True"

fun from_server :: "grid_event \<Rightarrow> bool" where
  "from_server (Answer _ _ _ _) = True"
| "from_server (NoList _) = True"
| "from_server _ = False"

text \<open>An exception of \<open>update\<close> on a missing list comes after the list is recorded and before any row
  is touched.\<close>

inductive grid_reach :: "grid \<Rightarrow> bool" where
  start: "grid_reach grid_new"
| event: "grid_reach g \<Longrightarrow> well_timed e g \<Longrightarrow> grid_handle e states g = Inr g' \<Longrightarrow> grid_reach g'"
| raised: "grid_reach g \<Longrightarrow> grid_handle (NoList wipe) states g = Inl x \<Longrightarrow> grid_reach (g\<lparr>lastTorrents := None\<rparr>)"

lemma forget_list_inv: "grid_inv g \<Longrightarrow> grid_inv (g\<lparr>lastTorrents := None\<rparr>)"
  by (simp add: grid_inv_def)

lemma update_no_list:
  assumes "grid_inv g"
  shows "if rows g \<noteq> [] \<and> \<not> wipe then update None wipe states g = Inl TypeError
         else \<exists>g'. update None wipe states g = Inr g' \<and> grid_inv g'"
proof -
  let ?g = "g\<lparr>lastTorrents := None\<rparr>"
  define h where "h = (if wipe then wipe_rows ?g else ?g)"
  have inv: "rows_inv h" using wipe_rows_inv [of ?g] forget_list_inv [OF assms] by (simp add: grid_inv_rows h_def)
  have l: "lastTorrents h = None" by (simp add: wipe_rows_def h_def)
  have u: "update None wipe states g = (if items (store h) \<noteq> [] then Inl TypeError else Inr (sort_rows h))"
    by (simp add: update_def Let_def withoutHiddenLabels_def h_def)
  have e: "items (store h) \<noteq> [] \<longleftrightarrow> rows g \<noteq> [] \<and> \<not> wipe" by (simp add: wipe_rows_def rstore.rows_clear h_def)
  obtain s where "sort_rows h = h\<lparr>store := s\<rparr>" "rows_inv (h\<lparr>store := s\<rparr>)" using sort_step [OF inv] by blast
  then have "grid_inv (sort_rows h)" using l by (simp add: grid_inv_rows)
  then show ?thesis unfolding u e by simp
qed

text \<open>Only the missing list raises, and only when there are rows and they are not wiped.\<close>

lemma grid_handle_ok:
  assumes "grid_inv g" "well_timed e g"
  shows "if rows g \<noteq> [] \<and> e = NoList False then grid_handle e states g = Inl TypeError
         else \<exists>g'. grid_handle e states g = Inr g' \<and> grid_inv g'"
proof (cases e)
  case (Answer delta answer removed wipe)
  then show ?thesis using receive_ok [of g answer delta removed wipe states] assms by auto
next
  case (NoList wipe)
  then show ?thesis using update_no_list [OF assms(1), of wipe states] by (cases wipe) auto
next
  case (HideLabel name hid)
  then show ?thesis using setLabelHidden_ok [OF assms(1), of name hid states] by auto
next
  case ShowAll
  then show ?thesis using showEveryLabel_ok [OF assms(1), of states] by auto
next
  case (Register labels)
  then show ?thesis using loadHiddenLabels_ok [OF assms(1), of labels states] by auto
qed (use assms onTorrentsRemoved_ok grid_onDisconnect_ok header_click_ok in auto)

lemma grid_handle_inv:
  "grid_inv g \<Longrightarrow> well_timed e g \<Longrightarrow> grid_handle e states g = Inr g' \<Longrightarrow> grid_inv g'"
  using grid_handle_ok [of g e states] by (auto split: if_splits)

lemma grid_reach_inv: "grid_reach g \<Longrightarrow> grid_inv g"
proof (induction rule: grid_reach.induct)
  case start
  show ?case by (rule grid_new_inv)
qed (use grid_handle_inv forget_list_inv in blast)+

section \<open>Order of the rows\<close>

lemma ins_gt_cong:
  "(\<And>y. y \<in> set ys \<Longrightarrow> gt x y = gt' x y) \<Longrightarrow> ins_gt gt x ys = ins_gt gt' x ys"
  by (induction ys) auto

lemma set_sort_gt: "set (sort_gt gt xs) = set xs"
  using mset_sort_gt [of gt xs] by (metis set_mset_mset)

lemma sort_gt_cong:
  "(\<And>x y. x \<in> set xs \<Longrightarrow> y \<in> set xs \<Longrightarrow> gt x y = gt' x y) \<Longrightarrow> sort_gt gt xs = sort_gt gt' xs"
proof (induction xs)
  case (Cons x xs)
  then have "sort_gt gt xs = sort_gt gt' xs" by simp
  moreover have "ins_gt gt x (sort_gt gt' xs) = ins_gt gt' x (sort_gt gt' xs)"
    using Cons.prems by (intro ins_gt_cong) (simp add: set_sort_gt)
  ultimately show ?case by (simp add: sort_gt_def)
qed (simp add: sort_gt_def)

lemma sorted_by_key:
  fixes K :: "'a \<Rightarrow> 'k :: linorder"
  assumes "\<And>x y. x \<in> set xs \<Longrightarrow> y \<in> set xs \<Longrightarrow> gt x y = (if desc then K x < K y else K y < K x)"
  shows "sorted_wrt (\<lambda>x y. if desc then K y \<le> K x else K x \<le> K y) (sort_gt gt xs)"
proof -
  let ?gt = "\<lambda>x y. if desc then K x < K y else K y < K x"
  have "sorted_wrt (\<lambda>x y. \<not> ?gt x y) (sort_gt ?gt xs)" by (rule sorted_sort_gt) auto
  moreover have "sort_gt gt xs = sort_gt ?gt xs" by (rule sort_gt_cong) (rule assms)
  moreover have "(\<lambda>x y. \<not> ?gt x y) = (\<lambda>x y. if desc then K y \<le> K x else K x \<le> K y)"
    by (auto simp: fun_eq_iff)
  ultimately show ?thesis by metis
qed

lemma mc_sort_by_key:
  fixes K :: "string \<times> nat \<Rightarrow> 'k :: linorder"
  assumes gt: "\<And>x y. x \<in> set (items (mc_sort gt s)) \<Longrightarrow> y \<in> set (items (mc_sort gt s)) \<Longrightarrow>
      gt x y = (if desc then K x < K y else K y < K x)"
  shows "sorted_wrt (\<lambda>x y. if desc then K y \<le> K x else K x \<le> K y) (items (mc_sort gt s))"
proof -
  let ?z = "zip (mkeys s) (items s)"
  have "snd ` set ?z = set (items (mc_sort gt s))" by (simp add: mc_sort_def Let_def set_sort_gt)
  then have "sorted_wrt (\<lambda>x y. if desc then K (snd y) \<le> K (snd x) else K (snd x) \<le> K (snd y))
      (sort_gt (\<lambda>x y. gt (snd x) (snd y)) ?z)"
    by (intro sorted_by_key [where K = "\<lambda>x. K (snd x)"] gt) auto
  then show ?thesis by (simp add: mc_sort_def Let_def sorted_wrt_map)
qed

lemma row_after_num:
  assumes "sort_value (fsort f) (js_get (h (snd x)) (fname f)) = num p"
    "sort_value (fsort f) (js_get (h (snd y)) (fname f)) = num q"
  shows "row_after f desc h x y = (if desc then p < q else q < p)"
  using assms by (auto simp: row_after_def sort_compare_def Let_def)

lemma row_after_str:
  assumes "sort_value (fsort f) (js_get (h (snd x)) (fname f)) = Str p"
    "sort_value (fsort f) (js_get (h (snd y)) (fname f)) = Str q"
  shows "row_after f desc h x y = (if desc then p < q else q < p)"
  using assms by (auto simp: row_after_def sort_compare_def Let_def)

lemma store_field_name: "store_field n = Some f \<Longrightarrow> fname f = n"
  by (auto simp: store_field_def find_Some_iff)

text \<open>The rows in the order of a column, when its sort values are all numbers or all text.\<close>

definition in_order :: "field \<Rightarrow> bool \<Rightarrow> grid \<Rightarrow> bool" where
  "in_order f desc g \<longleftrightarrow>
     (\<forall>K :: string \<times> nat \<Rightarrow> rat.
        (\<forall>r \<in> set (rows g). sort_value (fsort f) (js_get (heap g (snd r)) (fname f)) = num (K r)) \<longrightarrow>
        sorted_wrt (\<lambda>x y. if desc then K y \<le> K x else K x \<le> K y) (rows g)) \<and>
     (\<forall>L :: string \<times> nat \<Rightarrow> string.
        (\<forall>r \<in> set (rows g). sort_value (fsort f) (js_get (heap g (snd r)) (fname f)) = Str (L r)) \<longrightarrow>
        sorted_wrt (\<lambda>x y. if desc then L y \<le> L x else L x \<le> L y) (rows g))"

lemma sort_rows_in_order:
  assumes "sortInfo g = Some (n, desc)" "store_field n = Some f"
  shows "in_order f desc (sort_rows g)"
proof -
  have s: "sort_rows g = g\<lparr>store := mc_sort (row_after f desc (heap g)) (store g)\<rparr>"
    using assms by (simp add: sort_rows_def)
  let ?s = "mc_sort (row_after f desc (heap g)) (store g)"
  have "sorted_wrt (\<lambda>x y. if desc then K y \<le> K x else K x \<le> K y) (items ?s)"
    if "\<forall>r \<in> set (items ?s). sort_value (fsort f) (js_get (heap g (snd r)) (fname f)) = num (K r)" for K
    by (rule mc_sort_by_key) (use that in \<open>simp add: row_after_num\<close>)
  moreover have "sorted_wrt (\<lambda>x y. if desc then L y \<le> L x else L x \<le> L y) (items ?s)"
    if "\<forall>r \<in> set (items ?s). sort_value (fsort f) (js_get (heap g (snd r)) (fname f)) = Str (L r)" for L
    by (rule mc_sort_by_key) (use that in \<open>simp add: row_after_str\<close>)
  ultimately show ?thesis unfolding in_order_def s by simp
qed

lemma update_loop_sortInfo: "update_loop ts g new = Inr (g', new') \<Longrightarrow> sortInfo g' = sortInfo g"
  by (induction ts g new rule: update_loop.induct) (auto split: if_splits option.splits)

lemma remove_gone_sortInfo: "sortInfo (remove_gone ts g) = sortInfo g"
proof -
  let ?f = "\<lambda>(r :: string \<times> nat) (g :: grid). if map_of ts (fst r) \<noteq> None then g
     else g\<lparr>store := store_remove r (store g), gtorrents := AList.delete (fst r) (gtorrents g)\<rparr>"
  have "sortInfo (fold ?f rs h) = sortInfo h" for rs h by (induction rs arbitrary: h) auto
  then show ?thesis unfolding remove_gone_def by blast
qed

text \<open>Whatever else an update does, sorting is the last of it.\<close>

lemma update_sorts:
  assumes "update torrents wipe states g = Inr g'"
  shows "\<exists>h. g' = sort_rows h \<and> sortInfo h = sortInfo g"
  using assms
  by (auto simp: update_def Let_def wipe_rows_def remove_gone_sortInfo split: option.splits sum.splits if_splits
      dest!: update_loop_sortInfo)

lemma receive_sorts:
  assumes "grid_receive delta answer removed wipe states g = Inr g'"
  shows "\<exists>h. g' = sort_rows h \<and> sortInfo h = sortInfo g"
proof -
  have m: "sortInfo (snd (merge c r h)) = sortInfo h" for c r h
    by (simp add: merge_def Let_def case_prod_beta)
  have a: "sortInfo (snd (alloc answer g)) = sortInfo g" by (simp add: alloc_def Let_def)
  show ?thesis using assms update_sorts m a unfolding grid_receive_def
    by (auto simp: Let_def case_prod_beta split: if_splits) (metis m a)+
qed

section \<open>Properties\<close>

text \<open>Distinct rows, which are those the grid counts as contained; no shared data, and an object shared
  with the last answer under the same torrent.\<close>

definition counted :: "grid \<Rightarrow> bool" where
  "counted g \<longleftrightarrow> distinct (map fst (rows g)) \<and> fst ` set (gtorrents g) = fst ` set (rows g) \<and>
     distinct (map snd (rows g)) \<and>
     (\<forall>ts i j a. lastTorrents g = Some ts \<and> (i, a) \<in> set ts \<and> (j, a) \<in> set (rows g) \<longrightarrow> i = j)"

lemma inv_counted: "grid_inv g \<Longrightarrow> counted g"
proof -
  assume g: "grid_inv g"
  have "wf_dict (rows g)" using g rstore.wf_rows by (auto simp: grid_inv_def)
  moreover have "i = j" if "lastTorrents g = Some ts" "(i, a) \<in> set ts" "(j, a) \<in> set (rows g)" for ts i j a
    using g that by (fastforce simp: grid_inv_def fits_def)
  ultimately show ?thesis using g unfolding counted_def by (auto simp: grid_inv_def)
qed

text \<open>C3: One thing makes the torrent list raise, a missing list.  From an empty grid, through any
  sequence of whole lists and differences of decoded objects (a difference only where a list is held,
  as the poll loop sees to), of the null the server sends for a daemon that did not answer, of label
  changes, removals, disconnections and column clicks, a handler raises exactly when it is handed null,
  has rows and is not to wipe them.  Whether it returns or raises, the ids of the rows are then distinct
  and exactly those the grid counts as contained, no two rows share their data, and an object shared
  between a row and the last answer belongs to the same torrent in both.\<close>

theorem grid_never_raises:
  assumes "grid_reach g" "well_timed e g"
  shows "case grid_handle e states g of
      Inl x \<Rightarrow> x = TypeError \<and> rows g \<noteq> [] \<and> e = NoList False \<and> counted (g\<lparr>lastTorrents := None\<rparr>)
    | Inr g' \<Rightarrow> \<not> (rows g \<noteq> [] \<and> e = NoList False) \<and> counted g'"
  using grid_handle_ok [OF grid_reach_inv [OF assms(1)] assms(2), of states] inv_counted
    forget_list_inv [OF grid_reach_inv [OF assms(1)]]
  by (auto split: if_splits sum.split)

theorem grid_never_raises_witness:
  "case grid_handle (Answer False [(''a'', [(''name'', Str ''x'')])] [] False) None grid_new of
     Inl _ \<Rightarrow> False | Inr g' \<Rightarrow> counted g'"
  using grid_never_raises [OF grid_reach.start, of "Answer False [(''a'', [(''name'', Str ''x'')])] [] False" None]
  by (auto simp: good_answer_def split: sum.splits)

text \<open>C2: after an answer the grid shows exactly the server's list. A whole list replaces what is held,
  a difference is folded into it; the rows are then exactly the torrents of the result that are not
  hidden by their label, one row each, and every field of each of them is drawn from a value that
  \<open>==\<close> or the encoding cannot tell from the one received, however rows and answers share their
  objects.\<close>

theorem grid_shows_answer:
  assumes "grid_reach g" "good_answer answer" "delta \<Longrightarrow> contents g \<noteq> None"
  shows "\<exists>g'. grid_receive delta answer removed wipe states g = Inr g' \<and>
     contents g' = Some (if delta then merge_dict removed answer (the (contents g)) else answer) \<and>
     drawn states (hiddenLabels g) (the (contents g')) g'"
  using receive_ok [OF grid_reach_inv [OF assms(1)] assms(2), of delta removed wipe states] assms(3)
  by (auto simp: received_def contents_def)

theorem grid_shows_answer_witness:
  "\<exists>g'. grid_receive False [(''a'', [(''name'', Str ''x'')])] [] False None grid_new = Inr g' \<and>
     contents g' = Some [(''a'', [(''name'', Str ''x'')])]"
  using grid_shows_answer [OF grid_reach.start, of "[(''a'', [(''name'', Str ''x'')])]" False "[]" False None]
  by (auto simp: good_answer_def)

text \<open>Hiding a label redraws what is held and asks the server nothing. The held list is unchanged;
  afterwards the rows are those of the held torrents whose label is not hidden or is the one the
  sidebar asks for, and showing every label again brings back a row for each held torrent.\<close>

theorem hiding_redraws:
  assumes "grid_reach g" "contents g = Some d"
  shows "\<exists>g1 g2. setLabelHidden name hid states g = Inr g1 \<and> contents g1 = Some d \<and>
     drawn states (hiddenLabels g1) d g1 \<and> (map_of (hiddenLabels g1) name = Some True \<longleftrightarrow> hid) \<and>
     showEveryLabel states g1 = Inr g2 \<and> contents g2 = Some d \<and> set (map fst (row_data g2)) = set (map fst d)"
proof -
  obtain g1 where g1: "setLabelHidden name hid states g = Inr g1" "grid_inv g1" "contents g1 = contents g"
     "hiddenLabels g1 = (if hid then AList.update name True (hiddenLabels g) else AList.delete name (hiddenLabels g))"
     "\<forall>d. contents g = Some d \<longrightarrow> drawn states (hiddenLabels g1) d g1"
    using setLabelHidden_ok [OF grid_reach_inv [OF assms(1)], of name hid states] by blast
  obtain g2 where g2: "showEveryLabel states g1 = Inr g2" "contents g2 = contents g1"
     "\<forall>d. contents g1 = Some d \<longrightarrow> drawn states [] d g2"
    using showEveryLabel_ok [OF g1(2), of states] by blast
  have "drawn states [] d g2" using g1(3) g2(3) assms(2) by simp
  then have "set (map fst (row_data g2)) = set (map fst d)"
    by (simp add: drawn_def visible_data_def)
  moreover have "map_of (hiddenLabels g1) name = Some True \<longleftrightarrow> hid"
    using g1(4) by (simp add: AList.update_conv' AList.delete_conv')
  ultimately show ?thesis using g1 g2 assms(2) by auto
qed

theorem hiding_redraws_witness:
  "\<exists>g d g1. contents g = Some d \<and> d = [(''a'', [(''label'', Str ''tv'')])] \<and>
     setLabelHidden ''tv'' True None g = Inr g1 \<and> contents g1 = Some d"
proof -
  let ?d = "[(''a'', [(''label'', Str ''tv'')])]"
  obtain g where g: "grid_handle (Answer False ?d [] False) None grid_new = Inr g" "contents g = Some ?d"
    using receive_ok [OF grid_new_inv, of ?d False "[]" False None]
    by (auto simp: good_answer_def received_def)
  have "grid_reach g"
    by (rule grid_reach.event [OF grid_reach.start _ g(1)]) (simp add: good_answer_def)
  then show ?thesis using hiding_redraws [OF _ g(2), of "''tv''" True None] g(2) by blast
qed

text \<open>An answer without a list raises. When the daemon does not answer, the server sends \<open>null\<close>
  for the torrents; with rows on screen \<open>update\<close> then reads a property of \<open>null\<close> and throws, so the
  rest of the poll's handler does not run.\<close>

theorem null_answer_raises:
  assumes "rows g \<noteq> []"
  shows "update None False states g = Inl TypeError \<and> update None True states g \<noteq> Inl TypeError"
  using assms
  by (simp add: update_def Let_def withoutHiddenLabels_def wipe_rows_def rstore.rows_clear)

theorem null_answer_raises_witness:
  "update None False None (grid_new\<lparr>store := store_add1 (''a'', 0) mc_empty\<rparr>) = Inl TypeError"
proof -
  have "items (store_add1 (''a'', 0 :: nat) mc_empty) \<noteq> []"
    by (simp add: store_add1_def mc_add_def mc_empty_def)
  then show ?thesis using null_answer_raises [of "grid_new\<lparr>store := store_add1 (''a'', 0) mc_empty\<rparr>" None] by simp
qed

text \<open>A torrent that was removed comes back with the next label change. \<open>onTorrentsRemoved\<close> takes
  its row away and leaves it in the last answer, so redrawing from that answer, before the next poll,
  draws the row again.\<close>

theorem removed_returns:
  assumes "grid_reach g" "contents g = Some d" "t \<in> fst ` set d" "hiddenLabels g = []"
  shows "t \<notin> fst ` set (rows (onTorrentsRemoved [t] g)) \<and>
     (\<exists>g'. setLabelHidden name False states (onTorrentsRemoved [t] g) = Inr g' \<and> t \<in> fst ` set (rows g'))"
proof -
  let ?g = "onTorrentsRemoved [t] g"
  have r: "grid_inv ?g" "rows ?g = AList.delete t (rows g)" "heap ?g = heap g" "lastTorrents ?g = lastTorrents g"
    using onTorrentsRemoved_ok [OF grid_reach_inv [OF assms(1)], of "[t]"] by (auto simp: delete_all_def)
  have h: "hiddenLabels ?g = []"
    using assms(4) by (auto simp: onTorrentsRemoved_def onTorrentRemoved_def Let_def split: option.split)
  have c: "contents ?g = Some d" using assms(2) contents_flags [OF r(3,4)] by simp
  obtain g' where g': "setLabelHidden name False states ?g = Inr g'" "hiddenLabels g' = []"
      "drawn states (hiddenLabels g') d g'"
    using setLabelHidden_ok [OF r(1), of name False states] h c by auto
  then have "set (map fst (row_data g')) = set (map fst d)" by (simp add: drawn_def visible_data_def)
  then have "t \<in> fst ` set (rows g')" using assms(3) by (simp add: row_data_def flip: set_map del: set_map)
  then show ?thesis using g'(1) r(2) by (auto simp: keys_delete)
qed

text \<open>Two torrents, received with the rows ordered by ratio.\<close>

definition example_grid :: grid where
  "example_grid =
     (case grid_receive False [(''a'', [(''ratio'', num 2)]), (''b'', [(''ratio'', num 1)])] [] False None
             (header_click ''ratio'' False grid_new) of
        Inl _ \<Rightarrow> grid_new | Inr g \<Rightarrow> g)"

lemma example_rows: "rows example_grid = [(''b'', 1), (''a'', 0)]"
  by code_simp

lemma example_values:
  "js_get (heap example_grid 1) ''ratio'' = num 1" "js_get (heap example_grid 0) ''ratio'' = num 2"
  "hiddenLabels example_grid = []" "map_option (map fst) (contents example_grid) = Some [''a'', ''b'']"
  "sortInfo example_grid = Some (''ratio'', False)"
  by code_simp+

lemma example_reach: "grid_reach example_grid"
proof -
  let ?g = "header_click ''ratio'' False grid_new" and ?d = "[(''a'', [(''ratio'', num 2)]), (''b'', [(''ratio'', num 1)])]"
  have "grid_reach ?g"
    by (rule grid_reach.event [OF grid_reach.start, of "SortBy ''ratio'' False" None]) simp_all
  moreover have t: "well_timed (Answer False ?d [] False) ?g" by (simp add: good_answer_def)
  moreover obtain g' where "grid_handle (Answer False ?d [] False) None ?g = Inr g'"
    using grid_handle_ok [OF grid_reach_inv t, of None] calculation by (auto split: if_splits)
  moreover from this have "example_grid = g'" by (simp add: example_grid_def)
  ultimately show ?thesis using grid_reach.event by blast
qed

theorem removed_returns_witness:
  "\<exists>g'. setLabelHidden ''tv'' False None (onTorrentsRemoved [''a''] example_grid) = Inr g' \<and>
     ''a'' \<in> fst ` set (rows g')"
proof -
  obtain d where d: "contents example_grid = Some d" "map fst d = [''a'', ''b'']"
    using example_values(4) by auto
  have "set (map fst d) = {''a'', ''b''}" unfolding d(2) by simp
  then have "''a'' \<in> fst ` set d" by simp
  then show ?thesis using removed_returns [OF example_reach d(1) _ example_values(3)] by blast
qed

text \<open>C13: The rows are in the order asked for.  With a column of the store chosen, a poll's answer, whole
  or a difference, leaves the visible torrents in the order of that column's sort values, ascending or
  descending as asked, taken from the data the rows now have; this for sort values that are all
  numbers (which the queue position and the remaining time are turned into) or all text (which the name
  is), between which the store's comparison is an order.\<close>

theorem rows_sorted:
  assumes "grid_reach g" "good_answer answer" "delta \<Longrightarrow> contents g \<noteq> None"
    and "sortInfo g = Some (n, desc)" "store_field n = Some f"
  shows "\<exists>g'. grid_receive delta answer removed wipe states g = Inr g' \<and>
    drawn states (hiddenLabels g) (the (contents g')) g' \<and> in_order f desc g'"
proof -
  obtain g' where g': "grid_receive delta answer removed wipe states g = Inr g'"
      "drawn states (hiddenLabels g) (the (contents g')) g'"
    using receive_ok [OF grid_reach_inv [OF assms(1)] assms(2), of delta removed wipe states] assms(3)
    by (auto simp: received_def contents_def)
  obtain h where "g' = sort_rows h" "sortInfo h = sortInfo g" using receive_sorts [OF g'(1)] by blast
  then show ?thesis using g' sort_rows_in_order assms(4,5) by metis
qed

theorem rows_sorted_witness:
  "\<exists>g'. grid_receive True [(''a'', [(''ratio'', num (1/2))])] [] False None example_grid = Inr g' \<and>
     in_order (fld ''ratio'' FloatT) False g'"
proof -
  have f: "store_field ''ratio'' = Some (fld ''ratio'' FloatT)"
    by (simp add: store_field_def meta_fields_def)
  have "contents example_grid \<noteq> None" using example_values(4) by auto
  then show ?thesis
    using rows_sorted [OF example_reach _ _ example_values(5) f, of "[(''a'', [(''ratio'', num (1/2))])]" True "[]" False None]
    by (auto simp: good_answer_def)
qed

end
