(* ===== verification/DeltaServer.thy ===== *)
theory DeltaServer
  imports TorrentGrid "HOL-Library.Word"
begin

text \<open>
  The other half of a poll: \<open>narrow_to_changes\<close> and \<open>changes_between\<close> of the web server
  (\<open>redeluge-web/src/json_api.rs\<close>) with the baselines it keeps for each session (\<open>state.rs\<close>), and
  what becomes of their answers in the grids of the tabs that share them.  The fields of a torrent are
  the values the browser decodes; the server's equality of two values is equality.
\<close>

section \<open>Baselines\<close>

type_synonym epoch = "64 word"

record baseline =
  b_epoch :: epoch
  b_keys :: "string list"
  b_filters :: "jsval dict"
  b_rows :: "jsval dict dict"

text \<open>An entry is the time it was last read or written, and the baseline.\<close>

type_synonym baselines = "(int \<times> baseline) dict"

definition MAX_BASELINES :: nat where
  "MAX_BASELINES = 4"

definition bl_get :: "int \<Rightarrow> string \<Rightarrow> baselines \<Rightarrow> baseline option \<times> baselines" where
  "bl_get now session bs =
     (case map_of bs session of
        None \<Rightarrow> (None, bs)
      | Some (_, b) \<Rightarrow> (Some b, AList.update session (now, b) bs))"

text \<open>The session seen longest ago.\<close>

fun oldest :: "baselines \<Rightarrow> (string \<times> int) option" where
  "oldest [] = None"
| "oldest ((s, (t, b)) # bs) =
     (case oldest bs of None \<Rightarrow> Some (s, t) | Some (s', t') \<Rightarrow> if t' < t then Some (s', t') else Some (s, t))"

function evict :: "baselines \<Rightarrow> baselines" where
  "evict bs =
     (if length bs \<le> MAX_BASELINES then bs
      else case oldest bs of None \<Rightarrow> bs | Some (s, _) \<Rightarrow> evict (AList.delete s bs))"
  by pat_completeness auto

lemma oldest_in: "oldest bs = Some (s, t) \<Longrightarrow> s \<in> fst ` set bs"
proof (induction bs arbitrary: s t)
  case (Cons x bs)
  obtain s1 t1 b where x: "x = (s1, (t1, b))" by (cases x) auto
  show ?case
  proof (cases "oldest bs")
    case None
    then show ?thesis using Cons.prems x by simp
  next
    case (Some p)
    then show ?thesis using Cons.prems Cons.IH [of "fst p" "snd p"] x by (cases p) (auto split: if_splits)
  qed
qed simp

lemma length_delete_less:
  assumes "s \<in> fst ` set bs"
  shows "length (AList.delete s bs) < length bs"
proof -
  obtain b where "(s, b) \<in> set bs" using assms by auto
  then show ?thesis unfolding AList.delete_eq by (intro length_filter_less) auto
qed

termination evict
proof (relation "measure length")
  fix bs x s t assume "oldest bs = Some x" "(s, t) = x"
  then have "s \<in> fst ` set bs" using oldest_in [of bs s t] by simp
  then show "(AList.delete s bs, bs) \<in> measure length" using length_delete_less by simp
qed simp

declare evict.simps [simp del]

definition bl_put :: "int \<Rightarrow> string \<Rightarrow> baseline \<Rightarrow> baselines \<Rightarrow> baselines" where
  "bl_put now session b bs = evict (AList.update session (now, b) bs)"

definition bl_forget :: "string \<Rightarrow> baselines \<Rightarrow> baselines" where
  "bl_forget session bs = AList.delete session bs"

definition bl_keep_only :: "(string \<Rightarrow> bool) \<Rightarrow> baselines \<Rightarrow> baselines" where
  "bl_keep_only live bs = filter (\<lambda>(s, _). live s) bs"

section \<open>The difference of two answers\<close>

definition moved_fields :: "'v dict \<Rightarrow> 'v dict \<Rightarrow> 'v dict" where
  "moved_fields was fs = filter (\<lambda>(k, v). map_of was k \<noteq> Some v) fs"

definition change_of :: "'v dict dict \<Rightarrow> string \<times> 'v dict \<Rightarrow> 'v dict dict \<Rightarrow> 'v dict dict" where
  "change_of before = (\<lambda>(i, fs) changed.
     case map_of before i of
       None \<Rightarrow> AList.update i fs changed
     | Some was \<Rightarrow>
         (let moved = moved_fields was fs
          in if moved = [] then changed else AList.update i moved changed))"

definition whole_of :: "'v dict dict \<Rightarrow> string \<times> 'v dict \<Rightarrow> 'v dict dict \<Rightarrow> 'v dict dict" where
  "whole_of now = (\<lambda>(i, was) changed.
     case map_of now i of
       None \<Rightarrow> changed
     | Some fs \<Rightarrow>
         if \<exists>k \<in> fst ` set was. k \<notin> fst ` set fs then AList.update i fs changed else changed)"

definition changes_between :: "'v dict dict \<Rightarrow> 'v dict dict \<Rightarrow> 'v dict dict \<times> string list" where
  "changes_between before now =
     (let changed = fold (change_of before) now [];
          changed = fold (whole_of now) before changed
      in (changed, filter (\<lambda>i. i \<notin> fst ` set now) (map fst before)))"

section \<open>Answering a poll\<close>

datatype poll_answer =
    Whole "jsval dict option" "epoch option"
  | Changes "jsval dict dict" "string list" epoch

definition next_epoch :: "epoch \<Rightarrow> epoch" where
  "next_epoch e = max (e + 1) 1"

text \<open>\<open>Json::Object\<close> of each value; a value that is no object is left out.\<close>

definition whole_torrents :: "jsval dict \<Rightarrow> jsval dict dict" where
  "whole_torrents current = List.map_filter (\<lambda>(i, v). case v of Obj _ f \<Rightarrow> Some (i, f) | _ \<Rightarrow> None) current"

definition narrow_to_changes ::
    "int \<Rightarrow> bool \<Rightarrow> jsval dict option \<Rightarrow> string list \<Rightarrow> jsval dict \<Rightarrow> epoch option \<Rightarrow> string option \<Rightarrow>
     baselines \<Rightarrow> poll_answer \<times> baselines" where
  "narrow_to_changes now delta_updates torrents keys filters asked_from session bs =
     (case (torrents, session) of
        (Some current, Some session) \<Rightarrow>
          if \<not> delta_updates then (Whole (Some current) None, bl_forget session bs)
          else
            let rows = whole_torrents current
            in if length rows \<noteq> length current then (Whole (Some current) None, bs)
               else
                 let (found, bs) = bl_get now session bs
                 in (case found of
                       Some b \<Rightarrow>
                         if b_keys b = keys \<and> b_filters b = filters \<and> asked_from = Some (b_epoch b)
                         then
                           let (changed, removed) = changes_between (b_rows b) rows;
                               b = b\<lparr>b_epoch := next_epoch (b_epoch b), b_rows := rows\<rparr>
                           in (Changes changed removed (b_epoch b), AList.update session (now, b) bs)
                         else
                           let e = next_epoch (b_epoch b)
                           in (Whole (Some current) (Some e),
                               bl_put now session \<lparr>b_epoch = e, b_keys = keys, b_filters = filters, b_rows = rows\<rparr> bs)
                     | None \<Rightarrow>
                         let e = next_epoch 0
                         in (Whole (Some current) (Some e),
                             bl_put now session \<lparr>b_epoch = e, b_keys = keys, b_filters = filters, b_rows = rows\<rparr> bs))
      | _ \<Rightarrow> (Whole None None, bs))"

text \<open>The epoch a browser sends: none when it is missing or zero.\<close>

definition asked_epoch :: "nat \<Rightarrow> epoch option" where
  "asked_epoch n = (if n = 0 then None else Some (of_nat n))"

section \<open>What a difference says\<close>

definition loses :: "'v dict \<Rightarrow> 'v dict \<Rightarrow> bool" where
  "loses was fs \<longleftrightarrow> (\<exists>k \<in> fst ` set was. k \<notin> fst ` set fs)"

definition change_for :: "'v dict dict \<Rightarrow> string \<Rightarrow> 'v dict \<Rightarrow> 'v dict option" where
  "change_for before i fs =
     (case map_of before i of
        None \<Rightarrow> Some fs
      | Some was \<Rightarrow> if moved_fields was fs = [] then None else Some (moved_fields was fs))"

lemma change_of_at:
  "map_of (change_of before (i, fs) ch) j =
     (if j = i then (case change_for before i fs of None \<Rightarrow> map_of ch i | Some f \<Rightarrow> Some f) else map_of ch j)"
  by (auto simp: change_of_def change_for_def AList.update_conv' Let_def split: option.split)

lemma fold_change_of:
  "wf_dict now \<Longrightarrow> map_of (fold (change_of before) now ch) i =
     (case map_of now i of None \<Rightarrow> map_of ch i
      | Some fs \<Rightarrow> (case change_for before i fs of None \<Rightarrow> map_of ch i | Some f \<Rightarrow> Some f))"
proof (induction now arbitrary: ch)
  case (Cons x now)
  obtain j fs where x: "x = (j, fs)" by (cases x)
  have "j = i \<Longrightarrow> map_of now i = None" using Cons.prems x by (simp add: map_of_eq_None_iff)
  then show ?case using Cons x by (auto simp: change_of_at split: option.split)
qed simp

lemma whole_of_at:
  "map_of (whole_of now (i, was) ch) j =
     (if j = i then (case map_of now i of None \<Rightarrow> map_of ch i | Some fs \<Rightarrow> if loses was fs then Some fs else map_of ch i)
      else map_of ch j)"
  by (simp add: whole_of_def loses_def AList.update_conv' split: option.split)

lemma fold_whole_of:
  "wf_dict before \<Longrightarrow> map_of (fold (whole_of now) before ch) i =
     (case map_of before i of None \<Rightarrow> map_of ch i
      | Some was \<Rightarrow> (case map_of now i of None \<Rightarrow> map_of ch i | Some fs \<Rightarrow> if loses was fs then Some fs else map_of ch i))"
proof (induction before arbitrary: ch)
  case (Cons x before)
  obtain j was where x: "x = (j, was)" by (cases x)
  have "j = i \<Longrightarrow> map_of before i = None" using Cons.prems x by (simp add: map_of_eq_None_iff)
  then show ?case using Cons x by (auto simp: whole_of_at split: option.split)
qed simp

lemma changed_at:
  assumes "wf_dict before" "wf_dict now"
  shows "map_of (fst (changes_between before now)) i =
    (case map_of now i of None \<Rightarrow> None
     | Some fs \<Rightarrow> (case map_of before i of None \<Rightarrow> Some fs
         | Some was \<Rightarrow> if loses was fs then Some fs else if moved_fields was fs = [] then None else Some (moved_fields was fs)))"
  using assms
  by (auto simp: changes_between_def Let_def fold_whole_of fold_change_of change_for_def split: option.split)

lemma good_update:
  assumes "good_answer ch" "wf_dict g"
  shows "good_answer (AList.update i g ch)"
proof -
  have "wf_dict f" if "(j, f) \<in> set (AList.update i g ch)" for j f
  proof -
    have "map_of (AList.update i g ch) j = Some f" using that assms(1) by (simp add: good_answer_def AList.distinct_update)
    then show ?thesis using assms map_of_SomeD [of ch j f]
      by (auto simp: AList.update_conv' good_answer_def list_all_iff split: if_splits)
  qed
  then show ?thesis using assms(1) by (auto simp: good_answer_def AList.distinct_update list_all_iff)
qed

lemma changes_good:
  assumes "good_answer now"
  shows "good_answer (fst (changes_between before now))"
proof -
  have fsw: "wf_dict fs" if "(i, fs) \<in> set now" for i fs using assms that by (auto simp: good_answer_def list_all_iff)
  have c: "good_answer (change_of before x ch)" if "x \<in> set now" "good_answer ch" for x ch
  proof (cases x)
    case (Pair i fs)
    then have w: "wf_dict fs" using that fsw by blast
    then have "wf_dict (moved_fields was fs)" for was by (simp add: moved_fields_def wf_filter)
    then show ?thesis using that Pair w good_update by (simp add: change_of_def Let_def split: option.split)
  qed
  have w: "good_answer (whole_of now x ch)" if "good_answer ch" for x ch
  proof (cases x)
    case (Pair i was)
    have "wf_dict fs" if "map_of now i = Some fs" for fs using fsw map_of_SomeD [OF that] by blast
    then show ?thesis using that Pair good_update by (auto simp: whole_of_def split: option.split)
  qed
  have "good_answer (fold (change_of before) now [])"
    by (rule fold_invariant [where Q = "\<lambda>x. x \<in> set now"]) (use c in \<open>auto simp: good_answer_def\<close>)
  then have "good_answer (fold (whole_of now) before (fold (change_of before) now []))"
    by (rule fold_invariant [where Q = "\<lambda>x. True", rotated]) (use w in auto)
  then show ?thesis by (simp add: changes_between_def Let_def)
qed

section \<open>A difference put on top of a list\<close>

text \<open>What a list holds says everything another says: the same torrents, and for each every field
  of the other with its value.  It may have fields besides.\<close>

definition holds_all :: "jsval dict dict \<Rightarrow> jsval dict dict \<Rightarrow> bool" where
  "holds_all held srv \<longleftrightarrow>
     (\<forall>i. case map_of srv i of
            None \<Rightarrow> map_of held i = None
          | Some fs \<Rightarrow> (\<exists>h. map_of held i = Some h \<and> map_of fs \<subseteq>\<^sub>m map_of h))"

text \<open>A list invents nothing: each of its fields is one of the daemon's, or one that was held before.\<close>

definition adds_only :: "jsval dict dict \<Rightarrow> jsval dict dict \<Rightarrow> jsval dict dict \<Rightarrow> bool" where
  "adds_only held srv new \<longleftrightarrow>
     (\<forall>i h k v. map_of new i = Some h \<longrightarrow> map_of h k = Some v \<longrightarrow>
        (\<exists>fs. map_of srv i = Some fs \<and> map_of fs k = Some v) \<or>
        (\<exists>old. map_of held i = Some old \<and> map_of old k = Some v))"

lemma covers_at:
  assumes "holds_all held srv"
  shows "map_of srv i = None \<Longrightarrow> map_of held i = None"
    "map_of srv i = Some fs \<Longrightarrow> \<exists>h. map_of held i = Some h \<and> map_of fs \<subseteq>\<^sub>m map_of h"
  using assms [unfolded holds_all_def, rule_format, of i] by simp_all

lemma holds_allI:
  "(\<And>i. map_of srv i = None \<Longrightarrow> map_of held i = None) \<Longrightarrow>
   (\<And>i fs. map_of srv i = Some fs \<Longrightarrow> \<exists>h. map_of held i = Some h \<and> map_of fs \<subseteq>\<^sub>m map_of h) \<Longrightarrow> holds_all held srv"
  by (simp add: holds_all_def split: option.split)

lemma holds_all_refl [simp]: "holds_all a a"
  by (rule holds_allI) auto

lemma holds_all_trans:
  assumes "holds_all a b" "holds_all b c"
  shows "holds_all a c"
proof (rule holds_allI)
  fix i assume "map_of c i = None"
  then show "map_of a i = None" using covers_at(1) [OF assms(1)] covers_at(1) [OF assms(2)] by blast
next
  fix i fs assume "map_of c i = Some fs"
  then obtain h where h: "map_of b i = Some h" "map_of fs \<subseteq>\<^sub>m map_of h" using covers_at(2) [OF assms(2)] by blast
  then obtain h' where "map_of a i = Some h'" "map_of h \<subseteq>\<^sub>m map_of h'" using covers_at(2) [OF assms(1)] by blast
  then show "\<exists>h. map_of a i = Some h \<and> map_of fs \<subseteq>\<^sub>m map_of h" using h(2) map_le_trans by blast
qed

lemma fold_fields_at:
  "wf_dict ch \<Longrightarrow> map_of (fold fold_fields ch all) i =
     (case map_of ch i of None \<Rightarrow> map_of all i
      | Some f \<Rightarrow> Some (case map_of all i of None \<Rightarrow> f | Some old \<Rightarrow> put_all old f))"
proof (induction ch arbitrary: all)
  case (Cons x ch)
  obtain j f where x: "x = (j, f)" by (cases x)
  have "j = i \<Longrightarrow> map_of ch i = None" using Cons.prems x by (simp add: map_of_eq_None_iff)
  then show ?case using Cons x by (auto simp: fold_fields_def AList.update_conv' split: option.split)
qed simp

lemma moved_fields_at:
  "wf_dict fs \<Longrightarrow> map_of (moved_fields was fs) k = (if map_of fs k = map_of was k then None else map_of fs k)"
  unfolding moved_fields_def by (induction fs) (auto simp: map_of_eq_None_iff split: if_splits)

text \<open>The difference of two answers, put on a list that covers the first, gives one that covers the
  second.  A field the daemon has stopped to send stays (\<open>TorrentGrid.merge\<close> folds).\<close>

lemma merge_covers:
  assumes before: "good_answer before" and now: "good_answer now" and held: "holds_all held before"
  defines "new \<equiv> merge_dict (snd (changes_between before now)) (fst (changes_between before now)) held"
  shows "holds_all new now" "adds_only held now new"
proof -
  let ?ch = "fst (changes_between before now)"
  have wb: "wf_dict before" and wn: "wf_dict now" using before now by (simp_all add: good_answer_def)
  have wc: "wf_dict ?ch" using changes_good [OF now, of before] by (simp add: good_answer_def)
  have m: "map_of new i = (let old = if i \<in> set (snd (changes_between before now)) then None else map_of held i in
      case map_of ?ch i of None \<Rightarrow> old | Some f \<Rightarrow> Some (case old of None \<Rightarrow> f | Some old \<Rightarrow> put_all old f))" for i
    unfolding new_def merge_dict_def fold_fields_at [OF wc] map_of_delete_all Let_def by (rule refl)
  have rm: "i \<in> set (snd (changes_between before now)) \<longleftrightarrow> map_of before i \<noteq> None \<and> map_of now i = None" for i
    by (auto simp: changes_between_def Let_def map_of_eq_None_iff)
  have one: "map_of new i = None" if "map_of now i = None" for i
  proof -
    have "map_of held i = None" if "map_of before i = None" by (rule covers_at(1) [OF held that])
    then show ?thesis using that by (auto simp: m rm changed_at [OF wb wn] Let_def)
  qed
  have two: "\<exists>h. map_of new i = Some h \<and> map_of fs \<subseteq>\<^sub>m map_of h \<and>
      (\<forall>k v. map_of h k = Some v \<longrightarrow> map_of fs k = Some v \<or> (\<exists>old. map_of held i = Some old \<and> map_of old k = Some v))"
    if fs: "map_of now i = Some fs" for i fs
  proof -
    have wf: "wf_dict fs" using now map_of_SomeD [OF fs] by (auto simp: good_answer_def list_all_iff)
    show ?thesis
    proof (cases "map_of before i")
      case None
      then have "map_of held i = None" by (rule covers_at(1) [OF held])
      then show ?thesis using None fs by (simp add: m rm changed_at [OF wb wn] Let_def)
    next
      case (Some was)
      obtain old where old: "map_of held i = Some old" "map_of was \<subseteq>\<^sub>m map_of old"
        using covers_at(2) [OF held Some] by blast
      have wm: "wf_dict (moved_fields was fs)" using wf by (simp add: moved_fields_def wf_filter)
      have mv: "map_of fs \<subseteq>\<^sub>m map_of old ++ map_of (moved_fields was fs)"
        using old(2) by (auto simp: map_le_def moved_fields_at [OF wf] map_add_def dom_def split: option.splits)
      show ?thesis
      proof (cases "loses was fs")
        case True
        then show ?thesis using Some fs old wf
          by (auto simp: m rm changed_at [OF wb wn] map_of_put_all Let_def)
      next
        case False
        then show ?thesis using Some fs old wm mv
          by (auto simp: m rm changed_at [OF wb wn] map_of_put_all moved_fields_at [OF wf] Let_def split: if_splits)
      qed
    qed
  qed
  show "holds_all new now" by (rule holds_allI) (use one two in blast)+
  show "adds_only held now new" unfolding adds_only_def
  proof (intro allI impI)
    fix i h k v assume h: "map_of new i = Some h" "map_of h k = Some v"
    then obtain fs where "map_of now i = Some fs" using one by (cases "map_of now i") auto
    then show "(\<exists>fs. map_of now i = Some fs \<and> map_of fs k = Some v) \<or> (\<exists>old. map_of held i = Some old \<and> map_of old k = Some v)"
      using two [of i fs] h by auto
  qed
qed

text \<open>A field that is gone from the daemon's torrent stays in the browser's.\<close>

lemma lost_field_stays:
  "merge_dict (snd (changes_between [(''a'', [(''x'', Str ''1''), (''y'', Str ''2'')])] [(''a'', [(''x'', Str ''1'')])]))
      (fst (changes_between [(''a'', [(''x'', Str ''1''), (''y'', Str ''2'')])] [(''a'', [(''x'', Str ''1'')])]))
      [(''a'', [(''x'', Str ''1''), (''y'', Str ''2'')])] = [(''a'', [(''x'', Str ''1''), (''y'', Str ''2'')])]"
  by code_simp

section \<open>Answers and their effect on a tab\<close>

lemma length_update_le: "length (AList.update k v d) \<le> Suc (length d)"
  by (induction d) auto

lemma length_update_known: "k \<in> fst ` set d \<Longrightarrow> length (AList.update k v d) = length d"
  by (induction d) auto

lemma evict_few: "length bs \<le> MAX_BASELINES \<Longrightarrow> evict bs = bs"
  by (simp add: evict.simps)

lemma bl_get_at:
  "bl_get n s bs = (map_option snd (map_of bs s), snd (bl_get n s bs))"
  "map_option snd (map_of (snd (bl_get n s bs)) r) = map_option snd (map_of bs r)"
  "fst ` set (snd (bl_get n s bs)) = fst ` set bs"
  "wf_dict bs \<Longrightarrow> wf_dict (snd (bl_get n s bs))"
proof -
  show "bl_get n s bs = (map_option snd (map_of bs s), snd (bl_get n s bs))"
    by (auto simp: bl_get_def split: option.split)
  show "map_option snd (map_of (snd (bl_get n s bs)) r) = map_option snd (map_of bs r)"
    by (auto simp: bl_get_def AList.update_conv' split: option.split)
  show "fst ` set (snd (bl_get n s bs)) = fst ` set bs"
    using map_of_SomeD [of bs s] by (force simp: bl_get_def AList.dom_update split: option.split)
  show "wf_dict bs \<Longrightarrow> wf_dict (snd (bl_get n s bs))"
    by (auto simp: bl_get_def AList.distinct_update split: option.split)
qed

text \<open>The baseline of a session, the times aside.\<close>

definition base :: "baselines \<Rightarrow> string \<Rightarrow> baseline option" where
  "base bs s = map_option snd (map_of bs s)"

definition usable :: "baselines \<Rightarrow> string \<Rightarrow> string list \<Rightarrow> jsval dict \<Rightarrow> epoch option \<Rightarrow> baseline option" where
  "usable bs s ks fs asked =
     (case base bs s of None \<Rightarrow> None
      | Some b \<Rightarrow> if b_keys b = ks \<and> b_filters b = fs \<and> asked = Some (b_epoch b) then Some b else None)"

definition all_objects :: "jsval dict \<Rightarrow> bool" where
  "all_objects current \<longleftrightarrow> length (whole_torrents current) = length current"

text \<open>With few sessions no baseline is thrown out, and a poll is answered from its own session's.\<close>

lemma narrow_few:
  fixes ks :: "string list" and fs current :: "jsval dict" and bs :: baselines
    and n :: int and asked :: "epoch option"
  assumes "all_objects current" "length (AList.update s x bs) \<le> MAX_BASELINES" "wf_dict bs"
  defines "r \<equiv> narrow_to_changes n True (Some current) ks fs asked (Some s) bs" and "now_rows \<equiv> whole_torrents current"
  defines "e \<equiv> next_epoch (case base bs s of None \<Rightarrow> 0 | Some b \<Rightarrow> b_epoch b)"
  shows "fst r = (case usable bs s ks fs asked of
       Some b \<Rightarrow> Changes (fst (changes_between (b_rows b) now_rows)) (snd (changes_between (b_rows b) now_rows)) e
     | None \<Rightarrow> Whole (Some current) (Some e))"
    "base (snd r) s = Some \<lparr>b_epoch = e, b_keys = ks, b_filters = fs, b_rows = now_rows\<rparr>"
    "q \<noteq> s \<Longrightarrow> base (snd r) q = base bs q"
    "wf_dict (snd r)" "fst ` set (snd r) = insert s (fst ` set bs)"
proof -
  define bs1 where "bs1 = snd (bl_get n s bs)"
  note g = bl_get_at [where n = n and s = s and bs = bs, folded bs1_def]
  have w1: "wf_dict bs1" using g(4) assms(3) by blast
  have b1: "base bs1 q = base bs q" for q using g(2) by (simp add: base_def)
  have len: "length (AList.update s y bs1) \<le> MAX_BASELINES" for y
  proof -
    have "length d = card (fst ` set d)" if "wf_dict d" for d :: baselines
      using that by (metis distinct_card length_map set_map)
    then have "length (AList.update s y bs1) = length (AList.update s x bs)"
      using w1 assms(3) g(3) by (simp add: AList.distinct_update AList.dom_update)
    then show ?thesis using assms(2) by simp
  qed
  have put: "bl_put n s b bs1 = AList.update s (n, b) bs1" for b
    unfolding bl_put_def by (rule evict_few [OF len])
  have ao: "(length now_rows \<noteq> length current) = False" using assms(1) by (simp add: all_objects_def now_rows_def)
  define b' where "b' = \<lparr>b_epoch = e, b_keys = ks, b_filters = fs, b_rows = now_rows\<rparr>"
  have r: "r = ((case usable bs s ks fs asked of
       Some b \<Rightarrow> Changes (fst (changes_between (b_rows b) now_rows)) (snd (changes_between (b_rows b) now_rows)) e
     | None \<Rightarrow> Whole (Some current) (Some e)), AList.update s (n, b') bs1)"
  proof (cases "base bs s")
    case None
    then have "fst (bl_get n s bs) = None" by (subst g(1)) (simp add: base_def)
    then have gg: "bl_get n s bs = (None, bs1)" by (simp add: bs1_def prod_eq_iff)
    show ?thesis unfolding r_def narrow_to_changes_def Let_def
      by (simp add: ao [unfolded now_rows_def] gg put usable_def None e_def b'_def now_rows_def)
  next
    case (Some b)
    then have "fst (bl_get n s bs) = Some b" by (subst g(1)) (simp add: base_def)
    then have gg: "bl_get n s bs = (Some b, bs1)" by (simp add: bs1_def prod_eq_iff)
    have upd: "b_keys b = ks \<Longrightarrow> b_filters b = fs \<Longrightarrow> b\<lparr>b_epoch := y, b_rows := z\<rparr> =
        \<lparr>b_epoch = y, b_keys = ks, b_filters = fs, b_rows = z\<rparr>" for y z by (cases b) simp
    show ?thesis unfolding r_def narrow_to_changes_def Let_def
      by (auto simp: ao [unfolded now_rows_def] gg put usable_def Some e_def b'_def now_rows_def case_prod_beta upd)
  qed
  show "fst r = (case usable bs s ks fs asked of
       Some b \<Rightarrow> Changes (fst (changes_between (b_rows b) now_rows)) (snd (changes_between (b_rows b) now_rows)) e
     | None \<Rightarrow> Whole (Some current) (Some e))" by (simp add: r)
  show "base (snd r) s = Some \<lparr>b_epoch = e, b_keys = ks, b_filters = fs, b_rows = now_rows\<rparr>"
    by (simp add: r base_def AList.update_conv' b'_def)
  show "q \<noteq> s \<Longrightarrow> base (snd r) q = base bs q" using b1 [of q] by (simp add: r base_def AList.update_conv')
  show "wf_dict (snd r)" "fst ` set (snd r) = insert s (fst ` set bs)"
    using w1 g(3) by (simp_all add: r AList.distinct_update AList.dom_update)
qed

section \<open>Tabs\<close>

text \<open>A tab: its grid, the epoch it holds, and the answer on its way to it, with the torrents of the
  daemon when that answer was made.\<close>

record tab =
  t_grid :: grid
  t_epoch :: nat
  t_wait :: "(poll_answer \<times> jsval dict) option"

definition tab_new :: tab where
  "tab_new = \<lparr>t_grid = grid_new, t_epoch = 0, t_wait = None\<rparr>"

text \<open>What \<open>UI.onUpdate\<close> does with the list of an answer.\<close>

definition take_answer :: "poll_answer \<Rightarrow> bool \<Rightarrow> jsval dict option \<Rightarrow> tab \<Rightarrow> jserr + tab" where
  "take_answer a wipe states t =
     (case a of
        Whole None e \<Rightarrow> map_sum id (\<lambda>g. t\<lparr>t_grid := g, t_epoch := (case e of None \<Rightarrow> 0 | Some e \<Rightarrow> unat e)\<rparr>)
                          (update None wipe states (t_grid t))
      | Whole (Some current) e \<Rightarrow>
          map_sum id (\<lambda>g. t\<lparr>t_grid := g, t_epoch := (case e of None \<Rightarrow> 0 | Some e \<Rightarrow> unat e)\<rparr>)
            (grid_receive False (whole_torrents current) [] wipe states (t_grid t))
      | Changes changed gone e \<Rightarrow>
          if lastTorrents (t_grid t) = None then Inr (t\<lparr>t_epoch := 0\<rparr>)
          else map_sum id (\<lambda>g. t\<lparr>t_grid := g, t_epoch := unat e\<rparr>)
                 (grid_receive True changed gone wipe states (t_grid t)))"

text \<open>The web server and the tabs of its sessions.  A tab asks for any fields and filters when it has no
  question open; the daemon's torrents are any list of objects, each keyed once; the answer arrives or is
  lost; between them the grid's own events go on.  \<open>sess\<close> says which session a tab belongs to.  Epochs
  stay within what a number of the browser holds exactly.\<close>

inductive net :: "(nat \<Rightarrow> string) \<Rightarrow> (nat \<Rightarrow> tab) \<Rightarrow> baselines \<Rightarrow> bool" for sess where
  start: "net sess (\<lambda>_. tab_new) []"
| ask: "net sess T bs \<Longrightarrow> t_wait (T i) = None \<Longrightarrow>
     all_objects current \<Longrightarrow> good_answer (whole_torrents current) \<Longrightarrow>
     (\<And>b. base bs (sess i) = Some b \<Longrightarrow> unat (b_epoch b) < 2 ^ 53) \<Longrightarrow>
     narrow_to_changes n True (Some current) ks fs (asked_epoch (t_epoch (T i))) (Some (sess i)) bs = (a, bs') \<Longrightarrow>
     net sess (T(i := (T i)\<lparr>t_wait := Some (a, current)\<rparr>)) bs'"
| lost: "net sess T bs \<Longrightarrow> net sess (T(i := (T i)\<lparr>t_wait := None\<rparr>)) bs"
| arrive: "net sess T bs \<Longrightarrow> t_wait (T i) = Some (a, current) \<Longrightarrow> take_answer a wipe states (T i) = Inr t \<Longrightarrow>
     net sess (T(i := t\<lparr>t_wait := None\<rparr>)) bs"
| local: "net sess T bs \<Longrightarrow> \<not> from_server ev \<Longrightarrow> grid_handle ev states (t_grid (T i)) = Inr g \<Longrightarrow>
     net sess (T(i := (T i)\<lparr>t_grid := g, t_epoch := (if ev = Disconnect then 0 else t_epoch (T i))\<rparr>)) bs"
| other_question: "net sess T bs \<Longrightarrow> t_wait (T i) = None \<Longrightarrow> net sess (T(i := (T i)\<lparr>t_epoch := 0\<rparr>)) bs"

text \<open>What the server believes of a tab.  \<open>top\<close> is the number of the session's last answer.\<close>

definition top :: "baselines \<Rightarrow> string \<Rightarrow> nat" where
  "top bs s = (case base bs s of None \<Rightarrow> 0 | Some b \<Rightarrow> unat (b_epoch b))"

definition is_last :: "baselines \<Rightarrow> string \<Rightarrow> nat \<Rightarrow> jsval dict dict \<Rightarrow> bool" where
  "is_last bs s e d \<longleftrightarrow> (case base bs s of None \<Rightarrow> False | Some b \<Rightarrow> e = unat (b_epoch b) \<longrightarrow> holds_all d (b_rows b))"

definition held_ok :: "baselines \<Rightarrow> string \<Rightarrow> tab \<Rightarrow> bool" where
  "held_ok bs s t \<longleftrightarrow> grid_inv (t_grid t) \<and> t_epoch t \<le> top bs s \<and>
     (t_epoch t \<noteq> 0 \<longrightarrow> (\<exists>c. contents (t_grid t) = Some c \<and> is_last bs s (t_epoch t) c))"

fun wait_ok :: "baselines \<Rightarrow> string \<Rightarrow> tab \<Rightarrow> (poll_answer \<times> jsval dict) option \<Rightarrow> bool" where
  "wait_ok bs s t None = True"
| "wait_ok bs s t (Some (Whole c e, current)) \<longleftrightarrow>
     c = Some current \<and> good_answer (whole_torrents current) \<and>
     (\<exists>x. e = Some x \<and> unat x \<noteq> 0 \<and> unat x \<le> top bs s \<and> is_last bs s (unat x) (whole_torrents current))"
| "wait_ok bs s t (Some (Changes ch rm x, current)) \<longleftrightarrow>
     good_answer ch \<and> good_answer (whole_torrents current) \<and> unat x \<noteq> 0 \<and> unat x \<le> top bs s \<and>
     is_last bs s (unat x) (whole_torrents current) \<and>
     (\<exists>c. contents (t_grid t) = Some c \<and> holds_all (merge_dict rm ch c) (whole_torrents current) \<and>
        adds_only c (whole_torrents current) (merge_dict rm ch c))"

definition tab_ok :: "baselines \<Rightarrow> string \<Rightarrow> tab \<Rightarrow> bool" where
  "tab_ok bs s t \<longleftrightarrow> held_ok bs s t \<and> wait_ok bs s t (t_wait t)"

definition bases_ok :: "(nat \<Rightarrow> string) \<Rightarrow> baselines \<Rightarrow> bool" where
  "bases_ok sess bs \<longleftrightarrow> wf_dict bs \<and> fst ` set bs \<subseteq> range sess \<and>
     (\<forall>s b. base bs s = Some b \<longrightarrow> good_answer (b_rows b) \<and> b_epoch b \<noteq> 0)"

lemma contents_None: "contents g = None \<longleftrightarrow> lastTorrents g = None"
  by (simp add: contents_def)

text \<open>A tab holds and draws an answer: a whole list as it is; after a difference the daemon's torrents,
  each with all its fields, and nothing that is neither the daemon's nor was held before.\<close>

definition shows_answer :: "poll_answer \<Rightarrow> jsval dict \<Rightarrow> jsval dict option \<Rightarrow> tab \<Rightarrow> tab \<Rightarrow> bool" where
  "shows_answer a current states t t' \<longleftrightarrow>
     (\<exists>c. contents (t_grid t') = Some c \<and> holds_all c (whole_torrents current) \<and>
        drawn states (hiddenLabels (t_grid t)) c (t_grid t') \<and>
        (case a of
           Whole _ _ \<Rightarrow> c = whole_torrents current
         | Changes _ _ _ \<Rightarrow> (\<exists>old. contents (t_grid t) = Some old \<and> adds_only old (whole_torrents current) c)))"

text \<open>An answer that is on its way is taken without an error.\<close>

lemma take_ok:
  assumes "tab_ok bs s t" "t_wait t = Some (a, current)"
  shows "\<exists>t'. take_answer a wipe states t = Inr t' \<and> held_ok bs s t' \<and> t_epoch t' \<noteq> 0 \<and> shows_answer a current states t t'"
proof -
  have inv: "grid_inv (t_grid t)" and w: "wait_ok bs s t (Some (a, current))"
    using assms by (simp_all add: tab_ok_def held_ok_def)
  show ?thesis
  proof (cases a)
    case (Whole c e)
    then obtain x where x: "c = Some current" "e = Some x" "unat x \<noteq> 0" "unat x \<le> top bs s"
        "is_last bs s (unat x) (whole_torrents current)" "good_answer (whole_torrents current)"
      using w by auto
    obtain g' where g: "grid_receive False (whole_torrents current) [] wipe states (t_grid t) = Inr g'" "grid_inv g'"
        "contents g' = Some (whole_torrents current)" "drawn states (hiddenLabels (t_grid t)) (whole_torrents current) g'"
      using receive_ok [OF inv x(6), of False "[]" wipe states] by (auto simp: received_def)
    show ?thesis using x(3-5) g(2-4)
      by (intro exI [of _ "t\<lparr>t_grid := g', t_epoch := unat x\<rparr>"])
        (simp add: take_answer_def Whole x(1,2) g(1) held_ok_def shows_answer_def)
  next
    case (Changes ch rm x)
    obtain c where c: "contents (t_grid t) = Some c" "holds_all (merge_dict rm ch c) (whole_torrents current)"
        "adds_only c (whole_torrents current) (merge_dict rm ch c)"
      using w Changes by auto
    then obtain y where l: "lastTorrents (t_grid t) = Some y" by (auto simp: contents_def)
      have h: "good_answer ch" "unat x \<noteq> 0" "unat x \<le> top bs s" "is_last bs s (unat x) (whole_torrents current)"
        using w Changes by simp_all
      obtain g' where g: "grid_receive True ch rm wipe states (t_grid t) = Inr g'" "grid_inv g'"
          "contents g' = Some (merge_dict rm ch c)" "drawn states (hiddenLabels (t_grid t)) (merge_dict rm ch c) g'"
        using receive_ok [OF inv h(1), of True rm wipe states] l c by (auto simp: received_def)
      have "is_last bs s (unat x) (merge_dict rm ch c)"
        using h(4) holds_all_trans [OF c(2)] by (simp add: is_last_def split: option.splits)
      then show ?thesis using h g(2-4) c l
        by (intro exI [of _ "t\<lparr>t_grid := g', t_epoch := unat x\<rparr>"])
          (simp add: take_answer_def Changes g(1) held_ok_def shows_answer_def)
  qed
qed

lemma wait_frame:
  "held_ok bs s (t\<lparr>t_wait := w\<rparr>) = held_ok bs s t"
  "wait_ok bs s (t\<lparr>t_wait := w\<rparr>) v = wait_ok bs s t v"
  "wait_ok bs s (t\<lparr>t_epoch := m\<rparr>) v = wait_ok bs s t v"
  by (simp add: held_ok_def; cases "(bs, s, t, v)" rule: wait_ok.cases; simp)
    (cases "(bs, s, t, v)" rule: wait_ok.cases; simp)+

lemma is_last_newer:
  assumes "base bs' s = Some b" "unat (b_epoch b) = Suc (top bs s)" "m \<le> top bs s"
  shows "m \<le> top bs' s" "is_last bs' s m d"
  using assms by (simp_all add: top_def is_last_def)

lemma tab_newer:
  assumes "base bs' s = Some b" "unat (b_epoch b) = Suc (top bs s)"
  shows "held_ok bs s t \<Longrightarrow> held_ok bs' s t" "wait_ok bs s t w \<Longrightarrow> wait_ok bs' s t w"
proof -
  note n = is_last_newer [OF assms]
  show "held_ok bs s t \<Longrightarrow> held_ok bs' s t" using n unfolding held_ok_def by blast
  show "wait_ok bs s t w \<Longrightarrow> wait_ok bs' s t w"
  proof (cases w)
    case (Some p)
    assume w: "wait_ok bs s t w"
    obtain a current where p: "p = (a, current)" by (cases p)
    show ?thesis
    proof (cases a)
      case (Whole c e)
      then show ?thesis using w n Some p by auto
    next
      case (Changes ch rm x)
      then show ?thesis using w n Some p by simp
    qed
  qed simp
qed

lemma tab_same: "base bs' s = base bs s \<Longrightarrow> tab_ok bs s t \<Longrightarrow> tab_ok bs' s t"
proof -
  assume b: "base bs' s = base bs s"
  then have "top bs' s = top bs s" "is_last bs' s = is_last bs s" by (simp_all add: top_def is_last_def fun_eq_iff)
  moreover have "wait_ok bs' s t w = wait_ok bs s t w" for w
    using calculation by (cases "(bs, s, t, w)" rule: wait_ok.cases) simp_all
  ultimately show "tab_ok bs s t \<Longrightarrow> tab_ok bs' s t" by (simp add: tab_ok_def held_ok_def)
qed

lemma next_epoch_Suc: "unat (e :: epoch) < 2 ^ 53 \<Longrightarrow> unat (next_epoch e) = Suc (unat e)"
proof -
  assume e: "unat e < 2 ^ 53"
  then have "unat (e + 1) = Suc (unat e)" using unat_add_lem [of e 1] by simp
  moreover have "max (e + 1) 1 = e + 1" using calculation by (auto simp: max_def word_le_nat_alt unat_eq_0)
  ultimately show ?thesis by (simp add: next_epoch_def)
qed

lemma asked_is:
  assumes "m \<le> unat (x :: epoch)" "asked_epoch m = Some x"
  shows "m \<noteq> 0" "m = unat x"
proof -
  have m: "m \<noteq> 0" "of_nat m = x" using assms(2) by (auto simp: asked_epoch_def split: if_splits)
  have "m < 2 ^ 64" using assms(1) unsigned_less [of x, where 'a = nat] by simp
  then have "unat x = m" unfolding m(2) [symmetric] by (simp add: unsigned_of_nat take_bit_nat_eq_self)
  then show "m \<noteq> 0" "m = unat x" using m(1) by simp_all
qed

lemma net_ask:
  assumes sess: "finite (range sess)" "card (range sess) \<le> MAX_BASELINES"
    and ok: "bases_ok sess bs" "\<And>j. tab_ok bs (sess j) (T j)"
    and ao: "all_objects current" "good_answer (whole_torrents current)"
    and b: "\<And>b. base bs (sess i) = Some b \<Longrightarrow> unat (b_epoch b) < 2 ^ 53"
    and n: "narrow_to_changes n True (Some current) ks fs (asked_epoch (t_epoch (T i))) (Some (sess i)) bs = (a, bs')"
  shows "bases_ok sess bs'" "tab_ok bs' (sess j) ((T(i := (T i)\<lparr>t_wait := Some (a, current)\<rparr>)) j)"
proof -
  let ?s = "sess i"
  define e where "e = next_epoch (case base bs ?s of None \<Rightarrow> 0 | Some b \<Rightarrow> b_epoch b)"
  have wb: "wf_dict bs" and sub: "fst ` set bs \<subseteq> range sess" using ok(1) by (simp_all add: bases_ok_def)
  have "length (AList.update ?s undefined bs) = card (fst ` set (AList.update ?s undefined bs))"
    using AList.distinct_update [OF wb] by (metis distinct_card length_map set_map)
  also have "\<dots> \<le> card (range sess)" using sub by (intro card_mono sess(1)) (simp add: AList.dom_update)
  finally have len: "length (AList.update ?s undefined bs) \<le> MAX_BASELINES" using sess(2) by simp
  note f = narrow_few [OF ao(1) len wb, where n = n and ks = ks and fs = fs and asked = "asked_epoch (t_epoch (T i))", unfolded n fst_conv snd_conv, folded e_def]
  have ue: "unat e = Suc (top bs ?s)"
    using b next_epoch_Suc by (auto simp: e_def top_def split: option.split)
  then have top': "top bs' ?s = Suc (top bs ?s)" using f(2) by (simp add: top_def)
  have new: "base bs' ?s = Some \<lparr>b_epoch = e, b_keys = ks, b_filters = fs, b_rows = whole_torrents current\<rparr>" by (rule f(2))
  show "bases_ok sess bs'" unfolding bases_ok_def
  proof (intro conjI allI impI)
    show "wf_dict bs'" by (rule f(4))
    show "fst ` set bs' \<subseteq> range sess" using f(5) sub by simp
    fix s b assume sb: "base bs' s = Some b"
    have "good_answer (b_rows b) \<and> b_epoch b \<noteq> 0"
    proof (cases "s = ?s")
      case True
      then show ?thesis using sb new ue ao(2) by auto
    next
      case False
      then show ?thesis using sb f(3) ok(1) by (simp add: bases_ok_def)
    qed
    then show "good_answer (b_rows b)" "b_epoch b \<noteq> 0" by simp_all
  qed
  have last: "is_last bs' ?s (unat e) (whole_torrents current)" using new by (simp add: is_last_def)
  have newer: "held_ok bs ?s t \<Longrightarrow> held_ok bs' ?s t" "wait_ok bs ?s t w \<Longrightarrow> wait_ok bs' ?s t w" for t w
    using tab_newer [of bs' ?s, OF new] ue by simp_all
  have it: "wait_ok bs' ?s (T i) (Some (a, current))"
  proof (cases "usable bs ?s ks fs (asked_epoch (t_epoch (T i)))")
    case None
    then show ?thesis using f(1) ao(2) ue top' last by simp
  next
    case (Some b0)
    then have b0: "base bs ?s = Some b0" "asked_epoch (t_epoch (T i)) = Some (b_epoch b0)"
      by (auto simp: usable_def split: option.splits if_splits)
    have h: "held_ok bs ?s (T i)" using ok(2) [of i] by (simp add: tab_ok_def)
    have m: "t_epoch (T i) \<noteq> 0" "t_epoch (T i) = unat (b_epoch b0)"
      using asked_is [OF _ b0(2)] h b0(1) by (simp_all add: held_ok_def top_def)
    then obtain c where c: "contents (t_grid (T i)) = Some c" "holds_all c (b_rows b0)"
      using h b0(1) by (auto simp: held_ok_def is_last_def)
    have "good_answer (b_rows b0)" using ok(1) b0(1) by (simp add: bases_ok_def)
    note mc = merge_covers [OF this ao(2) c(2)]
    then show ?thesis using f(1) Some ao(2) ue top' last c(1) mc changes_good [OF ao(2), of "b_rows b0"] by simp
  qed
  show "tab_ok bs' (sess j) ((T(i := (T i)\<lparr>t_wait := Some (a, current)\<rparr>)) j)"
  proof (cases "sess j = ?s")
    case True
    have jt: "held_ok bs ?s (T j)" "wait_ok bs ?s (T j) (t_wait (T j))" using ok(2) [of j] True by (simp_all add: tab_ok_def)
    show ?thesis using True newer(1) [OF jt(1)] newer(2) [OF jt(2)] it by (auto simp: tab_ok_def wait_frame)
  next
    case False
    then have "j \<noteq> i" "base bs' (sess j) = base bs (sess j)" using f(3) by auto
    then show ?thesis using tab_same ok(2) [of j] by simp
  qed
qed

text \<open>What the grid does by itself leaves the list it holds; a lost connection empties the rows and not
  the list.\<close>

lemma local_ok:
  assumes "grid_inv g" "\<not> from_server ev" "grid_handle ev states g = Inr g'"
  shows "grid_inv g'" "contents g' = contents g"
proof -
  have "well_timed ev g" using assms(2) by (cases ev) simp_all
  then show "grid_inv g'" using grid_handle_inv [OF assms(1) _ assms(3)] by blast
  show "contents g' = contents g"
  proof (cases ev)
    case (HideLabel name hid)
    then show ?thesis using setLabelHidden_ok [OF assms(1), of name hid states] assms(3) by auto
  next
    case ShowAll
    then show ?thesis using showEveryLabel_ok [OF assms(1), of states] assms(3) by auto
  next
    case (Register labels)
    then show ?thesis using loadHiddenLabels_ok [OF assms(1), of labels states] assms(3) by auto
  next
    case (Removed ids)
    then show ?thesis using onTorrentsRemoved_ok [OF assms(1), of ids] assms(3) by (auto simp: contents_def)
  next
    case Disconnect
    then show ?thesis using assms(3) by (auto simp: contents_def grid_onDisconnect_def wipe_rows_def)
  next
    case (SortBy n desc)
    then show ?thesis using assms(3) by (auto simp: contents_def header_click_def sort_rows_def split: option.split)
  qed (use assms(2) in simp_all)
qed

lemma wait_contents:
  "contents (t_grid t') = contents (t_grid t) \<Longrightarrow> wait_ok bs s t w \<Longrightarrow> wait_ok bs s t' w"
  by (cases "(bs, s, t, w)" rule: wait_ok.cases) auto

lemma net_inv:
  assumes "net sess T bs" "finite (range sess)" "card (range sess) \<le> MAX_BASELINES"
  shows "bases_ok sess bs \<and> (\<forall>j. tab_ok bs (sess j) (T j))"
  using assms(1)
proof induction
  case start
  show ?case using grid_new_inv by (simp add: bases_ok_def base_def tab_ok_def held_ok_def tab_new_def)
next
  case (ask T bs i current n ks fs a bs')
  then show ?case using net_ask [OF assms(2,3), of bs T current i n ks fs a bs'] by blast
next
  case (lost T bs i)
  then show ?case by (simp add: tab_ok_def wait_frame)
next
  case (arrive T bs i a current wipe states t)
  then have "tab_ok bs (sess i) (T i)" by blast
  then have "held_ok bs (sess i) t" using take_ok [of bs "sess i" "T i" a current wipe states] arrive.hyps by auto
  then show ?case using arrive.IH by (simp add: tab_ok_def wait_frame)
next
  case (local T bs ev states i g)
  have h: "held_ok bs (sess i) (T i)" "wait_ok bs (sess i) (T i) (t_wait (T i))" using local.IH by (simp_all add: tab_ok_def)
  then have inv: "grid_inv (t_grid (T i))" by (simp add: held_ok_def)
  note l = local_ok [OF inv local.hyps(2) local.hyps(3)]
  define t where "t = (T i)\<lparr>t_grid := g, t_epoch := (if ev = Disconnect then 0 else t_epoch (T i))\<rparr>"
  have "held_ok bs (sess i) t" using h(1) l by (simp add: held_ok_def t_def)
  moreover have "wait_ok bs (sess i) t (t_wait (T i))"
    by (rule wait_contents [OF _ h(2)]) (simp add: l(2) t_def)
  moreover have "t_wait t = t_wait (T i)" by (simp add: t_def)
  ultimately show ?case using local.IH unfolding t_def [symmetric] by (simp add: tab_ok_def)
next
  case (other_question T bs i)
  then show ?case by (auto simp: tab_ok_def held_ok_def)
qed

text \<open>C1: Let up to four sessions, with any number of tabs each, poll with any questions while the daemon's
  torrents change in any way, differences being switched on and a session's answers numbering less than
  2^53; questions may be answered in any order and answers lost.  Then an answer that arrives is taken
  without an error, and the tab holds exactly the daemon's torrents of when it was made, each with every
  field it was sent at the daemon's value, and draws those no hidden label covers.  A whole list leaves
  exactly its fields.  A difference leaves no field that is neither the daemon's nor one the tab held
  before; it never arrives at a tab with no list to put it on.\<close>

theorem tabs_show_the_truth:
  assumes "net sess T bs" "finite (range sess)" "card (range sess) \<le> MAX_BASELINES"
    and "t_wait (T i) = Some (a, current)"
  shows "\<exists>t. take_answer a wipe states (T i) = Inr t \<and> t_epoch t \<noteq> 0 \<and> shows_answer a current states (T i) t"
  using take_ok [of bs "sess i" "T i" a current wipe states] net_inv [OF assms(1-3)] assms(4) by blast

lemma tabs_show_the_truth_witness:
  "\<exists>t. take_answer (Whole (Some [(''a'', Obj 0 [(''name'', Str ''x'')])]) (Some 1)) False None
       (tab_new\<lparr>t_wait := Some (Whole (Some [(''a'', Obj 0 [(''name'', Str ''x'')])]) (Some 1),
                                [(''a'', Obj 0 [(''name'', Str ''x'')])])\<rparr>) = Inr t \<and>
     t_epoch t \<noteq> 0 \<and> contents (t_grid t) \<noteq> None"
proof -
  let ?c = "[(''a'', Obj 0 [(''name'', Str ''x'')])]"
  let ?a = "Whole (Some ?c) (Some 1)"
  let ?T = "(\<lambda>_. tab_new)((0 :: nat) := tab_new\<lparr>t_wait := Some (?a, ?c)\<rparr>)"
  have r: "narrow_to_changes 0 True (Some ?c) [] [] (asked_epoch (t_epoch tab_new)) (Some ''s'') [] =
      (?a, snd (narrow_to_changes 0 True (Some ?c) [] [] (asked_epoch (t_epoch tab_new)) (Some ''s'') []))"
    by (simp add: narrow_to_changes_def whole_torrents_def bl_get_def next_epoch_def)
  have "net (\<lambda>_. ''s'') ?T (snd (narrow_to_changes 0 True (Some ?c) [] [] (asked_epoch (t_epoch tab_new)) (Some ''s'') []))"
    by (rule net.ask [where i = 0, OF net.start _ _ _ _ r])
      (simp_all add: tab_new_def all_objects_def whole_torrents_def good_answer_def base_def)
  note n = this
  have "\<exists>t. take_answer ?a False None (?T 0) = Inr t \<and> t_epoch t \<noteq> 0 \<and> shows_answer ?a ?c None (?T 0) t"
    by (rule tabs_show_the_truth [OF n]) (simp_all add: MAX_BASELINES_def)
  then show ?thesis by (auto simp: shows_answer_def)
qed

section \<open>Forgotten sessions\<close>

lemma narrow_fresh:
  assumes "all_objects current" "length bs < MAX_BASELINES" "wf_dict bs" "base bs s = None"
  shows "\<exists>bs1. narrow_to_changes n True (Some current) ks fs asked (Some s) bs = (Whole (Some current) (Some 1), bs1) \<and>
    base bs1 s = Some \<lparr>b_epoch = 1, b_keys = ks, b_filters = fs, b_rows = whole_torrents current\<rparr> \<and>
    wf_dict bs1 \<and> length bs1 \<le> MAX_BASELINES"
proof -
  have s: "s \<notin> fst ` set bs" using assms(4) by (simp add: base_def map_of_eq_None_iff)
  have len: "length (AList.update s undefined bs) \<le> MAX_BASELINES"
    using assms(2) length_update_le [of s undefined bs] by simp
  note f = narrow_few [OF assms(1) len assms(3), where n = n and ks = ks and fs = fs and asked = asked]
  let ?r = "narrow_to_changes n True (Some current) ks fs asked (Some s) bs"
  have "length (snd ?r) = card (fst ` set (snd ?r))" using f(4) by (metis distinct_card length_map set_map)
  also have "\<dots> = Suc (length bs)" using f(5) s assms(3) by (metis card_insert_disjoint distinct_card finite_set length_map set_map)
  finally have "length (snd ?r) \<le> MAX_BASELINES" using assms(2) by simp
  moreover have "fst ?r = Whole (Some current) (Some 1)" using f(1) assms(4) by (simp add: usable_def next_epoch_def)
  ultimately show ?thesis using f(2,4) assms(4)
    by (intro exI [of _ "snd ?r"]) (auto simp: prod_eq_iff next_epoch_def)
qed

text \<open>A session whose baseline was thrown out counts its answers from one again, whatever epochs its
  tabs still hold: the next tab that asks the same question with an epoch of one, held from before, is
  sent the difference to a list it has never seen.\<close>

theorem forgotten_epochs_start_again:
  assumes "all_objects current1" "all_objects current2" "length bs < MAX_BASELINES" "wf_dict bs" "base bs s = None"
  shows "\<exists>bs1 bs2. narrow_to_changes n1 True (Some current1) ks fs asked (Some s) bs = (Whole (Some current1) (Some 1), bs1) \<and>
    narrow_to_changes n2 True (Some current2) ks fs (asked_epoch 1) (Some s) bs1 =
      (Changes (fst (changes_between (whole_torrents current1) (whole_torrents current2)))
               (snd (changes_between (whole_torrents current1) (whole_torrents current2))) 2, bs2)"
proof -
  obtain bs1 where b: "narrow_to_changes n1 True (Some current1) ks fs asked (Some s) bs = (Whole (Some current1) (Some 1), bs1)"
    "base bs1 s = Some \<lparr>b_epoch = 1, b_keys = ks, b_filters = fs, b_rows = whole_torrents current1\<rparr>" "wf_dict bs1"
    "length bs1 \<le> MAX_BASELINES" using narrow_fresh [OF assms(1,3-5)] by blast
  have "s \<in> fst ` set bs1" using b(2) map_of_eq_None_iff [of bs1 s] by (auto simp: base_def)
  then have "length (AList.update s undefined bs1) \<le> MAX_BASELINES" using b(4) length_update_known [of s bs1 undefined] by simp
  note f = narrow_few(1) [OF assms(2) this b(3), where n = n2 and ks = ks and fs = fs and asked = "asked_epoch 1"]
  show ?thesis using b f by (simp add: usable_def asked_epoch_def next_epoch_def prod_eq_iff)
qed

lemma forgotten_epochs_start_again_witness:
  "\<exists>bs1 bs2. narrow_to_changes 1 True (Some [(''a'', Obj 0 [(''name'', Str ''new'')])]) [''name''] [] None (Some ''s'') [] =
      (Whole (Some [(''a'', Obj 0 [(''name'', Str ''new'')])]) (Some 1), bs1) \<and>
    narrow_to_changes 2 True (Some [(''a'', Obj 0 [(''name'', Str ''new'')])]) [''name''] [] (asked_epoch 1) (Some ''s'') bs1 =
      (Changes [] [] 2, bs2)"
proof -
  let ?c = "[(''a'', Obj 0 [(''name'', Str ''new'')])]"
  have "changes_between (whole_torrents ?c) (whole_torrents ?c) = ([], [])"
    by (simp add: whole_torrents_def changes_between_def change_of_def whole_of_def moved_fields_def Let_def)
  then show ?thesis
    using forgotten_epochs_start_again [of ?c ?c "[]" "''s''" 1 "[''name'']" "[]" None 2]
    by (simp add: all_objects_def whole_torrents_def MAX_BASELINES_def base_def)
qed

section \<open>The bound on what is remembered\<close>

lemma oldest_least:
  "oldest bs = Some (s, t) \<Longrightarrow> (r, (u, b)) \<in> set bs \<Longrightarrow> t \<le> u"
proof (induction bs arbitrary: s t)
  case (Cons x bs)
  obtain s1 t1 b1 where x: "x = (s1, (t1, b1))" by (cases x) auto
  show ?case
  proof (cases "oldest bs")
    case None
    then have "bs = []" by (cases bs) (auto split: option.splits if_splits)
    then show ?thesis using Cons.prems x by auto
  next
    case (Some p)
    then have "snd p \<le> u" if "(r, (u, b)) \<in> set bs" using Cons.IH [of "fst p" "snd p"] that by simp
    then show ?thesis using Cons.prems x Some by (cases p) (auto split: if_splits)
  qed
qed simp

lemma oldest_there: "oldest bs = Some (s, t) \<Longrightarrow> \<exists>b. (s, (t, b)) \<in> set bs"
proof (induction bs arbitrary: s t)
  case (Cons x bs)
  obtain s1 t1 b1 where x: "x = (s1, (t1, b1))" by (cases x) auto
  show ?case
  proof (cases "oldest bs")
    case (Some p)
    then show ?thesis using Cons.prems x Cons.IH [of "fst p" "snd p"] by (cases p) (auto split: if_splits)
  qed (use Cons.prems x in auto)
qed simp

lemma oldest_some: "bs \<noteq> [] \<Longrightarrow> oldest bs \<noteq> None"
  by (cases bs) (auto split: option.split)

lemma evict_bounds:
  "length (evict bs) \<le> MAX_BASELINES \<and> set (evict bs) \<subseteq> set bs \<and>
   (wf_dict bs \<longrightarrow> (\<forall>r u b s t c. (r, (u, b)) \<in> set (evict bs) \<longrightarrow> (s, (t, c)) \<in> set bs \<longrightarrow>
      (s, (t, c)) \<notin> set (evict bs) \<longrightarrow> t \<le> u))"
proof (induction bs rule: evict.induct)
  case (1 bs)
  show ?case
  proof (cases "length bs \<le> MAX_BASELINES")
    case True
    then show ?thesis by (simp add: evict_few)
  next
    case False
    then have "bs \<noteq> []" by auto
    then obtain s t where o: "oldest bs = Some (s, t)" using oldest_some by (metis not_None_eq surj_pair)
    have e: "evict bs = evict (AList.delete s bs)" using False o by (simp add: evict.simps [of bs])
    have IH: "length (evict (AList.delete s bs)) \<le> MAX_BASELINES \<and> set (evict (AList.delete s bs)) \<subseteq> set (AList.delete s bs) \<and>
       (wf_dict (AList.delete s bs) \<longrightarrow> (\<forall>r u b s' t c. (r, (u, b)) \<in> set (evict (AList.delete s bs)) \<longrightarrow>
          (s', (t, c)) \<in> set (AList.delete s bs) \<longrightarrow> (s', (t, c)) \<notin> set (evict (AList.delete s bs)) \<longrightarrow> t \<le> u))"
      using "1.IH" [OF False o] by simp
    have d: "set (AList.delete s bs) = {x \<in> set bs. fst x \<noteq> s}" by (auto simp: AList.delete_eq)
    have "t' \<le> u" if w: "wf_dict bs" and m: "(r, (u, b)) \<in> set (evict bs)" "(s', (t', c)) \<in> set bs" "(s', (t', c)) \<notin> set (evict bs)"
      for r u b s' t' c
    proof (cases "s' = s")
      case True
      obtain b' where "(s, (t, b')) \<in> set bs" using oldest_there [OF o] by blast
      then have "t' = t" using m(2) True w by (metis Pair_inject map_of_is_SomeI option.inject)
      moreover have "(r, (u, b)) \<in> set bs" using m(1) IH d unfolding e by blast
      ultimately show ?thesis using oldest_least [OF o] by blast
    next
      case False
      then show ?thesis using m IH w d AList.distinct_delete [OF w] unfolding e by fastforce
    qed
    then show ?thesis using IH d unfolding e by blast
  qed
qed

lemma evict_wf: "wf_dict bs \<Longrightarrow> wf_dict (evict bs) \<and> (bs \<noteq> [] \<longrightarrow> evict bs \<noteq> [])"
proof (induction bs rule: evict.induct)
  case (1 bs)
  show ?case
  proof (cases "length bs \<le> MAX_BASELINES")
    case True
    then show ?thesis using "1.prems" by (simp add: evict_few)
  next
    case False
    then have "bs \<noteq> []" by auto
    then obtain s t where o: "oldest bs = Some (s, t)" using oldest_some by (metis not_None_eq surj_pair)
    have w: "wf_dict (AList.delete s bs)" by (rule AList.distinct_delete [OF "1.prems"])
    have c: "card (fst ` set bs) = length bs" using "1.prems" by (metis distinct_card length_map set_map)
    have "\<not> fst ` set bs \<subseteq> {s}"
    proof
      assume "fst ` set bs \<subseteq> {s}"
      then have "card (fst ` set bs) \<le> card {s}" by (rule card_mono [rotated]) simp
      then show False using c False by (simp add: MAX_BASELINES_def)
    qed
    moreover have "fst ` set (AList.delete s bs) = fst ` set bs - {s}" by (auto simp: AList.delete_eq)
    ultimately have ne: "AList.delete s bs \<noteq> []" by auto
    have "evict bs = evict (AList.delete s bs)" using False o by (simp add: evict.simps [of bs])
    then show ?thesis using "1.IH" [OF False o refl w] ne by metis
  qed
qed

text \<open>C18: Storing a baseline always returns, remembers four sessions at most, and those it drops were
  heard from no later than any it keeps: the session that has just polled is kept whenever the clock has
  moved since the others did.\<close>

theorem baselines_bounded:
  assumes "wf_dict bs" "\<And>r u c. (r, (u, c)) \<in> set bs \<Longrightarrow> u < now"
  shows "length (bl_put now s b bs) \<le> MAX_BASELINES \<and> map_of (bl_put now s b bs) s = Some (now, b) \<and>
    (\<forall>r u c q t d. (r, (u, c)) \<in> set (bl_put now s b bs) \<longrightarrow> (q, (t, d)) \<in> set (AList.update s (now, b) bs) \<longrightarrow>
      (q, (t, d)) \<notin> set (bl_put now s b bs) \<longrightarrow> t \<le> u)"
proof -
  let ?u = "AList.update s (now, b) bs"
  have w: "wf_dict ?u" using assms(1) by (simp add: AList.distinct_update)
  note e = evict_bounds [of ?u, folded bl_put_def]
  have we: "wf_dict (bl_put now s b bs)" "bl_put now s b bs \<noteq> []"
    using evict_wf [OF w] by (auto simp: bl_put_def)
  then obtain r u c where ruc: "(r, (u, c)) \<in> set (bl_put now s b bs)" by (cases "bl_put now s b bs") auto
  have new: "map_of ?u s = Some (now, b)" by (simp add: AList.update_conv')
  have "(s, (now, b)) \<in> set (bl_put now s b bs)"
  proof (rule ccontr)
    assume n: "(s, (now, b)) \<notin> set (bl_put now s b bs)"
    then have le: "now \<le> u" using e w ruc map_of_SomeD [OF new] by blast
    have m: "map_of ?u r = Some (u, c)" using ruc e w by (meson map_of_is_SomeI subsetD)
    show False
    proof (cases "r = s")
      case True
      then show ?thesis using m new ruc n by simp
    next
      case False
      then have "(r, (u, c)) \<in> set bs" using m map_of_SomeD by (fastforce simp: AList.update_conv')
      then show ?thesis using assms(2) le by fastforce
    qed
  qed
  then have "map_of (bl_put now s b bs) s = Some (now, b)" using we(1) by simp
  then show ?thesis using e w by blast
qed

lemma baselines_bounded_witness:
  defines "b \<equiv> \<lparr>b_epoch = 1, b_keys = [], b_filters = [], b_rows = []\<rparr>"
  shows "length (bl_put 9 ''new'' b [(''a'', (5, b)), (''b'', (3, b)), (''c'', (4, b)), (''d'', (6, b))]) \<le> 4 \<and>
    map_of (bl_put 9 ''new'' b [(''a'', (5, b)), (''b'', (3, b)), (''c'', (4, b)), (''d'', (6, b))]) ''new'' = Some (9, b)"
proof -
  let ?bs = "[(''a'', (5, b)), (''b'', (3, b)), (''c'', (4, b)), (''d'', (6, b))] :: baselines"
  have t: "u < 9" if "(r, (u, c)) \<in> set ?bs" for r u c using that by auto
  show ?thesis using baselines_bounded [of ?bs 9 "''new''" b, OF _ t] by (simp add: MAX_BASELINES_def)
qed

end
