(* ===== verification/Numerals.thy ===== *)
theory Numerals
  imports JsValue
begin

text \<open>
  Numbers written and read again: \<open>parseFloat\<close>, and what becomes of a number that is turned into a
  string by \<open>String\<close> or \<open>toFixed\<close> and parsed, as every number in a text field of a form is.
\<close>

section \<open>parseFloat\<close>

text \<open>The exponent at the front of what is left of a literal, zero when there is none.\<close>

definition leading_exponent :: "string \<Rightarrow> int" where
  "leading_exponent s =
     (case s of
        [] \<Rightarrow> 0
      | c # r \<Rightarrow>
          if c = CHR ''e'' \<or> c = CHR ''E'' then
            (let neg = (r \<noteq> [] \<and> hd r = CHR ''-'');
                 ds = takeWhile is_digit (if r \<noteq> [] \<and> (hd r = CHR ''-'' \<or> hd r = CHR ''+'') then tl r else r)
             in (if neg then -1 else 1) * digits_val 10 ds)
          else 0)"

definition leading_num :: "string \<Rightarrow> jsnum" where
  "leading_num s =
     (if take 8 s = ''Infinity'' then PInf
      else let ip = takeWhile is_digit s; r1 = dropWhile is_digit s;
               dot = (r1 \<noteq> [] \<and> hd r1 = CHR ''.'');
               fp = (if dot then takeWhile is_digit (tl r1) else []);
               r2 = (if dot then dropWhile is_digit (tl r1) else r1)
           in if ip = [] \<and> fp = [] then NaN
              else Fin (of_int (digits_val 10 (ip @ fp)) * pow10 (leading_exponent r2 - int (length fp))))"

definition parse_float :: "string \<Rightarrow> jsnum" where
  "parse_float s0 =
     (let s = dropWhile is_space s0
      in if s = [] then NaN
         else if hd s = CHR ''-'' then num_uminus (leading_num (tl s))
         else if hd s = CHR ''+'' then leading_num (tl s)
         else leading_num s)"

text \<open>\<open>parseFloat\<close> of a number is the number, since \<open>String\<close> writes as many digits as it takes to read it
  back.\<close>

fun js_parse_float :: "jsval \<Rightarrow> jsnum" where
  "js_parse_float (Num n) = n"
| "js_parse_float v = parse_float (js_string v)"

section \<open>Digits\<close>

lemma digit_chars:
  "list_all (\<lambda>d. is_digit (digit_char d) \<and> digit_val (digit_char d) = d \<and> \<not> is_space (digit_char d) \<and>
     digit_char d \<noteq> CHR ''-'' \<and> digit_char d \<noteq> CHR ''+'' \<and> digit_char d \<noteq> CHR ''I'') [0, 1, 2, 3, 4, 5, 6, 7, 8, 9]"
  by code_simp

lemma digit_char:
  assumes "0 \<le> d" "d < 10"
  shows "is_digit (digit_char d)" "digit_val (digit_char d) = d" "\<not> is_space (digit_char d)"
    "digit_char d \<noteq> CHR ''-''" "digit_char d \<noteq> CHR ''+''" "digit_char d \<noteq> CHR ''I''"
proof -
  have "d \<in> set [0, 1, 2, 3, 4, 5, 6, 7, 8, 9]" using assms by simp presburger
  then show "is_digit (digit_char d)" "digit_val (digit_char d) = d" "\<not> is_space (digit_char d)"
    "digit_char d \<noteq> CHR ''-''" "digit_char d \<noteq> CHR ''+''" "digit_char d \<noteq> CHR ''I''"
    using digit_chars unfolding list_all_iff by blast+
qed

lemma foldl_digits: "foldl (\<lambda>a c. a * 10 + digit_val c) m s = m * 10 ^ length s + digits_val 10 s"
proof (induction s arbitrary: m)
  case (Cons c s)
  have "digits_val 10 (c # s) = digit_val c * 10 ^ length s + digits_val 10 s"
    using Cons [of "digit_val c"] by (simp add: digits_val_def)
  then show ?case using Cons [of "m * 10 + digit_val c"] by (simp add: algebra_simps)
qed (simp add: digits_val_def)

lemma digits_append: "digits_val 10 (s @ t) = digits_val 10 s * 10 ^ length t + digits_val 10 t"
  using foldl_digits [of "digits_val 10 s" t] by (simp add: digits_val_def)

lemma digits_Cons: "digits_val 10 (c # s) = digit_val c * 10 ^ length s + digits_val 10 s"
  using digits_append [of "[c]" s] by (simp add: digits_val_def)

lemma nat_str_digits:
  "0 \<le> n \<Longrightarrow> digits_val 10 (nat_str n) = n \<and> list_all is_digit (nat_str n) \<and> nat_str n \<noteq> []"
proof (induction n rule: nat_str.induct)
  case (1 n)
  show ?case
  proof (cases "n < 10")
    case True
    then show ?thesis using 1 digit_char [of n] by (simp add: nat_str.simps [of n] digits_val_def)
  next
    case False
    then have "digits_val 10 (nat_str (n div 10)) = n div 10 \<and> list_all is_digit (nat_str (n div 10)) \<and> nat_str (n div 10) \<noteq> []"
      using 1 by simp
    moreover have "nat_str n = nat_str (n div 10) @ [digit_char (n mod 10)]" using False by (simp add: nat_str.simps [of n])
    moreover have "digits_val 10 [digit_char (n mod 10)] = n mod 10" using digit_char [of "n mod 10"] by (simp add: digits_val_def)
    ultimately show ?thesis using digit_char [of "n mod 10"] by (simp add: digits_append)
  qed
qed

lemma zeros_digits: "digits_val 10 (replicate k (CHR ''0'') @ s) = digits_val 10 s"
  by (induction k) (simp_all add: digits_Cons, simp add: digit_val_def less_eq_char_def)

lemma zero_chars: "list_all is_digit (replicate k (CHR ''0''))"
  by (induction k) (simp_all add: is_digit_def less_eq_char_def)

lemma frac_digits_value:
  assumes "0 \<le> f" "f < 1" "f * 10 ^ n \<in> \<int>"
  shows "of_int (digits_val 10 (frac_digits n f)) = f * 10 ^ length (frac_digits n f) \<and> list_all is_digit (frac_digits n f)"
  using assms
proof (induction n arbitrary: f)
  case 0
  then obtain k where "f = of_int k" by (auto elim: Ints_cases)
  then have "f = 0" using 0 by simp
  then show ?case by (simp add: digits_val_def)
next
  case (Suc n)
  show ?case
  proof (cases "f = 0")
    case True
    then show ?thesis by (simp add: digits_val_def)
  next
    case False
    let ?d = "\<lfloor>f * 10\<rfloor>"
    let ?g = "f * 10 - of_int ?d"
    have d: "0 \<le> ?d" "?d < 10" using Suc.prems by (simp_all add: floor_less_iff)
    have g: "0 \<le> ?g" "?g < 1" by linarith+
    have "?g * 10 ^ n = f * 10 ^ Suc n - of_int (?d * 10 ^ n)" by (simp add: algebra_simps)
    then have "?g * 10 ^ n \<in> \<int>" using Suc.prems(3) by (metis Ints_diff Ints_of_int)
    then have "of_int (digits_val 10 (frac_digits n ?g)) = ?g * 10 ^ length (frac_digits n ?g)" "list_all is_digit (frac_digits n ?g)"
      using Suc.IH [OF g] by simp_all
    then show ?thesis using False digit_char [OF d] by (simp add: digits_Cons algebra_simps)
  qed
qed

section \<open>Literals\<close>

lemma digit_not:
  assumes "is_digit c"
  shows "c \<noteq> CHR ''.''" "c \<noteq> CHR ''-''" "c \<noteq> CHR ''+''" "c \<noteq> CHR ''I''" "\<not> is_space c" "c \<noteq> CHR ''e''" "c \<noteq> CHR ''E''"
  using assms by (auto simp: is_digit_def is_space_def less_eq_char_def)

lemma span_digits:
  "list_all is_digit s \<Longrightarrow> takeWhile is_digit s = s" "list_all is_digit s \<Longrightarrow> dropWhile is_digit s = []"
  "list_all is_digit s \<Longrightarrow> takeWhile is_digit (s @ CHR ''.'' # t) = s"
  "list_all is_digit s \<Longrightarrow> dropWhile is_digit (s @ CHR ''.'' # t) = CHR ''.'' # t"
  by (induction s) (auto simp: is_digit_def less_eq_char_def)

text \<open>What a literal of digits, and one of digits with a point among them, is read as.\<close>

lemma leading_int:
  assumes "list_all is_digit ip" "ip \<noteq> []"
  shows "leading_num ip = Fin (of_int (digits_val 10 ip))"
proof -
  have "hd ip \<noteq> CHR ''I''" using assms digit_not by (cases ip) auto
  then have "take 8 ip \<noteq> ''Infinity''" using assms(2) by (cases ip) auto
  then show ?thesis using assms by (simp add: leading_num_def span_digits Let_def leading_exponent_def pow10_def)
qed

lemma leading_frac:
  assumes "list_all is_digit ip" "ip \<noteq> []" "list_all is_digit fp"
  shows "leading_num (ip @ ''.'' @ fp) =
    Fin (of_int (digits_val 10 (ip @ fp)) / 10 ^ length fp)"
proof -
  have "hd ip \<noteq> CHR ''I''" using assms digit_not by (cases ip) auto
  then have "take 8 (ip @ CHR ''.'' # fp) \<noteq> ''Infinity''" using assms(2) by (cases ip) auto
  then show ?thesis using assms by (simp add: leading_num_def span_digits Let_def leading_exponent_def pow10_def)
qed

lemma parse_plain:
  assumes "s \<noteq> []" "is_digit (hd s)"
  shows "parse_float s = leading_num s" "parse_float (CHR ''-'' # s) = num_uminus (leading_num s)"
proof -
  obtain c r where s: "s = c # r" using assms(1) by (cases s) auto
  then have "\<not> is_space c" "c \<noteq> CHR ''-''" "c \<noteq> CHR ''+''" using assms(2) digit_not by simp_all
  moreover have "\<not> is_space CHR ''-''" by (simp add: is_space_def)
  ultimately show "parse_float s = leading_num s" "parse_float (CHR ''-'' # s) = num_uminus (leading_num s)"
    by (simp_all add: parse_float_def s)
qed

lemma parse_nat_str:
  assumes "0 \<le> n"
  shows "parse_float (nat_str n) = Fin (of_int n)" "parse_float (CHR ''-'' # nat_str n) = Fin (- of_int n)"
proof -
  have d: "digits_val 10 (nat_str n) = n" "list_all is_digit (nat_str n)" "nat_str n \<noteq> []"
    using nat_str_digits [OF assms] by simp_all
  then have "is_digit (hd (nat_str n))" by (cases "nat_str n") simp_all
  then show "parse_float (nat_str n) = Fin (of_int n)" "parse_float (CHR ''-'' # nat_str n) = Fin (- of_int n)"
    using parse_plain [OF d(3)] leading_int [OF d(2,3)] d(1) by simp_all
qed

text \<open>A number with at most seventeen decimal places, written by \<open>String\<close> and read by
  \<open>parseFloat\<close>, is itself.\<close>

lemma parse_num_string:
  assumes "q * 10 ^ 17 \<in> \<int>"
  shows "parse_float (num_string (Fin q)) = Fin q"
proof (cases "q = of_int \<lfloor>q\<rfloor>")
  case True
  then show ?thesis using parse_nat_str [of "\<lfloor>q\<rfloor>"] parse_nat_str [of "- \<lfloor>q\<rfloor>"]
    by (cases "\<lfloor>q\<rfloor> < 0") (simp_all add: int_str_def)
next
  case False
  let ?i = "\<lfloor>\<bar>q\<bar>\<rfloor>"
  let ?f = "\<bar>q\<bar> - of_int ?i"
  let ?fp = "frac_digits 17 ?f"
  have f: "0 \<le> ?f" "?f < 1" by linarith+
  have "\<bar>q\<bar> * 10 ^ 17 \<in> \<int>" using assms by (cases "q < 0") (auto simp: abs_if)
  moreover have "?f * 10 ^ 17 = \<bar>q\<bar> * 10 ^ 17 - of_int (?i * 10 ^ 17)" by (simp add: algebra_simps)
  ultimately have "?f * 10 ^ 17 \<in> \<int>" by (metis Ints_diff Ints_of_int)
  then have fp: "of_int (digits_val 10 ?fp) = ?f * 10 ^ length ?fp" "list_all is_digit ?fp"
    using frac_digits_value [OF f] by simp_all
  have n: "digits_val 10 (nat_str ?i) = ?i" "list_all is_digit (nat_str ?i)" "nat_str ?i \<noteq> []"
    using nat_str_digits [of ?i] by simp_all
  have l: "leading_num (nat_str ?i @ ''.'' @ ?fp) = Fin \<bar>q\<bar>"
    unfolding leading_frac [OF n(2,3) fp(2)] digits_append
    using fp(1) n(1) by (simp add: add_divide_distrib)
  have "is_digit (hd (nat_str ?i @ ''.'' @ ?fp))" using n by (cases "nat_str ?i") simp_all
  note p = parse_plain [of "nat_str ?i @ ''.'' @ ?fp", OF _ this]
  show ?thesis using False p l by (cases "q < 0") simp_all
qed

text \<open>A number written by \<open>toFixed\<close> is read as the number rounded to so many places.\<close>

definition fixed :: "nat \<Rightarrow> rat \<Rightarrow> rat" where
  "fixed p q = sgn q * of_int (round_half_up (\<bar>q\<bar> * 10 ^ p)) / 10 ^ p"

lemma parse_to_fixed: "parse_float (to_fixed p (Fin q)) = Fin (fixed p q)"
proof -
  define m where "m = round_half_up (\<bar>q\<bar> * 10 ^ p)"
  have m: "0 \<le> m" by (simp add: m_def round_half_up_def)
  have n: "digits_val 10 (nat_str m) = m" "list_all is_digit (nat_str m)" "nat_str m \<noteq> []"
    using nat_str_digits [OF m] by simp_all
  have v: "leading_num (place_point p (nat_str m)) = Fin (of_int m / 10 ^ p) \<and>
      place_point p (nat_str m) \<noteq> [] \<and> is_digit (hd (place_point p (nat_str m)))"
  proof (cases "p = 0")
    case True
    then show ?thesis using n leading_int by (cases "nat_str m") (auto simp: place_point_def)
  next
    case False
    define t where "t = replicate (p + 1 - length (nat_str m)) (CHR ''0'') @ nat_str m"
    have t: "list_all is_digit t" "digits_val 10 t = m" "p < length t"
      using n zero_chars by (simp_all add: t_def zeros_digits)
    let ?k = "length t - p"
    have s: "list_all is_digit (take ?k t)" "take ?k t \<noteq> []" "list_all is_digit (drop ?k t)" "length (drop ?k t) = p"
      using t by (auto simp: list_all_iff dest: in_set_takeD in_set_dropD)
    have "place_point p (nat_str m) = take ?k t @ ''.'' @ drop ?k t" using False by (simp add: place_point_def t_def Let_def)
    moreover have "is_digit (hd (take ?k t @ ''.'' @ drop ?k t))" using s(1,2) by (cases "take ?k t") simp_all
    ultimately show ?thesis using leading_frac [OF s(1-3)] s(4) t(2) s(2) by simp
  qed
  show ?thesis
  proof (cases "q < 0")
    case True
    then have "to_fixed p (Fin q) = CHR ''-'' # place_point p (nat_str m)" "fixed p q = - (of_int m / 10 ^ p)"
      by (simp_all add: m_def fixed_def)
    then show ?thesis using v parse_plain(2) by simp
  next
    case False
    moreover have "q = 0 \<Longrightarrow> m = 0" by (simp add: m_def round_half_up_def floor_eq_iff)
    ultimately have "to_fixed p (Fin q) = place_point p (nat_str m)" "fixed p q = of_int m / 10 ^ p"
      by (auto simp: m_def fixed_def sgn_if)
    then show ?thesis using v parse_plain(1) by simp
  qed
qed

lemma fixed_places: "fixed p q * 10 ^ p \<in> \<int>"
  by (simp add: fixed_def sgn_if)

lemma fixed_near: "\<bar>fixed p q - q\<bar> \<le> 1 / (2 * 10 ^ p)"
proof -
  have "\<bar>of_int (round_half_up (\<bar>q\<bar> * 10 ^ p)) - \<bar>q\<bar> * 10 ^ p\<bar> \<le> 1 / 2" unfolding round_half_up_def by linarith
  moreover have "\<bar>m / N - a\<bar> \<le> 1 / (2 * N)" if "\<bar>m - a * N\<bar> \<le> 1 / 2" "0 < N" for m a N :: rat
  proof -
    have "m / N - a = (m - a * N) / N" using that(2) by (simp add: field_simps)
    then have "\<bar>m / N - a\<bar> = \<bar>m - a * N\<bar> / N" using that(2) by (simp add: abs_divide)
    also have "\<dots> \<le> (1 / 2) / N" using that by (intro divide_right_mono) simp_all
    finally show ?thesis by simp
  qed
  ultimately have "\<bar>of_int (round_half_up (\<bar>q\<bar> * 10 ^ p)) / 10 ^ p - \<bar>q\<bar>\<bar> \<le> 1 / (2 * 10 ^ p)" by simp
  then show ?thesis by (auto simp: fixed_def sgn_if abs_if split: if_splits)
qed

lemma fixed_id: "q * 10 ^ p \<in> \<int> \<Longrightarrow> fixed p q = q"
proof -
  assume "q * 10 ^ p \<in> \<int>"
  then obtain k where k: "q * 10 ^ p = of_int k" by (auto elim: Ints_cases)
  have "\<bar>q\<bar> * 10 ^ p = of_int \<bar>k\<bar>" using k by (metis abs_mult abs_of_nonneg of_int_abs zero_le_numeral zero_le_power)
  then have "round_half_up (\<bar>q\<bar> * 10 ^ p) = \<bar>k\<bar>" unfolding round_half_up_def by linarith
  then have "fixed p q = sgn q * \<bar>q\<bar>" using \<open>\<bar>q\<bar> * 10 ^ p = of_int \<bar>k\<bar>\<close> by (simp add: fixed_def field_simps)
  then show ?thesis by (simp add: sgn_if)
qed

end
