(* ===== verification/DurationField.thy ===== *)
theory DurationField
  imports Numerals ExtCore
begin

text \<open>
  Number fields of Ext JS (\<open>Ext.form.NumberField\<close>, with the spinner of \<open>Spinner.js\<close>) and the field for a
  delay in days and hours that is made of two of them (\<open>DurationField.js\<close>).  What is drawn of them, and
  the validation that marks them red, is not modelled.
\<close>

section \<open>Number fields\<close>

text \<open>A field holds text, however the number got there.\<close>

record numfield =
  decimalPrecision :: nat
  minValue :: rat
  maxValue :: rat
  incrementValue :: rat
  box_text :: string

definition parseValue :: "string \<Rightarrow> jsval" where
  "parseValue s = (let v = parse_float s in if v = NaN then Str [] else Num v)"

text \<open>\<open>parseFloat(parseFloat(value).toFixed(precision))\<close>, but for what is no number or is falsy.\<close>

definition fixPrecision :: "nat \<Rightarrow> jsval \<Rightarrow> jsval" where
  "fixPrecision precision value =
     (let nan = is_nan value
      in if nan \<or> \<not> truthy value then (if nan then Str [] else value)
         else Num (parse_float (to_fixed precision (js_parse_float value))))"

definition nf_getValue :: "numfield \<Rightarrow> jsval" where
  "nf_getValue f = fixPrecision (decimalPrecision f) (parseValue (box_text f))"

definition nf_setValue :: "jsval \<Rightarrow> numfield \<Rightarrow> numfield" where
  "nf_setValue v f =
     (let v = (case v of Num (Fin q) \<Rightarrow> v | _ \<Rightarrow> Num (js_parse_float v));
          v = fixPrecision (decimalPrecision f) v;
          v = (if is_nan v then [] else js_string v)
      in f\<lparr>box_text := v\<rparr>)"

text \<open>A click on the spinner: a box that holds no number starts from \<open>defaultValue\<close>, zero.\<close>

definition fixBoundries :: "numfield \<Rightarrow> jsnum \<Rightarrow> jsval" where
  "fixBoundries f v =
     (let v = (if num_less v (Fin (minValue f)) then Fin (minValue f) else v);
          v = (if num_less (Fin (maxValue f)) v then Fin (maxValue f) else v)
      in fixPrecision (decimalPrecision f) (Num v))"

definition spin :: "bool \<Rightarrow> numfield \<Rightarrow> numfield" where
  "spin down f =
     (let v = (case nf_getValue f of Num n \<Rightarrow> n | _ \<Rightarrow> NaN);
          v = num_add v (Fin (if down then - incrementValue f else incrementValue f));
          v = (if v = NaN then Fin 0 else v)
      in f\<lparr>box_text := js_string (fixBoundries f v)\<rparr>)"

section \<open>Delays\<close>

definition maxHours :: rat where
  "maxHours = 87600"

record duration =
  days_box :: numfield
  hours_box :: numfield
  lastValue :: jsval
  dur_changes :: "(jsnum \<times> jsval) list"

text \<open>\<open>dur_changes\<close> records the \<open>change\<close> events the field fired: the value and the one before.\<close>

definition duration_new :: duration where
  "duration_new =
     \<lparr>days_box = \<lparr>decimalPrecision = 0, minValue = 0, maxValue = of_int \<lfloor>maxHours / 24\<rfloor>, incrementValue = 1, box_text = ''0''\<rparr>,
      hours_box = \<lparr>decimalPrecision = 1, minValue = 0, maxValue = maxHours, incrementValue = 1, box_text = ''0''\<rparr>,
      lastValue = Undefined, dur_changes = []\<rparr>"

definition math_max :: "jsnum \<Rightarrow> rat \<Rightarrow> jsnum" where
  "math_max n m = (if n = NaN then NaN else if num_less n (Fin m) then Fin m else n)"

definition math_min :: "jsnum \<Rightarrow> rat \<Rightarrow> jsnum" where
  "math_min n m = (if n = NaN then NaN else if num_less (Fin m) n then Fin m else n)"

definition dur_getValue :: "duration \<Rightarrow> jsnum" where
  "dur_getValue d =
     (let total = num_add (num_scale 24 (deluge_number (nf_getValue (days_box d)) 0)) (deluge_number (nf_getValue (hours_box d)) 0);
          total = num_scale (1 / 100) (math_round (num_scale 100 total))
      in math_min (math_max total 0) maxHours)"

definition dur_setValue :: "jsval \<Rightarrow> duration \<Rightarrow> duration" where
  "dur_setValue value d =
     (case math_min (math_max (deluge_number value 0) 0) maxHours of
        Fin t \<Rightarrow>
          (let ds = of_int \<lfloor>t / 24\<rfloor>
           in d\<lparr>days_box := nf_setValue (num ds) (days_box d),
                hours_box := nf_setValue (num (of_int (round_half_up ((t - ds * 24) * 100)) / 100)) (hours_box d),
                lastValue := num t\<rparr>)
      | _ \<Rightarrow> d)"

text \<open>\<open>value !== previous\<close> is said of numbers.\<close>

definition onPartChanged :: "duration \<Rightarrow> duration" where
  "onPartChanged d =
     (let value = dur_getValue d; previous = lastValue d; d = dur_setValue (Num value) d
      in if strict_eq (Num value) previous then d else d\<lparr>dur_changes := dur_changes d @ [(value, previous)]\<rparr>)"

section \<open>What a box keeps\<close>

lemma fixed_zero [simp]: "fixed p 0 = 0"
  by (simp add: fixed_def)

lemma fixPrecision_num: "fixPrecision p (num q) = num (fixed p q)"
  by (cases "q = 0") (simp_all add: fixPrecision_def is_nan_def parse_to_fixed Let_def del: to_fixed.simps)

lemma fixed_seventeen:
  assumes "p \<le> 17"
  shows "fixed p q * 10 ^ 17 \<in> \<int>"
proof -
  have "fixed p q * 10 ^ 17 = (fixed p q * 10 ^ p) * 10 ^ (17 - p)" using assms by (simp add: mult.assoc flip: power_add)
  moreover have "(10 :: rat) ^ (17 - p) \<in> \<int>" by simp
  ultimately show ?thesis using fixed_places [of p q] by (metis Ints_mult)
qed

lemma nf_get_set:
  assumes "decimalPrecision f \<le> 17"
  shows "nf_getValue (nf_setValue (num q) f) = num (fixed (decimalPrecision f) q)"
proof -
  let ?p = "decimalPrecision f"
  have "js_string (num (fixed ?p q)) = num_string (Fin (fixed ?p q))" by simp
  then have "box_text (nf_setValue (num q) f) = num_string (Fin (fixed ?p q))"
    by (simp add: nf_setValue_def fixPrecision_num Let_def is_nan_def del: num_string.simps)
  moreover have "decimalPrecision (nf_setValue (num q) f) = ?p" by (simp add: nf_setValue_def Let_def)
  moreover have "fixed ?p (fixed ?p q) = fixed ?p q" by (rule fixed_id [OF fixed_places])
  ultimately show ?thesis
    using parse_num_string [OF fixed_seventeen [OF assms]] by (simp add: nf_getValue_def parseValue_def fixPrecision_num)
qed

text \<open>What a box reads as is a number with its places, or no number at all.\<close>

lemma nf_getValue_cases:
  "nf_getValue f = Str [] \<or> nf_getValue f = Num PInf \<or> nf_getValue f = Num NInf \<or>
   (\<exists>q. nf_getValue f = num q \<and> q * 10 ^ decimalPrecision f \<in> \<int>)"
proof (cases "parse_float (box_text f)")
  case (Fin q)
  then have "nf_getValue f = num (fixed (decimalPrecision f) q)" by (simp add: nf_getValue_def parseValue_def fixPrecision_num)
  then show ?thesis using fixed_places by blast
next
  case PInf
  have "parse_float ''Infinity'' = PInf" by code_simp
  then show ?thesis using PInf by (simp add: nf_getValue_def parseValue_def fixPrecision_def is_nan_def Let_def)
next
  case NInf
  have "parse_float ''-Infinity'' = NInf" by code_simp
  then show ?thesis using NInf by (simp add: nf_getValue_def parseValue_def fixPrecision_def is_nan_def Let_def)
next
  case NaN
  have "to_number (Str []) \<noteq> NaN" by code_simp
  then show ?thesis using NaN by (simp add: nf_getValue_def parseValue_def fixPrecision_def is_nan_def Let_def)
qed

section \<open>What the field keeps\<close>

text \<open>The boxes as \<open>initComponent\<close> makes them, whatever has been typed in them since.\<close>

definition dur_ok :: "duration \<Rightarrow> bool" where
  "dur_ok d \<longleftrightarrow> decimalPrecision (days_box d) = 0 \<and> decimalPrecision (hours_box d) = 1"

lemma dur_ok_new: "dur_ok duration_new"
  by (simp add: dur_ok_def duration_new_def)

lemma nf_setValue_precision [simp]: "decimalPrecision (nf_setValue v f) = decimalPrecision f"
  by (simp add: nf_setValue_def Let_def)

lemma spin_precision [simp]: "decimalPrecision (spin down f) = decimalPrecision f"
  by (simp add: spin_def Let_def)

lemma dur_ok_setValue: "dur_ok d \<Longrightarrow> dur_ok (dur_setValue v d)"
  by (auto simp: dur_ok_def dur_setValue_def Let_def split: jsnum.split)

lemma clamp_Fin: "math_min (math_max (Fin q) 0) maxHours = Fin (min (max q 0) maxHours)"
  by (simp add: math_min_def math_max_def maxHours_def min_def max_def)

definition clamped :: "rat \<Rightarrow> rat" where
  "clamped q = min (max q 0) maxHours"

lemma round_hundredths: "q * 100 \<in> \<int> \<Longrightarrow> of_int (round_half_up (q * 100)) = (q * 100 :: rat)"
  by (auto simp: round_half_up_def floor_eq_iff elim!: Ints_cases)

lemma deluge_number_num: "deluge_number (num q) f = Fin q"
  by (simp add: deluge_number_def)

lemma dur_get_boxes:
  assumes "nf_getValue (days_box d) = num a" "nf_getValue (hours_box d) = num b" "(24 * a + b) * 100 \<in> \<int>"
  shows "dur_getValue d = Fin (clamped (24 * a + b))"
proof -
  have "of_int (round_half_up (100 * (24 * a + b))) = 100 * (24 * a + b)"
    using round_hundredths [OF assms(3)] by (simp add: mult.commute)
  then have "1 / 100 * of_int (round_half_up (100 * (24 * a + b))) = 24 * a + b" by simp
  then show ?thesis using assms(1,2)
    by (simp only: dur_getValue_def deluge_number_num Let_def num_scale.simps num_add.simps math_round.simps clamp_Fin clamped_def)
qed

lemma dur_set_boxes:
  "dur_setValue (num q) d =
     (let t = clamped q; ds = of_int \<lfloor>t / 24\<rfloor>
      in d\<lparr>days_box := nf_setValue (num ds) (days_box d),
           hours_box := nf_setValue (num (of_int (round_half_up ((t - ds * 24) * 100)) / 100)) (hours_box d), lastValue := num t\<rparr>)"
  by (simp add: dur_setValue_def deluge_number_def clamp_Fin clamped_def Let_def)

lemma round_bounds: "0 \<le> x \<Longrightarrow> 0 \<le> round_half_up x" "x \<le> of_int k \<Longrightarrow> round_half_up x \<le> k"
  unfolding round_half_up_def by linarith+

text \<open>The hours left over from whole days, in hundredths and then in the places of the hours box.\<close>

definition hours_part :: "rat \<Rightarrow> rat" where
  "hours_part t = fixed 1 (of_int (round_half_up ((t - of_int \<lfloor>t / 24\<rfloor> * 24) * 100)) / 100)"

lemma hours_part:
  "0 \<le> hours_part t" "hours_part t \<le> 24" "hours_part t * 10 \<in> \<int>"
  "\<bar>hours_part t - (t - of_int \<lfloor>t / 24\<rfloor> * 24)\<bar> \<le> 11 / 200"
proof -
  define r where "r = t - of_int \<lfloor>t / 24\<rfloor> * 24"
  define h where "h = (of_int (round_half_up (r * 100)) / 100 :: rat)"
  have r: "0 \<le> r" "r < 24" unfolding r_def by linarith+
  then have "0 \<le> round_half_up (r * 100)" "round_half_up (r * 100) \<le> 2400"
    by (auto intro!: round_bounds)
  then have h: "0 \<le> h" "h \<le> 24" by (simp_all add: h_def)
  then have b: "0 \<le> round_half_up (h * 10)" "round_half_up (h * 10) \<le> 240"
    by (auto intro!: round_bounds)
  have f: "hours_part t = fixed 1 h" by (simp add: hours_part_def h_def r_def)
  have e: "fixed 1 h = of_int (round_half_up (h * 10)) / 10"
    using h by (auto simp: fixed_def sgn_if round_half_up_def floor_eq_iff)
  show "0 \<le> hours_part t" "hours_part t \<le> 24" unfolding f e using b by simp_all
  show "hours_part t * 10 \<in> \<int>" using fixed_places [of 1 h] by (simp add: f)
  have "\<bar>of_int (round_half_up (r * 100)) - r * 100\<bar> \<le> 1 / 2" unfolding round_half_up_def by linarith
  then have "\<bar>h - r\<bar> \<le> 1 / 200" unfolding h_def by linarith
  moreover have "\<bar>fixed 1 h - h\<bar> \<le> 1 / 20" using fixed_near [of 1 h] by simp
  ultimately show "\<bar>hours_part t - (t - of_int \<lfloor>t / 24\<rfloor> * 24)\<bar> \<le> 11 / 200" unfolding f r_def [symmetric] by linarith
qed

lemma dur_set_get:
  assumes "dur_ok d"
  shows "nf_getValue (days_box (dur_setValue (num q) d)) = num (of_int \<lfloor>clamped q / 24\<rfloor>)"
    "nf_getValue (hours_box (dur_setValue (num q) d)) = num (hours_part (clamped q))"
    "dur_getValue (dur_setValue (num q) d) = Fin (24 * of_int \<lfloor>clamped q / 24\<rfloor> + hours_part (clamped q))"
proof -
  let ?t = "clamped q" let ?d = "dur_setValue (num q) d"
  have p: "decimalPrecision (days_box d) = 0" "decimalPrecision (hours_box d) = 1" using assms by (simp_all add: dur_ok_def)
  have "fixed 0 (of_int \<lfloor>?t / 24\<rfloor>) = of_int \<lfloor>?t / 24\<rfloor>" by (rule fixed_id) simp
  then show a: "nf_getValue (days_box ?d) = num (of_int \<lfloor>?t / 24\<rfloor>)"
    using nf_get_set [of "days_box d" "of_int \<lfloor>?t / 24\<rfloor>"] p by (simp add: dur_set_boxes Let_def)
  show b: "nf_getValue (hours_box ?d) = num (hours_part ?t)"
    using nf_get_set [of "hours_box d"] p by (simp add: dur_set_boxes Let_def hours_part_def)
  have t: "0 \<le> ?t" "?t \<le> 87600" by (simp_all add: clamped_def maxHours_def)
  have "hours_part ?t = 0 \<and> \<lfloor>?t / 24\<rfloor> = 3650" if "?t = 87600"
    unfolding that by code_simp
  moreover have "\<lfloor>?t / 24\<rfloor> \<le> 3649" if "?t < 87600" using that by linarith
  moreover have "0 \<le> \<lfloor>?t / 24\<rfloor>" using t by simp
  ultimately have "0 \<le> 24 * of_int \<lfloor>?t / 24\<rfloor> + hours_part ?t" "24 * of_int \<lfloor>?t / 24\<rfloor> + hours_part ?t \<le> 87600"
    using hours_part [of ?t] t by (cases "?t = 87600", simp, linarith)+
  then have c: "clamped (24 * of_int \<lfloor>?t / 24\<rfloor> + hours_part ?t) = 24 * of_int \<lfloor>?t / 24\<rfloor> + hours_part ?t"
    by (simp add: clamped_def maxHours_def)
  have "(24 * of_int \<lfloor>?t / 24\<rfloor> + hours_part ?t) * 100 = of_int (2400 * \<lfloor>?t / 24\<rfloor>) + (hours_part ?t * 10) * of_int 10"
    by (simp add: algebra_simps)
  then have "(24 * of_int \<lfloor>?t / 24\<rfloor> + hours_part ?t) * 100 \<in> \<int>"
    using hours_part(3) [of ?t] by (metis Ints_add Ints_mult Ints_of_int)
  then show "dur_getValue ?d = Fin (24 * of_int \<lfloor>?t / 24\<rfloor> + hours_part ?t)" using dur_get_boxes [OF a b] c by simp
qed

lemma hours_part_exact:
  assumes "t * 10 \<in> \<int>"
  shows "24 * of_int \<lfloor>t / 24\<rfloor> + hours_part t = t"
proof -
  define r where "r = t - of_int \<lfloor>t / 24\<rfloor> * 24"
  have "r * 10 = t * 10 - of_int (\<lfloor>t / 24\<rfloor> * 240)" by (simp add: r_def algebra_simps)
  then have ten: "r * 10 \<in> \<int>" using assms by (metis Ints_diff Ints_of_int)
  have "r * 100 = (r * 10) * of_int 10" by simp
  then have "r * 100 \<in> \<int>" using ten by (metis Ints_mult Ints_of_int)
  then have "of_int (round_half_up (r * 100)) = r * 100" by (rule round_hundredths)
  then have "hours_part t = fixed 1 r" by (simp add: hours_part_def flip: r_def)
  also have "\<dots> = r" using ten by (simp add: fixed_id)
  finally show ?thesis by (simp add: r_def)
qed

text \<open>The numbers the two boxes add to a total.\<close>

lemma box_number:
  "deluge_number (nf_getValue f) 0 \<in> {PInf, NInf} \<or>
   (\<exists>q. deluge_number (nf_getValue f) 0 = Fin q \<and> q * 10 ^ decimalPrecision f \<in> \<int>)"
proof -
  have "deluge_number (Str []) 0 = Fin 0" by code_simp
  moreover have "deluge_number (Num PInf) 0 = PInf" "deluge_number (Num NInf) 0 = NInf" by code_simp+
  ultimately show ?thesis using nf_getValue_cases [of f]
    by (metis Ints_0 deluge_number_num insert_iff mult_zero_left)
qed

lemma dur_total_cases:
  assumes "dur_ok d"
  obtains (nan) "dur_getValue d = NaN"
      "{deluge_number (nf_getValue (days_box d)) 0, deluge_number (nf_getValue (hours_box d)) 0} = {PInf, NInf}"
  | (some) q where "dur_getValue d = Fin q" "0 \<le> q" "q \<le> maxHours" "q * 10 \<in> \<int>"
proof -
  let ?a = "deluge_number (nf_getValue (days_box d)) 0" let ?b = "deluge_number (nf_getValue (hours_box d)) 0"
  have tens: "(0 :: rat) * 10 \<in> \<int>" "maxHours * 10 \<in> \<int>" "0 \<le> maxHours" by (simp_all add: maxHours_def)
  have inf: "math_min (math_max PInf 0) maxHours = Fin maxHours" "math_min (math_max NInf 0) maxHours = Fin 0"
    by (simp_all add: math_min_def math_max_def maxHours_def)
  have g: "dur_getValue d = math_min (math_max (num_scale (1 / 100) (math_round (num_scale 100 (num_add (num_scale 24 ?a) ?b)))) 0) maxHours"
    by (simp add: dur_getValue_def Let_def)
  consider (opposite) "{?a, ?b} = {PInf, NInf}" | (up) "num_add (num_scale 24 ?a) ?b = PInf" | (down) "num_add (num_scale 24 ?a) ?b = NInf"
    | (fin) x y where "?a = Fin x" "?b = Fin y" "x * 10 ^ decimalPrecision (days_box d) \<in> \<int>" "y * 10 ^ decimalPrecision (hours_box d) \<in> \<int>"
    using box_number [of "days_box d"] box_number [of "hours_box d"] by fastforce
  then show ?thesis
  proof cases
    case opposite
    then have "num_add (num_scale 24 ?a) ?b = NaN" by (auto simp: doubleton_eq_iff)
    then have "dur_getValue d = NaN" unfolding g by (simp add: math_min_def math_max_def)
    then show ?thesis using opposite by (rule nan)
  next
    case up
    then show ?thesis using some [of maxHours] tens by (simp add: g inf)
  next
    case down
    then show ?thesis using some [of 0] tens by (simp add: g inf)
  next
    case fin
    let ?s = "24 * x + y"
    have "?s * 10 = x * of_int 240 + y * 10" by simp
    moreover have "x \<in> \<int>" "y * 10 \<in> \<int>" using fin(3,4) assms by (simp_all add: dur_ok_def)
    ultimately have ten: "?s * 10 \<in> \<int>" by (metis Ints_add Ints_mult Ints_of_int)
    moreover have "100 * ?s = (?s * 10) * of_int 10" by simp
    ultimately have "100 * ?s \<in> \<int>" by (metis Ints_mult Ints_of_int)
    then have "of_int (round_half_up (100 * ?s)) = 100 * ?s" using round_hundredths [of ?s] by (simp add: mult.commute)
    then have r: "1 / 100 * of_int (round_half_up (100 * ?s)) = ?s" by simp
    have v: "dur_getValue d = Fin (clamped ?s)"
      unfolding g fin(1,2) num_scale.simps num_add.simps math_round.simps r clamp_Fin clamped_def ..
    have "clamped ?s * 10 \<in> \<int>" using ten tens by (auto simp: clamped_def min_def max_def)
    then show ?thesis by (rule some [OF v, rotated 2]) (simp_all add: clamped_def maxHours_def)
  qed
qed

section \<open>Properties\<close>

text \<open>What the field says it holds is a delay the daemon takes: a number of tenths of an hour, not
  negative and not more than ten years.  It does so whatever was typed into the boxes, but for one holding
  Infinity and the other -Infinity, which only pasting can do.\<close>

lemma duration_type:
  assumes "dur_ok d"
  shows "(\<exists>q. dur_getValue d = Fin q \<and> 0 \<le> q \<and> q \<le> maxHours \<and> q * 10 \<in> \<int>) \<or>
    dur_getValue d = NaN \<and>
    {deluge_number (nf_getValue (days_box d)) 0, deluge_number (nf_getValue (hours_box d)) 0} = {PInf, NInf}"
  by (rule dur_total_cases [OF assms]) blast+

lemma duration_type_witness:
  "(\<exists>q. dur_getValue duration_new = Fin q \<and> 0 \<le> q \<and> q \<le> maxHours \<and> q * 10 \<in> \<int>) \<or>
    dur_getValue duration_new = NaN \<and>
    {deluge_number (nf_getValue (days_box duration_new)) 0, deluge_number (nf_getValue (hours_box duration_new)) 0} = {PInf, NInf}"
  by (rule duration_type [OF dur_ok_new])

text \<open>After either box has been changed the field shows the same delay, with less than a day left in
  the hours box, and has told its listeners exactly when it is another delay than the last one shown.\<close>

lemma part_changed:
  assumes "dur_ok d" "dur_getValue d = Fin q"
  shows "dur_getValue (onPartChanged d) = Fin q \<and>
    lastValue (onPartChanged d) = num q \<and>
    (\<exists>h. nf_getValue (hours_box (onPartChanged d)) = num h \<and> 0 \<le> h \<and> h < 24) \<and>
    dur_changes (onPartChanged d) = dur_changes d @ (if lastValue d = num q then [] else [(Fin q, lastValue d)])"
proof (intro conjI)
  have q: "0 \<le> q" "q \<le> maxHours" "q * 10 \<in> \<int>" using dur_total_cases [OF assms(1)] assms(2) by auto
  have c: "clamped q = q" using q by (simp add: clamped_def)
  note e = hours_part_exact [OF q(3)]
  let ?s = "dur_setValue (num q) d"
  have o: "onPartChanged d = (if strict_eq (num q) (lastValue d) then ?s else ?s\<lparr>dur_changes := dur_changes ?s @ [(Fin q, lastValue d)]\<rparr>)"
    by (simp add: onPartChanged_def assms(2) Let_def)
  have s: "strict_eq (num q) (lastValue d) \<longleftrightarrow> lastValue d = num q" by (cases "lastValue d") (auto elim: num_eq.elims)
  have boxes: "days_box (onPartChanged d) = days_box ?s" "hours_box (onPartChanged d) = hours_box ?s" by (simp_all add: o)
  then have "dur_getValue (onPartChanged d) = dur_getValue ?s" by (simp add: dur_getValue_def)
  then show "dur_getValue (onPartChanged d) = Fin q" using dur_set_get(3) [OF assms(1), of q] c e by simp
  show "lastValue (onPartChanged d) = num q" by (simp add: o dur_set_boxes Let_def c)
  have "hours_part q < 24" using e floor_correct [of "q / 24"] by linarith
  then show "\<exists>h. nf_getValue (hours_box (onPartChanged d)) = num h \<and> 0 \<le> h \<and> h < 24"
    using dur_set_get(2) [OF assms(1), of q] hours_part(1) [of q] c boxes by auto
  show "dur_changes (onPartChanged d) = dur_changes d @ (if lastValue d = num q then [] else [(Fin q, lastValue d)])"
    by (simp add: o s dur_set_boxes Let_def)
qed

text \<open>36 typed into the hours box of a new field.\<close>

definition thirty_six :: duration where
  "thirty_six = duration_new\<lparr>hours_box := hours_box duration_new\<lparr>box_text := ''36''\<rparr>\<rparr>"

lemma part_changed_witness:
  "dur_getValue (onPartChanged thirty_six) = Fin 36 \<and> lastValue (onPartChanged thirty_six) = num 36 \<and>
   (\<exists>h. nf_getValue (hours_box (onPartChanged thirty_six)) = num h \<and> 0 \<le> h \<and> h < 24) \<and>
   dur_changes (onPartChanged thirty_six) = [(Fin 36, Undefined)]"
proof -
  have "dur_ok thirty_six" "dur_getValue thirty_six = Fin 36" "lastValue thirty_six = Undefined" "dur_changes thirty_six = []"
    by code_simp+
  then show ?thesis using part_changed [of thirty_six 36] by simp
qed

text \<open>A delay of whole tenths of an hour, up to ten years, that is put into the field is read from it
  again, whatever the two boxes held before.\<close>

lemma duration_roundtrip:
  assumes "dur_ok d" "0 \<le> q" "q \<le> maxHours" "q * 10 \<in> \<int>"
  shows "dur_getValue (dur_setValue (num q) d) = Fin q"
proof -
  have "clamped q = q" using assms by (simp add: clamped_def)
  then show ?thesis using dur_set_get(3) [OF assms(1), of q] hours_part_exact [OF assms(4)] by simp
qed

lemma duration_roundtrip_witness:
  "dur_getValue (dur_setValue (num (73 / 2)) duration_new) = Fin (73 / 2)"
proof (rule duration_roundtrip [OF dur_ok_new])
  show "(73 / 2 :: rat) * 10 \<in> \<int>" using Ints_of_int [of 365] by simp
qed (simp_all add: maxHours_def)

text \<open>Any other delay is not: what is read is within 3.3 minutes of what was put in, not more exact, so
  a quarter of an hour that the daemon stored comes back as 0.3 hours from a form that was only opened and
  saved.\<close>

lemma duration_drifts:
  assumes "dur_ok d" "0 \<le> q" "q \<le> maxHours"
  shows "(\<exists>r. dur_getValue (dur_setValue (num q) d) = Fin r \<and> \<bar>r - q\<bar> \<le> 11 / 200) \<and>
    dur_getValue (dur_setValue (num (1 / 4)) d) = Fin (3 / 10)"
proof (intro conjI)
  have "clamped q = q" using assms by (simp add: clamped_def)
  then show "\<exists>r. dur_getValue (dur_setValue (num q) d) = Fin r \<and> \<bar>r - q\<bar> \<le> 11 / 200"
    using dur_set_get(3) [OF assms(1), of q] hours_part(4) [of q] by (auto simp: algebra_simps)
  have "clamped (1 / 4) = 1 / 4" by (simp add: clamped_def maxHours_def)
  moreover have "hours_part (1 / 4) = 3 / 10" by code_simp
  ultimately show "dur_getValue (dur_setValue (num (1 / 4)) d) = Fin (3 / 10)"
    using dur_set_get(3) [OF assms(1), of "1 / 4"] by (simp add: floor_eq_iff del: eq_divide_eq_numeral1)
qed

lemma duration_drifts_witness:
  "(\<exists>r. dur_getValue (dur_setValue (num (1 / 3)) duration_new) = Fin r \<and> \<bar>r - 1 / 3\<bar> \<le> 11 / 200) \<and>
   dur_getValue (dur_setValue (num (1 / 4)) duration_new) = Fin (3 / 10)"
  using duration_drifts [OF dur_ok_new, of "1 / 3"] by (simp add: maxHours_def del: eq_divide_eq_numeral1)

end
