(* ===== verification/Observable.thy ===== *)
theory Observable
  imports JsValue
begin

text \<open>
  Events of Ext JS (\<open>Ext.util.Observable\<close> and \<open>Ext.util.Event\<close>, ext-all-debug.js), on which the
  components of the interface hear of one another.  Functions and scopes are numbers; what a function
  does to the observable when it is called is a parameter, a list of acts and what it returns.  An event
  holds its listeners in an array that a running \<open>fire\<close> may share with it, so arrays are kept apart
  from the references to them.  Of the options of a listener \<open>single\<close> is modelled; \<open>target\<close>,
  \<open>delay\<close> and \<open>buffer\<close> are not, nor is bubbling, which the interface does not use.
\<close>

section \<open>One event\<close>

record listener =
  l_fn :: nat
  l_scope :: nat
  l_single :: bool

text \<open>\<open>me_listeners\<close> refers to one of the arrays the event has had.\<close>

record event =
  arrays :: "listener list list"
  me_listeners :: nat
  firing :: bool

definition event_new :: event where
  "event_new = \<lparr>arrays = [[]], me_listeners = 0, firing = False\<rparr>"

abbreviation the_listeners :: "event \<Rightarrow> listener list" where
  "the_listeners e \<equiv> arrays e ! me_listeners e"

fun find_from :: "nat \<Rightarrow> nat \<Rightarrow> listener list \<Rightarrow> nat \<Rightarrow> nat option" where
  "find_from fn scope ls 0 = None"
| "find_from fn scope ls (Suc i) =
     (if l_fn (ls ! i) = fn \<and> l_scope (ls ! i) = scope then Some i else find_from fn scope ls i)"

definition findListener :: "nat \<Rightarrow> nat \<Rightarrow> event \<Rightarrow> nat option" where
  "findListener fn scope e = find_from fn scope (the_listeners e) (length (the_listeners e))"

definition isListening :: "nat \<Rightarrow> nat \<Rightarrow> event \<Rightarrow> bool" where
  "isListening fn scope e \<longleftrightarrow> findListener fn scope e \<noteq> None"

text \<open>\<open>me.listeners = me.listeners.slice(0)\<close>\<close>

definition own_copy :: "event \<Rightarrow> event" where
  "own_copy e = e\<lparr>arrays := arrays e @ [the_listeners e], me_listeners := length (arrays e)\<rparr>"

definition ev_add :: "nat \<Rightarrow> nat \<Rightarrow> bool \<Rightarrow> event \<Rightarrow> event" where
  "ev_add fn scope single e =
     (if isListening fn scope e then e
      else let e = (if firing e then own_copy e else e)
           in e\<lparr>arrays := (arrays e)[me_listeners e :=
                 the_listeners e @ [\<lparr>l_fn = fn, l_scope = scope, l_single = single\<rparr>]]\<rparr>)"

definition ev_remove :: "nat \<Rightarrow> nat \<Rightarrow> event \<Rightarrow> event" where
  "ev_remove fn scope e =
     (case findListener fn scope e of
        None \<Rightarrow> e
      | Some index \<Rightarrow>
          let e = (if firing e then own_copy e else e)
          in e\<lparr>arrays := (arrays e)[me_listeners e := take index (the_listeners e) @ drop (Suc index) (the_listeners e)]\<rparr>)"

text \<open>The loop of \<open>clearListeners\<close> reads the array the event had when it began.\<close>

fun clear_from :: "nat \<Rightarrow> nat \<Rightarrow> event \<Rightarrow> event" where
  "clear_from l 0 e = e"
| "clear_from l (Suc i) e =
     clear_from l i (ev_remove (l_fn (arrays e ! l ! i)) (l_scope (arrays e ! l ! i)) e)"

definition clearListeners :: "event \<Rightarrow> event" where
  "clearListeners e = clear_from (me_listeners e) (length (the_listeners e)) e"

section \<open>Observables\<close>

text \<open>An entry of \<open>events\<close> is \<open>true\<close> or an event.\<close>

datatype slot = Declared | Event event

record observable =
  events :: "slot dict"
  eventsSuspended :: bool
  eventQueue :: "(string \<times> jsval list) list option"
  called :: "(string \<times> nat \<times> nat \<times> jsval list) list"

text \<open>\<open>called\<close> records the calls that were made, oldest first.\<close>

definition observable_new :: observable where
  "observable_new = \<lparr>events = [], eventsSuspended = False, eventQueue = None, called = []\<rparr>"

definition at_event :: "string \<Rightarrow> (event \<Rightarrow> event) \<Rightarrow> observable \<Rightarrow> observable" where
  "at_event nm f o1 =
     (case map_of (events o1) nm of
        Some (Event e) \<Rightarrow> o1\<lparr>events := AList.update nm (Event (f e)) (events o1)\<rparr>
      | _ \<Rightarrow> o1)"

definition addListener :: "string \<Rightarrow> nat \<Rightarrow> nat \<Rightarrow> bool \<Rightarrow> observable \<Rightarrow> observable" where
  "addListener eventName fn scope single o1 =
     (let eventName = to_lower eventName;
          ce = (case map_of (events o1) eventName of Some (Event e) \<Rightarrow> e | _ \<Rightarrow> event_new)
      in o1\<lparr>events := AList.update eventName (Event (ev_add fn scope single ce)) (events o1)\<rparr>)"

definition removeListener :: "string \<Rightarrow> nat \<Rightarrow> nat \<Rightarrow> observable \<Rightarrow> observable" where
  "removeListener eventName fn scope o1 = at_event (to_lower eventName) (ev_remove fn scope) o1"

definition purgeListeners :: "observable \<Rightarrow> observable" where
  "purgeListeners o1 =
     o1\<lparr>events := map (\<lambda>(k, s). (k, case s of Event e \<Rightarrow> Event (clearListeners e) | Declared \<Rightarrow> Declared)) (events o1)\<rparr>"

definition addEvents :: "string list \<Rightarrow> observable \<Rightarrow> observable" where
  "addEvents nms o1 =
     o1\<lparr>events := fold (\<lambda>n evs. case map_of evs n of None \<Rightarrow> AList.update n Declared evs | Some _ \<Rightarrow> evs)
                    (rev nms) (events o1)\<rparr>"

definition hasListener :: "string \<Rightarrow> observable \<Rightarrow> bool" where
  "hasListener eventName o1 =
     (case map_of (events o1) (to_lower eventName) of Some (Event e) \<Rightarrow> the_listeners e \<noteq> [] | _ \<Rightarrow> False)"

definition suspendEvents :: "bool \<Rightarrow> observable \<Rightarrow> observable" where
  "suspendEvents queueSuspended o1 =
     o1\<lparr>eventsSuspended := True,
        eventQueue := (if queueSuspended \<and> eventQueue o1 = None then Some [] else eventQueue o1)\<rparr>"

section \<open>Firing\<close>

text \<open>What the function of a listener does with the observable, in order.\<close>

datatype obs_act =
    Listen string nat nat bool
  | Unlisten string nat nat
  | Fire string "jsval list"
  | Suspend bool
  | Resume
  | Purge

text \<open>The acts of a function when it is called in a scope with arguments, and whether it returns
  anything but \<open>false\<close>.\<close>

type_synonym body = "nat \<Rightarrow> nat \<Rightarrow> jsval list \<Rightarrow> obs_act list \<times> bool"

text \<open>The acts that call no function.\<close>

fun quiet_act :: "obs_act \<Rightarrow> observable \<Rightarrow> observable" where
  "quiet_act (Listen nm fn scope single) o1 = addListener nm fn scope single o1"
| "quiet_act (Unlisten nm fn scope) o1 = removeListener nm fn scope o1"
| "quiet_act (Suspend q) o1 = suspendEvents q o1"
| "quiet_act Purge o1 = purgeListeners o1"
| "quiet_act Resume o1 = o1\<lparr>eventsSuspended := False, eventQueue := None\<rparr>"
| "quiet_act (Fire nm args) o1 = o1"

text \<open>\<open>Event.fire\<close>: \<open>ref\<close> is the array of listeners it began with, \<open>ixs\<close> the indexes still to come.
  \<open>fuel\<close> bounds how deep firings may be nested; None is a nesting deeper than that.\<close>

function (sequential) do_acts :: "body \<Rightarrow> nat \<Rightarrow> obs_act list \<Rightarrow> observable \<Rightarrow> observable option"
  and do_act :: "body \<Rightarrow> nat \<Rightarrow> obs_act \<Rightarrow> observable \<Rightarrow> (bool \<times> observable) option"
  and fire_all :: "body \<Rightarrow> nat \<Rightarrow> (string \<times> jsval list) list \<Rightarrow> observable \<Rightarrow> observable option"
  and fireEvent :: "body \<Rightarrow> nat \<Rightarrow> string \<Rightarrow> jsval list \<Rightarrow> observable \<Rightarrow> (bool \<times> observable) option"
  and fire_from :: "body \<Rightarrow> nat \<Rightarrow> string \<Rightarrow> nat \<Rightarrow> nat list \<Rightarrow> jsval list \<Rightarrow> observable \<Rightarrow> (bool \<times> observable) option"
where
  "do_acts body fuel [] o1 = Some o1"
| "do_acts body fuel (a # acts) o1 =
     (case do_act body fuel a o1 of None \<Rightarrow> None | Some (_, o1) \<Rightarrow> do_acts body fuel acts o1)"
| "do_act body fuel (Fire nm args) o1 = fireEvent body fuel nm args o1"
| "do_act body fuel Resume o1 =
     (case fire_all body fuel (case eventQueue o1 of None \<Rightarrow> [] | Some q \<Rightarrow> q) (quiet_act Resume o1) of
        None \<Rightarrow> None | Some o1 \<Rightarrow> Some (True, o1))"
| "do_act body fuel a o1 = Some (True, quiet_act a o1)"
| "fire_all body fuel [] o1 = Some o1"
| "fire_all body fuel ((nm, args) # q) o1 =
     (case fireEvent body fuel nm args o1 of None \<Rightarrow> None | Some (_, o1) \<Rightarrow> fire_all body fuel q o1)"
| "fireEvent body fuel nm args o1 =
     (if eventsSuspended o1
      then Some (True, o1\<lparr>eventQueue := map_option (\<lambda>q. q @ [(nm, args)]) (eventQueue o1)\<rparr>)
      else (case map_of (events o1) (to_lower nm) of
              Some (Event e) \<Rightarrow>
                (let ename = to_lower nm
                 in if the_listeners e = [] then Some (True, at_event ename (\<lambda>e. e\<lparr>firing := False\<rparr>) o1)
                    else fire_from body fuel ename (me_listeners e) [0..<length (the_listeners e)] args
                           (at_event ename (\<lambda>e. e\<lparr>firing := True\<rparr>) o1))
            | _ \<Rightarrow> Some (True, o1)))"
| "fire_from body fuel nm ref [] args o1 = Some (True, at_event nm (\<lambda>e. e\<lparr>firing := False\<rparr>) o1)"
| "fire_from body 0 nm ref (i # ixs) args o1 = None"
| "fire_from body (Suc fuel) nm ref (i # ixs) args o1 =
     (case map_of (events o1) nm of
        Some (Event e) \<Rightarrow>
          if length (arrays e ! ref) \<le> i then fire_from body (Suc fuel) nm ref ixs args o1
          else
            let l = arrays e ! ref ! i;
                o1 = (if l_single l then at_event nm (ev_remove (l_fn l) (l_scope l)) o1 else o1);
                o1 = o1\<lparr>called := called o1 @ [(nm, l_fn l, l_scope l, args)]\<rparr>
            in (case do_acts body fuel (fst (body (l_fn l) (l_scope l) args)) o1 of
                  None \<Rightarrow> None
                | Some o1 \<Rightarrow>
                    if snd (body (l_fn l) (l_scope l) args) then fire_from body (Suc fuel) nm ref ixs args o1
                    else Some (False, at_event nm (\<lambda>e. e\<lparr>firing := False\<rparr>) o1))
      | _ \<Rightarrow> Some (True, o1))"
  by pat_completeness auto
termination
  by (relation "inv_image (less_than <*lex*> less_than <*lex*> less_than)
       (\<lambda>x. case x of
          Inl (Inl (b, f, as, o1)) \<Rightarrow> (f, 5, length as)
        | Inl (Inr (b, f, a, o1)) \<Rightarrow> (f, 4, 0)
        | Inr (Inl (b, f, q, o1)) \<Rightarrow> (f, 3, length q)
        | Inr (Inr (Inl (b, f, nm, as, o1))) \<Rightarrow> (f, 2, 0)
        | Inr (Inr (Inr (b, f, nm, r, is, as, o1))) \<Rightarrow> (f, 1, length is))")
    auto

section \<open>Listeners as a list\<close>

abbreviation key :: "listener \<Rightarrow> nat \<times> nat" where
  "key l \<equiv> (l_fn l, l_scope l)"

definition ev_ok :: "event \<Rightarrow> bool" where
  "ev_ok e \<longleftrightarrow> me_listeners e < length (arrays e) \<and> distinct (map key (the_listeners e))"

lemma find_from_iff:
  assumes "distinct (map key ls)" "i \<le> length ls"
  shows "find_from fn scope ls i = Some j \<longleftrightarrow> j < i \<and> key (ls ! j) = (fn, scope)"
  using assms(2)
proof (induction i)
  case (Suc i)
  show ?case
  proof (cases "key (ls ! i) = (fn, scope)")
    case True
    have "j = i" if "j < Suc i" "key (ls ! j) = (fn, scope)"
      using that True assms(1) Suc.prems nth_eq_iff_index_eq [of "map key ls" j i] by auto
    then show ?thesis using True by auto
  next
    case False
    then show ?thesis using Suc by (auto simp: less_Suc_eq)
  qed
qed simp

lemma find_from_none: "find_from fn scope ls i = None \<longleftrightarrow> (\<forall>j < i. key (ls ! j) \<noteq> (fn, scope))"
  by (induction i) (auto simp: less_Suc_eq)

lemma find_from_None: "find_from fn scope ls (length ls) = None \<longleftrightarrow> (fn, scope) \<notin> set (map key ls)"
  unfolding find_from_none in_set_conv_nth by auto

lemma filter_around:
  "distinct (map f (a @ x # b)) \<Longrightarrow> filter (\<lambda>l. f l \<noteq> f x) (a @ x # b) = a @ b"
  by (induction a) (auto simp: filter_id_conv image_iff)

lemma splice_filter:
  assumes "distinct (map key ls)" "j < length ls"
  shows "take j ls @ drop (Suc j) ls = filter (\<lambda>l. key l \<noteq> key (ls ! j)) ls"
  using filter_around [of key "take j ls" "ls ! j" "drop (Suc j) ls"] id_take_nth_drop [OF assms(2)] assms(1) by simp

text \<open>Arrays that a running \<open>fire\<close> reads are never written.\<close>

definition keeps_arrays :: "event \<Rightarrow> event \<Rightarrow> bool" where
  "keeps_arrays e e' \<longleftrightarrow> firing e' = firing e \<and> length (arrays e) \<le> length (arrays e') \<and>
     (firing e \<longrightarrow> (\<forall>r < length (arrays e). arrays e' ! r = arrays e ! r))"

lemma keeps_refl [simp]: "keeps_arrays e e"
  by (simp add: keeps_arrays_def)

lemma keeps_trans: "keeps_arrays a b \<Longrightarrow> keeps_arrays b c \<Longrightarrow> keeps_arrays a c"
  by (auto simp: keeps_arrays_def)

lemma own_copy_ok:
  assumes "ev_ok e"
  shows "ev_ok (own_copy e)" "the_listeners (own_copy e) = the_listeners e" "keeps_arrays e (own_copy e)"
    "firing e \<Longrightarrow> length (arrays e) = me_listeners (own_copy e)"
  using assms by (auto simp: own_copy_def ev_ok_def keeps_arrays_def nth_append)

lemma write_ok:
  assumes "ev_ok e" "distinct (map key ls)"
  defines "e1 \<equiv> (if firing e then own_copy e else e)"
  defines "e2 \<equiv> e1\<lparr>arrays := (arrays e1)[me_listeners e1 := ls]\<rparr>"
  shows "ev_ok e2 \<and> the_listeners e2 = ls \<and> keeps_arrays e e2"
proof (cases "firing e")
  case True
  then have "e2 = e\<lparr>arrays := arrays e @ [ls], me_listeners := length (arrays e)\<rparr>"
    by (simp add: e2_def e1_def own_copy_def list_update_append)
  then show ?thesis using True assms(1,2) by (simp add: ev_ok_def keeps_arrays_def nth_append)
next
  case False
  then show ?thesis using assms(1,2) by (simp add: e2_def e1_def ev_ok_def keeps_arrays_def)
qed

lemma ev_add_ok:
  assumes "ev_ok e"
  shows "ev_ok (ev_add fn scope single e) \<and> keeps_arrays e (ev_add fn scope single e) \<and>
    the_listeners (ev_add fn scope single e) =
      (if (fn, scope) \<in> set (map key (the_listeners e)) then the_listeners e
       else the_listeners e @ [\<lparr>l_fn = fn, l_scope = scope, l_single = single\<rparr>])"
proof (cases "isListening fn scope e")
  case True
  then have "(fn, scope) \<in> set (map key (the_listeners e))"
    using find_from_None [of fn scope "the_listeners e"] by (simp add: isListening_def findListener_def)
  then show ?thesis using True assms by (simp add: ev_add_def)
next
  case False
  then have n: "(fn, scope) \<notin> set (map key (the_listeners e))"
    using find_from_None [of fn scope "the_listeners e"] by (simp add: isListening_def findListener_def)
  let ?ls = "the_listeners e @ [\<lparr>l_fn = fn, l_scope = scope, l_single = single\<rparr>]"
  have d: "distinct (map key ?ls)" using n assms by (auto simp: ev_ok_def)
  have "ev_add fn scope single e = (let e1 = if firing e then own_copy e else e in
      e1\<lparr>arrays := (arrays e1)[me_listeners e1 := ?ls]\<rparr>)"
    using False own_copy_ok(2) [OF assms] by (simp add: ev_add_def Let_def)
  then show ?thesis using write_ok [OF assms d] n by (simp add: Let_def)
qed

lemma ev_remove_ok:
  assumes "ev_ok e"
  shows "ev_ok (ev_remove fn scope e) \<and> keeps_arrays e (ev_remove fn scope e) \<and>
    the_listeners (ev_remove fn scope e) = filter (\<lambda>l. key l \<noteq> (fn, scope)) (the_listeners e)"
proof -
  have d: "distinct (map key (the_listeners e))" using assms by (simp add: ev_ok_def)
  show ?thesis
  proof (cases "findListener fn scope e")
    case None
    then have "(fn, scope) \<notin> set (map key (the_listeners e))"
      using find_from_None [of fn scope "the_listeners e"] by (simp add: findListener_def)
    then have "filter (\<lambda>l. key l \<noteq> (fn, scope)) (the_listeners e) = the_listeners e" by (force simp: filter_id_conv)
    then show ?thesis using None assms by (simp add: ev_remove_def)
  next
    case (Some j)
    then have j: "j < length (the_listeners e)" "key (the_listeners e ! j) = (fn, scope)"
      using find_from_iff [OF d order.refl, of fn scope j] by (simp_all add: findListener_def)
    have f: "take j (the_listeners e) @ drop (Suc j) (the_listeners e) = filter (\<lambda>l. key l \<noteq> (fn, scope)) (the_listeners e)"
      using splice_filter [OF d j(1)] j(2) by simp
    have "ev_remove fn scope e = (let e1 = if firing e then own_copy e else e in
        e1\<lparr>arrays := (arrays e1)[me_listeners e1 := filter (\<lambda>l. key l \<noteq> (fn, scope)) (the_listeners e)]\<rparr>)"
      using Some own_copy_ok(2) [OF assms] f by (simp add: ev_remove_def Let_def)
    moreover have "distinct (map key (filter (\<lambda>l. key l \<noteq> (fn, scope)) (the_listeners e)))"
      using d by (simp add: distinct_map_filter)
    ultimately show ?thesis using write_ok [OF assms] by (simp add: Let_def)
  qed
qed

lemma clear_from_ok:
  assumes "ev_ok e" "l < length (arrays e)" "i \<le> length ls" "distinct (map key ls)"
    "the_listeners e = take i ls" "\<forall>j < i. arrays e ! l ! j = ls ! j" "firing e \<or> l = me_listeners e"
  shows "ev_ok (clear_from l i e) \<and> keeps_arrays e (clear_from l i e) \<and> the_listeners (clear_from l i e) = []"
  using assms
proof (induction i arbitrary: e)
  case (Suc i)
  let ?x = "ls ! i"
  let ?e = "ev_remove (l_fn ?x) (l_scope ?x) e"
  have x: "arrays e ! l ! i = ?x" using Suc.prems(6) by simp
  have i: "i < length ls" using Suc.prems(3) by simp
  have tk: "take (Suc i) ls = take i ls @ ?x # []" by (rule take_Suc_conv_app_nth [OF i])
  have "distinct (map key (take i ls @ ?x # []))" unfolding tk [symmetric] take_map [symmetric] using Suc.prems(4) by simp
  then have "filter (\<lambda>y. key y \<noteq> key ?x) (take (Suc i) ls) = take i ls"
    using filter_around [of key "take i ls" ?x "[]"] tk by simp
  then have r: "ev_ok ?e" "keeps_arrays e ?e" "the_listeners ?e = take i ls"
    using ev_remove_ok [OF Suc.prems(1), of "l_fn ?x" "l_scope ?x"] Suc.prems(5) by simp_all
  have l: "l < length (arrays ?e)" using r(2) Suc.prems(2) by (simp add: keeps_arrays_def)
  have a: "\<forall>j < i. arrays ?e ! l ! j = ls ! j" "firing ?e \<or> l = me_listeners ?e"
  proof -
    show "firing ?e \<or> l = me_listeners ?e"
      using Suc.prems(7) r(2) by (cases "firing e") (auto simp: keeps_arrays_def ev_remove_def Let_def split: option.split)
    show "\<forall>j < i. arrays ?e ! l ! j = ls ! j"
    proof (cases "firing e")
      case True
      then show ?thesis using r(2) Suc.prems(2,6) by (simp add: keeps_arrays_def)
    next
      case False
      then have "l = me_listeners ?e" using \<open>firing ?e \<or> l = me_listeners ?e\<close> r(2) by (simp add: keeps_arrays_def)
      then show ?thesis using r(3) by simp
    qed
  qed
  have "ev_ok (clear_from l i ?e) \<and> keeps_arrays ?e (clear_from l i ?e) \<and> the_listeners (clear_from l i ?e) = []"
    by (rule Suc.IH [OF r(1) l _ Suc.prems(4) r(3) a]) (use i in simp)
  then show ?case using keeps_trans [OF r(2)] x by simp
qed (simp add: ev_ok_def)

lemma clear_ok:
  assumes "ev_ok e"
  shows "ev_ok (clearListeners e) \<and> keeps_arrays e (clearListeners e) \<and> the_listeners (clearListeners e) = []"
  unfolding clearListeners_def
  by (rule clear_from_ok [where ls = "the_listeners e"]) (use assms in \<open>auto simp: ev_ok_def\<close>)

section \<open>Delivery to a list\<close>

text \<open>What an observable is to those who use it: the listeners of each event, in order.\<close>

type_synonym hearers = "string \<Rightarrow> listener list"

definition heard :: "observable \<Rightarrow> hearers" where
  "heard o1 nm = (case map_of (events o1) nm of Some (Event e) \<Rightarrow> the_listeners e | _ \<Rightarrow> [])"

definition obs_ok :: "observable \<Rightarrow> bool" where
  "obs_ok o1 \<longleftrightarrow> (\<forall>nm e. map_of (events o1) nm = Some (Event e) \<longrightarrow> ev_ok e)"

fun spec_act :: "obs_act \<Rightarrow> hearers \<Rightarrow> hearers" where
  "spec_act (Listen nm fn scope single) h =
     (if (fn, scope) \<in> set (map key (h (to_lower nm))) then h
      else h(to_lower nm := h (to_lower nm) @ [\<lparr>l_fn = fn, l_scope = scope, l_single = single\<rparr>]))"
| "spec_act (Unlisten nm fn scope) h = h(to_lower nm := filter (\<lambda>l. key l \<noteq> (fn, scope)) (h (to_lower nm)))"
| "spec_act Purge h = (\<lambda>nm. [])"
| "spec_act a h = h"

text \<open>An event given to a list of listeners: each is called once, in order, until one returns
  \<open>false\<close>; one that listens once is forgotten before it is called.\<close>

fun deliver :: "body \<Rightarrow> string \<Rightarrow> jsval list \<Rightarrow> listener list \<Rightarrow> hearers \<Rightarrow> bool \<times> listener list \<times> hearers" where
  "deliver body nm args [] h = (True, [], h)"
| "deliver body nm args (l # ls) h =
     (let h = (if l_single l then h(nm := filter (\<lambda>x. key x \<noteq> key l) (h nm)) else h);
          h = fold spec_act (fst (body (l_fn l) (l_scope l) args)) h
      in if snd (body (l_fn l) (l_scope l) args)
         then (let (b, cs, h) = deliver body nm args ls h in (b, l # cs, h))
         else (False, [l], h))"

lemma at_event_map:
  "map_of (events (at_event nm f o1)) n =
     (if n = nm then (case map_of (events o1) nm of Some (Event e) \<Rightarrow> Some (Event (f e)) | x \<Rightarrow> x) else map_of (events o1) n)"
  by (auto simp: at_event_def AList.update_conv' split: option.split slot.split)

lemma at_event_heard:
  "heard (at_event nm f o1) = (heard o1)(nm := (case map_of (events o1) nm of Some (Event e) \<Rightarrow> the_listeners (f e) | _ \<Rightarrow> []))"
  by (auto simp: heard_def at_event_map fun_eq_iff split: option.split slot.split)

lemma at_event_frame [simp]:
  "eventsSuspended (at_event nm f o1) = eventsSuspended o1" "called (at_event nm f o1) = called o1"
  "eventQueue (at_event nm f o1) = eventQueue o1"
  by (simp_all add: at_event_def split: option.split slot.split)

text \<open>A \<open>fire\<close> of \<open>nm\<close> that reads the array \<open>ref\<close> still finds its listeners there.\<close>

definition still :: "nat \<Rightarrow> listener list \<Rightarrow> string \<Rightarrow> observable \<Rightarrow> bool" where
  "still ref ls nm o1 \<longleftrightarrow> (\<exists>e. map_of (events o1) nm = Some (Event e) \<and> firing e \<and> ref < length (arrays e) \<and> arrays e ! ref = ls)"

lemma still_keeps:
  assumes "still ref ls nm o1"
    and "\<And>e. map_of (events o1) nm = Some (Event e) \<Longrightarrow> \<exists>e'. map_of (events o2) nm = Some (Event e') \<and> keeps_arrays e e'"
  shows "still ref ls nm o2"
  using assms by (fastforce simp: still_def keeps_arrays_def)

lemma remove_listener_ok:
  assumes "obs_ok o1"
  shows "obs_ok (at_event nm (ev_remove fn scope) o1)"
    "heard (at_event nm (ev_remove fn scope) o1) = (heard o1)(nm := filter (\<lambda>l. key l \<noteq> (fn, scope)) (heard o1 nm))"
    "still ref ls n o1 \<Longrightarrow> still ref ls n (at_event nm (ev_remove fn scope) o1)"
proof -
  have e: "ev_ok e" if "map_of (events o1) nm = Some (Event e)" for e using assms that by (simp add: obs_ok_def)
  show "obs_ok (at_event nm (ev_remove fn scope) o1)" using assms e ev_remove_ok
    by (auto simp: obs_ok_def at_event_map split: option.splits slot.splits if_splits)
  show "heard (at_event nm (ev_remove fn scope) o1) = (heard o1)(nm := filter (\<lambda>l. key l \<noteq> (fn, scope)) (heard o1 nm))"
    using e ev_remove_ok by (auto simp: at_event_heard heard_def fun_eq_iff split: option.split slot.split)
  show "still ref ls n o1 \<Longrightarrow> still ref ls n (at_event nm (ev_remove fn scope) o1)"
    by (erule still_keeps) (use e ev_remove_ok in \<open>auto simp: at_event_map\<close>)
qed

lemma add_listener_ok:
  assumes "obs_ok o1"
  shows "obs_ok (addListener nm fn scope single o1)"
    "heard (addListener nm fn scope single o1) = spec_act (Listen nm fn scope single) (heard o1)"
    "still ref ls n o1 \<Longrightarrow> still ref ls n (addListener nm fn scope single o1)"
proof -
  let ?n = "to_lower nm"
  define ce where "ce = (case map_of (events o1) ?n of Some (Event e) \<Rightarrow> e | _ \<Rightarrow> event_new)"
  have ce: "ev_ok ce" "the_listeners ce = heard o1 ?n"
    using assms by (auto simp: ce_def obs_ok_def heard_def ev_ok_def event_new_def split: option.split slot.split)
  have m: "map_of (events (addListener nm fn scope single o1)) n' =
      (if n' = ?n then Some (Event (ev_add fn scope single ce)) else map_of (events o1) n')" for n'
    by (simp add: addListener_def AList.update_conv' Let_def ce_def)
  note a = ev_add_ok [OF ce(1), of fn scope single]
  show "obs_ok (addListener nm fn scope single o1)" using assms a by (auto simp: obs_ok_def m split: if_splits)
  have "heard (addListener nm fn scope single o1) = (heard o1)(?n := the_listeners (ev_add fn scope single ce))"
    by (auto simp: heard_def m fun_eq_iff)
  also have "\<dots> = spec_act (Listen nm fn scope single) (heard o1)" using a ce(2) by (simp add: fun_upd_idem)
  finally show "heard (addListener nm fn scope single o1) = spec_act (Listen nm fn scope single) (heard o1)" .
  show "still ref ls n o1 \<Longrightarrow> still ref ls n (addListener nm fn scope single o1)"
    by (erule still_keeps) (use a in \<open>auto simp: m ce_def\<close>)
qed

lemma purge_ok:
  assumes "obs_ok o1"
  shows "obs_ok (purgeListeners o1)" "heard (purgeListeners o1) = (\<lambda>nm. [])"
    "still ref ls n o1 \<Longrightarrow> still ref ls n (purgeListeners o1)"
proof -
  have m: "map_of (events (purgeListeners o1)) nm =
      (case map_of (events o1) nm of Some (Event e) \<Rightarrow> Some (Event (clearListeners e)) | x \<Rightarrow> x)" for nm
    by (simp add: purgeListeners_def map_of_map split: option.split slot.split)
  have c: "ev_ok (clearListeners e) \<and> keeps_arrays e (clearListeners e) \<and> the_listeners (clearListeners e) = []"
    if "map_of (events o1) nm = Some (Event e)" for nm e
    by (rule clear_ok) (use assms that in \<open>simp add: obs_ok_def\<close>)
  show "obs_ok (purgeListeners o1)" using c by (auto simp: obs_ok_def m split: option.splits slot.splits)
  show "heard (purgeListeners o1) = (\<lambda>nm. [])" using c by (auto simp: heard_def m fun_eq_iff split: option.split slot.split)
  show "still ref ls n o1 \<Longrightarrow> still ref ls n (purgeListeners o1)" by (erule still_keeps) (use c in \<open>auto simp: m\<close>)
qed

fun calm_act :: "obs_act \<Rightarrow> bool" where
  "calm_act (Fire nm args) = False"
| "calm_act Resume = False"
| "calm_act _ = True"

lemma quiet_act_ok:
  assumes "obs_ok o1" "calm_act a"
  shows "obs_ok (quiet_act a o1)" "heard (quiet_act a o1) = spec_act a (heard o1)"
    "still ref ls n o1 \<Longrightarrow> still ref ls n (quiet_act a o1)" "called (quiet_act a o1) = called o1"
proof -
  have e: "events (suspendEvents q o1) = events o1" "called (suspendEvents q o1) = called o1" for q
    by (simp_all add: suspendEvents_def)
  have "obs_ok (quiet_act a o1) \<and> heard (quiet_act a o1) = spec_act a (heard o1) \<and>
      (still ref ls n o1 \<longrightarrow> still ref ls n (quiet_act a o1)) \<and> called (quiet_act a o1) = called o1"
  proof (cases a)
    case (Listen nm fn scope single)
    then show ?thesis using add_listener_ok [OF assms(1), where fn = fn]
      by (simp add: addListener_def Let_def)
  next
    case (Unlisten nm fn scope)
    then show ?thesis using remove_listener_ok [OF assms(1), where fn = fn]
      by (simp add: removeListener_def)
  next
    case (Suspend q)
    then show ?thesis using assms(1) by (simp add: obs_ok_def still_def heard_def e fun_eq_iff)
  next
    case Purge
    then show ?thesis using purge_ok [OF assms(1)] by (simp add: purgeListeners_def)
  qed (use assms(2) in simp_all)
  then show "obs_ok (quiet_act a o1)" "heard (quiet_act a o1) = spec_act a (heard o1)"
    "still ref ls n o1 \<Longrightarrow> still ref ls n (quiet_act a o1)" "called (quiet_act a o1) = called o1" by simp_all
qed

lemma do_acts_calm:
  "list_all calm_act acts \<Longrightarrow> do_acts body fuel acts o1 = Some (fold quiet_act acts o1)"
proof (induction acts arbitrary: o1)
  case (Cons a acts)
  then show ?case by (cases a) simp_all
qed simp

lemma fold_calm:
  "obs_ok o1 \<Longrightarrow> list_all calm_act acts \<Longrightarrow>
   obs_ok (fold quiet_act acts o1) \<and> heard (fold quiet_act acts o1) = fold spec_act acts (heard o1) \<and>
   (still ref ls n o1 \<longrightarrow> still ref ls n (fold quiet_act acts o1)) \<and> called (fold quiet_act acts o1) = called o1"
proof (induction acts arbitrary: o1)
  case (Cons a acts)
  then have "calm_act a" by simp
  note q = quiet_act_ok [OF Cons.prems(1) this]
  show ?case using Cons.IH [OF q(1)] Cons.prems(2) q by simp
qed simp

definition calm :: "body \<Rightarrow> bool" where
  "calm body \<longleftrightarrow> (\<forall>fn scope args. list_all calm_act (fst (body fn scope args)))"

lemma done_firing:
  assumes "obs_ok o1"
  shows "obs_ok (at_event nm (\<lambda>e. e\<lparr>firing := x\<rparr>) o1)" "heard (at_event nm (\<lambda>e. e\<lparr>firing := x\<rparr>) o1) = heard o1"
  using assms
  by (auto simp: obs_ok_def at_event_map ev_ok_def split: option.splits slot.splits if_splits)
    (auto simp: at_event_heard heard_def fun_eq_iff split: option.split slot.split)

lemma fire_from_delivers:
  assumes "calm body" "i \<le> length ls" "obs_ok o1" "still ref ls nm o1"
    and "deliver body nm args (drop i ls) (heard o1) = (b, cs, h)"
  shows "\<exists>o2. fire_from body (Suc k) nm ref [i..<length ls] args o1 = Some (b, o2) \<and> obs_ok o2 \<and> heard o2 = h \<and>
    called o2 = called o1 @ map (\<lambda>l. (nm, l_fn l, l_scope l, args)) cs"
  using assms(2-5)
proof (induction "length ls - i" arbitrary: i o1 b cs h)
  case 0
  then show ?case using done_firing [of o1 nm False] by simp
next
  case (Suc m)
  then have i: "i < length ls" by simp
  let ?l = "ls ! i"
  have ixs: "[i..<length ls] = i # [Suc i..<length ls]" by (rule upt_conv_Cons [OF i])
  obtain e where e: "map_of (events o1) nm = Some (Event e)" "arrays e ! ref = ls" using Suc.prems(3) by (auto simp: still_def)
  define o2 where "o2 = (if l_single ?l then at_event nm (ev_remove (l_fn ?l) (l_scope ?l)) o1 else o1)"
  define o3 where "o3 = o2\<lparr>called := called o2 @ [(nm, l_fn ?l, l_scope ?l, args)]\<rparr>"
  let ?acts = "fst (body (l_fn ?l) (l_scope ?l) args)"
  have c: "list_all calm_act ?acts" using assms(1) by (simp add: calm_def)
  define h2 where "h2 = (if l_single ?l then (heard o1)(nm := filter (\<lambda>x. key x \<noteq> key ?l) (heard o1 nm)) else heard o1)"
  have "obs_ok o2 \<and> heard o2 = h2 \<and> still ref ls nm o2 \<and> called o2 = called o1"
    using remove_listener_ok [OF Suc.prems(2)] Suc.prems(2,3) by (simp add: o2_def h2_def)
  then have o3: "obs_ok o3" "heard o3 = h2" "still ref ls nm o3" "called o3 = called o1 @ [(nm, l_fn ?l, l_scope ?l, args)]"
    by (simp_all add: o3_def obs_ok_def heard_def [abs_def] still_def)
  define o4 where "o4 = fold quiet_act ?acts o3"
  have o4: "obs_ok o4" "heard o4 = fold spec_act ?acts h2" "still ref ls nm o4" "called o4 = called o3"
    using fold_calm [OF o3(1) c, of ref ls nm] o3 by (simp_all add: o4_def)
  have f: "fire_from body (Suc k) nm ref [i..<length ls] args o1 =
      (if snd (body (l_fn ?l) (l_scope ?l) args) then fire_from body (Suc k) nm ref [Suc i..<length ls] args o4
       else Some (False, at_event nm (\<lambda>e. e\<lparr>firing := False\<rparr>) o4))"
    unfolding ixs using i by (simp add: e Let_def do_acts_calm [OF c] o4_def o3_def o2_def)
  have d: "drop i ls = ?l # drop (Suc i) ls" using i by (simp add: Cons_nth_drop_Suc)
  show ?case
  proof (cases "snd (body (l_fn ?l) (l_scope ?l) args)")
    case True
    obtain b' cs' h' where r: "deliver body nm args (drop (Suc i) ls) (heard o4) = (b', cs', h')" by (metis prod_cases3)
    have "b = b'" "cs = ?l # cs'" "h = h'"
      using Suc.prems(4) True r o4(2) unfolding d by (auto simp: h2_def Let_def)
    moreover have "\<exists>o2. fire_from body (Suc k) nm ref [Suc i..<length ls] args o4 = Some (b', o2) \<and> obs_ok o2 \<and> heard o2 = h' \<and>
        called o2 = called o4 @ map (\<lambda>l. (nm, l_fn l, l_scope l, args)) cs'"
      using Suc.hyps(2) i by (intro Suc.hyps(1) [OF _ _ o4(1,3) r]) simp_all
    ultimately show ?thesis using f True o3(4) o4(4) by auto
  next
    case False
    then have "b = False" "cs = [?l]" "h = heard o4" using Suc.prems(4) o4(2) unfolding d by (auto simp: h2_def Let_def)
    then show ?thesis using f False o3(4) o4(4) done_firing [OF o4(1), of nm False] by auto
  qed
qed

section \<open>Whatever the functions do\<close>

lemma quiet_ok: "obs_ok o1 \<Longrightarrow> obs_ok (quiet_act a o1)"
proof (cases "calm_act a")
  case False
  moreover assume "obs_ok o1"
  ultimately show ?thesis by (cases a) (simp_all add: obs_ok_def)
qed (rule quiet_act_ok)

lemma quiet_cases:
  assumes "obs_ok o1"
  shows "obs_ok (addListener nm fn scope single o1)" "obs_ok (removeListener nm fn scope o1)"
    "obs_ok (suspendEvents q o1)" "obs_ok (purgeListeners o1)"
  using quiet_ok [OF assms, of "Listen nm fn scope single"] quiet_ok [OF assms, of "Unlisten nm fn scope"]
    quiet_ok [OF assms, of "Suspend q"] quiet_ok [OF assms, of Purge] by simp_all

lemma acts_ok:
  "obs_ok o1 \<longrightarrow> pred_option obs_ok (do_acts body fuel acts o1)"
  "obs_ok o1 \<longrightarrow> pred_option (\<lambda>p. obs_ok (snd p)) (do_act body fuel a o1)"
  "obs_ok o1 \<longrightarrow> pred_option obs_ok (fire_all body fuel q o1)"
  "obs_ok o1 \<longrightarrow> pred_option (\<lambda>p. obs_ok (snd p)) (fireEvent body fuel nm args o1)"
  "obs_ok o1 \<longrightarrow> pred_option (\<lambda>p. obs_ok (snd p)) (fire_from body fuel nm ref ixs args o1)"
proof (induction body fuel acts o1 and body fuel a o1 and body fuel q o1 and body fuel nm args o1 and body fuel nm ref ixs args o1
    rule: do_acts_do_act_fire_all_fireEvent_fire_from.induct)
  case (4 body fuel o1)
  then show ?case using quiet_ok [of o1 Resume] by (auto split: option.splits)
next
  case (8 body fuel nm args o1)
  have "obs_ok o1 \<Longrightarrow> obs_ok (o1\<lparr>eventQueue := x\<rparr>)" for x by (simp add: obs_ok_def)
  moreover have "obs_ok o1 \<Longrightarrow> pred_option (\<lambda>p. obs_ok (snd p)) (fire_from body fuel (to_lower nm) (me_listeners e)
        [0..<length (the_listeners e)] args (at_event (to_lower nm) (\<lambda>e. e\<lparr>firing := True\<rparr>) o1))"
    if "\<not> eventsSuspended o1" "map_of (events o1) (to_lower nm) = Some (Event e)" "the_listeners e \<noteq> []" for e
    using "8.IH" [OF that(1,2) refl refl that(3)] done_firing(1) by blast
  ultimately show ?case using done_firing(1) by (auto simp: Let_def split: option.split slot.split)
next
  case (9 body fuel nm ref args o1)
  show ?case using done_firing(1) by simp
next
  case (11 body fuel nm ref i ixs args o1)
  show ?case
  proof (intro impI)
    assume ok: "obs_ok o1"
    show "pred_option (\<lambda>p. obs_ok (snd p)) (fire_from body (Suc fuel) nm ref (i # ixs) args o1)"
    proof (cases "\<exists>e. map_of (events o1) nm = Some (Event e)")
      case False
      then show ?thesis using ok by (auto split: option.split slot.split)
    next
      case True
      then obtain e where e: "map_of (events o1) nm = Some (Event e)" by blast
      show ?thesis
      proof (cases "length (arrays e ! ref) \<le> i")
        case True
        then show ?thesis using "11.IH"(1) [OF e refl True] ok e by simp
      next
        case False
        define l where "l = arrays e ! ref ! i"
        define o2 where "o2 = (if l_single l then at_event nm (ev_remove (l_fn l) (l_scope l)) o1 else o1)"
        define o3 where "o3 = o2\<lparr>called := called o2 @ [(nm, l_fn l, l_scope l, args)]\<rparr>"
        have o3: "obs_ok o3" using remove_listener_ok(1) ok by (simp add: o3_def o2_def obs_ok_def)
        note ih = "11.IH"(2,3) [OF e refl False l_def o2_def o3_def]
        have f: "fire_from body (Suc fuel) nm ref (i # ixs) args o1 =
            (case do_acts body fuel (fst (body (l_fn l) (l_scope l) args)) o3 of None \<Rightarrow> None
             | Some o1 \<Rightarrow> if snd (body (l_fn l) (l_scope l) args) then fire_from body (Suc fuel) nm ref ixs args o1
                 else Some (False, at_event nm (\<lambda>e. e\<lparr>firing := False\<rparr>) o1))"
          unfolding o3_def o2_def l_def using e False by (simp add: Let_def)
        show ?thesis
        proof (cases "do_acts body fuel (fst (body (l_fn l) (l_scope l) args)) o3")
          case (Some o4)
          then have "obs_ok o4" using ih(1) o3 by simp
          then show ?thesis using f Some ih(2) [OF Some] done_firing(1) by simp
        qed (use f in simp)
      qed
    qed
  qed
qed (auto simp: quiet_cases split: option.splits)

definition heeded :: "body \<Rightarrow> jsval list \<Rightarrow> listener list \<Rightarrow> listener list" where
  "heeded body args ls =
     (let goes_on = (\<lambda>l. snd (body (l_fn l) (l_scope l) args))
      in takeWhile goes_on ls @ take 1 (dropWhile goes_on ls))"

lemma deliver_heeded:
  "fst (deliver body nm args ls h) = list_all (\<lambda>l. snd (body (l_fn l) (l_scope l) args)) ls"
  "fst (snd (deliver body nm args ls h)) = heeded body args ls"
proof (induction ls arbitrary: h)
  case (Cons l ls)
  { case 1 show ?case using Cons(1) by (simp add: Let_def case_prod_beta) }
  { case 2 show ?case using Cons(2) by (simp add: Let_def case_prod_beta heeded_def) }
qed (simp_all add: heeded_def)

lemma fire_event_ok:
  assumes "obs_ok o1" "\<not> eventsSuspended o1" "calm body"
  shows "\<exists>o2. fireEvent body (Suc k) nm args o1 =
      Some (fst (deliver body (to_lower nm) args (heard o1 (to_lower nm)) (heard o1)), o2) \<and>
    heard o2 = snd (snd (deliver body (to_lower nm) args (heard o1 (to_lower nm)) (heard o1))) \<and>
    called o2 = called o1 @ map (\<lambda>l. (to_lower nm, l_fn l, l_scope l, args))
      (fst (snd (deliver body (to_lower nm) args (heard o1 (to_lower nm)) (heard o1))))"
proof (cases "\<exists>e. map_of (events o1) (to_lower nm) = Some (Event e) \<and> the_listeners e \<noteq> []")
  case False
  then have h: "heard o1 (to_lower nm) = []" by (auto simp: heard_def split: option.split slot.split)
  then show ?thesis using assms False done_firing(2) [OF assms(1)]
    by (auto simp: Let_def split: option.split slot.split)
next
  case True
  then obtain e where e: "map_of (events o1) (to_lower nm) = Some (Event e)" "the_listeners e \<noteq> []" by blast
  let ?o = "at_event (to_lower nm) (\<lambda>e. e\<lparr>firing := True\<rparr>) o1"
  have ls: "heard o1 (to_lower nm) = the_listeners e" using e by (simp add: heard_def)
  have "ev_ok e" using assms(1) e by (simp add: obs_ok_def)
  then have st: "still (me_listeners e) (the_listeners e) (to_lower nm) ?o"
    using e by (simp add: still_def at_event_map ev_ok_def)
  obtain b cs h where d: "deliver body (to_lower nm) args (drop 0 (the_listeners e)) (heard ?o) = (b, cs, h)" by (metis prod_cases3)
  then have d': "deliver body (to_lower nm) args (the_listeners e) (heard o1) = (b, cs, h)"
    using done_firing(2) [OF assms(1)] by simp
  show ?thesis
    using fire_from_delivers [OF assms(3) _ done_firing(1) [OF assms(1)] st d, of k] e assms(2) d' unfolding ls
    by (auto simp: Let_def)
qed

text \<open>C19: Listening to an event and being called: while no listener fires events itself, every function that
  listened when the event was fired is called exactly once, in the order they began to listen, up to the
  first that returns \<open>false\<close>, whatever they add, remove or purge meanwhile; and the listeners are then
  those that a plain list of them would have kept.\<close>

theorem fire_delivers:
  assumes "do_acts body0 m acts observable_new = Some o1" "\<not> eventsSuspended o1" "calm body" "0 < k"
  shows "\<exists>o2. fireEvent body k nm args o1 =
      Some (list_all (\<lambda>l. snd (body (l_fn l) (l_scope l) args)) (heard o1 (to_lower nm)), o2) \<and>
    called o2 = called o1 @ map (\<lambda>l. (to_lower nm, l_fn l, l_scope l, args)) (heeded body args (heard o1 (to_lower nm))) \<and>
    heard o2 = snd (snd (deliver body (to_lower nm) args (heard o1 (to_lower nm)) (heard o1)))"
proof -
  have "obs_ok observable_new" by (simp add: obs_ok_def observable_new_def)
  then have "obs_ok o1" using acts_ok(1) [of observable_new body0 m acts] assms(1) by simp
  then show ?thesis using fire_event_ok [of o1 body "k - 1" nm args] assms(2-4)
    by (auto simp: deliver_heeded simp del: fireEvent.simps)
qed

text \<open>Two functions that listen once, the first of which removes the second and adds a third.\<close>

lemma fire_delivers_witness:
  "\<exists>o1 o2. do_acts (\<lambda>f s as. ([], True)) 1 [Listen ''Saved'' 1 0 True, Listen ''saved'' 2 0 False] observable_new = Some o1 \<and>
    fireEvent (\<lambda>f s as. (if f = 1 then [Unlisten ''saved'' 2 0, Listen ''saved'' 3 0 False] else [], True)) 1 ''saved'' [] o1 =
      Some (True, o2) \<and>
    called o2 = [(''saved'', 1, 0, []), (''saved'', 2, 0, [])] \<and> map l_fn (heard o2 ''saved'') = [3]"
proof -
  let ?b = "\<lambda>(f :: nat) (s :: nat) (as :: jsval list). (if f = 1 then [Unlisten ''saved'' 2 0, Listen ''saved'' 3 0 False] else [], True)"
  define o1 where "o1 = addListener ''saved'' 2 0 False (addListener ''Saved'' 1 0 True observable_new)"
  have r: "do_acts (\<lambda>f s as. ([], True)) 1 [Listen ''Saved'' 1 0 True, Listen ''saved'' 2 0 False] observable_new = Some o1"
    by (simp add: o1_def)
  have l: "to_lower ''saved'' = ''saved''" "to_lower ''Saved'' = ''saved''" by code_simp+
  have o1: "heard o1 ''saved'' = [\<lparr>l_fn = 1, l_scope = 0, l_single = True\<rparr>, \<lparr>l_fn = 2, l_scope = 0, l_single = False\<rparr>]"
    "\<not> eventsSuspended o1" "called o1 = []"
    by (simp_all add: o1_def addListener_def Let_def observable_new_def heard_def l ev_add_def isListening_def
        findListener_def event_new_def)
  have c: "calm ?b" by (simp add: calm_def)
  show ?thesis using fire_delivers [OF r o1(2) c, of 1 "''saved''" "[]"] r o1
    by (auto simp: l heeded_def Let_def simp del: fireEvent.simps)
qed

text \<open>A listener that fires the event again undoes the care taken of the list: the inner firing ends by
  saying that the event is not being fired, so that a function which then stops listening is cut out of the
  very array the outer firing is going through, and the next one, which listened before and after, is
  never told of the outer event.\<close>

definition nesting :: body where
  "nesting fn scope args =
     (if fn = 1 \<and> args = [Null] then [Fire ''e'' []]
      else if fn = 2 \<and> args = [Null] then [Unlisten ''e'' 2 0] else [], True)"

theorem nested_fire_skips:
  "\<exists>o1 o2. do_acts nesting 1 [Listen ''e'' 1 0 False, Listen ''e'' 2 0 False, Listen ''e'' 3 0 False] observable_new = Some o1 \<and>
     fireEvent nesting 2 ''e'' [Null] o1 = Some (True, o2) \<and>
     map l_fn (heard o1 ''e'') = [1, 2, 3] \<and> map l_fn (heard o2 ''e'') = [1, 3] \<and>
     called o2 = [(''e'', 1, 0, [Null]), (''e'', 1, 0, []), (''e'', 2, 0, []), (''e'', 3, 0, []), (''e'', 2, 0, [Null])]"
proof -
  let ?e = "\<lambda>ls b. \<lparr>arrays = [ls], me_listeners = 0, firing = b\<rparr>"
  let ?l = "\<lambda>i. \<lparr>l_fn = i, l_scope = 0, l_single = False\<rparr>"
  let ?o = "\<lambda>ls b cs. \<lparr>events = [(''e'', Event (?e ls b))], eventsSuspended = False, eventQueue = None, called = cs\<rparr>"
  have l: "to_lower ''e'' = ''e''" by code_simp
  have a: "do_acts nesting 1 [Listen ''e'' 1 0 False, Listen ''e'' 2 0 False, Listen ''e'' 3 0 False] observable_new =
      Some (?o [?l 1, ?l 2, ?l 3] False [])"
    by (simp add: addListener_def Let_def observable_new_def l ev_add_def isListening_def findListener_def event_new_def)
  have u: "[0..<3] = [0, 1, 2 :: nat]" by code_simp
  have f: "fireEvent nesting 2 ''e'' [Null] (?o [?l 1, ?l 2, ?l 3] False []) = Some (True, ?o [?l 1, ?l 3] False
      [(''e'', 1, 0, [Null]), (''e'', 1, 0, []), (''e'', 2, 0, []), (''e'', 3, 0, []), (''e'', 2, 0, [Null])])"
    by (simp add: Let_def l u numeral_2_eq_2 at_event_def nesting_def removeListener_def ev_remove_def findListener_def numeral_3_eq_3)
  show ?thesis using a f by (intro exI conjI) (assumption+, simp_all add: heard_def)
qed

end
