(* ===== verification/EventsManager.thy ===== *)
theory EventsManager
  imports Observable Formatters
begin

text \<open>
  \<open>deluge-all/EventsManager.js\<close>: the events of the interface, which are those the components fire and
  those of the daemon, asked for by a request that is sent again whenever it is answered.  The observable
  it extends is \<open>Observable\<close>'s; the bodies of the listeners and the depth firings may be nested are
  parameters, as there.
\<close>

text \<open>\<open>em_client\<close>: \<open>deluge.client\<close> is there; \<open>em_registered\<close>: the names \<open>register_event_listener\<close> was called
  with; \<open>em_gets\<close>: the \<open>get_events\<close> requests that are out; \<open>em_fired\<close>: the daemon's events that were fired.\<close>

record events_manager =
  em_obs :: observable
  toRegister :: "string list"
  em_client :: bool
  em_registered :: "string list"
  em_running :: bool
  em_errorCount :: nat
  em_gets :: nat
  em_fired :: "(string \<times> jsval list) list"

text \<open>\<open>/[A-Z]/\<close> on the first letter.\<close>

definition capital :: "string \<Rightarrow> bool" where
  "capital s \<longleftrightarrow> s \<noteq> [] \<and> CHR ''A'' \<le> hd s \<and> hd s \<le> CHR ''Z''"

definition em_addListener :: "string \<Rightarrow> nat \<Rightarrow> nat \<Rightarrow> bool \<Rightarrow> events_manager \<Rightarrow> events_manager" where
  "em_addListener eventName fn scope single m =
     (let m = m\<lparr>em_obs := addEvents [eventName] (em_obs m)\<rparr>;
          m = (if capital eventName then
                 (if \<not> em_client m then m\<lparr>toRegister := toRegister m @ [eventName]\<rparr>
                  else m\<lparr>em_registered := em_registered m @ [eventName]\<rparr>)
               else m)
      in m\<lparr>em_obs := addListener eventName fn scope single (em_obs m)\<rparr>)"

text \<open>The function \<open>onLogin\<close> and the manager as its scope are the numbers 0.\<close>

definition events_manager_new :: events_manager where
  "events_manager_new =
     em_addListener ''login'' 0 0 False
       \<lparr>em_obs = observable_new, toRegister = [], em_client = False, em_registered = [], em_running = False, em_errorCount = 0,
        em_gets = 0, em_fired = []\<rparr>"

definition getEvents :: "events_manager \<Rightarrow> events_manager" where
  "getEvents m = m\<lparr>em_gets := Suc (em_gets m)\<rparr>"

definition em_start :: "events_manager \<Rightarrow> events_manager" where
  "em_start m =
     getEvents (m\<lparr>em_registered := em_registered m @ toRegister m, em_running := True, em_errorCount := 0\<rparr>)"

definition em_stop :: "events_manager \<Rightarrow> events_manager" where
  "em_stop m = m\<lparr>em_running := False\<rparr>"

definition onLogin :: "events_manager \<Rightarrow> events_manager" where
  "onLogin m = em_start m"

text \<open>\<open>event[0]\<close> and \<open>event[1]\<close>; \<open>None\<close> where \<open>splice\<close> or \<open>fireEvent\<close> would raise on them.\<close>

definition event_parts :: "jsval \<Rightarrow> (string \<times> jsval list) option" where
  "event_parts v =
     (case v of
        Arr _ vs \<Rightarrow>
          if length vs < 2 then None
          else (case (vs ! 0, vs ! 1) of (Str nm, Arr _ args) \<Rightarrow> Some (nm, args) | _ \<Rightarrow> None)
      | _ \<Rightarrow> None)"

text \<open>The loop of \<open>onGetEventsSuccess\<close>; whether it got to the end.\<close>

fun fire_events :: "body \<Rightarrow> nat \<Rightarrow> jsval list \<Rightarrow> events_manager \<Rightarrow> bool \<times> events_manager" where
  "fire_events body fuel [] m = (True, m)"
| "fire_events body fuel (v # vs) m =
     (case event_parts v of
        None \<Rightarrow> (False, m)
      | Some (nm, args) \<Rightarrow>
          (case fireEvent body fuel nm args (em_obs m) of
             None \<Rightarrow> (False, m)
           | Some (_, o1) \<Rightarrow> fire_events body fuel vs (m\<lparr>em_obs := o1, em_fired := em_fired m @ [(nm, args)]\<rparr>)))"

definition onGetEventsSuccess :: "body \<Rightarrow> nat \<Rightarrow> jsval \<Rightarrow> events_manager \<Rightarrow> jserr option \<times> events_manager" where
  "onGetEventsSuccess body fuel evs m =
     (if \<not> em_running m then (None, m)
      else case (if truthy evs then fire_events body fuel (case evs of Arr _ vs \<Rightarrow> vs | v \<Rightarrow> [v]) m else (True, m)) of
             (True, m) \<Rightarrow> (None, getEvents m)
           | (False, m) \<Rightarrow> (Some TypeError, m))"

definition onGetEventsFailure :: "bool \<Rightarrow> events_manager \<Rightarrow> events_manager" where
  "onGetEventsFailure isTimeout m =
     (if \<not> em_running m then m
      else if isTimeout then getEvents m
      else let count = em_errorCount m; m = m\<lparr>em_errorCount := Suc count\<rparr>
           in if 3 \<le> count then em_stop m else getEvents m)"

section \<open>Runs\<close>

text \<open>What comes to the manager: a login, an answer to one of its requests, the failure of one.\<close>

datatype em_event = EmLogin | EmAnswer jsval | EmFailure bool

fun em_event_step :: "body \<Rightarrow> nat \<Rightarrow> em_event \<Rightarrow> events_manager \<Rightarrow> events_manager" where
  "em_event_step body fuel EmLogin m = onLogin m"
| "em_event_step body fuel (EmAnswer v) m = snd (onGetEventsSuccess body fuel v (m\<lparr>em_gets := em_gets m - 1\<rparr>))"
| "em_event_step body fuel (EmFailure t) m = onGetEventsFailure t (m\<lparr>em_gets := em_gets m - 1\<rparr>)"

definition em_possible :: "events_manager \<Rightarrow> em_event \<Rightarrow> bool" where
  "em_possible m e \<longleftrightarrow> (case e of EmLogin \<Rightarrow> True | _ \<Rightarrow> 0 < em_gets m)"

text \<open>Runs of events that can happen, one after the other.\<close>

fun em_run :: "body \<Rightarrow> nat \<Rightarrow> em_event list \<Rightarrow> events_manager \<Rightarrow> events_manager option" where
  "em_run body fuel [] m = Some m"
| "em_run body fuel (e # es) m = (if em_possible m e then em_run body fuel es (em_event_step body fuel e m) else None)"

text \<open>An answer as the server makes them: a list of names with their arguments, or nothing.\<close>

definition good_events :: "jsval \<Rightarrow> bool" where
  "good_events v \<longleftrightarrow> (case v of Arr _ vs \<Rightarrow> list_all (\<lambda>e. event_parts e \<noteq> None) vs | Null \<Rightarrow> True | _ \<Rightarrow> False)"

definition events_of :: "jsval \<Rightarrow> (string \<times> jsval list) list" where
  "events_of v = (case v of Arr _ vs \<Rightarrow> map (the \<circ> event_parts) vs | _ \<Rightarrow> [])"

text \<open>No function that listens fires events so deep that the browser's stack would overflow.\<close>

definition shallow :: "body \<Rightarrow> nat \<Rightarrow> bool" where
  "shallow body fuel \<longleftrightarrow> (\<forall>nm args o1. fireEvent body fuel nm args o1 \<noteq> None)"

lemma fire_events_good:
  assumes "shallow body fuel" "list_all (\<lambda>e. event_parts e \<noteq> None) vs"
  shows "\<exists>o1. fire_events body fuel vs m = (True, m\<lparr>em_obs := o1, em_fired := em_fired m @ map (the \<circ> event_parts) vs\<rparr>)"
  using assms(2)
proof (induction vs arbitrary: m)
  case (Cons v vs)
  obtain nm args where p: "event_parts v = Some (nm, args)" using Cons.prems by auto
  obtain r o1 where f: "fireEvent body fuel nm args (em_obs m) = Some (r, o1)"
    using assms(1) unfolding shallow_def by (metis not_None_eq surj_pair)
  show ?case using Cons.IH [of "m\<lparr>em_obs := o1, em_fired := em_fired m @ [(nm, args)]\<rparr>"] Cons.prems
    by (auto simp: p f simp del: fireEvent.simps)
next
  case Nil
  show ?case by (rule exI [of _ "em_obs m"]) simp
qed

lemma answer_good:
  assumes "shallow body fuel" "good_events v" "em_running m"
  shows "\<exists>o1. onGetEventsSuccess body fuel v m =
    (None, getEvents (m\<lparr>em_obs := o1, em_fired := em_fired m @ events_of v\<rparr>))"
proof (cases v)
  case (Arr i vs)
  then obtain o1 where "fire_events body fuel vs m = (True, m\<lparr>em_obs := o1, em_fired := em_fired m @ map (the \<circ> event_parts) vs\<rparr>)"
    using fire_events_good [OF assms(1)] assms(2) by (auto simp: good_events_def)
  then show ?thesis using assms(3) Arr by (auto simp: onGetEventsSuccess_def events_of_def)
next
  case Null
  show ?thesis using assms(3) Null by (intro exI [of _ "em_obs m"]) (simp add: onGetEventsSuccess_def events_of_def)
qed (use assms(2) in \<open>auto simp: good_events_def\<close>)

section \<open>Properties\<close>

text \<open>No login among the events, and every answer well made.\<close>

fun quiet_event :: "em_event \<Rightarrow> bool" where
  "quiet_event EmLogin = False"
| "quiet_event (EmAnswer v) = good_events v"
| "quiet_event (EmFailure _) = True"

fun told_events :: "em_event \<Rightarrow> (string \<times> jsval list) list" where
  "told_events (EmAnswer v) = events_of v"
| "told_events _ = []"

definition failures :: "em_event list \<Rightarrow> nat" where
  "failures es = length (filter (\<lambda>e. e = EmFailure False) es)"

lemma running_step:
  assumes "shallow body fuel" "em_running m" "0 < em_gets m" "quiet_event e" "e = EmFailure False \<longrightarrow> em_errorCount m < 3"
  shows "em_running (em_event_step body fuel e m)" "em_gets (em_event_step body fuel e m) = em_gets m"
    "em_errorCount (em_event_step body fuel e m) = em_errorCount m + failures [e]"
    "em_fired (em_event_step body fuel e m) = em_fired m @ told_events e"
proof -
  consider v where "e = EmAnswer v" "good_events v" | t where "e = EmFailure t" using assms(4) by (cases e) auto
  then have "em_running (em_event_step body fuel e m) \<and> em_gets (em_event_step body fuel e m) = em_gets m \<and>
    em_errorCount (em_event_step body fuel e m) = em_errorCount m + failures [e] \<and>
    em_fired (em_event_step body fuel e m) = em_fired m @ told_events e"
  proof cases
    case 1
    then show ?thesis using answer_good [OF assms(1), of v "m\<lparr>em_gets := em_gets m - 1\<rparr>"] assms(2,3)
      by (auto simp: getEvents_def failures_def)
  next
    case 2
    then show ?thesis using assms(2,3,5) by (cases t) (simp_all add: onGetEventsFailure_def getEvents_def Let_def failures_def)
  qed
  then show "em_running (em_event_step body fuel e m)" "em_gets (em_event_step body fuel e m) = em_gets m"
    "em_errorCount (em_event_step body fuel e m) = em_errorCount m + failures [e]"
    "em_fired (em_event_step body fuel e m) = em_fired m @ told_events e" by simp_all
qed

lemma stopped_stays:
  assumes "\<not> em_running m" "list_all quiet_event es" "em_run body fuel es m = Some m'"
  shows "\<not> em_running m'"
  using assms
proof (induction es arbitrary: m)
  case (Cons e es)
  have "\<not> em_running (em_event_step body fuel e m)" using Cons.prems(1,2)
    by (cases e) (simp_all add: onGetEventsSuccess_def onGetEventsFailure_def)
  then show ?case using Cons by (auto split: if_splits)
qed simp

lemma failures_Cons: "failures (e # es) = failures [e] + failures es"
  by (simp add: failures_def)

lemma run_goes_on:
  assumes "shallow body fuel" "em_running m" "0 < em_gets m" "list_all quiet_event es" "em_errorCount m + failures es \<le> 3"
  shows "\<exists>m'. em_run body fuel es m = Some m' \<and> em_running m' \<and> em_gets m' = em_gets m \<and>
    em_fired m' = em_fired m @ concat (map told_events es)"
  using assms(2-5)
proof (induction es arbitrary: m)
  case (Cons e es)
  let ?m = "em_event_step body fuel e m"
  have f: "e = EmFailure False \<longrightarrow> em_errorCount m < 3" using Cons.prems(4) by (auto simp: failures_def)
  have q: "quiet_event e" "list_all quiet_event es" using Cons.prems(3) by simp_all
  note s = running_step [OF assms(1) Cons.prems(1,2) q(1) f]
  have "em_possible m e" using Cons.prems(2) by (simp add: em_possible_def split: em_event.split)
  moreover have "em_errorCount ?m + failures es \<le> 3" using Cons.prems(4) s(3) failures_Cons [of e es] by simp
  ultimately show ?case using Cons.IH [OF s(1) _ q(2)] s(2,4) Cons.prems(2) by simp
qed simp

text \<open>C22: While fewer than four requests have failed since the login, the manager goes on: however the answers
  come, as many requests are out as before, so another answer can always come, and every event the daemon
  told of has been fired, once and in order.\<close>

lemma events_go_on:
  assumes "shallow body fuel" "em_running m" "0 < em_gets m" "list_all quiet_event es" "em_errorCount m + failures es \<le> 3"
  shows "\<exists>m'. em_run body fuel es m = Some m' \<and> em_running m' \<and> em_gets m' = em_gets m \<and>
    em_fired m' = em_fired m @ concat (map told_events es)"
  by (rule run_goes_on [OF assms])

text \<open>The failures are counted from the login, not in a row: the fourth one ends the events until the next
  login, however many answers came in between.\<close>

lemma fourth_failure_stops:
  assumes "shallow body fuel" "list_all quiet_event es" "em_run body fuel es (onLogin m) = Some m'"
  shows "em_running m' \<longleftrightarrow> failures es \<le> 3"
proof -
  have "em_running m' \<longleftrightarrow> em_errorCount n + failures es \<le> 3"
    if "em_running n" "0 < em_gets n" "em_errorCount n \<le> 3" "list_all quiet_event es" "em_run body fuel es n = Some m'" for n es
    using that
  proof (induction es arbitrary: n)
    case (Cons e es)
    let ?n = "em_event_step body fuel e n"
    have q: "quiet_event e" "list_all quiet_event es" and r: "em_run body fuel es ?n = Some m'"
      using Cons.prems(4,5) by (auto split: if_splits)
    show ?case
    proof (cases "e = EmFailure False \<and> em_errorCount n = 3")
      case True
      then have "\<not> em_running ?n" using Cons.prems(1) by (simp add: onGetEventsFailure_def em_stop_def Let_def)
      then show ?thesis using stopped_stays [OF _ q(2) r] True by (simp add: failures_def)
    next
      case False
      then have f: "e = EmFailure False \<longrightarrow> em_errorCount n < 3" using Cons.prems(3) by linarith
      note s = running_step [OF assms(1) Cons.prems(1,2) q(1) f]
      have "em_errorCount ?n \<le> 3" using s(3) f Cons.prems(3) by (auto simp: failures_def)
      then show ?thesis using Cons.IH [OF s(1) _ _ q(2) r] s(2,3) Cons.prems(2) failures_Cons [of e es] by (simp add: add.assoc)
    qed
  qed (simp add: failures_def)
  from this [OF _ _ _ assms(2,3)] show ?thesis by (simp add: onLogin_def em_start_def getEvents_def)
qed

text \<open>Nothing stops the loop of an earlier login, so every further login adds a request that is sent again
  and again: after \<open>k\<close> logins there are \<open>k\<close> of them, whatever is answered.\<close>

lemma logins_add_loops:
  assumes "shallow body fuel" "0 < k" "list_all quiet_event es" "failures es \<le> 3"
    "em_run body fuel (replicate k EmLogin @ es) events_manager_new = Some m'"
  shows "em_running m' \<and> em_gets m' = k"
proof -
  have append: "em_run body fuel (xs @ ys) n = (case em_run body fuel xs n of None \<Rightarrow> None | Some n' \<Rightarrow> em_run body fuel ys n')" for xs ys n
    by (induction xs arbitrary: n) simp_all
  have logins: "\<exists>n. em_run body fuel (replicate j EmLogin) n0 = Some n \<and> em_gets n = em_gets n0 + j \<and>
      (0 < j \<longrightarrow> em_running n \<and> em_errorCount n = 0)" for j n0
  proof (induction j arbitrary: n0)
    case (Suc j)
    have "em_gets (onLogin n0) = Suc (em_gets n0)" "em_running (onLogin n0)" "em_errorCount (onLogin n0) = 0"
      by (simp_all add: onLogin_def em_start_def getEvents_def)
    then show ?case using Suc [of "onLogin n0"] by (cases j) (auto simp: em_possible_def)
  qed simp
  have "em_gets events_manager_new = 0" by (simp add: events_manager_new_def em_addListener_def Let_def)
  then obtain n where n: "em_run body fuel (replicate k EmLogin) events_manager_new = Some n" "em_gets n = k" "em_running n" "em_errorCount n = 0"
    using logins [of k events_manager_new] assms(2) by auto
  have "\<exists>m'. em_run body fuel es n = Some m' \<and> em_running m' \<and> em_gets m' = em_gets n"
    using run_goes_on [OF assms(1) n(3) _ assms(3)] n(2,4) assms(2,4) by auto
  then show ?thesis using assms(5) n by (auto simp: append)
qed

text \<open>Listeners that do nothing, and what the daemon may tell.\<close>

definition idle :: body where
  "idle fn scope args = ([], True)"

lemma idle_shallow: "shallow idle 1"
proof -
  have "fire_from idle 1 nm ref ixs args o1 \<noteq> None" for nm ref ixs args o1
  proof (induction ixs arbitrary: o1)
    case (Cons i ixs)
    then show ?case unfolding One_nat_def by (auto simp: idle_def Let_def split: option.split slot.split)
  qed simp
  then show ?thesis unfolding shallow_def by (auto simp: Let_def split: option.split slot.split)
qed

definition demo_answers :: "em_event list" where
  "demo_answers =
     [EmAnswer (Arr 0 [Arr 1 [Str ''TorrentAddedEvent'', Arr 2 [Str ''a1'']], Arr 3 [Str ''SessionPausedEvent'', Arr 4 []]]),
      EmFailure True, EmAnswer (Arr 5 []), EmFailure False, EmAnswer (Arr 6 [Arr 7 [Str ''SessionResumedEvent'', Arr 8 []]])]"

lemma demo_answers: "list_all quiet_event demo_answers" "failures demo_answers = 1"
  "concat (map told_events demo_answers) = [(''TorrentAddedEvent'', [Str ''a1'']), (''SessionPausedEvent'', []), (''SessionResumedEvent'', [])]"
  by (simp_all add: demo_answers_def good_events_def event_parts_def failures_def events_of_def)

lemma login_state: "em_running (onLogin m)" "em_gets (onLogin m) = Suc (em_gets m)" "em_errorCount (onLogin m) = 0"
  "em_fired (onLogin m) = em_fired m"
  by (simp_all add: onLogin_def em_start_def getEvents_def)

lemma events_go_on_witness:
  "\<exists>m'. em_run idle 1 demo_answers (onLogin events_manager_new) = Some m' \<and> em_running m' \<and>
    em_gets m' = em_gets (onLogin events_manager_new) \<and>
    em_fired m' = em_fired (onLogin events_manager_new) @
      [(''TorrentAddedEvent'', [Str ''a1'']), (''SessionPausedEvent'', []), (''SessionResumedEvent'', [])]"
  using events_go_on [OF idle_shallow login_state(1) _ demo_answers(1), of events_manager_new] demo_answers login_state by simp

text \<open>Four failures, each after an answer.\<close>

definition bad_days :: "em_event list" where
  "bad_days = concat (replicate 4 [EmAnswer Null, EmFailure False])"

lemma fourth_failure_stops_witness:
  "em_running (the (em_run idle 1 bad_days (onLogin events_manager_new))) \<longleftrightarrow> failures bad_days \<le> 3"
proof (rule fourth_failure_stops [OF idle_shallow])
  show "list_all quiet_event bad_days" by (simp add: bad_days_def good_events_def eval_nat_numeral)
  show "em_run idle 1 bad_days (onLogin events_manager_new) = Some (the (em_run idle 1 bad_days (onLogin events_manager_new)))"
    by (simp add: bad_days_def em_possible_def onLogin_def em_start_def getEvents_def onGetEventsSuccess_def onGetEventsFailure_def
        em_stop_def eval_nat_numeral Let_def)
qed

lemma logins_add_loops_witness:
  "em_running (the (em_run idle 1 (replicate 3 EmLogin @ demo_answers) events_manager_new)) \<and>
   em_gets (the (em_run idle 1 (replicate 3 EmLogin @ demo_answers) events_manager_new)) = 3"
proof (rule logins_add_loops [OF idle_shallow _ demo_answers(1)])
  have "em_run idle 1 (replicate 3 EmLogin @ demo_answers) events_manager_new =
      em_run idle 1 demo_answers (onLogin (onLogin (onLogin events_manager_new)))"
    by (simp add: em_possible_def eval_nat_numeral)
  moreover obtain m' where "em_run idle 1 demo_answers (onLogin (onLogin (onLogin events_manager_new))) = Some m'"
    using run_goes_on [OF idle_shallow login_state(1) _ demo_answers(1)] demo_answers(2) login_state by force
  ultimately show "em_run idle 1 (replicate 3 EmLogin @ demo_answers) events_manager_new =
      Some (the (em_run idle 1 (replicate 3 EmLogin @ demo_answers) events_manager_new))" by simp
qed (simp_all add: demo_answers(2))

end
