(* ===== verification/TreeNodes.thy ===== *)
theory TreeNodes
  imports JsValue
begin

text \<open>
  Trees of Ext JS (\<open>Ext.data.Node\<close> and \<open>Ext.tree.TreeNode\<close>, ext-all-debug.js): nodes that refer to their
  parent, their first and last child and their neighbours, and keep their children in an array.  A node
  is a number, the tree's state a heap of them.  There is one tree, so \<open>ownerTree\<close> is whether a node is
  in it; its selection is kept beside the nodes.  The events a change fires and what is drawn are not
  modelled: nothing in the interface refuses one.  The theory ends with what the pointers
  come to: a tree of nodes, as a datatype.
\<close>

section \<open>Nodes\<close>

record 'a tnode =
  n_attrs :: 'a
  n_parent :: "nat option"
  n_first :: "nat option"
  n_last :: "nat option"
  n_prev :: "nat option"
  n_next :: "nat option"
  n_children :: "nat list"
  n_owned :: bool

record 'a theap =
  node_at :: "nat \<Rightarrow> 'a tnode"
  next_id :: nat
  selected :: "nat list"

definition upd :: "nat \<Rightarrow> ('a tnode \<Rightarrow> 'a tnode) \<Rightarrow> 'a theap \<Rightarrow> 'a theap" where
  "upd n f h = h\<lparr>node_at := (node_at h)(n := f (node_at h n))\<rparr>"

definition node_new :: "'a \<Rightarrow> 'a tnode" where
  "node_new a =
     \<lparr>n_attrs = a, n_parent = None, n_first = None, n_last = None, n_prev = None, n_next = None, n_children = [],
      n_owned = False\<rparr>"

text \<open>\<open>new Ext.tree.TreeNode(attributes)\<close>; whether a node is a leaf is one of its attributes.\<close>

definition tree_node :: "'a \<Rightarrow> 'a theap \<Rightarrow> nat \<times> 'a theap" where
  "tree_node a h = (next_id h, h\<lparr>node_at := (node_at h)(next_id h := node_new a), next_id := Suc (next_id h)\<rparr>)"

text \<open>A tree with its root, node 0.\<close>

definition setRootNode :: "nat \<Rightarrow> 'a theap \<Rightarrow> 'a theap" where
  "setRootNode n h = upd n (n_owned_update (\<lambda>_. True)) h"

definition hasChildNodes :: "('a \<Rightarrow> bool) \<Rightarrow> nat \<Rightarrow> 'a theap \<Rightarrow> bool" where
  "hasChildNodes leaf n h \<longleftrightarrow> \<not> leaf (n_attrs (node_at h n)) \<and> n_children (node_at h n) \<noteq> []"

section \<open>Changing the tree\<close>

text \<open>\<open>setOwnerTree\<close> goes down to nodes that have not the tree yet; \<open>fuel\<close> bounds the depth.\<close>

fun setOwnerTree :: "nat \<Rightarrow> bool \<Rightarrow> nat \<Rightarrow> 'a theap \<Rightarrow> 'a theap" where
  "setOwnerTree 0 b n h = h"
| "setOwnerTree (Suc fuel) b n h =
     (if n_owned (node_at h n) = b then h
      else let h = upd n (n_owned_update (\<lambda>_. b)) h
           in fold (setOwnerTree fuel b) (n_children (node_at h n)) h)"

definition node_clear :: "nat \<Rightarrow> 'a theap \<Rightarrow> 'a theap" where
  "node_clear n h =
     upd n (\<lambda>x. x\<lparr>n_parent := None, n_prev := None, n_next := None\<rparr>) (setOwnerTree (next_id h) False n h)"

text \<open>\<open>a.nextSibling = b\<close>, where there is an \<open>a\<close>.\<close>

definition set_next :: "nat option \<Rightarrow> nat option \<Rightarrow> 'a theap \<Rightarrow> 'a theap" where
  "set_next a b h = (case a of None \<Rightarrow> h | Some m \<Rightarrow> upd m (n_next_update (\<lambda>_. b)) h)"

definition set_prev :: "nat option \<Rightarrow> nat option \<Rightarrow> 'a theap \<Rightarrow> 'a theap" where
  "set_prev a b h = (case a of None \<Rightarrow> h | Some m \<Rightarrow> upd m (n_prev_update (\<lambda>_. b)) h)"

definition removeChild :: "nat \<Rightarrow> nat \<Rightarrow> 'a theap \<Rightarrow> bool \<times> 'a theap" where
  "removeChild p n h =
     (let h = h\<lparr>selected := removeAll n (selected h)\<rparr>
      in if n \<notin> set (n_children (node_at h p)) then (False, h)
         else
           let h = upd p (n_children_update (remove1 n)) h;
               h = set_next (n_prev (node_at h n)) (n_next (node_at h n)) h;
               h = set_prev (n_next (node_at h n)) (n_prev (node_at h n)) h;
               h = (if n_first (node_at h p) = Some n then upd p (n_first_update (\<lambda>_. n_next (node_at h n))) h else h);
               h = (if n_last (node_at h p) = Some n then upd p (n_last_update (\<lambda>_. n_prev (node_at h n))) h else h)
           in (True, node_clear n h))"

definition appendChild :: "nat \<Rightarrow> nat \<Rightarrow> 'a theap \<Rightarrow> 'a theap" where
  "appendChild p n h =
     (let h = (case n_parent (node_at h n) of None \<Rightarrow> h | Some oldParent \<Rightarrow> snd (removeChild oldParent n h));
          index = length (n_children (node_at h p));
          ps = (if index = 0 then None else Some (n_children (node_at h p) ! (index - 1)));
          h = (if index = 0 then upd p (n_first_update (\<lambda>_. Some n)) h else h);
          h = upd p (n_children_update (\<lambda>cs. cs @ [n])) h;
          h = upd n (n_parent_update (\<lambda>_. Some p)) h;
          h = upd n (n_prev_update (\<lambda>_. ps)) h;
          h = set_next ps (Some n) h;
          h = upd n (n_next_update (\<lambda>_. None)) h;
          h = upd p (n_last_update (\<lambda>_. Some n)) h
      in setOwnerTree (next_id h) (n_owned (node_at h p)) n h)"

section \<open>Walking the tree\<close>

text \<open>\<open>findChild(attribute, value)\<close>, with the test as a function.\<close>

definition findChild :: "('a \<Rightarrow> bool) \<Rightarrow> nat \<Rightarrow> 'a theap \<Rightarrow> nat option" where
  "findChild test n h = List.find (\<lambda>c. test (n_attrs (node_at h c))) (n_children (node_at h n))"

text \<open>\<open>cascade\<close>: the number of children is read before the loop, each child when its turn comes, so that a
  function that takes nodes away leaves the loop without them: its answer is \<open>False\<close>, a \<open>TypeError\<close>, when
  there is no child at an index.  The state is any that the children can be read from; \<open>None\<close> is a
  tree deeper than the fuel.\<close>

function (sequential) cascade :: "('s \<Rightarrow> nat \<Rightarrow> nat list) \<Rightarrow> (nat \<Rightarrow> 's \<Rightarrow> bool \<times> 's) \<Rightarrow> nat \<Rightarrow> nat \<Rightarrow> 's \<Rightarrow> (bool \<times> 's) option"
  and cascade_loop :: "('s \<Rightarrow> nat \<Rightarrow> nat list) \<Rightarrow> (nat \<Rightarrow> 's \<Rightarrow> bool \<times> 's) \<Rightarrow> nat \<Rightarrow> nat \<Rightarrow> nat \<Rightarrow> nat \<Rightarrow> 's \<Rightarrow> (bool \<times> 's) option"
where
  "cascade kids fn 0 n s = None"
| "cascade kids fn (Suc fuel) n s =
     (case fn n s of (goes_on, s) \<Rightarrow>
        if goes_on then cascade_loop kids fn fuel n 0 (length (kids s n)) s else Some (True, s))"
| "cascade_loop kids fn fuel n i len s =
     (if i < len then
        (if i < length (kids s n) then
           (case cascade kids fn fuel (kids s n ! i) s of
              None \<Rightarrow> None
            | Some (ok, s) \<Rightarrow> if ok then cascade_loop kids fn fuel n (Suc i) len s else Some (False, s))
         else Some (False, s))
      else Some (True, s))"
  by pat_completeness auto
termination
  by (relation "inv_image (less_than <*lex*> less_than <*lex*> less_than)
       (\<lambda>x. case x of Inl (kids, fn, fuel, n, s) \<Rightarrow> (fuel, 0, 0) | Inr (kids, fn, fuel, n, i, len, s) \<Rightarrow> (fuel, 1, len - i))")
    auto

declare cascade.simps [simp del] cascade_loop.simps [simp del]

lemmas cascade_unfold = cascade.simps cascade_loop.simps

section \<open>The tree the pointers make\<close>

text \<open>A tree with the numbers of its nodes.\<close>

datatype 'a itree = IT (it_id: nat) (it_attrs: 'a) (it_kids: "'a itree list")

fun ids :: "'a itree \<Rightarrow> nat list" where
  "ids (IT n a ts) = n # concat (map ids ts)"

text \<open>Neighbours of a list of children.\<close>

definition siblings_ok :: "'a theap \<Rightarrow> nat list \<Rightarrow> bool" where
  "siblings_ok h cs \<longleftrightarrow>
     (\<forall>i < length cs. n_prev (node_at h (cs ! i)) = (if i = 0 then None else Some (cs ! (i - 1))) \<and>
        n_next (node_at h (cs ! i)) = (if Suc i = length cs then None else Some (cs ! Suc i)))"

definition node_ok :: "'a theap \<Rightarrow> bool \<Rightarrow> nat \<Rightarrow> 'a \<Rightarrow> nat list \<Rightarrow> bool" where
  "node_ok h b n a cs \<longleftrightarrow>
     n_attrs (node_at h n) = a \<and> n_owned (node_at h n) = b \<and> n_children (node_at h n) = cs \<and>
     n_first (node_at h n) = (if cs = [] then None else Some (hd cs)) \<and>
     n_last (node_at h n) = (if cs = [] then None else Some (last cs)) \<and>
     (\<forall>c \<in> set cs. n_parent (node_at h c) = Some n) \<and> siblings_ok h cs"

fun holds :: "'a theap \<Rightarrow> bool \<Rightarrow> 'a itree \<Rightarrow> bool" where
  "holds h b (IT n a ts) \<longleftrightarrow> node_ok h b n a (map it_id ts) \<and> list_all (holds h b) ts"

text \<open>A heap that holds a tree whose root has no parent.\<close>

definition heap_tree :: "'a theap \<Rightarrow> bool \<Rightarrow> 'a itree \<Rightarrow> bool" where
  "heap_tree h b t \<longleftrightarrow> holds h b t \<and> distinct (ids t) \<and> (\<forall>n \<in> set (ids t). n < next_id h)"

fun depth :: "'a itree \<Rightarrow> nat" where
  "depth (IT n a ts) = Suc (Max (insert 0 (set (map depth ts))))"

lemma depth_kid: "t \<in> set ts \<Longrightarrow> depth t < depth (IT n a ts)"
  by (simp add: le_imp_less_Suc)

lemma depth_ids: "depth t \<le> length (ids t)"
proof (induction t)
  case (IT n a ts)
  have "depth u \<le> length (concat (map ids ts))" if "u \<in> set ts" for u
  proof -
    have "length (ids u) \<le> length (concat (map ids ts))" using that by (induction ts) auto
    then show ?thesis using IT that by fastforce
  qed
  then show ?case by simp
qed

lemma ids_nonempty: "it_id t \<in> set (ids t)"
  by (cases t) simp

lemma depth_next:
  assumes "heap_tree h b t"
  shows "depth t \<le> next_id h"
proof -
  have "length (ids t) = card (set (ids t))" using assms by (simp add: heap_tree_def distinct_card)
  also have "\<dots> \<le> card {..<next_id h}" using assms by (intro card_mono) (auto simp: heap_tree_def)
  finally show ?thesis using depth_ids [of t] by simp
qed

section \<open>What does not change a tree\<close>

lemma upd_simps [simp]:
  "node_at (upd n f h) m = (if m = n then f (node_at h n) else node_at h m)" "next_id (upd n f h) = next_id h"
  "selected (upd n f h) = selected h"
  by (simp_all add: upd_def)

lemma ids_kid: "t \<in> set ts \<Longrightarrow> m \<in> set (ids t) \<Longrightarrow> m \<in> set (ids (IT n a ts))"
  by auto

lemma kid_id: "t \<in> set ts \<Longrightarrow> it_id t \<in> set (concat (map ids ts))"
  using ids_nonempty by fastforce

lemma distinct_kid: "distinct (ids (IT n a ts)) \<Longrightarrow> u \<in> set ts \<Longrightarrow> distinct (ids u)"
  by (auto dest: split_list)

lemma node_ok_cong:
  assumes "n_attrs (node_at h' n) = n_attrs (node_at h n)" "n_owned (node_at h' n) = n_owned (node_at h n)"
    "n_children (node_at h' n) = n_children (node_at h n)" "n_first (node_at h' n) = n_first (node_at h n)"
    "n_last (node_at h' n) = n_last (node_at h n)"
    "\<And>c. c \<in> set cs \<Longrightarrow> n_parent (node_at h' c) = n_parent (node_at h c) \<and>
       n_prev (node_at h' c) = n_prev (node_at h c) \<and> n_next (node_at h' c) = n_next (node_at h c)"
  shows "node_ok h' b n a cs = node_ok h b n a cs"
  using assms by (auto simp: node_ok_def siblings_ok_def)

text \<open>A tree stays while its nodes do; its root may get another parent and other neighbours.\<close>

lemma holds_cong:
  assumes "n_attrs (node_at h' (it_id t)) = n_attrs (node_at h (it_id t))" "n_owned (node_at h' (it_id t)) = n_owned (node_at h (it_id t))"
    "n_children (node_at h' (it_id t)) = n_children (node_at h (it_id t))" "n_first (node_at h' (it_id t)) = n_first (node_at h (it_id t))"
    "n_last (node_at h' (it_id t)) = n_last (node_at h (it_id t))"
    "\<And>m. m \<in> set (ids t) \<Longrightarrow> m \<noteq> it_id t \<Longrightarrow> node_at h' m = node_at h m" "distinct (ids t)"
  shows "holds h' b t = holds h b t"
  using assms
proof (induction t)
  case (IT n a ts)
  have kid: "node_at h' m = node_at h m" if "u \<in> set ts" "m \<in> set (ids u)" for u m
  proof -
    have "m \<noteq> n" using IT.prems(7) that by auto
    then show ?thesis using IT.prems(6) [of m] that by auto
  qed
  have "holds h' b u = holds h b u" if "u \<in> set ts" for u
  proof (rule IT.IH [OF that])
    have e: "node_at h' (it_id u) = node_at h (it_id u)" by (rule kid [OF that ids_nonempty])
    show "n_attrs (node_at h' (it_id u)) = n_attrs (node_at h (it_id u))" "n_owned (node_at h' (it_id u)) = n_owned (node_at h (it_id u))"
      "n_children (node_at h' (it_id u)) = n_children (node_at h (it_id u))" "n_first (node_at h' (it_id u)) = n_first (node_at h (it_id u))"
      "n_last (node_at h' (it_id u)) = n_last (node_at h (it_id u))" unfolding e by simp_all
    show "node_at h' m = node_at h m" if "m \<in> set (ids u)" for m using kid [OF \<open>u \<in> set ts\<close> that] .
    show "distinct (ids u)" by (rule distinct_kid [OF IT.prems(7) that])
  qed
  then have l: "list_all (holds h' b) ts = list_all (holds h b) ts" by (auto simp: list_all_iff)
  have r: "node_at h' (it_id u) = node_at h (it_id u)" if "u \<in> set ts" for u by (rule kid [OF that ids_nonempty])
  have "node_ok h' b n a (map it_id ts) = node_ok h b n a (map it_id ts)"
    using IT.prems(1-5) r by (intro node_ok_cong) auto
  then show ?case using l by simp
qed

lemma holds_same:
  assumes "holds h b t" "distinct (ids t)" "\<And>m. m \<in> set (ids t) \<Longrightarrow> node_at h' m = node_at h m"
  shows "holds h' b t"
proof -
  have r: "node_at h' (it_id t) = node_at h (it_id t)" by (rule assms(3) [OF ids_nonempty])
  have "holds h' b t = holds h b t" by (rule holds_cong) (simp_all add: r assms)
  then show ?thesis using assms(1) by simp
qed

section \<open>Owning a tree\<close>

definition paint :: "nat list \<Rightarrow> bool \<Rightarrow> 'a theap \<Rightarrow> 'a theap" where
  "paint ns b h = h\<lparr>node_at := (\<lambda>m. if m \<in> set ns then n_owned_update (\<lambda>_. b) (node_at h m) else node_at h m)\<rparr>"

lemma paint_simps [simp]:
  "node_at (paint ns b h) m = (if m \<in> set ns then n_owned_update (\<lambda>_. b) (node_at h m) else node_at h m)"
  "next_id (paint ns b h) = next_id h" "selected (paint ns b h) = selected h"
  by (simp_all add: paint_def)

lemma paint_fields:
  "n_attrs (node_at (paint ns b h) m) = n_attrs (node_at h m)" "n_children (node_at (paint ns b h) m) = n_children (node_at h m)"
  "n_first (node_at (paint ns b h) m) = n_first (node_at h m)" "n_last (node_at (paint ns b h) m) = n_last (node_at h m)"
  "n_parent (node_at (paint ns b h) m) = n_parent (node_at h m)" "n_prev (node_at (paint ns b h) m) = n_prev (node_at h m)"
  "n_next (node_at (paint ns b h) m) = n_next (node_at h m)"
  by simp_all

lemma paint_paint: "paint ms b (paint ns b h) = paint (ns @ ms) b h"
  by (simp add: paint_def fun_eq_iff)

lemma setOwnerTree_same: "n_owned (node_at h n) = b \<Longrightarrow> setOwnerTree fuel b n h = h"
  by (cases fuel) simp_all

lemma setOwnerTree_paint:
  assumes "holds h c t" "distinct (ids t)" "depth t \<le> fuel" "b \<noteq> c"
  shows "setOwnerTree fuel b (it_id t) h = paint (ids t) b h"
  using assms(1-3)
proof (induction t arbitrary: fuel h)
  case (IT n a ts)
  obtain k where k: "fuel = Suc k" using IT.prems(3) by (cases fuel) auto
  have own: "n_owned (node_at h n) \<noteq> b" and cs: "n_children (node_at h n) = map it_id ts"
    using IT.prems(1) assms(4) by (auto simp: node_ok_def)
  define h1 where "h1 = upd n (n_owned_update (\<lambda>_. b)) h"
  have d: "distinct (concat (map ids ts))" "n \<notin> set (concat (map ids ts))" using IT.prems(2) by auto
  have l: "list_all (holds h c) ts" using IT.prems(1) by simp
  have dep: "\<forall>u \<in> set ts. depth u \<le> k" using depth_kid [of _ ts n a] IT.prems(3) k by fastforce
  have "fold (setOwnerTree k b) (map it_id us) g = paint (concat (map ids us)) b g"
    if "set us \<subseteq> set ts" "list_all (holds g c) us" "distinct (concat (map ids us))" for us g
    using that
  proof (induction us arbitrary: g)
    case (Cons u us)
    have u: "u \<in> set ts" "holds g c u" "distinct (ids u)" using Cons.prems by auto
    then have s: "setOwnerTree k b (it_id u) g = paint (ids u) b g" using IT.IH dep by blast
    have "holds (paint (ids u) b g) c v" if "v \<in> set us" for v
    proof (rule holds_same)
      show "holds g c v" using Cons.prems(2) that by (simp add: list_all_iff)
      show "distinct (ids v)" using Cons.prems(3) that by (auto simp: distinct_concat_iff)
      have "set (ids u) \<inter> set (ids v) = {}" using Cons.prems(3) that by auto
      then show "node_at (paint (ids u) b g) m = node_at g m" if "m \<in> set (ids v)" for m using that by auto
    qed
    then have "fold (setOwnerTree k b) (map it_id us) (paint (ids u) b g) = paint (concat (map ids us)) b (paint (ids u) b g)"
      using Cons by (auto simp: list_all_iff)
    then show ?case by (simp add: s paint_paint)
  qed (simp add: paint_def)
  moreover have "list_all (holds h1 c) ts"
    unfolding list_all_iff
  proof
    fix u
    assume u: "u \<in> set ts"
    show "holds h1 c u"
    proof (rule holds_same)
      show "holds h c u" using l u by (simp add: list_all_iff)
      show "distinct (ids u)" using d(1) u by (auto simp: distinct_concat_iff)
      show "node_at h1 m = node_at h m" if "m \<in> set (ids u)" for m using d(2) u that by (auto simp: h1_def)
    qed
  qed
  ultimately have "fold (setOwnerTree k b) (map it_id ts) h1 = paint (concat (map ids ts)) b h1" using d(1) by blast
  moreover have "setOwnerTree fuel b (it_id (IT n a ts)) h = fold (setOwnerTree k b) (map it_id ts) h1"
    using own cs by (simp add: k h1_def Let_def)
  moreover have "paint (concat (map ids ts)) b h1 = paint (ids (IT n a ts)) b h"
    using d(2) by (auto simp: paint_def h1_def upd_def fun_eq_iff)
  ultimately show ?case by simp
qed

lemma node_ok_paint: "node_ok h c n a cs \<Longrightarrow> n \<in> set ns \<Longrightarrow> node_ok (paint ns b h) b n a cs"
  by (simp only: node_ok_def siblings_ok_def paint_fields) simp

lemma holds_paint:
  assumes "holds h c t" "distinct (ids t)" "set (ids t) \<subseteq> set ns"
  shows "holds (paint ns b h) b t"
  using assms
proof (induction t)
  case (IT n a ts)
  have "holds (paint ns b h) b u" if "u \<in> set ts" for u
  proof (rule IT.IH [OF that])
    show "holds h c u" using IT.prems(1) that by (simp add: list_all_iff)
    show "distinct (ids u)" by (rule distinct_kid [OF IT.prems(2) that])
    show "set (ids u) \<subseteq> set ns" using IT.prems(3) that by auto
  qed
  moreover have "node_ok (paint ns b h) b n a (map it_id ts)"
    using node_ok_paint [of h c n a "map it_id ts" ns b] IT.prems(1,3) by simp
  ultimately show ?case by (simp add: list_all_iff)
qed

section \<open>Appending a new node\<close>

text \<open>What an operation on the subtree of a node leaves alone.\<close>

definition outside :: "nat list \<Rightarrow> 'a theap \<Rightarrow> 'a theap \<Rightarrow> bool" where
  "outside ns h h' \<longleftrightarrow> next_id h \<le> next_id h' \<and> selected h' = selected h \<and>
     (\<forall>m < next_id h. m \<notin> set ns \<longrightarrow> node_at h' m = node_at h m)"

definition same_place :: "nat \<Rightarrow> 'a theap \<Rightarrow> 'a theap \<Rightarrow> bool" where
  "same_place n h h' \<longleftrightarrow> n_attrs (node_at h' n) = n_attrs (node_at h n) \<and>
     n_parent (node_at h' n) = n_parent (node_at h n) \<and> n_prev (node_at h' n) = n_prev (node_at h n) \<and>
     n_next (node_at h' n) = n_next (node_at h n)"

lemma same_place_trans: "same_place n h h' \<Longrightarrow> same_place n h' h'' \<Longrightarrow> same_place n h h''"
  by (simp add: same_place_def)

lemma siblings_append:
  assumes "siblings_ok h cs" "\<And>c. c \<in> set cs \<Longrightarrow> n_prev (node_at h' c) = n_prev (node_at h c)"
    "\<And>c. c \<in> set cs \<Longrightarrow> n_next (node_at h' c) = (if c = last cs then Some n else n_next (node_at h c))"
    "n_prev (node_at h' n) = (if cs = [] then None else Some (last cs))" "n_next (node_at h' n) = None" "distinct cs"
  shows "siblings_ok h' (cs @ [n])"
  unfolding siblings_ok_def
proof (intro allI impI)
  fix i
  assume "i < length (cs @ [n])"
  then consider "i = length cs" | "Suc i = length cs" | "Suc i < length cs" by fastforce
  then show "n_prev (node_at h' ((cs @ [n]) ! i)) = (if i = 0 then None else Some ((cs @ [n]) ! (i - 1))) \<and>
      n_next (node_at h' ((cs @ [n]) ! i)) = (if Suc i = length (cs @ [n]) then None else Some ((cs @ [n]) ! Suc i))"
  proof cases
    case 1
    then show ?thesis using assms(4,5) by (auto simp: nth_append last_conv_nth)
  next
    case 2
    then have "cs ! i = last cs" "cs ! i \<in> set cs" by (auto simp: last_conv_nth nth_mem) (metis diff_Suc_1 last_conv_nth length_0_conv nat.distinct(1))
    moreover have "n_prev (node_at h (cs ! i)) = (if i = 0 then None else Some (cs ! (i - 1)))"
      using assms(1) 2 unfolding siblings_ok_def by simp
    ultimately show ?thesis using assms(2,3) [of "cs ! i"] 2 by (auto simp: nth_append)
  next
    case 3
    then have "cs \<noteq> []" by auto
    then have "last cs = cs ! (length cs - 1)" "i < length cs" "length cs - 1 < length cs" "i \<noteq> length cs - 1"
      using 3 last_conv_nth [of cs] by simp_all
    then have "cs ! i \<in> set cs" "cs ! i \<noteq> last cs"
      using assms(6) nth_eq_iff_index_eq [of cs i "length cs - 1"] by simp_all
    then show ?thesis using assms(1-3) 3 unfolding siblings_ok_def by (auto simp: nth_append)
  qed
qed

lemma kid_ids_distinct: "distinct (ids (IT n a ts)) \<Longrightarrow> distinct (map it_id ts)"
proof (induction ts)
  case (Cons t ts)
  then show ?case using kid_id [of _ ts] ids_nonempty [of t] by fastforce
qed simp

lemma kids_apart: "distinct (concat (map ids ts)) \<Longrightarrow> v \<in> set ts \<Longrightarrow> u \<in> set ts \<Longrightarrow> v \<noteq> u \<Longrightarrow> set (ids v) \<inter> set (ids u) = {}"
proof (induction ts)
  case (Cons t ts)
  have "set (ids t) \<inter> set (ids w) = {}" if "w \<in> set ts" for w using Cons.prems(1) that by auto
  then show ?case using Cons by auto
qed simp

lemma append_new:
  assumes "holds h True (IT p a ts)" "distinct (ids (IT p a ts))" "\<forall>m \<in> set (ids (IT p a ts)). m < next_id h"
    and new: "tree_node an h = (n, h1)"
  defines "h2 \<equiv> appendChild p n h1"
  shows "holds h2 True (IT p a (ts @ [IT n an []]))" "n = next_id h" "next_id h2 = Suc (next_id h)"
    "outside (ids (IT p a ts)) h h2" "same_place p h h2"
proof -
  let ?cs = "map it_id ts"
  have n: "n = next_id h" and h1: "h1 = h\<lparr>node_at := (node_at h)(n := node_new an), next_id := Suc n\<rparr>"
    using new by (auto simp: tree_node_def)
  have fresh: "n \<notin> set (ids (IT p a ts))" using assms(3) n by auto
  then have pn: "p \<noteq> n" and cn: "n \<notin> set ?cs" using kid_id by fastforce+
  have cp: "p \<notin> set ?cs" using assms(2) kid_id by fastforce
  have P: "node_ok h True p a ?cs" using assms(1) by simp
  have h1n: "node_at h1 n = node_new an" "\<And>m. m \<noteq> n \<Longrightarrow> node_at h1 m = node_at h m" by (simp_all add: h1)
  have last: "?cs ! (length ?cs - 1) = last ?cs" if "ts \<noteq> []" using that by (simp add: last_conv_nth)
  define ps where "ps = (if ts = [] then None else Some (last ?cs))"
  have own: "n_owned (node_at h p)" and kids: "n_children (node_at h p) = ?cs" using P by (simp_all add: node_ok_def)
  have at: "node_at h2 m =
      (if m = n then (node_new an)\<lparr>n_parent := Some p, n_prev := ps, n_owned := True\<rparr>
       else if m = p then (node_at h p)\<lparr>n_children := ?cs @ [n], n_last := Some n, n_first := (if ts = [] then Some n else n_first (node_at h p))\<rparr>
       else if Some m = ps then (node_at h m)\<lparr>n_next := Some n\<rparr> else node_at h m)" for m
  proof (cases "ts = []")
    case True
    then show ?thesis using pn own kids
      by (simp add: h2_def appendChild_def Let_def h1n node_new_def ps_def set_next_def h1)
  next
    case False
    then have "last ?cs \<noteq> n" "last ?cs \<noteq> p" using cn cp last_in_set [of ?cs] by auto
    then show ?thesis using pn own kids False last
      by (simp add: h2_def appendChild_def Let_def h1n node_new_def ps_def set_next_def h1)
  qed
  have nx: "next_id h2 = Suc n" "selected h2 = selected h"
    using own pn by (simp_all add: h2_def appendChild_def Let_def h1n node_new_def h1 set_next_def split: option.split)
  show "n = next_id h" by (rule n)
  show "next_id h2 = Suc (next_id h)" using nx n by simp
  have psin: "m \<in> set ?cs" if "Some m = ps" for m using that last_in_set [of ?cs] by (auto simp: ps_def split: if_splits)
  have lin: "ts \<noteq> [] \<Longrightarrow> last ?cs \<in> set ?cs" by (intro last_in_set) simp
  show "outside (ids (IT p a ts)) h h2"
    unfolding outside_def
  proof (intro conjI allI impI)
    fix m
    assume m: "m < next_id h" "m \<notin> set (ids (IT p a ts))"
    then have "m \<noteq> p" "m \<notin> set ?cs" "m \<noteq> n" using kid_id n by fastforce+
    then show "node_at h2 m = node_at h m" using at psin by auto
  qed (use nx n in simp_all)
  show "same_place p h h2" using pn by (simp add: same_place_def at)
  have kids2: "holds h2 True u" if u: "u \<in> set ts" for u
  proof -
    have "it_id u \<noteq> p" "it_id u \<noteq> n" using u cp cn by auto
    moreover have "node_at h2 m = node_at h m" if "m \<in> set (ids u)" "m \<noteq> it_id u" for m
    proof -
      have "m \<noteq> p" "m \<noteq> n" using assms(2) fresh u that(1) by auto
      moreover have "m \<notin> set ?cs"
      proof
        assume "m \<in> set ?cs"
        then obtain v where v: "v \<in> set ts" "it_id v = m" by auto
        then have "v \<noteq> u" using that(2) by auto
        then have "set (ids v) \<inter> set (ids u) = {}" using assms(2) u v(1) by (intro kids_apart [of ts]) simp_all
        then show False using v(2) that(1) ids_nonempty [of v] by auto
      qed
      ultimately show ?thesis using at psin by auto
    qed
    moreover have "holds h True u" using assms(1) u by (simp add: list_all_iff)
    ultimately show ?thesis using holds_cong [of h2 u h True] distinct_kid [OF assms(2) u] by (auto simp: at)
  qed
  have "node_ok h2 True p a (?cs @ [n])"
  proof -
    have "siblings_ok h2 (?cs @ [n])"
    proof (rule siblings_append)
      show "siblings_ok h ?cs" using P by (simp add: node_ok_def)
      show "distinct ?cs" by (rule kid_ids_distinct [OF assms(2)])
    qed (use cn cp pn lin in \<open>auto simp: at ps_def node_new_def simp del: set_map\<close>)
    moreover have "n_parent (node_at h2 c) = Some p" if "c \<in> set (?cs @ [n])" for c
      using that P cn cp by (auto simp: at node_ok_def)
    ultimately show ?thesis using P pn by (auto simp: node_ok_def at)
  qed
  moreover have "holds h2 True (IT n an [])" by (simp add: node_ok_def siblings_ok_def at node_new_def)
  ultimately show "holds h2 True (IT p a (ts @ [IT n an []]))" using kids2 by (simp add: list_all_iff)
qed

section \<open>Removing a child\<close>

lemma siblings_at:
  assumes "siblings_ok h (xs @ n # ys)"
  shows "n_prev (node_at h n) = (if xs = [] then None else Some (last xs))"
    "n_next (node_at h n) = (if ys = [] then None else Some (hd ys))"
proof -
  have "n_prev (node_at h n) = (if length xs = 0 then None else Some ((xs @ n # ys) ! (length xs - 1)))"
    "n_next (node_at h n) = (if Suc (length xs) = length (xs @ n # ys) then None else Some ((xs @ n # ys) ! Suc (length xs)))"
    using assms unfolding siblings_ok_def by (metis length_append length_Cons less_add_Suc1 nth_append_length add_Suc_right)+
  then show "n_prev (node_at h n) = (if xs = [] then None else Some (last xs))"
    "n_next (node_at h n) = (if ys = [] then None else Some (hd ys))"
    by (auto simp: nth_append last_conv_nth hd_conv_nth)
qed

lemma siblings_remove:
  assumes "siblings_ok h (xs @ n # ys)" "distinct (xs @ n # ys)"
    "\<And>c. c \<in> set (xs @ ys) \<Longrightarrow> n_prev (node_at h' c) = (if ys \<noteq> [] \<and> c = hd ys then n_prev (node_at h n) else n_prev (node_at h c))"
    "\<And>c. c \<in> set (xs @ ys) \<Longrightarrow> n_next (node_at h' c) = (if xs \<noteq> [] \<and> c = last xs then n_next (node_at h n) else n_next (node_at h c))"
  shows "siblings_ok h' (xs @ ys)"
  unfolding siblings_ok_def
proof (intro allI impI)
  fix i
  assume i: "i < length (xs @ ys)"
  note n = siblings_at [OF assms(1)]
  let ?c = "(xs @ ys) ! i"
  let ?prev = "if i = 0 then None else Some ((xs @ ys) ! (i - 1))"
  let ?next = "if Suc i = length (xs @ ys) then None else Some ((xs @ ys) ! Suc i)"
  have old: "n_prev (node_at h ((xs @ n # ys) ! j)) = (if j = 0 then None else Some ((xs @ n # ys) ! (j - 1)))"
    "n_next (node_at h ((xs @ n # ys) ! j)) = (if Suc j = length (xs @ n # ys) then None else Some ((xs @ n # ys) ! Suc j))"
    if "j < length (xs @ n # ys)" for j
    using assms(1) that unfolding siblings_ok_def by blast+
  have c: "?c \<in> set (xs @ ys)" using i by (rule nth_mem)
  note new = assms(3) [OF c] assms(4) [OF c]
  show "n_prev (node_at h' ?c) = ?prev \<and> n_next (node_at h' ?c) = ?next"
  proof (cases "i < length xs")
    case True
    then have x: "?c = xs ! i" "xs ! i \<in> set xs" by (simp_all add: nth_append)
    have "ys \<noteq> [] \<Longrightarrow> hd ys \<in> set ys" by simp
    then have nh: "\<not> (ys \<noteq> [] \<and> ?c = hd ys)" using x assms(2) by auto
    have p: "n_prev (node_at h (xs ! i)) = ?prev" using old(1) [of i] True by (auto simp: nth_append)
    have l: "xs \<noteq> [] \<and> ?c = last xs \<longleftrightarrow> Suc i = length xs"
    proof -
      have ne: "xs \<noteq> []" using True by auto
      then have "last xs = xs ! (length xs - 1)" "length xs - 1 < length xs" using last_conv_nth [of xs] by simp_all
      then have "xs ! i = last xs \<longleftrightarrow> i = length xs - 1" using nth_eq_iff_index_eq [of xs i "length xs - 1"] True assms(2) by simp
      then show ?thesis using ne True x(1) by auto
    qed
    have "n_next (node_at h (xs ! i)) = ?next" if "Suc i \<noteq> length xs" using old(2) [of i] True that by (auto simp: nth_append)
    moreover have "n_next (node_at h n) = ?next" if "Suc i = length xs" using n(2) that by (auto simp: nth_append hd_conv_nth)
    ultimately show ?thesis using new nh p l x(1) by auto
  next
    case False
    define j where "j = i - length xs"
    have j: "i = length xs + j" "j < length ys" using False i by (simp_all add: j_def)
    then have y: "?c = ys ! j" "ys ! j \<in> set ys" by (simp_all add: nth_append)
    have "set xs \<inter> set ys = {}" using assms(2) by simp
    then have nl: "\<not> (xs \<noteq> [] \<and> ?c = last xs)" using y by (metis disjoint_iff last_in_set)
    have q: "n_next (node_at h (ys ! j)) = ?next" using old(2) [of "Suc i"] j by (auto simp: nth_append)
    have hd: "ys \<noteq> [] \<and> ?c = hd ys \<longleftrightarrow> j = 0"
      using j y assms(2) nth_eq_iff_index_eq [of ys j 0] by (auto simp: hd_conv_nth)
    have "n_prev (node_at h (ys ! j)) = ?prev" if "j \<noteq> 0" using old(1) [of "Suc i"] j that by (auto simp: nth_append)
    moreover have "n_prev (node_at h n) = ?prev" if "j = 0" using n(1) j that by (auto simp: nth_append last_conv_nth)
    ultimately show ?thesis using new nl q hd y(1) by auto
  qed
qed

lemma set_next_at: "node_at (set_next a b h) m = (if a = Some m then (node_at h m)\<lparr>n_next := b\<rparr> else node_at h m)"
  by (auto simp: set_next_def split: option.split)

lemma set_prev_at: "node_at (set_prev a b h) m = (if a = Some m then (node_at h m)\<lparr>n_prev := b\<rparr> else node_at h m)"
  by (auto simp: set_prev_def split: option.split)

text \<open>What \<open>removeChild\<close> has done when it clears the node, with the node's neighbours \<open>a\<close> and \<open>b\<close>.\<close>

lemma removeChild_at:
  assumes "n \<in> set (n_children (node_at h p))" "n \<noteq> p" "n_prev (node_at h n) = a" "n_next (node_at h n) = b"
    "a \<noteq> Some p" "a \<noteq> Some n" "b \<noteq> Some p" "b \<noteq> Some n" "a = None \<or> a \<noteq> b"
  shows "\<exists>g. removeChild p n h = (True, node_clear n g) \<and> next_id g = next_id h \<and> selected g = removeAll n (selected h) \<and>
    (\<forall>m. node_at g m =
      (if m = p then (node_at h p)\<lparr>n_children := remove1 n (n_children (node_at h p)),
         n_first := (if n_first (node_at h p) = Some n then b else n_first (node_at h p)),
         n_last := (if n_last (node_at h p) = Some n then a else n_last (node_at h p))\<rparr>
       else if a = Some m then (node_at h m)\<lparr>n_next := b\<rparr>
       else if b = Some m then (node_at h m)\<lparr>n_prev := a\<rparr> else node_at h m))"
proof -
  define h1 where "h1 = upd p (n_children_update (remove1 n)) (h\<lparr>selected := removeAll n (selected h)\<rparr>)"
  define h2 where "h2 = set_next a b h1"
  define h3 where "h3 = set_prev b a h2"
  define h4 where "h4 = (if n_first (node_at h3 p) = Some n then upd p (n_first_update (\<lambda>_. b)) h3 else h3)"
  define h5 where "h5 = (if n_last (node_at h4 p) = Some n then upd p (n_last_update (\<lambda>_. a)) h4 else h4)"
  have a1: "node_at h1 m = (if m = p then (node_at h p)\<lparr>n_children := remove1 n (n_children (node_at h p))\<rparr> else node_at h m)" for m
    by (simp add: h1_def)
  have a3: "node_at h3 m = (if a = Some m then (node_at h1 m)\<lparr>n_next := b\<rparr> else if b = Some m then (node_at h1 m)\<lparr>n_prev := a\<rparr> else node_at h1 m)" for m
    using assms(9) by (auto simp: h3_def h2_def set_next_at set_prev_at)
  have n1: "n_prev (node_at h1 n) = a" "n_next (node_at h1 n) = b" using assms(2-4) by (simp_all add: a1)
  have n2: "n_prev (node_at h2 n) = a" "n_next (node_at h2 n) = b" using assms(6) n1 by (simp_all add: h2_def set_next_at)
  have n3: "n_prev (node_at h3 n) = a" "n_next (node_at h3 n) = b" using assms(6,8) n1 by (simp_all add: a3)
  have n4: "n_prev (node_at h4 n) = a" using assms(2) n3 by (simp add: h4_def)
  have p3: "node_at h3 p = node_at h1 p" using assms(5,7) by (simp add: a3)
  have nin: "n \<in> set (n_children (node_at (h\<lparr>selected := removeAll n (selected h)\<rparr>) p))" using assms(1) by simp
  have "removeChild p n h = (True, node_clear n h5)"
    unfolding removeChild_def Let_def h1_def [symmetric] if_not_P [OF notnotD [OF notI]] n1 h2_def [symmetric] n2 h3_def [symmetric] n3
      h4_def [symmetric] n4 h5_def [symmetric]
    using nin by simp
  moreover have "next_id h5 = next_id h \<and> selected h5 = removeAll n (selected h)"
    by (simp add: h5_def h4_def h3_def h2_def h1_def set_next_def set_prev_def split: option.split)
  moreover have "node_at h5 m =
      (if m = p then (node_at h p)\<lparr>n_children := remove1 n (n_children (node_at h p)),
         n_first := (if n_first (node_at h p) = Some n then b else n_first (node_at h p)),
         n_last := (if n_last (node_at h p) = Some n then a else n_last (node_at h p))\<rparr>
       else if a = Some m then (node_at h m)\<lparr>n_next := b\<rparr>
       else if b = Some m then (node_at h m)\<lparr>n_prev := a\<rparr> else node_at h m)" for m
  proof (cases "m = p")
    case True
    then show ?thesis using p3 by (simp add: h5_def h4_def a1)
  next
    case False
    then have "node_at h5 m = node_at h3 m" by (simp add: h5_def h4_def)
    then show ?thesis using False by (simp add: a3 a1)
  qed
  ultimately show ?thesis by blast
qed

lemma remove_kid:
  assumes "holds h True (IT p a (xs @ u # ys))" "distinct (ids (IT p a (xs @ u # ys)))"
    "\<forall>m \<in> set (ids (IT p a (xs @ u # ys))). m < next_id h"
    and removed: "removeChild p (it_id u) h = (r, h2)"
  shows "r" "holds h2 True (IT p a (xs @ ys))" "holds h2 False u" "next_id h2 = next_id h" "same_place p h h2"
    "n_parent (node_at h2 (it_id u)) = None"
proof -
  define n where "n = it_id u"
  let ?xs = "map it_id xs" let ?ys = "map it_id ys" let ?cs = "?xs @ n # ?ys"
  have cs: "map it_id (xs @ u # ys) = ?cs" by (simp add: n_def)
  have d: "distinct ?cs" using kid_ids_distinct [OF assms(2)] by (simp add: n_def)
  have P: "node_ok h True p a ?cs" using assms(1) cs by simp
  have sib: "siblings_ok h ?cs" using P by (simp add: node_ok_def)
  note nb = siblings_at [OF sib]
  have mem: "c \<in> set (concat (map ids (xs @ u # ys)))" if "c \<in> set ?cs" for c
  proof -
    have "c \<in> set (map it_id (xs @ u # ys))" using that unfolding cs .
    then obtain v where v: "v \<in> set (xs @ u # ys)" "c = it_id v" by auto
    show ?thesis unfolding v(2) by (rule kid_id [OF v(1)])
  qed
  have "p \<notin> set (concat (map ids (xs @ u # ys)))" using assms(2) by simp
  then have pc: "c \<noteq> p" if "c \<in> set ?cs" for c using mem [OF that] by blast
  have pn: "n \<noteq> p" by (rule pc) simp
  let ?g = "\<lambda>m. if m = p then (node_at h p)\<lparr>n_children := ?xs @ ?ys, n_first := (if ?xs = [] then n_next (node_at h n) else n_first (node_at h p)),
       n_last := (if ?ys = [] then n_prev (node_at h n) else n_last (node_at h p))\<rparr>
     else if ?xs \<noteq> [] \<and> m = last ?xs then (node_at h m)\<lparr>n_next := n_next (node_at h n)\<rparr>
     else if ?ys \<noteq> [] \<and> m = hd ?ys then (node_at h m)\<lparr>n_prev := n_prev (node_at h n)\<rparr> else node_at h m"
  have kids: "n_children (node_at h p) = ?cs" and fl: "n_first (node_at h p) = Some (hd ?cs)" "n_last (node_at h p) = Some (last ?cs)"
    using P by (simp_all add: node_ok_def)
  have nx: "?xs \<noteq> [] \<Longrightarrow> last ?xs \<in> set ?xs" "?ys \<noteq> [] \<Longrightarrow> hd ?ys \<in> set ?ys" by (rule last_in_set hd_in_set; simp)+
  have dd: "n \<notin> set ?xs" "n \<notin> set ?ys" "set ?xs \<inter> set ?ys = {}" using d by simp_all
  have inp: "c \<in> set ?xs \<Longrightarrow> c \<noteq> p" "c \<in> set ?ys \<Longrightarrow> c \<noteq> p" for c using pc [of c] by simp_all
  have ap: "?xs \<noteq> [] \<Longrightarrow> last ?xs \<noteq> p \<and> last ?xs \<noteq> n" "?ys \<noteq> [] \<Longrightarrow> hd ?ys \<noteq> p \<and> hd ?ys \<noteq> n"
    "?xs \<noteq> [] \<Longrightarrow> ?ys \<noteq> [] \<Longrightarrow> last ?xs \<noteq> hd ?ys"
    using nx inp dd by (metis disjoint_iff)+
  have f1: "hd ?cs = n \<longleftrightarrow> ?xs = []" using d by (cases "?xs") auto
  have f2: "last ?cs = n \<longleftrightarrow> ?ys = []" using d by (auto simp: last_append simp del: set_map)
  have r1: "remove1 n ?cs = ?xs @ ?ys" using d by (simp add: remove1_append)
  obtain h5 where h5: "removeChild p n h = (True, node_clear n h5)" "next_id h5 = next_id h" "selected h5 = removeAll n (selected h)"
      "\<And>m. node_at h5 m = ?g m"
  proof -
    have "n \<in> set (n_children (node_at h p))" using kids by simp
    moreover have "n_prev (node_at h n) \<noteq> Some p" "n_prev (node_at h n) \<noteq> Some n" "n_next (node_at h n) \<noteq> Some p"
      "n_next (node_at h n) \<noteq> Some n" "n_prev (node_at h n) = None \<or> n_prev (node_at h n) \<noteq> n_next (node_at h n)"
      unfolding nb using ap by auto
    ultimately obtain g where g: "removeChild p n h = (True, node_clear n g)" "next_id g = next_id h"
      "selected g = removeAll n (selected h)" and at: "\<And>m. node_at g m =
      (if m = p then (node_at h p)\<lparr>n_children := remove1 n (n_children (node_at h p)),
         n_first := (if n_first (node_at h p) = Some n then n_next (node_at h n) else n_first (node_at h p)),
         n_last := (if n_last (node_at h p) = Some n then n_prev (node_at h n) else n_last (node_at h p))\<rparr>
       else if n_prev (node_at h n) = Some m then (node_at h m)\<lparr>n_next := n_next (node_at h n)\<rparr>
       else if n_next (node_at h n) = Some m then (node_at h m)\<lparr>n_prev := n_prev (node_at h n)\<rparr> else node_at h m)"
      using removeChild_at [OF _ pn refl refl, of h] by blast
    have "(n_first (node_at h p) = Some n) = (?xs = [])" "(n_last (node_at h p) = Some n) = (?ys = [])"
      unfolding fl using f1 f2 by (simp_all only: option.inject)
    moreover have "(n_prev (node_at h n) = Some m) = (?xs \<noteq> [] \<and> m = last ?xs)" "(n_next (node_at h n) = Some m) = (?ys \<noteq> [] \<and> m = hd ?ys)" for m
      unfolding nb by auto
    ultimately have "node_at g m = ?g m" for m unfolding at kids r1 by simp
    with g show thesis by (rule that)
  qed
  have "(r, h2) = (True, node_clear n h5)" using removed h5(1) by (simp add: n_def)
  then have r: "r" and h2: "h2 = node_clear n h5" by simp_all
  show "r" by (rule r)
  have own: "holds h5 True u"
  proof (rule holds_same)
    show "holds h True u" using assms(1) by simp
    show "distinct (ids u)" by (rule distinct_kid [OF assms(2)]) simp
    fix m
    assume m: "m \<in> set (ids u)"
    have "m \<noteq> p" using assms(2) m by auto
    moreover have "m \<noteq> it_id v" if "v \<in> set (xs @ ys)" for v
    proof
      assume "m = it_id v"
      then have "m \<in> set (ids v)" using ids_nonempty by simp
      moreover have "set (ids v) \<inter> set (ids u) = {}" using assms(2) that by auto
      ultimately show False using m by auto
    qed
    ultimately show "node_at h5 m = node_at h m" using nx by (auto simp: h5(4))
  qed
  have du: "distinct (ids u)" by (rule distinct_kid [OF assms(2)]) simp
  have "heap_tree h True u" using assms(1,3) du by (auto simp: heap_tree_def)
  then have dep: "depth u \<le> next_id h5" using depth_next by (fastforce simp: h5(2))
  have h2p: "h2 = upd n (\<lambda>x. x\<lparr>n_parent := None, n_prev := None, n_next := None\<rparr>) (paint (ids u) False h5)"
    using setOwnerTree_paint [OF own du dep, of False] by (simp add: h2 node_clear_def n_def)
  have nu: "n \<in> set (ids u)" by (simp add: n_def ids_nonempty)
  have pu: "p \<notin> set (ids u)" using assms(2) by auto
  have at: "node_at h2 m = (if m = n then (node_at h n)\<lparr>n_parent := None, n_prev := None, n_next := None, n_owned := False\<rparr>
      else if m \<in> set (ids u) then (node_at h5 m)\<lparr>n_owned := False\<rparr> else ?g m)" for m
    using nu pn ap by (auto simp: h2p h5(4))
  show "next_id h2 = next_id h" by (simp add: h2p h5(2))
  show "n_parent (node_at h2 (it_id u)) = None" by (simp add: at n_def)
  show "same_place p h h2" using pn pu by (simp add: same_place_def at)
  show "holds h2 False u"
  proof -
    have "holds (paint (ids u) False h5) False u" by (rule holds_paint [OF own du]) simp
    moreover have "holds h2 False u = holds (paint (ids u) False h5) False u"
      by (rule holds_cong) (simp_all add: h2p n_def du)
    ultimately show ?thesis by simp
  qed
  have apart: "m \<notin> set (ids u)" if "v \<in> set (xs @ ys)" "m \<in> set (ids v)" for v m
  proof -
    have "set (ids v) \<inter> set (ids u) = {}" using assms(2) that(1) by auto
    then show ?thesis using that(2) by auto
  qed
  have root: "node_at h2 (it_id v) = ?g (it_id v)" if "v \<in> set (xs @ ys)" for v
  proof -
    have "it_id v \<noteq> n" "it_id v \<notin> set (ids u)" using apart [OF that ids_nonempty] nu by auto
    then show ?thesis by (simp only: at if_False)
  qed
  have kids2: "holds h2 True v" if v: "v \<in> set (xs @ ys)" for v
  proof -
    have "it_id v \<in> set ?xs \<or> it_id v \<in> set ?ys" using v by auto
    then have rv: "it_id v \<noteq> p" using inp by blast
    have "node_at h2 m = node_at h m" if m: "m \<in> set (ids v)" "m \<noteq> it_id v" for m
    proof -
      have "m \<noteq> p" using assms(2) v m(1) by auto
      moreover have "m \<notin> set ?xs \<union> set ?ys"
      proof
        assume "m \<in> set ?xs \<union> set ?ys"
        then obtain w where w: "w \<in> set (xs @ ys)" "it_id w = m" by auto
        then have "w \<noteq> v" using m(2) by auto
        have "distinct (concat (map ids (xs @ u # ys)))" using assms(2) by simp
        from kids_apart [OF this] w(1) v \<open>w \<noteq> v\<close> have "set (ids w) \<inter> set (ids v) = {}" by auto
        then show False using w(2) m(1) ids_nonempty [of w] by auto
      qed
      then have "\<not> (?xs \<noteq> [] \<and> m = last ?xs)" "\<not> (?ys \<noteq> [] \<and> m = hd ?ys)" using nx by blast+
      moreover have "m \<noteq> n" "m \<notin> set (ids u)" using apart [OF v m(1)] nu by auto
      ultimately show ?thesis by (simp only: at if_False)
    qed
    moreover have "holds h True v" using assms(1) v by (auto simp: list_all_iff)
    moreover have "distinct (ids v)" by (rule distinct_kid [OF assms(2)]) (use v in auto)
    ultimately show ?thesis using holds_cong [of h2 v h True] rv root [OF v] by auto
  qed
  have gp: "node_at h2 p = ?g p" using pn pu by (simp add: at)
  have "node_ok h2 True p a (?xs @ ?ys)"
  proof -
    have at2: "node_at h2 c = ?g c" if "c \<in> set (?xs @ ?ys)" for c
    proof -
      have "c \<in> it_id ` set (xs @ ys)" using that by (simp add: image_Un)
      then obtain v where v: "v \<in> set (xs @ ys)" "c = it_id v" by blast
      show ?thesis unfolding v(2) by (rule root [OF v(1)])
    qed
    have "siblings_ok h2 (?xs @ ?ys)"
    proof (rule siblings_remove [OF sib d])
      fix c
      assume c: "c \<in> set (?xs @ ?ys)"
      then have "c \<noteq> p" using inp by auto
      then show "n_prev (node_at h2 c) = (if ?ys \<noteq> [] \<and> c = hd ?ys then n_prev (node_at h n) else n_prev (node_at h c))"
        "n_next (node_at h2 c) = (if ?xs \<noteq> [] \<and> c = last ?xs then n_next (node_at h n) else n_next (node_at h c))"
        using ap(3) unfolding at2 [OF c] by auto
    qed
    moreover have "n_parent (node_at h2 c) = Some p" if c: "c \<in> set (?xs @ ?ys)" for c
    proof -
      have "c \<noteq> p" using c inp by auto
      moreover have "n_parent (node_at h c) = Some p" using P c by (auto simp: node_ok_def)
      ultimately show ?thesis unfolding at2 [OF c] by auto
    qed
    moreover have "n_attrs (node_at h p) = a" "n_owned (node_at h p)" using P by (simp_all add: node_ok_def)
    moreover have "n_first (node_at h2 p) = (if ?xs @ ?ys = [] then None else Some (hd (?xs @ ?ys)))"
      "n_last (node_at h2 p) = (if ?xs @ ?ys = [] then None else Some (last (?xs @ ?ys)))"
      unfolding gp using nb fl by (auto simp: hd_append last_append)
    moreover have "n_attrs (node_at h2 p) = n_attrs (node_at h p)" "n_owned (node_at h2 p) = n_owned (node_at h p)"
      "n_children (node_at h2 p) = ?xs @ ?ys" unfolding gp by simp_all
    ultimately show ?thesis unfolding node_ok_def by blast
  qed
  then show "holds h2 True (IT p a (xs @ ys))" using kids2 by (simp add: list_all_iff)
qed

section \<open>Cascades\<close>

text \<open>The children a state has are those of a tree.\<close>

fun kids_match :: "('s \<Rightarrow> nat \<Rightarrow> nat list) \<Rightarrow> 's \<Rightarrow> 'a itree \<Rightarrow> bool" where
  "kids_match kids s (IT n a ts) \<longleftrightarrow> kids s n = map it_id ts \<and> list_all (kids_match kids s) ts"

lemma kids_match_cong: "(\<And>n. kids s n = kids s' n) \<Longrightarrow> kids_match kids s t = kids_match kids s' t"
  by (induction t) (auto simp: list_all_iff)

lemma holds_kids: "holds h b t \<Longrightarrow> kids_match (\<lambda>h n. n_children (node_at h n)) h t"
  by (induction t) (auto simp: node_ok_def list_all_iff)

text \<open>A cascade of a function that changes no children visits every node, parents first.\<close>

lemma cascade_fold:
  assumes "kids_match kids s t" "depth t \<le> fuel" "\<And>n s. fn n s = (True, g n s)" "\<And>n s m. kids (g n s) m = kids s m"
  shows "cascade kids fn fuel (it_id t) s = Some (True, fold g (ids t) s)"
  using assms(1,2)
proof (induction t arbitrary: s fuel)
  case (IT n a ts)
  obtain k where k: "fuel = Suc k" using IT.prems(2) by (cases fuel) auto
  have dep: "depth u \<le> k" if "u \<in> set ts" for u using IT.prems(2) k that by simp
  have same: "kids (fold g ms s) m = kids s m" for ms m s by (induction ms arbitrary: s) (simp_all add: assms(4))
  have loop: "cascade_loop kids fn k n i (length ts) s' = Some (True, fold g (concat (map ids (drop i ts))) s')"
    if "i \<le> length ts" "\<And>m. kids s' m = kids s m" for i s'
    using that
  proof (induction "length ts - i" arbitrary: i s')
    case 0
    then show ?case by (simp add: cascade_unfold)
  next
    case (Suc x)
    then have i: "i < length ts" by simp
    have ks: "kids s' n = map it_id ts" using IT.prems(1) Suc.prems(2) by simp
    have "kids_match kids s' (ts ! i)" using IT.prems(1) i kids_match_cong [of kids s' s "ts ! i"] Suc.prems(2)
      by (simp add: list_all_length)
    then have "cascade kids fn k (it_id (ts ! i)) s' = Some (True, fold g (ids (ts ! i)) s')"
      using IT.IH [of "ts ! i"] dep i by simp
    moreover have "cascade_loop kids fn k n (Suc i) (length ts) (fold g (ids (ts ! i)) s') =
        Some (True, fold g (concat (map ids (drop (Suc i) ts))) (fold g (ids (ts ! i)) s'))"
      using Suc(1) [of "Suc i"] Suc(2) i same Suc.prems(2) by simp
    ultimately show ?case
      using i ks by (subst cascade_loop.simps) (simp add: Cons_nth_drop_Suc [symmetric])
  qed
  have "kids (g n s) n = map it_id ts" using IT.prems(1) assms(4) by simp
  moreover have "fn n s = (True, g n s)" by (rule assms(3))
  ultimately show ?case using loop [of 0 "g n s"] assms(4) by (simp add: k cascade.simps)
qed

end
