(* ===== verification/FilesTab.thy ===== *)
theory FilesTab
  imports TreeNodes Formatters
begin

text \<open>
  \<open>deluge-all/details/FilesTab.js\<close>: the tree of a torrent's files in the details panel, filled from
  \<open>web.get_torrent_files\<close>, brought up to date by every further answer, and the priorities its menu sets.
  The columns, the menu and the sorting of the nodes as they are drawn are not modelled.
\<close>

section \<open>Files\<close>

text \<open>The answer of \<open>get_torrent_files\<close>: the contents of a folder are a dictionary by name.  Sizes, progress and
  priorities are passed on as they are.\<close>

datatype fentry =
    FDir jsval jsval jsval "(string \<times> fentry) list"
  | FFile nat jsval jsval jsval

record fattrs =
  fa_filename :: string
  fa_fileIndex :: "nat option"
  fa_size :: jsval
  fa_progress :: jsval
  fa_priority :: jsval
  fa_leaf :: bool

fun entry_attrs :: "string \<Rightarrow> fentry \<Rightarrow> fattrs" where
  "entry_attrs nm (FDir sz prog prio es) =
     \<lparr>fa_filename = nm, fa_fileIndex = None, fa_size = sz, fa_progress = prog, fa_priority = prio, fa_leaf = False\<rparr>"
| "entry_attrs nm (FFile i sz prog prio) =
     \<lparr>fa_filename = nm, fa_fileIndex = Some i, fa_size = sz, fa_progress = prog, fa_priority = prio, fa_leaf = True\<rparr>"

text \<open>The attributes \<open>updateFileTree\<close> sets.\<close>

definition refresh_attrs :: "fentry \<Rightarrow> fattrs \<Rightarrow> fattrs" where
  "refresh_attrs item a =
     (case item of
        FDir sz prog prio _ \<Rightarrow> a\<lparr>fa_size := sz, fa_progress := prog, fa_priority := prio\<rparr>
      | FFile _ sz prog prio \<Rightarrow> a\<lparr>fa_size := sz, fa_progress := prog, fa_priority := prio\<rparr>)"

section \<open>The tab\<close>

text \<open>Node 0 is the root.  \<open>ft_requests\<close>: the torrents whose files were asked for and have not been answered;
  \<open>ft_sent\<close>: the torrents and priorities \<open>set_torrent_options\<close> was called with; \<open>ft_clicks\<close>: what its answer
  does, the nodes that were selected and the priority.\<close>

record files_tab =
  ft_heap :: "fattrs theap"
  ft_torrentId :: "string option"
  ft_requests :: "string list"
  ft_sent :: "(string option \<times> jsval list) list"
  ft_clicks :: "(nat list \<times> jsval) list"

definition root_attrs :: fattrs where
  "root_attrs = \<lparr>fa_filename = ''Files'', fa_fileIndex = None, fa_size = Undefined, fa_progress = Undefined, fa_priority = Undefined, fa_leaf = False\<rparr>"

definition files_tab_new :: files_tab where
  "files_tab_new =
     \<lparr>ft_heap = setRootNode 0 (snd (tree_node root_attrs \<lparr>node_at = (\<lambda>_. node_new root_attrs), next_id = 0, selected = []\<rparr>)),
      ft_torrentId = None, ft_requests = [], ft_sent = [], ft_clicks = []\<rparr>"

abbreviation heap_kids :: "fattrs theap \<Rightarrow> nat \<Rightarrow> nat list" where
  "heap_kids h n \<equiv> n_children (node_at h n)"

text \<open>\<open>clear\<close>: \<open>Some (False, _)\<close> is a \<open>TypeError\<close>; the tree is never deeper than the nodes that were ever made.\<close>

definition clear_fn :: "nat \<Rightarrow> fattrs theap \<Rightarrow> bool \<times> fattrs theap" where
  "clear_fn n h =
     (case n_parent (node_at h n) of
        None \<Rightarrow> (True, h)
      | Some parentNode \<Rightarrow>
          if \<not> n_owned (node_at h parentNode) then (True, h) else (True, snd (removeChild parentNode n h)))"

definition clear_tree :: "fattrs theap \<Rightarrow> (bool \<times> fattrs theap) option" where
  "clear_tree h = (if \<not> hasChildNodes fa_leaf 0 h then Some (True, h) else cascade heap_kids clear_fn (next_id h) 0 h)"

text \<open>The walks of \<open>createFileTree\<close> and \<open>updateFileTree\<close>.\<close>

fun create_walk :: "(string \<times> fentry) list \<Rightarrow> nat \<Rightarrow> fattrs theap \<Rightarrow> fattrs theap"
  and create_item :: "string \<Rightarrow> fentry \<Rightarrow> nat \<Rightarrow> fattrs theap \<Rightarrow> fattrs theap"
where
  "create_walk [] parentNode h = h"
| "create_walk ((nm, item) # es) parentNode h = create_walk es parentNode (create_item nm item parentNode h)"
| "create_item nm (FDir sz prog prio es) parentNode h =
     (case tree_node (entry_attrs nm (FDir sz prog prio es)) h of
        (n, h) \<Rightarrow> create_walk es n (appendChild parentNode n h))"
| "create_item nm (FFile i sz prog prio) parentNode h =
     (case tree_node (entry_attrs nm (FFile i sz prog prio)) h of
        (n, h) \<Rightarrow> appendChild parentNode n h)"

text \<open>Its last line raises when the root has no child to expand.\<close>

definition createFileTree :: "(string \<times> fentry) list \<Rightarrow> fattrs theap \<Rightarrow> bool \<times> fattrs theap" where
  "createFileTree files h = (let h = create_walk files 0 h in (n_first (node_at h 0) \<noteq> None, h))"

text \<open>A name that is not among the children makes \<open>node.attributes\<close> raise.\<close>

fun update_walk :: "(string \<times> fentry) list \<Rightarrow> nat \<Rightarrow> fattrs theap \<Rightarrow> bool \<times> fattrs theap"
  and update_item :: "fentry \<Rightarrow> nat \<Rightarrow> fattrs theap \<Rightarrow> bool \<times> fattrs theap"
where
  "update_walk [] parentNode h = (True, h)"
| "update_walk ((nm, item) # es) parentNode h =
     (case findChild (\<lambda>a. fa_filename a = nm) parentNode h of
        None \<Rightarrow> (False, h)
      | Some node \<Rightarrow>
          (case update_item item node (upd node (n_attrs_update (refresh_attrs item)) h) of
             (True, h) \<Rightarrow> update_walk es parentNode h
           | (False, h) \<Rightarrow> (False, h)))"
| "update_item (FDir sz prog prio es) node h = update_walk es node h"
| "update_item (FFile i sz prog prio) node h = (True, h)"

definition updateFileTree :: "(string \<times> fentry) list \<Rightarrow> fattrs theap \<Rightarrow> bool \<times> fattrs theap" where
  "updateFileTree files h = update_walk files 0 h"

definition tab_clear :: "files_tab \<Rightarrow> (bool \<times> files_tab) option" where
  "tab_clear t = map_option (\<lambda>(ok, h). (ok, t\<lparr>ft_heap := h\<rparr>)) (clear_tree (ft_heap t))"

text \<open>\<open>update\<close> of the tab: if clearing raises, the rest is not reached.\<close>

definition tab_update :: "string \<Rightarrow> files_tab \<Rightarrow> (bool \<times> files_tab) option" where
  "tab_update torrentId t =
     (case (if ft_torrentId t \<noteq> Some torrentId
            then map_option (\<lambda>(ok, t). (ok, if ok then t\<lparr>ft_torrentId := Some torrentId\<rparr> else t)) (tab_clear t)
            else Some (True, t)) of
        Some (True, t) \<Rightarrow> Some (True, t\<lparr>ft_requests := ft_requests t @ [torrentId]\<rparr>)
      | r \<Rightarrow> r)"

text \<open>An answer to one of the requests that are out; which torrent it is of is not looked at.\<close>

definition onRequestComplete :: "nat \<Rightarrow> (string \<times> fentry) list \<Rightarrow> files_tab \<Rightarrow> bool \<times> files_tab" where
  "onRequestComplete i files t =
     (let t = t\<lparr>ft_requests := take i (ft_requests t) @ drop (Suc i) (ft_requests t)\<rparr>
      in case (if \<not> hasChildNodes fa_leaf 0 (ft_heap t) then createFileTree files (ft_heap t) else updateFileTree files (ft_heap t)) of
           (ok, h) \<Rightarrow> (ok, t\<lparr>ft_heap := h\<rparr>))"

section \<open>The menu of priorities\<close>

text \<open>\<open>indexes[node.attributes.fileIndex] = v\<close> for a node that is a file; the object is kept by index.\<close>

definition put_index :: "(nat \<Rightarrow> jsval) \<Rightarrow> nat \<Rightarrow> fattrs theap \<times> (nat \<times> jsval) list \<Rightarrow> fattrs theap \<times> (nat \<times> jsval) list" where
  "put_index v n s =
     (case s of (h, indexes) \<Rightarrow>
        (case fa_fileIndex (n_attrs (node_at h n)) of
           None \<Rightarrow> s
         | Some i \<Rightarrow> (h, AList.update i (v n) indexes)))"

definition cascade_indexes :: "(nat \<Rightarrow> jsval) \<Rightarrow> nat \<Rightarrow> fattrs theap \<times> (nat \<times> jsval) list \<Rightarrow> (bool \<times> fattrs theap \<times> (nat \<times> jsval) list) option" where
  "cascade_indexes v n s =
     cascade (\<lambda>s. heap_kids (fst s)) (\<lambda>n s. (True, put_index v n s)) (next_id (fst s)) n s"

text \<open>What a selected node adds: a folder the files below it, a file itself.\<close>

definition click_node :: "jsval \<Rightarrow> nat \<Rightarrow> fattrs theap \<times> (nat \<times> jsval) list \<Rightarrow> fattrs theap \<times> (nat \<times> jsval) list" where
  "click_node priority n s =
     (if \<not> fa_leaf (n_attrs (node_at (fst s) n))
      then (case cascade_indexes (\<lambda>_. priority) n s of Some (_, s) \<Rightarrow> s | None \<Rightarrow> s)
      else put_index (\<lambda>_. priority) n s)"

text \<open>\<open>new Array(n)\<close>, filled by index: as long as it must be, with holes where no file has the index.\<close>

definition index_array :: "(nat \<times> jsval) list \<Rightarrow> jsval list" where
  "index_array indexes =
     map (\<lambda>i. case map_of indexes i of Some v \<Rightarrow> v | None \<Rightarrow> Undefined)
       [0..<Max (insert (length indexes) (set (map (Suc \<circ> fst) indexes)))]"

definition click_indexes :: "jsval \<Rightarrow> fattrs theap \<Rightarrow> (nat \<times> jsval) list" where
  "click_indexes priority h =
     (case cascade_indexes (\<lambda>n. fa_priority (n_attrs (node_at h n))) 0 (h, []) of
        Some (_, s) \<Rightarrow> snd (fold (click_node priority) (selected h) s)
      | None \<Rightarrow> [])"

definition tab_onItemClick :: "jsval \<Rightarrow> files_tab \<Rightarrow> files_tab" where
  "tab_onItemClick priority t =
     t\<lparr>ft_sent := ft_sent t @ [(ft_torrentId t, index_array (click_indexes priority (ft_heap t)))],
       ft_clicks := ft_clicks t @ [(selected (ft_heap t), priority)]\<rparr>"

text \<open>The success function of the call.\<close>

definition click_done :: "nat \<Rightarrow> files_tab \<Rightarrow> files_tab" where
  "click_done i t =
     (case ft_clicks t ! i of (nodes, priority) \<Rightarrow>
        t\<lparr>ft_heap := fold (\<lambda>n. upd n (n_attrs_update (fa_priority_update (\<lambda>_. priority)))) nodes (ft_heap t),
          ft_clicks := take i (ft_clicks t) @ drop (Suc i) (ft_clicks t)\<rparr>)"

section \<open>What createFileTree makes\<close>

text \<open>The tree of nodes made for an entry.\<close>

fun made :: "fattrs itree \<Rightarrow> string \<Rightarrow> fentry \<Rightarrow> bool" and made_list :: "fattrs itree list \<Rightarrow> (string \<times> fentry) list \<Rightarrow> bool" where
  "made (IT n a ts) nm (FDir sz prog prio es) \<longleftrightarrow> a = entry_attrs nm (FDir sz prog prio es) \<and> made_list ts es"
| "made (IT n a ts) nm (FFile i sz prog prio) \<longleftrightarrow> a = entry_attrs nm (FFile i sz prog prio) \<and> ts = []"
| "made_list [] es \<longleftrightarrow> es = []"
| "made_list (t # ts) es \<longleftrightarrow> (case es of [] \<Rightarrow> False | (nm, item) # es \<Rightarrow> made t nm item \<and> made_list ts es)"

lemma made_append: "made_list ts es \<Longrightarrow> made_list us fs \<Longrightarrow> made_list (ts @ us) (es @ fs)"
  by (induction ts arbitrary: es) (auto split: list.splits)

text \<open>A node and its subtree, all of them nodes that have been made.\<close>

definition subtree :: "fattrs theap \<Rightarrow> fattrs itree \<Rightarrow> bool" where
  "subtree h t \<longleftrightarrow> heap_tree h True t"

text \<open>The children of a node are added to; everything else stays, but for the place of the last child.\<close>

definition grows :: "nat \<Rightarrow> fattrs \<Rightarrow> fattrs itree list \<Rightarrow> fattrs itree list \<Rightarrow> fattrs theap \<Rightarrow> fattrs theap \<Rightarrow> bool" where
  "grows p a ts us h h' \<longleftrightarrow>
     heap_tree h' True (IT p a (ts @ us)) \<and> (\<forall>m \<in> set (concat (map ids us)). next_id h \<le> m) \<and>
     outside (ids (IT p a ts)) h h' \<and> same_place p h h'"

lemma grows_refl: "heap_tree h True (IT p a ts) \<Longrightarrow> grows p a ts [] h h"
  by (simp add: grows_def outside_def same_place_def)

lemma grows_trans:
  assumes "grows p a ts us h h'" "grows p a (ts @ us) vs h' h''"
  shows "grows p a ts (us @ vs) h h''"
proof -
  have n: "next_id h \<le> next_id h'" using assms(1) by (simp add: grows_def outside_def)
  then have "\<forall>m \<in> set (concat (map ids (us @ vs))). next_id h \<le> m" using assms by (fastforce simp: grows_def)
  moreover have "outside (ids (IT p a ts)) h h''"
    unfolding outside_def
  proof (intro conjI allI impI)
    fix m
    assume m: "m < next_id h" "m \<notin> set (ids (IT p a ts))"
    then have "m \<notin> set (concat (map ids us))" using assms(1) by (fastforce simp: grows_def)
    then have "m \<notin> set (ids (IT p a (ts @ us)))" using m(2) by simp
    then show "node_at h'' m = node_at h m" using assms m n by (auto simp: grows_def outside_def)
  qed (use assms in \<open>auto simp: grows_def outside_def\<close>)
  ultimately show ?thesis using assms same_place_trans by (fastforce simp: grows_def)
qed

lemma grows_new:
  assumes "heap_tree h True (IT p a ts)" "tree_node an h = (n, h1)"
  shows "grows p a ts [IT n an []] h (appendChild p n h1)"
proof -
  have t: "holds h True (IT p a ts)" "distinct (ids (IT p a ts))" "\<forall>m \<in> set (ids (IT p a ts)). m < next_id h"
    using assms(1) by (auto simp: heap_tree_def)
  note r = append_new [OF t assms(2)]
  have "distinct (ids (IT p a (ts @ [IT n an []])))" using t(2,3) r(2) by auto
  moreover have "\<forall>m \<in> set (ids (IT p a (ts @ [IT n an []]))). m < next_id (appendChild p n h1)" using t(3) r(2,3) by (auto intro: less_SucI)
  ultimately show ?thesis using r by (simp add: grows_def heap_tree_def)
qed

lemma grows_sub:
  assumes "grows p a ts [IT n an []] h h2" "grows n an [] us h2 h3"
    and base: "heap_tree h True (IT p a ts)"
  shows "grows p a ts [IT n an us] h h3"
proof -
  have h2: "heap_tree h2 True (IT p a (ts @ [IT n an []]))" "next_id h \<le> n" "outside (ids (IT p a ts)) h h2" "same_place p h h2"
    using assms(1) by (simp_all add: grows_def)
  have h3: "heap_tree h3 True (IT n an us)" "\<forall>m \<in> set (concat (map ids us)). next_id h2 \<le> m" "outside [n] h2 h3" "same_place n h2 h3"
    using assms(2) by (simp_all add: grows_def)
  have lt: "m < next_id h" if "m \<in> set (ids (IT p a ts))" for m using base that unfolding heap_tree_def by blast
  have nx: "next_id h \<le> next_id h2" "next_id h2 \<le> next_id h3" using h2(3) h3(3) by (simp_all add: outside_def)
  have same: "node_at h3 m = node_at h2 m" if "m < next_id h" for m
    using that h2(2) h3(3) nx by (simp add: outside_def)
  have p: "node_at h3 p = node_at h2 p" by (rule same [OF lt]) simp
  have kid: "node_at h3 m = node_at h2 m" if "u \<in> set ts" "m \<in> set (ids u)" for u m
    by (rule same [OF lt]) (use that in auto)
  have "node_ok h3 True p a (map it_id (ts @ [IT n an []])) = node_ok h2 True p a (map it_id (ts @ [IT n an []]))"
  proof (rule node_ok_cong)
    fix c
    assume "c \<in> set (map it_id (ts @ [IT n an []]))"
    then consider u where "u \<in> set ts" "c = it_id u" | "c = n" by auto
    then show "n_parent (node_at h3 c) = n_parent (node_at h2 c) \<and> n_prev (node_at h3 c) = n_prev (node_at h2 c) \<and>
        n_next (node_at h3 c) = n_next (node_at h2 c)"
    proof cases
      case 1
      then show ?thesis using kid [OF 1(1) ids_nonempty] by simp
    next
      case 2
      then show ?thesis using h3(4) by (simp add: same_place_def)
    qed
  qed (simp_all add: p)
  moreover have "holds h2 True (IT p a (ts @ [IT n an []]))" using h2(1) by (simp add: heap_tree_def)
  moreover have "holds h3 True u" if "u \<in> set ts" for u
  proof (rule holds_same)
    show "holds h2 True u" using h2(1) that by (auto simp: heap_tree_def list_all_iff)
    show "distinct (ids u)" by (rule distinct_kid [OF _ that, of p a]) (use base in \<open>simp add: heap_tree_def\<close>)
  qed (rule kid [OF that])
  moreover have "holds h3 True (IT n an us)" using h3(1) by (simp add: heap_tree_def)
  ultimately have "holds h3 True (IT p a (ts @ [IT n an us]))" by (simp add: list_all_iff)
  moreover have "distinct (ids (IT p a (ts @ [IT n an us])))"
  proof -
    have "m < next_id h2" if "m \<in> set (ids (IT p a ts))" for m using lt [OF that] nx by simp
    then have "set (ids (IT p a ts)) \<inter> set (concat (map ids us)) = {}" using h3(2) by fastforce
    moreover have "n \<notin> set (ids (IT p a ts))" using lt h2(2) by fastforce
    moreover have "distinct (n # concat (map ids us))" "distinct (ids (IT p a ts))" using h3(1) base by (simp_all add: heap_tree_def)
    ultimately show ?thesis by auto
  qed
  moreover have "\<forall>m \<in> set (ids (IT p a (ts @ [IT n an us]))). m < next_id h3"
    using lt nx h3(1) by (fastforce simp: heap_tree_def)
  moreover have "outside (ids (IT p a ts)) h h3"
    using h2(3) same nx h3(3) by (auto simp: outside_def)
  moreover have "same_place p h h3" using h2(4) p by (simp add: same_place_def)
  moreover have "\<forall>m \<in> set (concat (map ids [IT n an us])). next_id h \<le> m" using h2(2) h3(2) nx by fastforce
  ultimately show ?thesis by (simp add: grows_def heap_tree_def)
qed

lemma create_grows_all:
  "\<forall>a ts. heap_tree h True (IT p a ts) \<longrightarrow> (\<exists>us. grows p a ts us h (create_walk es p h) \<and> made_list us es)"
  "\<forall>a ts. heap_tree h True (IT p a ts) \<longrightarrow> (\<exists>u. grows p a ts [u] h (create_item nm item p h) \<and> made u nm item)"
proof (induction es p h and nm item p h rule: create_walk_create_item.induct)
  case (1 parentNode h)
  then show ?case using grows_refl by fastforce
next
  case (2 nm item es parentNode h)
  show ?case
  proof (intro allI impI)
    fix a ts
    assume t: "heap_tree h True (IT parentNode a ts)"
    obtain u where u: "grows parentNode a ts [u] h (create_item nm item parentNode h)" "made u nm item"
      using 2(1) t by blast
    then have "heap_tree (create_item nm item parentNode h) True (IT parentNode a (ts @ [u]))" by (simp add: grows_def)
    then obtain us where us: "grows parentNode a (ts @ [u]) us (create_item nm item parentNode h) (create_walk ((nm, item) # es) parentNode h)"
        "made_list us es" using 2(2) by fastforce
    have "grows parentNode a ts ([u] @ us) h (create_walk ((nm, item) # es) parentNode h)" by (rule grows_trans [OF u(1) us(1)])
    then show "\<exists>us. grows parentNode a ts us h (create_walk ((nm, item) # es) parentNode h) \<and> made_list us ((nm, item) # es)"
      using u(2) us(2) by (intro exI [of _ "[u] @ us"]) simp
  qed
next
  case (3 nm sz prog prio es parentNode h)
  show ?case
  proof (intro allI impI)
    fix a ts
    assume t: "heap_tree h True (IT parentNode a ts)"
    let ?an = "entry_attrs nm (FDir sz prog prio es)"
    obtain n h1 where new: "tree_node ?an h = (n, h1)" by (cases "tree_node ?an h")
    have g: "grows parentNode a ts [IT n ?an []] h (appendChild parentNode n h1)" by (rule grows_new [OF t new])
    have "heap_tree (appendChild parentNode n h1) True (IT n ?an [])"
      using g by (auto simp: grows_def heap_tree_def)
    then obtain us where us: "grows n ?an [] us (appendChild parentNode n h1) (create_walk es n (appendChild parentNode n h1))" "made_list us es"
      using 3(1) [OF new [symmetric]] by blast
    have "create_item nm (FDir sz prog prio es) parentNode h = create_walk es n (appendChild parentNode n h1)" by (simp only: create_item.simps new prod.case)
    then show "\<exists>u. grows parentNode a ts [u] h (create_item nm (FDir sz prog prio es) parentNode h) \<and> made u nm (FDir sz prog prio es)"
      using grows_sub [OF g us(1) t] us(2) by (intro exI [of _ "IT n ?an us"]) simp
  qed
next
  case (4 nm i sz prog prio parentNode h)
  show ?case
  proof (intro allI impI)
    fix a ts
    assume t: "heap_tree h True (IT parentNode a ts)"
    let ?an = "entry_attrs nm (FFile i sz prog prio)"
    obtain n h1 where new: "tree_node ?an h = (n, h1)" by (cases "tree_node ?an h")
    have "create_item nm (FFile i sz prog prio) parentNode h = appendChild parentNode n h1" by (simp only: create_item.simps new prod.case)
    then show "\<exists>u. grows parentNode a ts [u] h (create_item nm (FFile i sz prog prio) parentNode h) \<and> made u nm (FFile i sz prog prio)"
      using grows_new [OF t new] by (intro exI [of _ "IT n ?an []"]) simp
  qed
qed

lemmas create_grows = create_grows_all [rule_format]

section \<open>A tree that shows files\<close>

text \<open>The files of a folder have different names, as the properties of an object have.\<close>

fun wf_entry :: "fentry \<Rightarrow> bool" where
  "wf_entry (FDir sz prog prio es) \<longleftrightarrow> wf_dict es \<and> list_all (\<lambda>(nm, e). wf_entry e) es"
| "wf_entry (FFile i sz prog prio) \<longleftrightarrow> True"

definition wf_files :: "(string \<times> fentry) list \<Rightarrow> bool" where
  "wf_files es \<longleftrightarrow> wf_dict es \<and> list_all (\<lambda>(nm, e). wf_entry e) es"

definition child_named :: "string \<Rightarrow> nat \<Rightarrow> fattrs theap \<Rightarrow> nat option" where
  "child_named nm n h = findChild (\<lambda>a. fa_filename a = nm) n h"

definition names_of :: "fattrs theap \<Rightarrow> nat \<Rightarrow> string list" where
  "names_of h n = map (\<lambda>c. fa_filename (n_attrs (node_at h c))) (heap_kids h n)"

text \<open>Below a node there is a child for every entry, with its attributes, and no other; in whatever order.\<close>

fun shows_each :: "fattrs theap \<Rightarrow> nat \<Rightarrow> (string \<times> fentry) list \<Rightarrow> bool"
  and shows_item :: "fattrs theap \<Rightarrow> nat \<Rightarrow> fentry \<Rightarrow> bool"
where
  "shows_each h n [] \<longleftrightarrow> True"
| "shows_each h n ((nm, item) # es) \<longleftrightarrow>
     (case child_named nm n h of
        None \<Rightarrow> False
      | Some c \<Rightarrow> n_attrs (node_at h c) = entry_attrs nm item \<and> shows_item h c item) \<and> shows_each h n es"
| "shows_item h n (FDir sz prog prio es) \<longleftrightarrow> distinct (names_of h n) \<and> length (heap_kids h n) = length es \<and> shows_each h n es"
| "shows_item h n (FFile i sz prog prio) \<longleftrightarrow> heap_kids h n = []"

definition shows_files :: "fattrs theap \<Rightarrow> (string \<times> fentry) list \<Rightarrow> bool" where
  "shows_files h es \<longleftrightarrow> distinct (names_of h 0) \<and> length (heap_kids h 0) = length es \<and> shows_each h 0 es"

text \<open>The same but for what \<open>updateFileTree\<close> sets.\<close>

fun fits_each :: "fattrs theap \<Rightarrow> nat \<Rightarrow> (string \<times> fentry) list \<Rightarrow> bool"
  and fits_item :: "fattrs theap \<Rightarrow> nat \<Rightarrow> fentry \<Rightarrow> bool"
where
  "fits_each h n [] \<longleftrightarrow> True"
| "fits_each h n ((nm, item) # es) \<longleftrightarrow>
     (case child_named nm n h of
        None \<Rightarrow> False
      | Some c \<Rightarrow> refresh_attrs item (n_attrs (node_at h c)) = entry_attrs nm item \<and> fits_item h c item) \<and> fits_each h n es"
| "fits_item h n (FDir sz prog prio es) \<longleftrightarrow> distinct (names_of h n) \<and> length (heap_kids h n) = length es \<and> fits_each h n es"
| "fits_item h n (FFile i sz prog prio) \<longleftrightarrow> heap_kids h n = []"

lemma refresh_frame [simp]:
  "fa_filename (refresh_attrs item a) = fa_filename a" "fa_fileIndex (refresh_attrs item a) = fa_fileIndex a"
  "fa_leaf (refresh_attrs item a) = fa_leaf a"
  by (cases item; simp add: refresh_attrs_def)+

lemma entry_name [simp]: "fa_filename (entry_attrs nm item) = nm"
  by (cases item) simp_all

lemma refresh_entry: "refresh_attrs item (entry_attrs nm item) = entry_attrs nm item"
  by (cases item) (simp_all add: refresh_attrs_def)

lemma find_unique:
  assumes "distinct (map f xs)" "x \<in> set xs"
  shows "List.find (\<lambda>y. f y = f x) xs = Some x"
  using assms by (induction xs) auto

lemma find_cong_list: "(\<And>x. x \<in> set xs \<Longrightarrow> P x = Q x) \<Longrightarrow> List.find P xs = List.find Q xs"
  by (induction xs) auto

lemma child_named_kid: "child_named nm n h = Some c \<Longrightarrow> c \<in> set (heap_kids h n) \<and> fa_filename (n_attrs (node_at h c)) = nm"
  by (auto simp: child_named_def findChild_def find_Some_iff)

text \<open>What is shown below a node depends on the nodes of its subtree only.\<close>

lemma holds_root: "holds h b t \<Longrightarrow> heap_kids h (it_id t) = map it_id (it_kids t)"
  by (cases t) (simp add: node_ok_def)

lemma kid_of:
  assumes "holds h b t" "c \<in> set (heap_kids h (it_id t))"
  shows "\<exists>u \<in> set (it_kids t). it_id u = c \<and> holds h b u \<and> set (ids u) \<subseteq> set (ids t)"
  using assms by (cases t) (auto simp: node_ok_def list_all_iff)

lemma child_frame:
  assumes "holds h b t" "\<And>m. m \<in> set (ids t) \<Longrightarrow> node_at h' m = node_at h m"
  shows "child_named nm (it_id t) h' = child_named nm (it_id t) h" "names_of h' (it_id t) = names_of h (it_id t)"
    "heap_kids h' (it_id t) = heap_kids h (it_id t)"
proof -
  show k: "heap_kids h' (it_id t) = heap_kids h (it_id t)" by (simp add: assms(2) ids_nonempty)
  have c: "node_at h' c = node_at h c" if "c \<in> set (heap_kids h (it_id t))" for c
    using kid_of [OF assms(1) that] ids_nonempty assms(2) by blast
  show "child_named nm (it_id t) h' = child_named nm (it_id t) h"
    unfolding child_named_def findChild_def k by (rule find_cong_list) (simp add: c)
  show "names_of h' (it_id t) = names_of h (it_id t)" unfolding names_of_def k by (simp add: c)
qed

lemma shows_frame:
  "\<forall>t. it_id t = n \<longrightarrow> holds h b t \<longrightarrow> (\<forall>m \<in> set (ids t). node_at h' m = node_at h m) \<longrightarrow> shows_each h' n es = shows_each h n es"
  "\<forall>t. it_id t = n \<longrightarrow> holds h b t \<longrightarrow> (\<forall>m \<in> set (ids t). node_at h' m = node_at h m) \<longrightarrow> shows_item h' n item = shows_item h n item"
proof (induction h n es and h n item rule: shows_each_shows_item.induct)
  case (2 h n nm item es)
  show ?case
  proof (intro allI impI)
    fix t
    assume t: "it_id t = n" "holds h b t" "\<forall>m \<in> set (ids t). node_at h' m = node_at h m"
    have c: "child_named nm n h' = child_named nm n h" using child_frame(1) [OF t(2)] t(1,3) by blast
    have "node_at h' c = node_at h c \<and> shows_item h' c item = shows_item h c item" if "child_named nm n h = Some c" for c
    proof -
      have "c \<in> set (heap_kids h (it_id t))" using child_named_kid [OF that] t(1) by simp
      from kid_of [OF t(2) this] obtain u where "it_id u = c" "holds h b u" "set (ids u) \<subseteq> set (ids t)" by blast
      then show ?thesis using 2(1) [OF that] t(3) ids_nonempty [of u] by blast
    qed
    moreover have "shows_each h' n es = shows_each h n es" using 2(2) t by blast
    ultimately show "shows_each h' n ((nm, item) # es) = shows_each h n ((nm, item) # es)" by (auto simp: c split: option.splits)
  qed
next
  case (3 h n sz prog prio es)
  show ?case
  proof (intro allI impI)
    fix t
    assume t: "it_id t = n" "holds h b t" "\<forall>m \<in> set (ids t). node_at h' m = node_at h m"
    then have n: "\<And>m. m \<in> set (ids t) \<Longrightarrow> node_at h' m = node_at h m" by blast
    have "names_of h' n = names_of h n" "heap_kids h' n = heap_kids h n" using child_frame(2,3) [OF t(2) n] t(1) by simp_all
    moreover have "shows_each h' n es = shows_each h n es" using 3 t by blast
    ultimately show "shows_item h' n (FDir sz prog prio es) = shows_item h n (FDir sz prog prio es)" by simp
  qed
next
  case (4 h n i sz prog prio)
  show ?case
  proof (intro allI impI)
    fix t
    assume t: "it_id t = n" "holds h b t" "\<forall>m \<in> set (ids t). node_at h' m = node_at h m"
    then have n: "\<And>m. m \<in> set (ids t) \<Longrightarrow> node_at h' m = node_at h m" by blast
    show "shows_item h' n (FFile i sz prog prio) = shows_item h n (FFile i sz prog prio)" using child_frame(3) [OF t(2) n] t(1) by simp
  qed
qed simp

lemma shows_each_iff:
  "shows_each h n es \<longleftrightarrow> (\<forall>(nm, item) \<in> set es. \<exists>c. child_named nm n h = Some c \<and> n_attrs (node_at h c) = entry_attrs nm item \<and> shows_item h c item)"
  by (induction es) (auto split: option.splits)

lemma made_list_nth:
  "made_list ts es \<Longrightarrow> length ts = length es \<and> (\<forall>i < length ts. made (ts ! i) (fst (es ! i)) (snd (es ! i)))"
proof (induction ts arbitrary: es)
  case (Cons t ts)
  then obtain nm item es' where e: "es = (nm, item) # es'" "made t nm item" "made_list ts es'" by (auto split: list.splits)
  then show ?case using Cons.IH [OF e(3)] by (auto simp: nth_Cons split: nat.splits)
qed simp

lemma made_shows:
  "holds h b t \<Longrightarrow> made t nm item \<Longrightarrow> wf_entry item \<Longrightarrow> n_attrs (node_at h (it_id t)) = entry_attrs nm item \<and> shows_item h (it_id t) item"
  "holds h b (IT n a ts) \<Longrightarrow> made_list ts es \<Longrightarrow> wf_files es \<Longrightarrow> distinct (names_of h n) \<and> length (heap_kids h n) = length es \<and> shows_each h n es"
proof -
  have list: "distinct (names_of h n) \<and> length (heap_kids h n) = length es \<and> shows_each h n es"
    if k: "holds h b (IT n a ts)" "made_list ts es" "wf_files es"
      and ih: "\<And>u nm item. u \<in> set ts \<Longrightarrow> made u nm item \<Longrightarrow> wf_entry item \<Longrightarrow>
         n_attrs (node_at h (it_id u)) = entry_attrs nm item \<and> shows_item h (it_id u) item"
    for n a ts es
  proof -
    have m: "length ts = length es" "made (ts ! i) (fst (es ! i)) (snd (es ! i))" if "i < length ts" for i
      using made_list_nth [OF k(2)] that by auto
    have l: "length ts = length es" using made_list_nth [OF k(2)] by simp
    have kids: "heap_kids h n = map it_id ts" using holds_root [OF k(1)] by simp
    have w: "wf_entry (snd (es ! i))" if "i < length es" for i
      using k(3) that by (auto simp: wf_files_def list_all_length case_prod_unfold)
    have at: "n_attrs (node_at h (it_id (ts ! i))) = entry_attrs (fst (es ! i)) (snd (es ! i)) \<and> shows_item h (it_id (ts ! i)) (snd (es ! i))"
      if "i < length es" for i
      using ih [of "ts ! i"] m(2) [of i] w [OF that] that l by simp
    have nm: "names_of h n = keys_of es" by (rule nth_equalityI) (simp_all add: names_of_def kids l at)
    then have d: "distinct (names_of h n)" using k(3) by (simp add: wf_files_def)
    have "\<exists>c. child_named nm n h = Some c \<and> n_attrs (node_at h c) = entry_attrs nm item \<and> shows_item h c item" if e: "(nm, item) \<in> set es" for nm item
    proof -
      obtain i where i: "i < length es" "es ! i = (nm, item)" using e unfolding in_set_conv_nth by blast
      have "fa_filename (n_attrs (node_at h (it_id (ts ! i)))) = nm" using at [OF i(1)] i(2) by simp
      moreover have "it_id (ts ! i) \<in> set (heap_kids h n)" using i(1) l kids by simp
      ultimately have "child_named nm n h = Some (it_id (ts ! i))"
        using find_unique [of "\<lambda>c. fa_filename (n_attrs (node_at h c))" "heap_kids h n" "it_id (ts ! i)"] d
        by (simp add: child_named_def findChild_def names_of_def)
      then show ?thesis using at [OF i(1)] i(2) by simp
    qed
    then show ?thesis using d l kids by (auto simp: shows_each_iff)
  qed
  have one: "n_attrs (node_at h (it_id t)) = entry_attrs nm item \<and> shows_item h (it_id t) item"
    if "holds h b t" "made t nm item" "wf_entry item" for t nm item
    using that
  proof (induction t arbitrary: nm item)
    case (IT n a ts)
    have a: "n_attrs (node_at h n) = a" using IT.prems(1) by (simp add: node_ok_def)
    show ?case
    proof (cases item)
      case (FDir sz prog prio es)
      have k: "holds h b u" if "u \<in> set ts" for u using IT.prems(1) that by (simp add: list_all_iff)
      have "made_list ts es" "wf_files es" using IT.prems(2,3) FDir by (simp_all add: wf_files_def)
      from list [OF IT.prems(1) this IT.IH [OF _ k]] show ?thesis using FDir IT.prems(2) a by simp
    next
      case (FFile i sz prog prio)
      then show ?thesis using IT.prems(1,2) a by (simp add: node_ok_def)
    qed
  qed
  show "holds h b t \<Longrightarrow> made t nm item \<Longrightarrow> wf_entry item \<Longrightarrow> n_attrs (node_at h (it_id t)) = entry_attrs nm item \<and> shows_item h (it_id t) item"
    by (rule one)
  show "holds h b (IT n a ts) \<Longrightarrow> made_list ts es \<Longrightarrow> wf_files es \<Longrightarrow> distinct (names_of h n) \<and> length (heap_kids h n) = length es \<and> shows_each h n es"
    by (rule list) (auto simp: list_all_iff intro: one [THEN conjunct1] one [THEN conjunct2])
qed

end
