(* ===== verification/FilesShown.thy ===== *)
theory FilesShown
  imports FilesTab
begin

text \<open>
  What the files tab of \<open>FilesTab\<close> comes to: what it shows after answers that name the same files, what happens when
  another torrent is chosen and when an answer comes late, and what the menu of priorities sends.
\<close>

section \<open>The same files again\<close>

text \<open>An answer that names the same files and folders as an earlier one, in whatever order.\<close>

fun same_entry :: "fentry \<Rightarrow> fentry \<Rightarrow> bool" and same_each :: "(string \<times> fentry) list \<Rightarrow> (string \<times> fentry) list \<Rightarrow> bool" where
  "same_entry (FDir sz prog prio fs) e \<longleftrightarrow> (case e of FDir _ _ _ es \<Rightarrow> length fs = length es \<and> same_each fs es | FFile _ _ _ _ \<Rightarrow> False)"
| "same_entry (FFile i sz prog prio) e \<longleftrightarrow> (case e of FDir _ _ _ _ \<Rightarrow> False | FFile j _ _ _ \<Rightarrow> i = j)"
| "same_each [] es \<longleftrightarrow> True"
| "same_each ((nm, f) # fs) es \<longleftrightarrow> (case map_of es nm of None \<Rightarrow> False | Some e \<Rightarrow> same_entry f e) \<and> same_each fs es"

definition same_files :: "(string \<times> fentry) list \<Rightarrow> (string \<times> fentry) list \<Rightarrow> bool" where
  "same_files fs es \<longleftrightarrow> length fs = length es \<and> same_each fs es"

lemma refresh_same: "same_entry f e \<Longrightarrow> refresh_attrs f (entry_attrs nm e) = entry_attrs nm f"
  by (cases f; cases e) (simp_all add: refresh_attrs_def)

lemma shows_fits:
  "\<forall>h n. same_entry f e \<longrightarrow> shows_item h n e \<longrightarrow> fits_item h n f"
  "\<forall>h n. same_each fs es \<longrightarrow> shows_each h n es \<longrightarrow> fits_each h n fs"
proof (induction f e and fs es rule: same_entry_same_each.induct)
  case (4 nm f fs es)
  show ?case
  proof (intro allI impI)
    fix h n
    assume s: "same_each ((nm, f) # fs) es" "shows_each h n es"
    then obtain e where e: "map_of es nm = Some e" "same_entry f e" by (auto split: option.splits)
    have "(nm, e) \<in> set es" using e(1) by (rule map_of_SomeD)
    then obtain c where c: "child_named nm n h = Some c" "n_attrs (node_at h c) = entry_attrs nm e" "shows_item h c e"
      using s(2) unfolding shows_each_iff by blast
    have "fits_item h c f" using 4(1) [OF e(1)] e(2) c(3) by blast
    moreover have "fits_each h n fs" using 4(2) s by (auto split: option.splits)
    ultimately show "fits_each h n ((nm, f) # fs)" using c refresh_same [OF e(2)] by simp
  qed
qed (auto split: fentry.splits)

section \<open>What updateFileTree does\<close>

text \<open>Attributes only, and of them not the name, the index and whether it is a leaf.\<close>

definition soft :: "fattrs theap \<Rightarrow> fattrs theap \<Rightarrow> bool" where
  "soft h h' \<longleftrightarrow> next_id h' = next_id h \<and> selected h' = selected h \<and>
     (\<forall>m. node_at h' m = (node_at h m)\<lparr>n_attrs := n_attrs (node_at h' m)\<rparr> \<and>
        fa_filename (n_attrs (node_at h' m)) = fa_filename (n_attrs (node_at h m)) \<and>
        fa_fileIndex (n_attrs (node_at h' m)) = fa_fileIndex (n_attrs (node_at h m)) \<and>
        fa_leaf (n_attrs (node_at h' m)) = fa_leaf (n_attrs (node_at h m)))"

lemma soft_refl: "soft h h"
  by (simp add: soft_def)

lemma soft_trans:
  assumes "soft h h'" "soft h' h''"
  shows "soft h h''"
  unfolding soft_def
proof (intro conjI allI)
  fix m
  have "node_at h'' m = (node_at h' m)\<lparr>n_attrs := n_attrs (node_at h'' m)\<rparr>" using assms(2) by (simp add: soft_def)
  also have "node_at h' m = (node_at h m)\<lparr>n_attrs := n_attrs (node_at h' m)\<rparr>" using assms(1) by (simp add: soft_def)
  finally show "node_at h'' m = (node_at h m)\<lparr>n_attrs := n_attrs (node_at h'' m)\<rparr>" by simp
qed (use assms in \<open>simp_all add: soft_def\<close>)

lemma soft_links:
  assumes "soft h h'"
  shows "heap_kids h' m = heap_kids h m" "n_owned (node_at h' m) = n_owned (node_at h m)" "n_parent (node_at h' m) = n_parent (node_at h m)"
    "n_first (node_at h' m) = n_first (node_at h m)" "n_last (node_at h' m) = n_last (node_at h m)"
    "n_prev (node_at h' m) = n_prev (node_at h m)" "n_next (node_at h' m) = n_next (node_at h m)"
proof -
  have e: "node_at h' m = (node_at h m)\<lparr>n_attrs := n_attrs (node_at h' m)\<rparr>" using assms unfolding soft_def by blast
  show "heap_kids h' m = heap_kids h m" "n_owned (node_at h' m) = n_owned (node_at h m)" "n_parent (node_at h' m) = n_parent (node_at h m)"
    "n_first (node_at h' m) = n_first (node_at h m)" "n_last (node_at h' m) = n_last (node_at h m)"
    "n_prev (node_at h' m) = n_prev (node_at h m)" "n_next (node_at h' m) = n_next (node_at h m)"
    by (subst e, simp)+
qed

lemma soft_attr_change:
  assumes "\<And>a. fa_filename (f a) = fa_filename a" "\<And>a. fa_fileIndex (f a) = fa_fileIndex a" "\<And>a. fa_leaf (f a) = fa_leaf a"
  shows "soft h (upd c (n_attrs_update f) h)"
  using assms by (auto simp: soft_def)

lemma soft_upd: "soft h (upd c (n_attrs_update (refresh_attrs item)) h)"
  by (rule soft_attr_change) simp_all

text \<open>The tree with the attributes the heap has now.\<close>

fun relabel :: "fattrs theap \<Rightarrow> fattrs itree \<Rightarrow> fattrs itree" where
  "relabel h (IT n a ts) = IT n (n_attrs (node_at h n)) (map (relabel h) ts)"

lemma relabel_id [simp]: "it_id (relabel h t) = it_id t"
  by (cases t) simp

lemma relabel_ids [simp]: "ids (relabel h t) = ids t"
proof (induction t)
  case (IT n a ts)
  have "map (ids \<circ> relabel h) ts = map ids ts" by (rule map_cong) (simp_all add: IT)
  then show ?case by (simp only: relabel.simps ids.simps map_map)
qed

lemma soft_holds:
  assumes "soft h h'" "holds h b t"
  shows "holds h' b (relabel h' t)"
  using assms(2)
proof (induction t)
  case (IT n a ts)
  have r: "map it_id (map (relabel h') ts) = map it_id ts" by simp
  have "node_ok h' b n (n_attrs (node_at h' n)) (map it_id ts)"
    using IT.prems soft_links [OF assms(1)] by (simp add: node_ok_def siblings_ok_def)
  then show ?case using IT by (simp add: r list_all_iff o_def)
qed

lemma soft_heap_tree: "soft h h' \<Longrightarrow> heap_tree h b t \<Longrightarrow> heap_tree h' b (relabel h' t)"
  using soft_holds [of h h' b t] by (simp add: heap_tree_def soft_def)

lemma soft_attrs:
  assumes "soft h h'"
  shows "fa_filename (n_attrs (node_at h' m)) = fa_filename (n_attrs (node_at h m))"
    "fa_fileIndex (n_attrs (node_at h' m)) = fa_fileIndex (n_attrs (node_at h m))"
    "fa_leaf (n_attrs (node_at h' m)) = fa_leaf (n_attrs (node_at h m))"
  using assms unfolding soft_def by blast+

lemma soft_child:
  assumes "soft h h'"
  shows "child_named nm n h' = child_named nm n h" "names_of h' n = names_of h n"
  by (simp_all add: child_named_def findChild_def names_of_def soft_links [OF assms] soft_attrs [OF assms])

lemma refresh_soft:
  assumes "soft h h'"
  shows "refresh_attrs item (n_attrs (node_at h' c)) = refresh_attrs item (n_attrs (node_at h c))"
  using soft_attrs [OF assms, of c]
  by (cases "n_attrs (node_at h c)"; cases "n_attrs (node_at h' c)"; cases item) (simp_all add: refresh_attrs_def)

text \<open>Whether files can be filled in does not depend on what the filling changes.\<close>

lemma soft_fits:
  "soft h h' \<Longrightarrow> fits_each h' n es = fits_each h n es"
  "soft h h' \<Longrightarrow> fits_item h' n item = fits_item h n item"
proof (induction h n es and h n item rule: fits_each_fits_item.induct)
  case (2 h n nm item es)
  then show ?case by (auto simp: soft_child refresh_soft split: option.splits)
next
  case (3 h n sz prog prio es)
  then show ?case by (simp add: soft_child soft_links)
qed (simp_all add: soft_links)

lemma update_soft:
  "soft h (snd (update_walk es p h))"
  "soft h (snd (update_item item p h))"
proof (induction es p h and item p h rule: update_walk_update_item.induct)
  case (2 nm item es p h)
  show ?case
  proof (cases "findChild (\<lambda>a. fa_filename a = nm) p h")
    case (Some c)
    let ?h1 = "upd c (n_attrs_update (refresh_attrs item)) h"
    obtain ok h2 where u: "update_item item c ?h1 = (ok, h2)" by (cases "update_item item c ?h1")
    have s: "soft h h2" using soft_trans [OF soft_upd 2(1) [OF Some]] u by simp
    show ?thesis
    proof (cases ok)
      case True
      then have u1: "update_item item c ?h1 = (True, h2)" using u by simp
      show ?thesis using soft_trans [OF s 2(2) [OF Some u1 [symmetric] refl]] Some u1 by simp
    next
      case False
      then show ?thesis using s Some u by simp
    qed
  qed (simp add: soft_refl)
qed (simp_all add: soft_refl)

text \<open>The nodes an update of the entries with some names may change: those below the children with these names.\<close>

definition touches :: "fattrs itree \<Rightarrow> string set \<Rightarrow> fattrs theap \<Rightarrow> fattrs theap \<Rightarrow> bool" where
  "touches t nms h h' \<longleftrightarrow>
     (\<forall>m. node_at h' m = node_at h m \<or>
        (\<exists>u \<in> set (it_kids t). m \<in> set (ids u) \<and> fa_filename (n_attrs (node_at h (it_id u))) \<in> nms))"

lemma relabel_kids [simp]: "it_kids (relabel h t) = map (relabel h) (it_kids t)"
  by (cases t) simp

lemma touches_below: "touches t nms h h' \<Longrightarrow> distinct (ids t) \<Longrightarrow> m \<notin> set (ids t) \<or> m = it_id t \<Longrightarrow> node_at h' m = node_at h m"
  by (cases t) (auto simp: touches_def)

text \<open>An update that the files fit goes through and the tree shows them afterwards.\<close>

lemma update_shows_all:
  "\<forall>t. it_id t = p \<longrightarrow> holds h True t \<longrightarrow> distinct (ids t) \<longrightarrow> distinct (names_of h p) \<longrightarrow> wf_files es \<longrightarrow> fits_each h p es \<longrightarrow>
     (\<exists>h'. update_walk es p h = (True, h') \<and> touches t (fst ` set es) h h' \<and> shows_each h' p es)"
  "\<forall>t. it_id t = n \<longrightarrow> holds h True t \<longrightarrow> distinct (ids t) \<longrightarrow> wf_entry item \<longrightarrow> fits_item h n item \<longrightarrow>
     (\<exists>h'. update_item item n h = (True, h') \<and> (\<forall>m. m \<notin> set (ids t) \<or> m = n \<longrightarrow> node_at h' m = node_at h m) \<and> shows_item h' n item)"
proof (induction es p h and item n h rule: update_walk_update_item.induct)
  case (1 p h)
  then show ?case by (simp add: touches_def)
next
  case (2 nm item es p h)
  show ?case
  proof (intro allI impI)
    fix t
    assume t: "it_id t = p" "holds h True t" "distinct (ids t)" "distinct (names_of h p)" "wf_files ((nm, item) # es)"
      "fits_each h p ((nm, item) # es)"
    obtain c where c: "child_named nm p h = Some c" "refresh_attrs item (n_attrs (node_at h c)) = entry_attrs nm item" "fits_item h c item"
      and f: "fits_each h p es" using t(6) by (auto split: option.splits)
    have find: "findChild (\<lambda>a. fa_filename a = nm) p h = Some c" using c(1) by (simp add: child_named_def)
    have w: "wf_entry item" "wf_files es" "nm \<notin> fst ` set es" using t(5) by (auto simp: wf_files_def)
    have cn: "c \<in> set (heap_kids h p)" "fa_filename (n_attrs (node_at h c)) = nm" using child_named_kid [OF c(1)] by simp_all
    then obtain u where u: "u \<in> set (it_kids t)" "it_id u = c" "holds h True u" "set (ids u) \<subseteq> set (ids t)"
      using kid_of [OF t(2)] t(1) by blast
    have du: "distinct (ids u)" using t(3) u(1) by (cases t) (auto intro: distinct_kid)
    define h1 where "h1 = upd c (n_attrs_update (refresh_attrs item)) h"
    have s1: "soft h h1" unfolding h1_def by (rule soft_upd)
    have "holds h1 True (relabel h1 u)" "fits_item h1 c item" "it_id (relabel h1 u) = c" "distinct (ids (relabel h1 u))"
      using soft_holds [OF s1 u(3)] c(3) soft_fits(2) [OF s1] u(2) du by simp_all
    note ih = 2(1) [OF find, folded h1_def, rule_format, OF this(3,1,4) w(1) this(2), unfolded relabel_ids]
    obtain h2 where h2: "update_item item c h1 = (True, h2)" "\<forall>m. m \<notin> set (ids u) \<or> m = c \<longrightarrow> node_at h2 m = node_at h1 m"
        "shows_item h2 c item"
      using ih by (elim exE conjE)
    have s2: "soft h h2" using soft_trans [OF s1 update_soft(2) [of h1 item c]] h2(1) by simp
    have h12: "node_at h2 m = node_at h m" if "m \<notin> set (ids u)" for m
    proof -
      have "m \<noteq> c" using that u(2) ids_nonempty [of u] by blast
      moreover have "node_at h2 m = node_at h1 m" using h2(2) that by blast
      ultimately show ?thesis by (simp add: h1_def)
    qed
    have "holds h2 True (relabel h2 t)" "distinct (names_of h2 p)" "fits_each h2 p es" "it_id (relabel h2 t) = p" "distinct (ids (relabel h2 t))"
      using soft_holds [OF s2 t(2)] t(1,3,4) f soft_child(2) [OF s2] soft_fits(1) [OF s2] by simp_all
    note ih = 2(2) [OF find h2(1) [unfolded h1_def, symmetric] refl, rule_format, OF this(4,1,5,2) w(2) this(3)]
    obtain h3 where h3: "update_walk es p h2 = (True, h3)" "touches (relabel h2 t) (fst ` set es) h2 h3" "shows_each h3 p es"
      using ih by (elim exE conjE)
    have h3t: "\<forall>m. node_at h3 m = node_at h2 m \<or>
        (\<exists>v \<in> set (it_kids t). m \<in> set (ids v) \<and> fa_filename (n_attrs (node_at h2 (it_id v))) \<in> fst ` set es)"
      using h3(2) by (simp add: touches_def)
    have apart: "node_at h3 m = node_at h2 m" if m: "m \<in> set (ids u)" for m
    proof (rule ccontr)
      assume "node_at h3 m \<noteq> node_at h2 m"
      then obtain v where v: "v \<in> set (it_kids t)" "m \<in> set (ids v)" "fa_filename (n_attrs (node_at h2 (it_id v))) \<in> fst ` set es"
        using h3t [rule_format, of m] by blast
      then have "fa_filename (n_attrs (node_at h (it_id v))) \<noteq> nm" using w(3) soft_attrs(1) [OF s2] by auto
      then have "v \<noteq> u" using cn(2) u(2) by auto
      moreover have "distinct (concat (map ids (it_kids t)))" using t(3) by (cases t) simp
      ultimately have "set (ids v) \<inter> set (ids u) = {}" using kids_apart v(1) u(1) by blast
      then show False using v(2) m by auto
    qed
    have ca: "n_attrs (node_at h3 c) = entry_attrs nm item"
    proof -
      have "node_at h3 c = node_at h2 c" using apart u(2) ids_nonempty [of u] by blast
      also have "\<dots> = node_at h1 c" using h2(2) by blast
      finally show ?thesis using c(2) by (simp add: h1_def)
    qed
    have "holds h2 True (relabel h2 u)" by (rule soft_holds [OF s2 u(3)])
    then have "shows_item h3 c item" using shows_frame(2) [of c h2 True h3 item, rule_format, of "relabel h2 u"] h2(3) apart u(2) by simp
    moreover have "child_named nm p h3 = Some c"
      using c(1) soft_child(1) [OF s2] soft_child(1) [OF update_soft(1) [of h2 es p]] h3(1) by simp
    ultimately have "shows_each h3 p ((nm, item) # es)" using ca h3(3) by simp
    moreover have "touches t (fst ` set ((nm, item) # es)) h h3"
      unfolding touches_def
    proof
      fix m
      show "node_at h3 m = node_at h m \<or>
          (\<exists>u \<in> set (it_kids t). m \<in> set (ids u) \<and> fa_filename (n_attrs (node_at h (it_id u))) \<in> fst ` set ((nm, item) # es))"
      proof (cases "m \<in> set (ids u)")
        case True
        then show ?thesis using u(1,2) cn(2) by auto
      next
        case False
        then show ?thesis using h3t [rule_format, of m] h12 [OF False] soft_attrs(1) [OF s2] by auto
      qed
    qed
    moreover have "update_walk ((nm, item) # es) p h = (True, h3)" using find h2(1) h3(1) by (simp add: h1_def)
    ultimately show "\<exists>h'. update_walk ((nm, item) # es) p h = (True, h') \<and> touches t (fst ` set ((nm, item) # es)) h h' \<and>
        shows_each h' p ((nm, item) # es)" by blast
  qed
next
  case (3 sz prog prio es n h)
  show ?case
  proof (intro allI impI)
    fix t
    assume t: "it_id t = n" "holds h True t" "distinct (ids t)" "wf_entry (FDir sz prog prio es)" "fits_item h n (FDir sz prog prio es)"
    obtain h' where h: "update_walk es n h = (True, h')" "touches t (fst ` set es) h h'" "shows_each h' n es"
      using 3 t by (auto simp: wf_files_def)
    have "soft h h'" using update_soft(1) [of h es n] h(1) by simp
    then have "shows_item h' n (FDir sz prog prio es)" using t(5) h(3) by (simp add: soft_child soft_links)
    then show "\<exists>h'. update_item (FDir sz prog prio es) n h = (True, h') \<and>
        (\<forall>m. m \<notin> set (ids t) \<or> m = n \<longrightarrow> node_at h' m = node_at h m) \<and> shows_item h' n (FDir sz prog prio es)"
      using h(1) touches_below [OF h(2) t(3)] t(1) by auto
  qed
next
  case (4 i sz prog prio n h)
  then show ?case by simp
qed

lemma files_update_shows:
  assumes "heap_tree h True t" "it_id t = 0" "distinct (names_of h 0)" "length (heap_kids h 0) = length es" "wf_files es" "fits_each h 0 es"
  shows "\<exists>h'. updateFileTree es h = (True, h') \<and> heap_tree h' True (relabel h' t) \<and> soft h h' \<and> shows_files h' es"
proof -
  have "holds h True t" "distinct (ids t)" using assms(1) by (simp_all add: heap_tree_def)
  then obtain h' where h: "update_walk es 0 h = (True, h')" "shows_each h' 0 es"
    using update_shows_all(1) [of 0 h es] assms(2,3,5,6) by blast
  have s: "soft h h'" using update_soft(1) [of h es 0] h(1) by simp
  show ?thesis using h s soft_heap_tree [OF s assms(1)] assms(3,4)
    by (simp add: updateFileTree_def shows_files_def soft_child [OF s] soft_links [OF s])
qed

section \<open>Answers\<close>

text \<open>A heap that holds a tree whose root is the tab's.\<close>

definition rooted :: "fattrs theap \<Rightarrow> fattrs itree \<Rightarrow> bool" where
  "rooted h tr \<longleftrightarrow> it_id tr = 0 \<and> heap_tree h True tr \<and> n_parent (node_at h 0) = None"

definition tab_tree :: "files_tab \<Rightarrow> bool" where
  "tab_tree t \<longleftrightarrow> (\<exists>tr. rooted (ft_heap t) tr)"

definition empty_tab :: "files_tab \<Rightarrow> bool" where
  "empty_tab t \<longleftrightarrow> rooted (ft_heap t) (IT 0 root_attrs [])"

text \<open>Answers as they come; whether none of them raised.\<close>

fun tab_answers :: "(string \<times> fentry) list list \<Rightarrow> files_tab \<Rightarrow> bool \<times> files_tab" where
  "tab_answers [] t = (True, t)"
| "tab_answers (fs # answers) t =
     (case onRequestComplete 0 fs t of (ok, t) \<Rightarrow> (case tab_answers answers t of (oks, t) \<Rightarrow> (ok \<and> oks, t)))"

lemma root_kids: "heap_tree h True (IT n a ts) \<Longrightarrow> heap_kids h n = map it_id ts \<and> n_attrs (node_at h n) = a"
  by (simp add: heap_tree_def node_ok_def)

lemma create_shows:
  assumes "rooted h (IT 0 root_attrs [])" "wf_files es"
  shows "\<exists>h' us. createFileTree es h = (es \<noteq> [], h') \<and> rooted h' (IT 0 root_attrs us) \<and> shows_files h' es"
proof -
  have base: "heap_tree h True (IT 0 root_attrs [])" "n_parent (node_at h 0) = None" using assms(1) by (simp_all add: rooted_def)
  obtain us where us: "grows 0 root_attrs [] us h (create_walk es 0 h)" "made_list us es"
    using create_grows(1) [OF base(1)] by blast
  let ?h = "create_walk es 0 h"
  have t: "rooted ?h (IT 0 root_attrs us)" using us(1) base(2) by (simp add: grows_def rooted_def same_place_def)
  then have k: "holds ?h True (IT 0 root_attrs us)" by (simp add: heap_tree_def rooted_def)
  have "shows_files ?h es" using made_shows(2) [OF k us(2) assms(2)] by (simp add: shows_files_def)
  moreover have "n_first (node_at ?h 0) \<noteq> None \<longleftrightarrow> us \<noteq> []" using k by (simp add: node_ok_def)
  moreover have "us = [] \<longleftrightarrow> es = []" using made_list_nth [OF us(2)] by auto
  ultimately show ?thesis using t by (auto simp: createFileTree_def Let_def)
qed

text \<open>A tree that any answer with the files of \<open>es\<close> fits.\<close>

definition ready :: "(string \<times> fentry) list \<Rightarrow> fattrs theap \<Rightarrow> bool" where
  "ready es h \<longleftrightarrow> (\<exists>tr. rooted h tr) \<and> hasChildNodes fa_leaf 0 h \<and> distinct (names_of h 0) \<and>
     length (heap_kids h 0) = length es \<and> (\<forall>fs. same_files fs es \<longrightarrow> fits_each h 0 fs)"

lemma ready_created:
  assumes "rooted h (IT 0 root_attrs us)" "shows_files h es" "es \<noteq> []"
  shows "ready es h"
proof -
  have "hasChildNodes fa_leaf 0 h" using assms root_kids [of h 0 root_attrs us] by (auto simp: rooted_def hasChildNodes_def root_attrs_def shows_files_def)
  moreover have "fits_each h 0 fs" if "same_files fs es" for fs
    using shows_fits(2) [of fs es] that assms(2) by (simp add: same_files_def shows_files_def)
  ultimately show ?thesis using assms(1,2) by (auto simp: ready_def shows_files_def intro: exI [of _ "IT 0 root_attrs us"])
qed

lemma ready_update:
  assumes "ready es h" "wf_files fs" "same_files fs es"
  shows "\<exists>h'. updateFileTree fs h = (True, h') \<and> shows_files h' fs \<and> ready es h'"
proof -
  obtain tr where tr: "it_id tr = 0" "heap_tree h True tr" "n_parent (node_at h 0) = None" using assms(1) by (auto simp: ready_def rooted_def)
  have f: "distinct (names_of h 0)" "length (heap_kids h 0) = length fs" "fits_each h 0 fs" "hasChildNodes fa_leaf 0 h"
    using assms(1,3) by (simp_all add: ready_def same_files_def)
  obtain h' where h: "updateFileTree fs h = (True, h')" "heap_tree h' True (relabel h' tr)" "soft h h'" "shows_files h' fs"
    using files_update_shows [OF tr(2,1) f(1,2) assms(2) f(3)] by blast
  have "hasChildNodes fa_leaf 0 h'" using f(4) by (simp add: hasChildNodes_def soft_links [OF h(3)] soft_attrs [OF h(3)])
  moreover have "fits_each h' 0 gs" if "same_files gs es" for gs using assms(1) that soft_fits(1) [OF h(3)] by (simp add: ready_def)
  moreover have "distinct (names_of h' 0)" "length (heap_kids h' 0) = length es"
    using assms(1) by (simp_all add: ready_def soft_child [OF h(3)] soft_links [OF h(3)])
  moreover have "rooted h' (relabel h' tr)" using h(2) tr(1,3) by (simp add: rooted_def soft_links [OF h(3)])
  ultimately have "ready es h'" unfolding ready_def by blast
  then show ?thesis using h(1,4) by blast
qed

lemma ready_answers:
  assumes "ready es (ft_heap t)" "\<forall>fs \<in> set rest. wf_files fs \<and> same_files fs es" "shows_files (ft_heap t) fs0"
  shows "\<exists>t'. tab_answers rest t = (True, t') \<and> shows_files (ft_heap t') (last (fs0 # rest)) \<and> ready es (ft_heap t') \<and>
    ft_torrentId t' = ft_torrentId t"
  using assms
proof (induction rest arbitrary: t fs0)
  case (Cons fs rest)
  let ?t = "t\<lparr>ft_requests := take 0 (ft_requests t) @ drop (Suc 0) (ft_requests t)\<rparr>"
  obtain h' where h: "updateFileTree fs (ft_heap t) = (True, h')" "shows_files h' fs" "ready es h'"
    using ready_update [OF Cons.prems(1)] Cons.prems(2) by auto
  have "hasChildNodes fa_leaf 0 (ft_heap t)" using Cons.prems(1) by (simp add: ready_def)
  then have "onRequestComplete 0 fs t = (True, ?t\<lparr>ft_heap := h'\<rparr>)" using h(1) by (simp add: onRequestComplete_def Let_def)
  moreover obtain t' where t': "tab_answers rest (?t\<lparr>ft_heap := h'\<rparr>) = (True, t')" "shows_files (ft_heap t') (last (fs # rest))"
      "ready es (ft_heap t')" "ft_torrentId t' = ft_torrentId t"
    using Cons.IH [of "?t\<lparr>ft_heap := h'\<rparr>" fs] h(2,3) Cons.prems(2) by auto
  ultimately show ?case by (simp add: t')
qed simp

text \<open>C23: The first answer for a torrent fills an empty tab, and every later one that names the same files and
  folders, in whatever order, goes through: the tab shows the files of the last answer, each with its size,
  progress and priority, under the nodes of their folders, and the pointers form a tree.\<close>

lemma answers_shown:
  assumes "empty_tab t" "es \<noteq> []" "wf_files es" "\<forall>fs \<in> set rest. wf_files fs \<and> same_files fs es"
  shows "\<exists>t'. tab_answers (es # rest) t = (True, t') \<and> shows_files (ft_heap t') (last (es # rest)) \<and> tab_tree t' \<and>
    ft_torrentId t' = ft_torrentId t"
proof -
  let ?t = "t\<lparr>ft_requests := take 0 (ft_requests t) @ drop (Suc 0) (ft_requests t)\<rparr>"
  have e: "rooted (ft_heap t) (IT 0 root_attrs [])" using assms(1) by (simp add: empty_tab_def)
  then have no: "\<not> hasChildNodes fa_leaf 0 (ft_heap t)" by (simp add: rooted_def hasChildNodes_def heap_tree_def node_ok_def)
  obtain h us where h: "createFileTree es (ft_heap t) = (True, h)" "rooted h (IT 0 root_attrs us)" "shows_files h es"
    using create_shows [OF e assms(3)] assms(2) by auto
  have "onRequestComplete 0 es t = (True, ?t\<lparr>ft_heap := h\<rparr>)" using no h(1) by (simp add: onRequestComplete_def Let_def)
  moreover obtain t' where "tab_answers rest (?t\<lparr>ft_heap := h\<rparr>) = (True, t')" "shows_files (ft_heap t') (last (es # rest))"
      "ready es (ft_heap t')" "ft_torrentId t' = ft_torrentId t"
    using ready_answers [of es "?t\<lparr>ft_heap := h\<rparr>" rest es] ready_created [OF h(2,3) assms(2)] h(3) assms(4) by auto
  ultimately show ?thesis by (auto simp: tab_tree_def ready_def)
qed

lemma new_tab_empty: "empty_tab files_tab_new"
  by (simp add: empty_tab_def rooted_def files_tab_new_def heap_tree_def node_ok_def siblings_ok_def tree_node_def setRootNode_def node_new_def)

definition demo_files :: "(string \<times> fentry) list" where
  "demo_files = [(''disk'', FDir (Num (Fin 30)) (Num (Fin 0)) (Num (Fin 4))
     [(''a.iso'', FFile 0 (Num (Fin 10)) (Num (Fin 0)) (Num (Fin 4))), (''b.iso'', FFile 1 (Num (Fin 20)) (Num (Fin 0)) (Num (Fin 4)))])]"

definition demo_later :: "(string \<times> fentry) list" where
  "demo_later = [(''disk'', FDir (Num (Fin 30)) (Num (Fin 1)) (Num (Fin 4))
     [(''b.iso'', FFile 1 (Num (Fin 20)) (Num (Fin 1)) (Num (Fin 4))), (''a.iso'', FFile 0 (Num (Fin 10)) (Num (Fin 1)) (Num (Fin 4)))])]"

lemma demo_files: "demo_files \<noteq> []" "wf_files demo_files" "wf_files demo_later" "same_files demo_later demo_files"
  by (simp_all add: demo_files_def demo_later_def wf_files_def same_files_def)

lemma answers_shown_witness:
  "\<exists>t'. tab_answers [demo_files, demo_later] files_tab_new = (True, t') \<and> shows_files (ft_heap t') demo_later \<and> tab_tree t' \<and>
    ft_torrentId t' = None"
  using answers_shown [of files_tab_new demo_files "[demo_later]"] new_tab_empty demo_files by (simp add: files_tab_new_def)

section \<open>Another torrent\<close>

text \<open>A cascade of a function that changes nothing.\<close>

lemma cascade_loop_id:
  assumes "kids s n = map it_id ts" "\<And>u. u \<in> set ts \<Longrightarrow> cascade kids fn k (it_id u) s = Some (True, s)" "i \<le> length ts"
  shows "cascade_loop kids fn k n i (length ts) s = Some (True, s)"
  using assms(3)
proof (induction "length ts - i" arbitrary: i)
  case (Suc x)
  then have "cascade_loop kids fn k n (Suc i) (length ts) s = Some (True, s)" by simp
  then show ?case using Suc(2) assms(1,2) by (subst cascade_loop.simps) simp
qed (simp add: cascade_loop.simps)

lemma cascade_id:
  assumes "kids_match kids s t" "depth t \<le> fuel" "\<forall>m \<in> set (ids t). fn m s = (True, s)"
  shows "cascade kids fn fuel (it_id t) s = Some (True, s)"
  using assms
proof (induction t arbitrary: fuel)
  case (IT n a ts)
  obtain k where k: "fuel = Suc k" using IT.prems(2) by (cases fuel) auto
  have "cascade kids fn k (it_id u) s = Some (True, s)" if "u \<in> set ts" for u
    using IT.IH [OF that] depth_kid [OF that, of n a] IT.prems that by (auto simp: k list_all_iff)
  then have "cascade_loop kids fn k n 0 (length ts) s = Some (True, s)" using IT.prems(1) by (intro cascade_loop_id) simp_all
  then show ?case using IT.prems(1,3) by (simp add: k cascade.simps)
qed

lemma holds_owned: "holds h b t \<Longrightarrow> m \<in> set (ids t) \<Longrightarrow> n_owned (node_at h m) = b"
  by (induction t) (auto simp: node_ok_def list_all_iff)

lemma holds_parent: "holds h b t \<Longrightarrow> m \<in> set (ids t) \<Longrightarrow> m \<noteq> it_id t \<Longrightarrow> \<exists>p \<in> set (ids t). n_parent (node_at h m) = Some p"
proof (induction t)
  case (IT n a ts)
  then obtain u where u: "u \<in> set ts" "m \<in> set (ids u)" by auto
  show ?case
  proof (cases "m = it_id u")
    case True
    then show ?thesis using IT.prems(1) u by (auto simp: node_ok_def)
  next
    case False
    then show ?thesis using IT.IH [OF u(1)] IT.prems(1) u by (fastforce simp: list_all_iff)
  qed
qed

lemma clear_kid:
  assumes "heap_tree h True (IT 0 a (xs @ y # ys))" "depth y \<le> k"
  shows "\<exists>h2. cascade heap_kids clear_fn k (it_id y) h = Some (True, h2) \<and> heap_tree h2 True (IT 0 a (xs @ ys)) \<and> n_parent (node_at h2 0) = n_parent (node_at h 0)"
proof -
  obtain k' where k: "k = Suc k'" using assms(2) by (cases k; cases y) auto
  have t: "holds h True (IT 0 a (xs @ y # ys))" "distinct (ids (IT 0 a (xs @ y # ys)))"
    "\<forall>m \<in> set (ids (IT 0 a (xs @ y # ys))). m < next_id h" using assms(1) by (simp_all add: heap_tree_def)
  obtain r h2 where rm: "removeChild 0 (it_id y) h = (r, h2)" by (cases "removeChild 0 (it_id y) h")
  note rk = remove_kid [OF t rm]
  have "n_parent (node_at h (it_id y)) = Some 0" "n_owned (node_at h 0)" using t(1) by (simp_all add: node_ok_def)
  then have fn: "clear_fn (it_id y) h = (True, h2)" by (simp add: clear_fn_def rm)
  have still: "clear_fn m h2 = (True, h2)" if "m \<in> set (ids y)" "m \<noteq> it_id y" for m
    using holds_parent [OF rk(3) that] holds_owned [OF rk(3)] by (auto simp: clear_fn_def)
  have "cascade heap_kids clear_fn k' (it_id u) h2 = Some (True, h2)" if u: "u \<in> set (it_kids y)" for u
  proof (rule cascade_id)
    have "holds h2 False u" using rk(3) u by (cases y) (simp add: list_all_iff)
    then show "kids_match heap_kids h2 u" by (rule holds_kids)
    show "depth u \<le> k'" using assms(2) u depth_kid [of u "it_kids y" "it_id y" "it_attrs y"] by (simp add: k)
    have "distinct (ids y)" using t(2) by simp
    then have "it_id y \<notin> set (ids u)" using u by (cases y) auto
    then show "\<forall>m \<in> set (ids u). clear_fn m h2 = (True, h2)" using u still by (cases y) auto
  qed
  moreover have hk: "heap_kids h2 (it_id y) = map it_id (it_kids y)" by (rule holds_root [OF rk(3)])
  ultimately have "cascade_loop heap_kids clear_fn k' (it_id y) 0 (length (it_kids y)) h2 = Some (True, h2)"
    by (intro cascade_loop_id) simp_all
  then have "cascade heap_kids clear_fn k (it_id y) h = Some (True, h2)" by (simp add: k cascade.simps fn hk)
  moreover have "heap_tree h2 True (IT 0 a (xs @ ys))" using rk(2,4) t(2,3) by (auto simp: heap_tree_def)
  moreover have "n_parent (node_at h2 0) = n_parent (node_at h 0)" using rk(5) by (simp add: same_place_def)
  ultimately show ?thesis by blast
qed

text \<open>Every other child, the first one not among them.\<close>

fun odds :: "'b list \<Rightarrow> 'b list" where
  "odds [] = []"
| "odds [x] = []"
| "odds (x # y # zs) = y # odds zs"

lemma clear_loop:
  assumes "heap_tree h True (IT 0 a (xs @ ys))" "i = length xs" "len = 2 * length xs + length ys" "\<forall>u \<in> set ys. depth u \<le> k"
  shows "\<exists>h'. cascade_loop heap_kids clear_fn k 0 i len h = Some (len \<le> 1, h') \<and> heap_tree h' True (IT 0 a (xs @ odds ys)) \<and>
    n_parent (node_at h' 0) = n_parent (node_at h 0)"
  using assms
proof (induction ys arbitrary: xs h i len rule: odds.induct)
  case 1
  moreover have "len \<le> 1 \<longleftrightarrow> xs = []" using 1(3) by (cases xs) auto
  ultimately show ?case using root_kids [OF 1(1)] by (auto simp: cascade_loop.simps)
next
  case (2 y)
  obtain h2 where h2: "cascade heap_kids clear_fn k (it_id y) h = Some (True, h2)" "heap_tree h2 True (IT 0 a xs)" "n_parent (node_at h2 0) = n_parent (node_at h 0)"
    using clear_kid [of h a xs y "[]" k] 2(1,4) by auto
  have "heap_kids h 0 ! i = it_id y" "i < length (heap_kids h 0)" using root_kids [OF 2(1)] 2(2) by (simp_all add: nth_append)
  then have "cascade_loop heap_kids clear_fn k 0 i len h = cascade_loop heap_kids clear_fn k 0 (Suc i) len h2"
    using 2(2,3) by (subst cascade_loop.simps) (simp add: h2(1))
  also have "\<dots> = Some (len \<le> 1, h2)" using root_kids [OF h2(2)] 2(2,3) by (subst cascade_loop.simps) auto
  finally show ?case using h2(2,3) by simp
next
  case (3 y z zs)
  obtain h2 where h2: "cascade heap_kids clear_fn k (it_id y) h = Some (True, h2)" "heap_tree h2 True (IT 0 a ((xs @ [z]) @ zs))"
      "n_parent (node_at h2 0) = n_parent (node_at h 0)"
    using clear_kid [of h a xs y "z # zs" k] 3(2,5) by auto
  have "heap_kids h 0 ! i = it_id y" "i < length (heap_kids h 0)" using root_kids [OF 3(2)] 3(3) by (simp_all add: nth_append)
  then have "cascade_loop heap_kids clear_fn k 0 i len h = cascade_loop heap_kids clear_fn k 0 (Suc i) len h2"
    using 3(3,4) by (subst cascade_loop.simps) (simp add: h2(1))
  then show ?case using 3(1) [OF h2(2), of "Suc i" len] h2(3) 3(3,4,5) by simp
qed

text \<open>C24: Choosing another torrent empties the tree and asks for its files only if at most one file or folder
  stands at the top of the tree: \<open>cascade\<close> walks the children while \<open>clear\<close> takes them away, so that with
  two or more it ends in a \<open>TypeError\<close>, leaves every other one, and neither notes the torrent nor sends
  the request.\<close>

lemma clear_raises:
  assumes "rooted (ft_heap t) (IT 0 root_attrs ts)" "ft_torrentId t \<noteq> Some torrentId"
  shows "\<exists>h'. tab_update torrentId t =
      Some (if length ts \<le> 1 then (True, t\<lparr>ft_heap := h', ft_torrentId := Some torrentId, ft_requests := ft_requests t @ [torrentId]\<rparr>)
            else (False, t\<lparr>ft_heap := h'\<rparr>)) \<and>
    rooted h' (IT 0 root_attrs (odds ts))"
proof -
  let ?h = "ft_heap t"
  have t: "heap_tree ?h True (IT 0 root_attrs ts)" "n_parent (node_at ?h 0) = None" using assms(1) by (simp_all add: rooted_def)
  have kids: "heap_kids ?h 0 = map it_id ts" "n_attrs (node_at ?h 0) = root_attrs" using root_kids [OF t(1)] by simp_all
  have "\<exists>h'. clear_tree ?h = Some (length ts \<le> 1, h') \<and> rooted h' (IT 0 root_attrs (odds ts))"
  proof (cases "ts = []")
    case True
    then have "\<not> hasChildNodes fa_leaf 0 ?h" using kids by (simp add: hasChildNodes_def)
    then show ?thesis using assms(1) True by (simp add: clear_tree_def)
  next
    case False
    have d: "depth (IT 0 root_attrs ts) \<le> next_id ?h" using depth_next [OF t(1)] .
    then obtain k where k: "next_id ?h = Suc k" by (cases "next_id ?h") auto
    have dk: "\<forall>u \<in> set ts. depth u \<le> k" using d depth_kid [of _ ts 0 root_attrs] unfolding k by fastforce
    obtain h' where h': "cascade_loop heap_kids clear_fn k 0 0 (length ts) ?h = Some (length ts \<le> 1, h')"
        "heap_tree h' True (IT 0 root_attrs (odds ts))" "n_parent (node_at h' 0) = None"
      using clear_loop [of ?h root_attrs "[]" ts 0 "length ts" k] t dk by auto
    have "hasChildNodes fa_leaf 0 ?h" using kids False by (simp add: hasChildNodes_def root_attrs_def)
    moreover have "clear_fn 0 ?h = (True, ?h)" using t(2) by (simp add: clear_fn_def)
    ultimately show ?thesis using h' kids by (simp add: clear_tree_def k cascade.simps rooted_def)
  qed
  then show ?thesis using assms(2) by (auto simp: tab_update_def tab_clear_def)
qed

text \<open>A tab with two files at the top.\<close>

definition two_files :: "(string \<times> fentry) list" where
  "two_files = [(''a'', FFile 0 (Num (Fin 1)) (Num (Fin 0)) (Num (Fin 4))), (''b'', FFile 1 (Num (Fin 1)) (Num (Fin 0)) (Num (Fin 4)))]"

definition two_tab :: files_tab where
  "two_tab = snd (onRequestComplete 0 two_files files_tab_new)"

definition two_kids :: "fattrs itree list" where
  "two_kids = [IT 1 (entry_attrs ''a'' (snd (two_files ! 0))) [], IT 2 (entry_attrs ''b'' (snd (two_files ! 1))) []]"

lemma two_tab: "rooted (ft_heap two_tab) (IT 0 root_attrs two_kids)" "ft_torrentId two_tab = None"
  by code_simp+

lemma clear_raises_witness:
  "\<exists>h'. tab_update ''x'' two_tab = Some (False, two_tab\<lparr>ft_heap := h'\<rparr>) \<and> rooted h' (IT 0 root_attrs (odds two_kids))"
  using clear_raises [of two_tab two_kids "''x''"] two_tab by (simp add: two_kids_def)

section \<open>Answers that come late\<close>

lemma update_misses:
  "nm \<in> fst ` set fs \<Longrightarrow> child_named nm p h = None \<Longrightarrow> \<not> fst (update_walk fs p h)"
proof (induction fs arbitrary: h)
  case (Cons f fs)
  obtain nm1 item where f: "f = (nm1, item)" by (cases f)
  show ?case
  proof (cases "findChild (\<lambda>a. fa_filename a = nm1) p h")
    case None
    then show ?thesis by (simp add: f)
  next
    case (Some c)
    let ?h1 = "upd c (n_attrs_update (refresh_attrs item)) h"
    obtain ok h2 where u: "update_item item c ?h1 = (ok, h2)" by (cases "update_item item c ?h1")
    have "soft h h2" using soft_trans [OF soft_upd update_soft(2)] u by (metis snd_conv)
    then have "child_named nm p h2 = None" using soft_child(1) Cons.prems(2) by simp
    moreover have "nm \<in> fst ` set fs" using Cons.prems Some by (auto simp: f child_named_def)
    ultimately have "\<not> fst (update_walk fs p h2)" using Cons.IH by blast
    then show ?thesis by (cases ok) (simp_all add: f Some u)
  qed
qed simp

lemma shows_names:
  assumes "shows_files h es" "wf_files es"
  shows "set (names_of h 0) = fst ` set es"
proof -
  have s: "distinct (names_of h 0)" "length (heap_kids h 0) = length es" "shows_each h 0 es" using assms(1) by (simp_all add: shows_files_def)
  have "nm \<in> set (names_of h 0)" if e: "(nm, item) \<in> set es" for nm item
  proof -
    obtain c where "child_named nm 0 h = Some c" using s(3) e unfolding shows_each_iff by blast
    then show ?thesis using child_named_kid by (fastforce simp: names_of_def)
  qed
  then have "fst ` set es \<subseteq> set (names_of h 0)" by auto
  moreover have "card (fst ` set es) = card (set (names_of h 0))"
    using s(1,2) assms(2) distinct_card [of "keys_of es"] distinct_card [OF s(1)] by (simp add: wf_files_def names_of_def)
  ultimately show ?thesis using card_subset_eq [of "set (names_of h 0)" "fst ` set es"] by simp
qed

lemma missing_name: "nm \<notin> set (names_of h n) \<Longrightarrow> child_named nm n h = None"
  by (force simp: child_named_def findChild_def find_None_iff names_of_def)

text \<open>An answer that names a file the tree has not, while it has some.\<close>

definition stuck :: "string \<Rightarrow> files_tab \<Rightarrow> bool" where
  "stuck nm t \<longleftrightarrow> hasChildNodes fa_leaf 0 (ft_heap t) \<and> child_named nm 0 (ft_heap t) = None"

lemma stuck_step:
  assumes "stuck nm t" "nm \<in> fst ` set fs"
  shows "\<not> fst (onRequestComplete i fs t)" "stuck nm (snd (onRequestComplete i fs t))"
proof -
  obtain ok h where u: "updateFileTree fs (ft_heap t) = (ok, h)" by (cases "updateFileTree fs (ft_heap t)")
  have "soft (ft_heap t) h" using update_soft(1) [of "ft_heap t" fs 0] u by (simp add: updateFileTree_def)
  moreover have "\<not> ok" using update_misses [of nm fs 0 "ft_heap t"] assms u by (simp add: stuck_def updateFileTree_def)
  ultimately show "\<not> fst (onRequestComplete i fs t)" "stuck nm (snd (onRequestComplete i fs t))"
    using assms(1) u by (auto simp: stuck_def onRequestComplete_def Let_def hasChildNodes_def soft_links soft_attrs soft_child)
qed

lemma stuck_stays: "stuck nm t \<Longrightarrow> \<forall>gs \<in> set gss. nm \<in> fst ` set gs \<Longrightarrow> stuck nm (snd (tab_answers gss t))"
proof (induction gss arbitrary: t)
  case (Cons gs gss)
  then have "stuck nm (snd (tab_answers gss (snd (onRequestComplete 0 gs t))))" using stuck_step(2) by simp
  then show ?case by (simp add: case_prod_unfold)
qed simp

text \<open>An answer is put into the tab whichever torrent it is of.  When the torrent \<open>a\<close> was chosen and then \<open>b\<close>
  before the files of \<open>a\<close> came, the tab of \<open>b\<close> shows the files of \<open>a\<close>, and every answer for \<open>b\<close> that names
  something \<open>a\<close> has not ends in a \<open>TypeError\<close> from then on.\<close>

lemma stale_answer_sticks:
  assumes "empty_tab t" "ft_requests t = []" "a \<noteq> b" "es \<noteq> []" "wf_files es" "nm \<notin> fst ` set es" "nm \<in> fst ` set fs"
    "\<forall>gs \<in> set gss. nm \<in> fst ` set gs"
  shows "\<exists>t1 t2 t3. tab_update a t = Some (True, t1) \<and> tab_update b t1 = Some (True, t2) \<and> ft_requests t2 = [a, b] \<and>
    onRequestComplete 0 es t2 = (True, t3) \<and> ft_torrentId t3 = Some b \<and> shows_files (ft_heap t3) es \<and>
    \<not> fst (onRequestComplete 0 fs (snd (tab_answers gss t3)))"
proof -
  have e: "rooted (ft_heap t) (IT 0 root_attrs [])" using assms(1) by (simp add: empty_tab_def)
  then have no: "\<not> hasChildNodes fa_leaf 0 (ft_heap t)" by (simp add: rooted_def hasChildNodes_def heap_tree_def node_ok_def)
  define t1 where "t1 = t\<lparr>ft_torrentId := Some a, ft_requests := [a]\<rparr>"
  define t2 where "t2 = t\<lparr>ft_torrentId := Some b, ft_requests := [a, b]\<rparr>"
  have u1: "tab_update a t = Some (True, t1)" using no assms(2) by (auto simp: tab_update_def tab_clear_def clear_tree_def t1_def)
  have u2: "tab_update b t1 = Some (True, t2)" using no assms(3) by (simp add: tab_update_def tab_clear_def clear_tree_def t1_def t2_def)
  obtain h us where h: "createFileTree es (ft_heap t) = (True, h)" "rooted h (IT 0 root_attrs us)" "shows_files h es"
    using create_shows [OF e assms(5)] assms(4) by auto
  define t3 where "t3 = t2\<lparr>ft_requests := [b], ft_heap := h\<rparr>"
  have u3: "onRequestComplete 0 es t2 = (True, t3)" using no h(1) by (simp add: onRequestComplete_def Let_def t2_def t3_def)
  have "child_named nm 0 h = None" using missing_name shows_names [OF h(3) assms(5)] assms(6) by blast
  moreover have "hasChildNodes fa_leaf 0 h" using ready_created [OF h(2,3) assms(4)] by (simp add: ready_def)
  ultimately have "stuck nm t3" by (simp add: stuck_def t3_def)
  then have "\<not> fst (onRequestComplete 0 fs (snd (tab_answers gss t3)))" using stuck_step(1) [OF stuck_stays assms(7)] assms(8) by blast
  then show ?thesis using u1 u2 u3 h(3) by (auto simp: t2_def t3_def)
qed

lemma stale_answer_sticks_witness:
  "\<exists>t1 t2 t3. tab_update ''a'' files_tab_new = Some (True, t1) \<and> tab_update ''b'' t1 = Some (True, t2) \<and> ft_requests t2 = [''a'', ''b''] \<and>
    onRequestComplete 0 demo_files t2 = (True, t3) \<and> ft_torrentId t3 = Some ''b'' \<and> shows_files (ft_heap t3) demo_files \<and>
    \<not> fst (onRequestComplete 0 two_files (snd (tab_answers [two_files, two_files] t3)))"
  by (rule stale_answer_sticks [where nm = "''b''", OF new_tab_empty])
    (simp_all add: files_tab_new_def demo_files demo_files_def two_files_def wf_files_def)

section \<open>Priorities\<close>

fun subtrees :: "'a itree \<Rightarrow> 'a itree list" where
  "subtrees (IT n a ts) = IT n a ts # concat (map subtrees ts)"

text \<open>A file is meant by a selection when it or a folder above it is selected.\<close>

definition covers :: "fattrs theap \<Rightarrow> fattrs itree \<Rightarrow> nat list \<Rightarrow> nat \<Rightarrow> bool" where
  "covers h tr sel m \<longleftrightarrow>
     (\<exists>u \<in> set (subtrees tr). it_id u \<in> set sel \<and> (if fa_leaf (n_attrs (node_at h (it_id u))) then m = it_id u else m \<in> set (ids u)))"

definition indexes_differ :: "fattrs theap \<Rightarrow> fattrs itree \<Rightarrow> bool" where
  "indexes_differ h tr \<longleftrightarrow>
     (\<forall>m \<in> set (ids tr). \<forall>m' \<in> set (ids tr). fa_fileIndex (n_attrs (node_at h m)) \<noteq> None \<longrightarrow>
        fa_fileIndex (n_attrs (node_at h m)) = fa_fileIndex (n_attrs (node_at h m')) \<longrightarrow> m = m')"

lemma subtrees_ids: "map it_id (subtrees tr) = ids tr"
proof (induction tr)
  case (IT n a ts)
  have e: "map (map it_id \<circ> subtrees) ts = map ids ts" by (rule map_cong) (simp_all add: IT)
  show ?case unfolding subtrees.simps ids.simps list.map map_concat map_map e by simp
qed

lemma subtree_of:
  assumes "n \<in> set (ids tr)"
  shows "\<exists>u \<in> set (subtrees tr). it_id u = n"
proof -
  have "n \<in> it_id ` set (subtrees tr)" using assms by (simp flip: subtrees_ids)
  then show ?thesis by blast
qed

lemma subtree_unique: "distinct (ids tr) \<Longrightarrow> u \<in> set (subtrees tr) \<Longrightarrow> w \<in> set (subtrees tr) \<Longrightarrow> it_id w = it_id u \<Longrightarrow> w = u"
  unfolding subtrees_ids [symmetric] distinct_map by (auto dest: inj_onD)

lemma subtree_heap:
  assumes "heap_tree h b tr" "u \<in> set (subtrees tr)"
  shows "heap_tree h b u \<and> set (ids u) \<subseteq> set (ids tr)"
  using assms
proof (induction tr)
  case (IT n a ts)
  show ?case
  proof (cases "u = IT n a ts")
    case False
    then obtain v where v: "v \<in> set ts" "u \<in> set (subtrees v)" using IT.prems(2) by auto
    have "heap_tree h b v" using IT.prems(1) v(1) distinct_kid [of n a ts v] by (auto simp: heap_tree_def list_all_iff)
    then show ?thesis using IT.IH [OF v(1) _ v(2)] v(1) by auto
  qed (use IT.prems(1) in simp)
qed

lemma put_fst [simp]: "fst (put_index v n s) = fst s"
  by (simp add: put_index_def split: prod.split option.split)

lemma put_fold_fst [simp]: "fst (fold (put_index v) ns s) = fst s"
  by (induction ns arbitrary: s) simp_all

lemma put_map:
  "map_of (snd (put_index v n s)) i = (if fa_fileIndex (n_attrs (node_at (fst s) n)) = Some i then Some (v n) else map_of (snd s) i)"
  by (cases s) (simp add: put_index_def update_conv' split: option.split)

lemma put_fold_map:
  assumes "fa_fileIndex (n_attrs (node_at (fst s) m)) = Some i"
    "\<And>n. n \<in> set ns \<Longrightarrow> fa_fileIndex (n_attrs (node_at (fst s) n)) = Some i \<Longrightarrow> n = m"
  shows "map_of (snd (fold (put_index v) ns s)) i = (if m \<in> set ns then Some (v m) else map_of (snd s) i)"
  using assms
proof (induction ns arbitrary: s)
  case (Cons n ns)
  have "map_of (snd (fold (put_index v) ns (put_index v n s))) i =
      (if m \<in> set ns then Some (v m) else map_of (snd (put_index v n s)) i)"
    by (rule Cons.IH) (use Cons.prems in auto)
  moreover have "fa_fileIndex (n_attrs (node_at (fst s) n)) = Some i \<longleftrightarrow> n = m" using Cons.prems by fastforce
  ultimately show ?case by (simp add: put_map)
qed simp

lemma cascade_puts:
  assumes "heap_tree (fst s) True u"
  shows "cascade_indexes v (it_id u) s = Some (True, fold (put_index v) (ids u) s)"
proof -
  have "kids_match heap_kids (fst s) u" using holds_kids [of "fst s" True u] assms by (simp add: heap_tree_def)
  moreover have "kids_match (\<lambda>s. heap_kids (fst s)) s w = kids_match heap_kids (fst s) w" for w :: "fattrs itree"
    by (induction w) (auto simp: list_all_iff)
  ultimately show ?thesis
    unfolding cascade_indexes_def by (intro cascade_fold) (use depth_next [OF assms] in \<open>simp_all (no_asm_simp)\<close>)
qed

text \<open>The nodes a selected node stands for: a file itself, a folder all that is reached from it, in the order
  of the walk.  The node need not be in the tree.\<close>

definition meant :: "fattrs theap \<Rightarrow> nat \<Rightarrow> nat list" where
  "meant h n =
     (if fa_leaf (n_attrs (node_at h n)) then [n]
      else case cascade (\<lambda>_. heap_kids h) (\<lambda>m ns. (True, ns @ [m])) (next_id h) n [] of Some (_, ns) \<Rightarrow> ns | None \<Rightarrow> [])"

text \<open>A walk that changes no children leaves the fold of its function over the nodes it visits.\<close>

lemma cascade_trace:
  assumes "\<And>s m. ok_state s \<Longrightarrow> kids s m = K m" "\<And>s m. ok_state s \<Longrightarrow> ok_state (g m s)" "ok_state s"
  shows "cascade kids (\<lambda>m s. (True, g m s)) fuel n s =
    map_option (\<lambda>(ok, ns). (ok, fold g ns s)) (cascade (\<lambda>_. K) (\<lambda>m ns. (True, ns @ [m])) fuel n []) \<and>
    (\<forall>ns0. cascade (\<lambda>_. K) (\<lambda>m ns. (True, ns @ [m])) fuel n ns0 =
       map_option (\<lambda>(ok, ns). (ok, ns0 @ ns)) (cascade (\<lambda>_. K) (\<lambda>m ns. (True, ns @ [m])) fuel n []))"
  using assms(3)
proof (induction fuel arbitrary: n s)
  case 0
  then show ?case by (simp add: cascade.simps)
next
  case (Suc fuel)
  define T where "T = (\<lambda>m (ns :: nat list). (True, ns @ [m]))"
  define c where "c m = cascade (\<lambda>_. K) T fuel m []" for m
  define L where "L i len = cascade_loop (\<lambda>_. K) T fuel n i len []" for i len
  have more: "ok_state s \<Longrightarrow> ok_state (fold g ns s)" for ns s by (induction ns arbitrary: s) (simp_all add: assms(2))
  have one: "cascade kids (\<lambda>m s. (True, g m s)) fuel m s = map_option (\<lambda>(ok, ns). (ok, fold g ns s)) (c m)"
    if "ok_state s" for m s using Suc.IH [OF that, of m] unfolding c_def T_def by blast
  have two: "cascade (\<lambda>_. K) T fuel m ns0 = map_option (\<lambda>(ok, ns). (ok, ns0 @ ns)) (c m)" for m ns0
    using Suc.IH [OF Suc.prems, of m] unfolding c_def T_def by blast
  have loop: "(\<forall>s. ok_state s \<longrightarrow> cascade_loop kids (\<lambda>m s. (True, g m s)) fuel n i len s =
      map_option (\<lambda>(ok, ns). (ok, fold g ns s)) (L i len)) \<and>
    (\<forall>ns0. cascade_loop (\<lambda>_. K) T fuel n i len ns0 = map_option (\<lambda>(ok, ns). (ok, ns0 @ ns)) (L i len))" for i len
  proof (induction "len - i" arbitrary: i)
    case 0
    then have "\<not> i < len" by simp
    then show ?case by (simp add: cascade_loop.simps L_def)
  next
    case (Suc d)
    then have i: "i < len" "d = len - Suc i" by simp_all
    have IH: "ok_state u \<Longrightarrow> cascade_loop kids (\<lambda>m s. (True, g m s)) fuel n (Suc i) len u =
        map_option (\<lambda>(ok, ns). (ok, fold g ns u)) (L (Suc i) len)"
      "cascade_loop (\<lambda>_. K) T fuel n (Suc i) len ns0 = map_option (\<lambda>(ok, ns). (ok, ns0 @ ns)) (L (Suc i) len)" for u ns0
      using Suc.hyps(1) [OF i(2)] by blast+
    have L: "L i len = (if i < length (K n) then (case c (K n ! i) of None \<Rightarrow> None
        | Some (ok, ns) \<Rightarrow> if ok then map_option (\<lambda>(ok, ms). (ok, ns @ ms)) (L (Suc i) len) else Some (False, ns)) else Some (False, []))"
      unfolding L_def [of i] cascade_loop.simps [of _ _ _ _ i] using i(1)
      by (simp add: two IH(2) case_prod_unfold split: option.split)
    have "cascade_loop kids (\<lambda>m s. (True, g m s)) fuel n i len s = map_option (\<lambda>(ok, ns). (ok, fold g ns s)) (L i len)"
      if s: "ok_state s" for s
      unfolding L cascade_loop.simps [of kids _ _ _ i] using i(1) assms(1) [OF s] one [OF s] IH(1) [OF more [OF s]]
      by (auto simp: option.map_comp o_def case_prod_unfold split: option.split)
    moreover have "cascade_loop (\<lambda>_. K) T fuel n i len ns0 = map_option (\<lambda>(ok, ns). (ok, ns0 @ ns)) (L i len)" for ns0
      unfolding L cascade_loop.simps [of _ _ _ _ i] using i(1)
      by (auto simp: two IH(2) option.map_comp o_def case_prod_unfold split: option.split)
    ultimately show ?case by blast
  qed
  have g: "ok_state (g n s)" using assms(2) Suc.prems by blast
  have l: "cascade_loop kids (\<lambda>m s. (True, g m s)) fuel n 0 (length (K n)) (g n s) =
      map_option (\<lambda>(ok, ns). (ok, fold g ns (g n s))) (L 0 (length (K n)))"
    "cascade_loop (\<lambda>_. K) T fuel n 0 (length (K n)) ns0 = map_option (\<lambda>(ok, ns). (ok, ns0 @ ns)) (L 0 (length (K n)))" for ns0
    using loop g by blast+
  have t: "cascade (\<lambda>_. K) T (Suc fuel) n ns0 = map_option (\<lambda>(ok, ns). (ok, ns0 @ n # ns)) (L 0 (length (K n)))" for ns0
    by (simp add: cascade.simps T_def [THEN fun_cong, THEN fun_cong] l(2) case_prod_unfold option.map_comp o_def)
  have k: "cascade kids (\<lambda>m s. (True, g m s)) (Suc fuel) n s = map_option (\<lambda>(ok, ns). (ok, fold g (n # ns) s)) (L 0 (length (K n)))"
    by (simp add: cascade.simps assms(1) [OF g] l(1))
  show ?case unfolding T_def [symmetric] t k by (simp add: option.map_comp o_def case_prod_unfold)
qed

lemma click_node_fold: "click_node p n s = fold (put_index (\<lambda>_. p)) (meant (fst s) n) s"
proof -
  have "cascade_indexes (\<lambda>_. p) n s =
      map_option (\<lambda>(ok, ns). (ok, fold (put_index (\<lambda>_. p)) ns s))
        (cascade (\<lambda>_. heap_kids (fst s)) (\<lambda>m ns. (True, ns @ [m])) (next_id (fst s)) n [])"
    unfolding cascade_indexes_def
    by (rule cascade_trace [where ok_state = "\<lambda>t. fst t = fst s", THEN conjunct1]) simp_all
  then show ?thesis by (auto simp: click_node_def meant_def split: option.splits)
qed

lemma meant_tree:
  assumes "heap_tree h True u"
  shows "meant h (it_id u) = (if fa_leaf (n_attrs (node_at h (it_id u))) then [it_id u] else ids u)"
proof -
  have "kids_match heap_kids h u" using holds_kids [of h True u] assms by (simp add: heap_tree_def)
  moreover have "kids_match (\<lambda>_. heap_kids h) s w = kids_match heap_kids h w" for s :: "nat list" and w :: "fattrs itree"
    by (induction w) (auto simp: list_all_iff)
  ultimately have "cascade (\<lambda>_. heap_kids h) (\<lambda>m ns. (True, ns @ [m])) (next_id h) (it_id u) [] = Some (True, fold (\<lambda>m ns. ns @ [m]) (ids u) [])"
    by (intro cascade_fold) (use depth_next [OF assms] in \<open>simp_all (no_asm_simp)\<close>)
  moreover have "fold (\<lambda>m ns. ns @ [m]) xs ys = ys @ xs" for xs ys :: "nat list" by (induction xs arbitrary: ys) simp_all
  ultimately show ?thesis by (simp add: meant_def)
qed

definition has_index :: "fattrs theap \<Rightarrow> nat \<Rightarrow> nat \<Rightarrow> bool" where
  "has_index h n i \<longleftrightarrow> (\<exists>m \<in> set (meant h n). fa_fileIndex (n_attrs (node_at h m)) = Some i)"

lemma put_const_map:
  "map_of (snd (fold (put_index (\<lambda>_. p)) ns s)) i =
     (if \<exists>m \<in> set ns. fa_fileIndex (n_attrs (node_at (fst s) m)) = Some i then Some p else map_of (snd s) i)"
  by (induction ns arbitrary: s) (auto simp: put_map)

lemma click_fold_map:
  "map_of (snd (fold (click_node p) sel s)) i = (if \<exists>n \<in> set sel. has_index (fst s) n i then Some p else map_of (snd s) i)"
  by (induction sel arbitrary: s) (auto simp: click_node_fold put_const_map has_index_def)

text \<open>A node that is still selected and that the tree has no longer, with a file of the index.\<close>

definition left_selected :: "fattrs theap \<Rightarrow> fattrs itree \<Rightarrow> nat \<Rightarrow> bool" where
  "left_selected h tr i \<longleftrightarrow> (\<exists>n \<in> set (selected h). n \<notin> set (ids tr) \<and> has_index h n i)"

lemma selected_index:
  assumes "heap_tree h True tr" "indexes_differ h tr" "m \<in> set (ids tr)" "fa_fileIndex (n_attrs (node_at h m)) = Some i"
  shows "(\<exists>n \<in> set (selected h). has_index h n i) \<longleftrightarrow> covers h tr (selected h) m \<or> left_selected h tr i"
proof -
  have one: "k = m" if "k \<in> set (ids tr)" "fa_fileIndex (n_attrs (node_at h k)) = Some i" for k
    using assms(2-4) that unfolding indexes_differ_def by (metis option.distinct(1))
  have at: "has_index h (it_id u) i \<longleftrightarrow> (if fa_leaf (n_attrs (node_at h (it_id u))) then m = it_id u else m \<in> set (ids u))"
    if "u \<in> set (subtrees tr)" for u
  proof -
    have u: "heap_tree h True u" "set (ids u) \<subseteq> set (ids tr)" using subtree_heap [OF assms(1) that] by simp_all
    then have "it_id u \<in> set (ids tr)" using ids_nonempty [of u] by auto
    then show ?thesis using one u(2) assms(4) by (auto simp: has_index_def meant_tree [OF u(1)])
  qed
  have "covers h tr (selected h) m \<longleftrightarrow> (\<exists>u \<in> set (subtrees tr). it_id u \<in> set (selected h) \<and> has_index h (it_id u) i)"
    using at by (auto simp: covers_def)
  also have "\<dots> \<longleftrightarrow> (\<exists>n \<in> set (selected h). n \<in> set (ids tr) \<and> has_index h n i)"
  proof -
    have "set (ids tr) = it_id ` set (subtrees tr)" by (simp flip: subtrees_ids)
    then show ?thesis by auto
  qed
  finally show ?thesis by (auto simp: left_selected_def)
qed

lemma index_array_nth:
  assumes "map_of idx i = Some v"
  shows "i < length (index_array idx) \<and> index_array idx ! i = v"
proof -
  have "Suc i \<in> set (map (Suc \<circ> fst) idx)" using map_of_SomeD [OF assms] by force
  then have "Suc i \<le> Max (insert (length idx) (set (map (Suc \<circ> fst) idx)))" by (intro Max_ge) auto
  then show ?thesis using assms by (simp add: index_array_def)
qed

lemma click_indexes_map:
  assumes "rooted h tr" "indexes_differ h tr" "m \<in> set (ids tr)" "fa_fileIndex (n_attrs (node_at h m)) = Some i"
  shows "map_of (click_indexes p h) i =
    Some (if covers h tr (selected h) m \<or> left_selected h tr i then p else fa_priority (n_attrs (node_at h m)))"
proof -
  let ?v = "\<lambda>n. fa_priority (n_attrs (node_at h n))"
  let ?s = "fold (put_index ?v) (ids tr) (h, [])"
  have t: "heap_tree h True tr" "it_id tr = 0" using assms(1) by (simp_all add: rooted_def)
  have c: "cascade_indexes ?v 0 (h, []) = Some (True, ?s)" using cascade_puts [of "(h, [])" tr ?v] t by simp
  have "map_of (snd ?s) i = (if m \<in> set (ids tr) then Some (?v m) else map_of (snd (h, [] :: (nat \<times> jsval) list)) i)"
    by (rule put_fold_map) (use assms(2-4) in \<open>auto simp: indexes_differ_def\<close>)
  moreover have "map_of (snd (fold (click_node p) (selected h) ?s)) i =
      (if \<exists>n \<in> set (selected h). has_index h n i then Some p else map_of (snd ?s) i)"
    using click_fold_map [of p "selected h" ?s] by simp
  ultimately show ?thesis using assms(3) selected_index [OF t(1) assms(2-4)] by (simp add: click_indexes_def c)
qed

lemma no_left_selected: "set (selected h) \<subseteq> set (ids tr) \<Longrightarrow> \<not> left_selected h tr i"
  by (auto simp: left_selected_def)

lemma sent_click: "ft_sent (tab_onItemClick p t) = ft_sent t @ [(ft_torrentId t, index_array (click_indexes p (ft_heap t)))]"
  by (simp add: tab_onItemClick_def)

text \<open>C25: What the menu of priorities sends says for every file of the tree, at its index: the chosen
  priority if the file or a folder above it is selected, and the priority it had otherwise.  There is one
  exception: a node that stayed selected when its torrent's tree was cleared counts too, and gives the
  chosen priority to the files of the present torrent that have its files' indexes.\<close>

lemma sent_priorities:
  assumes "rooted (ft_heap t) tr" "indexes_differ (ft_heap t) tr" "m \<in> set (ids tr)"
    "fa_fileIndex (n_attrs (node_at (ft_heap t) m)) = Some i"
  shows "\<exists>ps. ft_sent (tab_onItemClick p t) = ft_sent t @ [(ft_torrentId t, ps)] \<and> i < length ps \<and>
    ps ! i = (if covers (ft_heap t) tr (selected (ft_heap t)) m \<or> left_selected (ft_heap t) tr i then p
              else fa_priority (n_attrs (node_at (ft_heap t) m)))"
  using index_array_nth [OF click_indexes_map [OF assms, of p]] by (simp add: sent_click)

text \<open>Which nodes are selected is up to the user.\<close>

definition choose_nodes :: "nat list \<Rightarrow> files_tab \<Rightarrow> files_tab" where
  "choose_nodes sel t = t\<lparr>ft_heap := (ft_heap t)\<lparr>selected := sel\<rparr>\<rparr>"

lemma fold_upd_other: "m \<notin> set ns \<Longrightarrow> node_at (fold (\<lambda>n. upd n f) ns h) m = node_at h m"
  by (induction ns arbitrary: h) simp_all

lemma set_priority_soft: "soft h (fold (\<lambda>n. upd n (n_attrs_update (fa_priority_update (\<lambda>_. p)))) ns h)"
proof (induction ns arbitrary: h)
  case (Cons n ns)
  have "soft h (upd n (n_attrs_update (fa_priority_update (\<lambda>_. p))) h)" by (rule soft_attr_change) simp_all
  from soft_trans [OF this Cons.IH] show ?case by (simp only: fold_simps)
qed (simp add: soft_refl)

lemma covers_relabel:
  assumes "\<And>n. fa_leaf (n_attrs (node_at h' n)) = fa_leaf (n_attrs (node_at h n))"
  shows "covers h' (relabel g tr) sel m = covers h tr sel m"
proof -
  have "subtrees (relabel g tr) = map (relabel g) (subtrees tr)"
  proof (induction tr)
    case (IT n a ts)
    have e: "map (subtrees \<circ> relabel g) ts = map (map (relabel g) \<circ> subtrees) ts" by (rule map_cong) (simp_all add: IT)
    show ?case unfolding relabel.simps subtrees.simps map_map list.map map_concat e by simp
  qed
  then show ?thesis by (simp add: covers_def assms)
qed

text \<open>When the call has succeeded, the tab notes the new priority on the selected nodes only, not on the
  files below a selected folder.  A second click before the next answer of the server sends the old priority
  for such a file again, and so takes the first one back.\<close>

lemma second_click_reverts:
  assumes "rooted (ft_heap t) tr" "indexes_differ (ft_heap t) tr" "set (selected (ft_heap t)) \<subseteq> set (ids tr)" "set sel \<subseteq> set (ids tr)"
    "m \<in> set (ids tr)" "fa_fileIndex (n_attrs (node_at (ft_heap t) m)) = Some i" "ft_clicks t = []"
    "covers (ft_heap t) tr (selected (ft_heap t)) m" "m \<notin> set (selected (ft_heap t))" "\<not> covers (ft_heap t) tr sel m"
  shows "\<exists>ps qs. ft_sent (tab_onItemClick q (choose_nodes sel (click_done 0 (tab_onItemClick p t)))) =
      ft_sent t @ [(ft_torrentId t, ps), (ft_torrentId t, qs)] \<and>
    ps ! i = p \<and> qs ! i = fa_priority (n_attrs (node_at (ft_heap t) m))"
proof -
  let ?h = "ft_heap t"
  let ?g = "fold (\<lambda>n. upd n (n_attrs_update (fa_priority_update (\<lambda>_. p)))) (selected ?h) ?h"
  let ?t1 = "tab_onItemClick p t"
  let ?t2 = "choose_nodes sel (click_done 0 ?t1)"
  have s: "soft ?h ?g" by (rule set_priority_soft)
  have h2: "ft_heap ?t2 = ?g\<lparr>selected := sel\<rparr>" and rest: "ft_torrentId ?t2 = ft_torrentId t" "ft_sent ?t2 = ft_sent ?t1"
    using assms(7) by (simp_all add: choose_nodes_def click_done_def tab_onItemClick_def)
  have sel: "soft ?g ?g" "\<And>w. holds (?g\<lparr>selected := sel\<rparr>) True w = holds ?g True w"
  proof -
    show "soft ?g ?g" by (rule soft_refl)
    show "holds (?g\<lparr>selected := sel\<rparr>) True w = holds ?g True w" for w
      by (induction w) (simp add: node_ok_def siblings_ok_def list_all_iff)
  qed
  have "rooted (ft_heap ?t2) (relabel ?g tr)"
    using soft_heap_tree [OF s, of True tr] assms(1) sel(2) by (simp add: rooted_def heap_tree_def h2 soft_links [OF s])
  moreover have "indexes_differ (ft_heap ?t2) (relabel ?g tr)" using assms(2) by (simp add: indexes_differ_def h2 soft_attrs [OF s])
  moreover have "fa_fileIndex (n_attrs (node_at (ft_heap ?t2) m)) = Some i" using assms(6) by (simp add: h2 soft_attrs [OF s])
  moreover have "\<not> left_selected (ft_heap ?t2) (relabel ?g tr) i" by (rule no_left_selected) (use assms(4) in \<open>simp add: h2\<close>)
  ultimately have "map_of (click_indexes q (ft_heap ?t2)) i =
      Some (if covers (ft_heap ?t2) (relabel ?g tr) sel m then q else fa_priority (n_attrs (node_at (ft_heap ?t2) m)))"
    using click_indexes_map [of "ft_heap ?t2" "relabel ?g tr" m i q] assms(5) by (simp add: h2)
  moreover have "covers (ft_heap ?t2) (relabel ?g tr) sel m = covers ?h tr sel m"
    by (rule covers_relabel) (simp add: h2 soft_attrs [OF s])
  moreover have "node_at (ft_heap ?t2) m = node_at ?h m" using assms(9) fold_upd_other by (simp add: h2)
  ultimately have "map_of (click_indexes q (ft_heap ?t2)) i = Some (fa_priority (n_attrs (node_at ?h m)))" using assms(10) by simp
  from index_array_nth [OF this] have q: "index_array (click_indexes q (ft_heap ?t2)) ! i = fa_priority (n_attrs (node_at ?h m))" by simp
  have "map_of (click_indexes p ?h) i = Some p" using click_indexes_map [OF assms(1,2,5,6), of p] assms(8) by simp
  from index_array_nth [OF this] have "index_array (click_indexes p ?h) ! i = p" by simp
  moreover have "ft_sent (tab_onItemClick q ?t2) = ft_sent ?t2 @ [(ft_torrentId ?t2, index_array (click_indexes q (ft_heap ?t2)))]"
    by (rule sent_click)
  moreover have "ft_sent ?t1 = ft_sent t @ [(ft_torrentId t, index_array (click_indexes p ?h))]" by (rule sent_click)
  ultimately show ?thesis using q rest by (intro exI conjI) (simp_all only: append.assoc append.simps)
qed

text \<open>The tab with \<open>demo_files\<close>, their folder selected.\<close>

definition demo_nodes :: "fattrs tnode list" where
  "demo_nodes =
     [\<lparr>n_attrs = root_attrs, n_parent = None, n_first = Some 1, n_last = Some 1, n_prev = None, n_next = None, n_children = [1],
        n_owned = True\<rparr>,
      \<lparr>n_attrs = entry_attrs ''disk'' (snd (demo_files ! 0)), n_parent = Some 0, n_first = Some 2, n_last = Some 3, n_prev = None,
        n_next = None, n_children = [2, 3], n_owned = True\<rparr>,
      \<lparr>n_attrs = entry_attrs ''a.iso'' (FFile 0 (Num (Fin 10)) (Num (Fin 0)) (Num (Fin 4))), n_parent = Some 1, n_first = None,
        n_last = None, n_prev = None, n_next = Some 3, n_children = [], n_owned = True\<rparr>,
      \<lparr>n_attrs = entry_attrs ''b.iso'' (FFile 1 (Num (Fin 20)) (Num (Fin 0)) (Num (Fin 4))), n_parent = Some 1, n_first = None,
        n_last = None, n_prev = Some 2, n_next = None, n_children = [], n_owned = True\<rparr>]"

definition demo_tab :: files_tab where
  "demo_tab = files_tab_new\<lparr>ft_heap := \<lparr>node_at = (\<lambda>n. demo_nodes ! n), next_id = 4, selected = [1]\<rparr>\<rparr>"

definition demo_tree :: "fattrs itree" where
  "demo_tree = IT 0 (n_attrs (demo_nodes ! 0)) [IT 1 (n_attrs (demo_nodes ! 1))
     [IT 2 (n_attrs (demo_nodes ! 2)) [], IT 3 (n_attrs (demo_nodes ! 3)) []]]"

lemma demo_tab:
  "rooted (ft_heap demo_tab) demo_tree" "indexes_differ (ft_heap demo_tab) demo_tree" "selected (ft_heap demo_tab) = [1]"
  "ids demo_tree = [0, 1, 2, 3]" "fa_fileIndex (n_attrs (node_at (ft_heap demo_tab) 3)) = Some 1"
  "covers (ft_heap demo_tab) demo_tree [1] 3" "\<not> covers (ft_heap demo_tab) demo_tree [2] 3"
  "fa_priority (n_attrs (node_at (ft_heap demo_tab) 3)) = Num (Fin 4)" "ft_clicks demo_tab = []" "ft_sent demo_tab = []"
  "ft_torrentId demo_tab = None"
  by code_simp+

lemma sent_priorities_witness:
  "\<exists>ps. ft_sent (tab_onItemClick (Num (Fin 0)) demo_tab) = [(None, ps)] \<and> 1 < length ps \<and> ps ! 1 = Num (Fin 0)"
  using sent_priorities [of demo_tab demo_tree 3 1 "Num (Fin 0)"] demo_tab by simp

text \<open>Removing a folder takes the folder out of the selection, and not the files below it.  Here the file 2 of
  the torrent shown before is still selected; nothing of the present torrent is, and the menu sends the
  chosen priority for its first file.\<close>

definition node_of :: "fattrs \<Rightarrow> nat option \<Rightarrow> nat list \<Rightarrow> bool \<Rightarrow> fattrs tnode" where
  "node_of a par kids own = \<lparr>n_attrs = a, n_parent = par, n_first = (case kids of [] \<Rightarrow> None | k # _ \<Rightarrow> Some k),
     n_last = (case rev kids of [] \<Rightarrow> None | k # _ \<Rightarrow> Some k), n_prev = None, n_next = None, n_children = kids, n_owned = own\<rparr>"

definition stale_tab :: files_tab where
  "stale_tab = files_tab_new\<lparr>ft_torrentId := Some ''b'', ft_heap := \<lparr>node_at = (\<lambda>n.
     [node_of root_attrs None [3] True, node_of (entry_attrs ''disk'' (snd (demo_files ! 0))) None [2] False,
      node_of (entry_attrs ''a.iso'' (FFile 0 (Num (Fin 10)) (Num (Fin 0)) (Num (Fin 4)))) (Some 1) [] False,
      node_of (entry_attrs ''x'' (FFile 0 (Num (Fin 5)) (Num (Fin 0)) (Num (Fin 4)))) (Some 0) [] True] ! n), next_id = 4, selected = [2]\<rparr>\<rparr>"

lemma selected_owner:
  fixes h :: "'a theap"
  shows "selected (setOwnerTree k b n h) = selected h"
proof (induction k arbitrary: n h)
  case (Suc k)
  have "selected (fold (setOwnerTree k b) ns g) = selected g" for ns and g :: "'a theap"
    by (induction ns arbitrary: g) (simp_all add: Suc)
  then show ?case by simp
qed simp

lemma selected_places:
  "selected (set_next x y h) = selected h" "selected (set_prev x y h) = selected h" "selected (setOwnerTree k b n h) = selected h"
  by (simp_all add: set_next_def set_prev_def selected_owner split: option.split)

lemma selection_outlives_torrent:
  "selected (snd (removeChild p n h)) = removeAll n (selected h)"
  "ft_sent (tab_onItemClick (Num (Fin 0)) stale_tab) = [(Some ''b'', [Num (Fin 0)])]"
proof -
  show "selected (snd (removeChild p n h)) = removeAll n (selected h)"
    by (simp add: removeChild_def Let_def node_clear_def selected_places if_distrib [of selected])
  show "ft_sent (tab_onItemClick (Num (Fin 0)) stale_tab) = [(Some ''b'', [Num (Fin 0)])]" by code_simp
qed

lemma second_click_reverts_witness:
  "\<exists>ps qs. ft_sent (tab_onItemClick (Num (Fin 7)) (choose_nodes [2] (click_done 0 (tab_onItemClick (Num (Fin 0)) demo_tab)))) =
      [(None, ps), (None, qs)] \<and> ps ! 1 = Num (Fin 0) \<and> qs ! 1 = Num (Fin 4)"
  using second_click_reverts [of demo_tab demo_tree "[2]" 3 1 "Num (Fin 7)" "Num (Fin 0)"] demo_tab by simp

end
