(* ===== verification/FilterPanel.thy ===== *)
theory FilterPanel
  imports DataView Formatters
begin

text \<open>
  \<open>deluge-all/FilterPanel.js\<close>: one group of filters in the sidebar.  Its list is a \<open>DataView\<close> with single
  selection; beside it the panel keeps the counts the server sent, the health of the trackers, the
  menus it has built and the row a menu was opened on.  Calls, windows and menus go to an action list.
  The translation of a text is a parameter, because the table is a file the server generates.
\<close>

section \<open>State\<close>

record row =
  r_filter :: string
  r_count :: int
  r_health :: "string option"

datatype action =
    AskHealth
  | ShowMenu string
  | AskGroup string
  | RemoveWindow "string list"
  | RefreshUi
  | OpenLabel string
  | OpenTrackerInfo string
  | OpenTrackerSettings string

record panel =
  filterType :: string
  show_zero :: "bool option"
  states :: "int dict option"
  view :: "row dview"
  health :: "string dict option"
  healthInFlight :: bool
  healthAt :: "int option"
  menuState :: "string option"
  menuHost :: "string option"
  menus :: "string list"
  acts :: "action list"

definition act :: "action \<Rightarrow> panel \<Rightarrow> panel" where
  "act a p = p\<lparr>acts := acts p @ [a]\<rparr>"

section \<open>Texts\<close>

definition filter_class_char :: "char \<Rightarrow> bool" where
  "filter_class_char c \<longleftrightarrow>
     (CHR ''a'' \<le> c \<and> c \<le> CHR ''z'') \<or> (CHR ''0'' \<le> c \<and> c \<le> CHR ''9'') \<or> c = CHR ''_'' \<or> c = CHR ''-''"

definition delugeFilterClass :: "string \<Rightarrow> string" where
  "delugeFilterClass value = map (\<lambda>c. if filter_class_char c then c else CHR ''-'') (to_lower value)"

text \<open>\<open>toUpperCase\<close> of one character.\<close>

definition upper_char :: "char \<Rightarrow> char" where
  "upper_char c = (if CHR ''a'' \<le> c \<and> c \<le> CHR ''z'' then char_of (of_char c - 32 :: nat) else c)"

definition capitalised :: "string \<Rightarrow> string" where
  "capitalised p = map upper_char (take 1 p) @ drop 1 p @ '' ''"

definition panel_title :: "(string \<Rightarrow> string) \<Rightarrow> string \<Rightarrow> string" where
  "panel_title tr ft =
     tr (if ft = ''state'' then tr ''States''
         else if ft = ''tracker_host'' then tr ''Trackers''
         else if ft = ''owner'' then tr ''Owner''
         else if ft = ''label'' then tr ''Labels''
         else concat (map capitalised (split_on (CHR '' '') (replace_first (CHR ''_'') '' '' ft))))"

text \<open>A row of the list, by the template of the tracker list or the one of the others.\<close>

definition filter_row_html :: "string \<Rightarrow> row \<Rightarrow> string" where
  "filter_row_html ft r =
     (let count = js_string (num (of_int (r_count r))); text = js_string (htmlEncode (Str (r_filter r)))
      in if ft = ''tracker_host''
         then ''<div class=\"x-deluge-filter '' @ (case r_health r of None \<Rightarrow> [] | Some h \<Rightarrow> h) @ ''\">'' @ text @ '' ('' @ count @ '')</div>''
         else ''<div class=\"x-deluge-filter x-deluge-'' @ delugeFilterClass (r_filter r) @ ''\">'' @ text @ '' ('' @ count @ '')</div>'')"

definition emptyLabel :: "(string \<Rightarrow> string) \<Rightarrow> panel \<Rightarrow> string" where
  "emptyLabel tr p =
     (if filterType p = ''label'' then tr ''No Label''
      else if filterType p = ''owner'' then tr ''No Owner''
      else if filterType p = ''tracker_host'' then tr ''No Tracker''
      else tr ''None'')"

section \<open>Health of the trackers\<close>

definition HEALTH_INTERVAL :: int where
  "HEALTH_INTERVAL = 20000"

definition healthClass :: "panel \<Rightarrow> string \<Rightarrow> string" where
  "healthClass p value =
     (if filterType p \<noteq> ''tracker_host'' then []
      else if value = [] \<or> value = ''All'' then []
      else case map_of (case health p of None \<Rightarrow> [] | Some h \<Rightarrow> h) value of
             None \<Rightarrow> []
           | Some h \<Rightarrow> if h = [] then [] else ''x-deluge-tracker-health x-deluge-tracker-'' @ h)"

definition refreshHealth :: "int \<Rightarrow> panel \<Rightarrow> panel" where
  "refreshHealth now p =
     (if filterType p \<noteq> ''tracker_host'' then p
      else if healthInFlight p then p
      else if (case healthAt p of None \<Rightarrow> False | Some t \<Rightarrow> t \<noteq> 0 \<and> now - t < HEALTH_INTERVAL) then p
      else act AskHealth (p\<lparr>healthAt := Some now, healthInFlight := True\<rparr>))"

text \<open>\<open>store.each\<close> walks a copy of the records.\<close>

definition applyHealth :: "panel \<Rightarrow> panel" where
  "applyHealth p =
     (let v = fold (\<lambda>r v. dv_set (\<lambda>d. d\<lparr>r_health := Some (healthClass p (fst r))\<rparr>) r v) (items (v_store (view p))) (view p)
      in p\<lparr>view := commitChanges v\<rparr>)"

definition onHealth :: "string dict option \<Rightarrow> panel \<Rightarrow> panel" where
  "onHealth answer p =
     applyHealth (p\<lparr>healthInFlight := False, health := Some (case answer of None \<Rightarrow> [] | Some h \<Rightarrow> h)\<rparr>)"

definition onHealthFailure :: "panel \<Rightarrow> panel" where
  "onHealthFailure p = p\<lparr>healthInFlight := False\<rparr>"

section \<open>Updating the states\<close>

definition state_row :: "(string \<Rightarrow> string) \<Rightarrow> panel \<Rightarrow> string \<Rightarrow> int \<Rightarrow> row \<Rightarrow> row" where
  "state_row tr p k c d =
     d\<lparr>r_filter := (if k = [] then emptyLabel tr p else tr k), r_count := c, r_health := Some (healthClass p k)\<rparr>"

fun add_states :: "(string \<Rightarrow> string) \<Rightarrow> panel \<Rightarrow> nat \<Rightarrow> (string \<times> int) list \<Rightarrow> row dview \<Rightarrow> row dview" where
  "add_states tr p i [] v = v"
| "add_states tr p i ((k, c) # ss) v =
     (let v = (case find_rec k v of
                 None \<Rightarrow> dv_insert i k \<lparr>r_filter = k, r_count = c, r_health = None\<rparr> v
               | Some _ \<Rightarrow> v);
          v = (case find_rec k v of None \<Rightarrow> v | Some r \<Rightarrow> dv_edit (state_row tr p k c) r v)
      in add_states tr p (i + 1) ss v)"

definition remove_gone_row :: "string list \<Rightarrow> string \<times> nat \<Rightarrow> row dview \<Rightarrow> row dview" where
  "remove_gone_row filters r v =
     (if fst r \<in> set filters then v
      else let v = dv_remove r v
           in case getSelectedRecords v of
                Some s # _ \<Rightarrow> if fst s = fst r then select (getNode 0 v) False False v else v
              | _ \<Rightarrow> v)"

definition shown_states :: "bool \<Rightarrow> panel \<Rightarrow> (string \<times> int) list \<Rightarrow> (string \<times> int) list" where
  "shown_states sidebar_show_zero p ss =
     (if (case show_zero p of None \<Rightarrow> sidebar_show_zero | Some b \<Rightarrow> b) then ss
      else filter (\<lambda>(k, c). 0 < c \<or> k = ''All'') ss)"

definition sync_rows :: "(string \<Rightarrow> string) \<Rightarrow> panel \<Rightarrow> (string \<times> int) list \<Rightarrow> row dview \<Rightarrow> row dview" where
  "sync_rows tr p ss v =
     (let v = add_states tr p 0 ss v;
          v = fold (remove_gone_row (map fst ss)) (items (v_store v)) v;
          v = commitChanges v
      in if getSelectionCount v = 0 then select (getNode 0 v) False False v else v)"

definition updateStates :: "(string \<Rightarrow> string) \<Rightarrow> bool \<Rightarrow> int \<Rightarrow> (string \<times> int) list \<Rightarrow> panel \<Rightarrow> panel" where
  "updateStates tr sidebar_show_zero now ss p =
     (let p = p\<lparr>states := Some (fold (\<lambda>(k, c) d. AList.update k c d) ss [])\<rparr>;
          shown = shown_states sidebar_show_zero p ss;
          p = p\<lparr>view := sync_rows tr p shown (view p)\<rparr>
      in refreshHealth now p)"

section \<open>Reading the panel\<close>

definition getState :: "panel \<Rightarrow> string option" where
  "getState p =
     (if getSelectionCount (view p) = 0 then None
      else case getSelectedRecords (view p) of
             Some s # _ \<Rightarrow> if fst s = ''All'' then None else Some (fst s)
           | _ \<Rightarrow> None)"

definition getStates :: "panel \<Rightarrow> int dict option" where
  "getStates p = states p"

section \<open>The menu of a row\<close>

definition menu_items :: "string \<Rightarrow> string list" where
  "menu_items kind =
     (if kind = ''unregistered'' then [''Remove these torrents...'']
      else if kind = ''label'' then [''Settings...'']
      else [''Info...'', ''Settings...''])"

definition showMenu :: "string \<Rightarrow> panel \<Rightarrow> panel" where
  "showMenu kind p =
     act (ShowMenu kind) (if kind \<in> set (menus p) then p else p\<lparr>menus := menus p @ [kind]\<rparr>)"

definition onContextMenu :: "nat \<Rightarrow> panel \<Rightarrow> panel" where
  "onContextMenu index p =
     (case store_getAt (v_store (view p)) index of
        None \<Rightarrow> p
      | Some (k, a) \<Rightarrow>
          if filterType p = ''state'' then
            if (k \<noteq> ''Unregistered'' \<and> k \<noteq> ''Dead'') \<or> r_count (v_heap (view p) a) = 0 then p
            else showMenu ''unregistered'' (p\<lparr>menuState := Some k\<rparr>)
          else if k = [] \<or> k = ''All'' then p
          else showMenu (if filterType p = ''label'' then ''label'' else ''tracker'') (p\<lparr>menuHost := Some k\<rparr>))"

text \<open>A variable that was never set, and one that holds the empty text, count as nothing.\<close>

definition held :: "string option \<Rightarrow> string option" where
  "held x = (if x = Some [] then None else x)"

definition onRemoveUnregistered :: "panel \<Rightarrow> panel" where
  "onRemoveUnregistered p = (case held (menuState p) of None \<Rightarrow> p | Some k \<Rightarrow> act (AskGroup k) p)"

definition onGroup :: "'v dict option \<Rightarrow> panel \<Rightarrow> panel" where
  "onGroup torrents p =
     (let ids = map fst (case torrents of None \<Rightarrow> [] | Some d \<Rightarrow> d)
      in if ids = [] then act RefreshUi p else act (RemoveWindow ids) p)"

definition onLabelSettingsClick :: "panel \<Rightarrow> panel" where
  "onLabelSettingsClick p = (case held (menuHost p) of None \<Rightarrow> p | Some k \<Rightarrow> act (OpenLabel k) p)"

definition onInfoClick :: "panel \<Rightarrow> panel" where
  "onInfoClick p = (case held (menuHost p) of None \<Rightarrow> p | Some k \<Rightarrow> act (OpenTrackerInfo k) p)"

definition onSettingsClick :: "panel \<Rightarrow> panel" where
  "onSettingsClick p = (case held (menuHost p) of None \<Rightarrow> p | Some k \<Rightarrow> act (OpenTrackerSettings k) p)"

definition panel_onDestroy :: "panel \<Rightarrow> panel" where
  "panel_onDestroy p = p\<lparr>menus := []\<rparr>"

definition panel_new :: "string \<Rightarrow> panel" where
  "panel_new ft = \<lparr>filterType = ft, show_zero = None, states = None,
     view = dv_new True \<lparr>r_filter = [], r_count = 0, r_health = None\<rparr>, health = None, healthInFlight = False,
     healthAt = None, menuState = None, menuHost = None, menus = [], acts = []\<rparr>"

section \<open>Laws\<close>

text \<open>The ids of the rows after the states have been added.\<close>

fun ids_after :: "nat \<Rightarrow> string list \<Rightarrow> string list \<Rightarrow> string list" where
  "ids_after i [] ids = ids"
| "ids_after i (k # ks) ids = ids_after (i + 1) ks (if k \<in> set ids then ids else put_at i k ids)"

lemma map_of_set_row: "map_of (set_row k f d) k' = (if k' = k then map_option f (map_of d k) else map_of d k')"
  unfolding set_row_def by (induction d) auto

lemma keys_set_row: "map fst (set_row k f d) = map fst d"
  by (simp add: set_row_def case_prod_beta comp_def)

definition list_ok :: "'d dview \<Rightarrow> bool" where
  "list_ok v \<longleftrightarrow> dv_ok v \<and> \<not> v_multi v \<and> v_single v"

lemma rows_keys: "map fst (dv_rows v) = map fst (items (v_store v))"
  by (simp add: dv_rows_def case_prod_beta comp_def)

lemma find_none: "dv_ok v \<Longrightarrow> find_rec k v = None \<longleftrightarrow> k \<notin> set (map fst (dv_rows v))"
  using find_rec_rows(1) [of v k] by (simp add: map_of_eq_None_iff rows_keys)

lemma put_state_ok:
  fixes v :: "row dview" and k :: string and c :: int and tr :: "string \<Rightarrow> string" and p :: panel
  assumes v: "list_ok v" and i: "i \<le> length (dv_rows v)"
  defines "w \<equiv> (case find_rec k v of None \<Rightarrow> dv_insert i k \<lparr>r_filter = k, r_count = c, r_health = None\<rparr> v | Some _ \<Rightarrow> v)"
  defines "u \<equiv> (case find_rec k w of None \<Rightarrow> w | Some r \<Rightarrow> dv_edit (state_row tr p k c) r w)"
  shows "list_ok u" "dv_picked u = dv_picked v" "v_log u = v_log v"
    "map fst (dv_rows u) = (if k \<in> set (map fst (dv_rows v)) then map fst (dv_rows v) else put_at i k (map fst (dv_rows v)))"
    "map_of (dv_rows u) = (map_of (dv_rows v))(k \<mapsto>
       \<lparr>r_filter = (if k = [] then emptyLabel tr p else tr k), r_count = c, r_health = Some (healthClass p k)\<rparr>)"
proof -
  have ok: "dv_ok v" "\<not> v_multi v" "v_single v" using v by (simp_all add: list_ok_def)
  let ?x = "\<lparr>r_filter = k, r_count = c, r_health = None\<rparr>"
  have w: "dv_ok w \<and> v_multi w = v_multi v \<and> v_single w = v_single v \<and> dv_picked w = dv_picked v \<and> v_log w = v_log v \<and>
    dv_rows w = (if k \<in> set (map fst (dv_rows v)) then dv_rows v else put_at i (k, ?x) (dv_rows v))"
  proof (cases "find_rec k v")
    case None
    then have "k \<notin> fst ` set (dv_rows v)" using find_none [OF ok(1), of k] by simp
    then show ?thesis using insert_ok [OF ok(1) _ i, of k ?x] None by (simp add: w_def)
  next
    case (Some r)
    then show ?thesis using find_none [OF ok(1), of k] ok by (simp add: w_def)
  qed
  have kw: "k \<in> set (map fst (dv_rows w))" using w by (auto simp: set_put_at map_put_at)
  then obtain r where r: "find_rec k w = Some r" using find_none [of w k] w by auto
  have rw: "r \<in> set (items (v_store w))" "fst r = k" using find_rec_rows(3) [of w k r] w r by auto
  have u: "u = dv_edit (state_row tr p k c) r w" by (simp add: u_def r)
  note e = edit_ok [OF conjunct1 [OF w] rw(1), of "state_row tr p k c"]
  show "list_ok u" "dv_picked u = dv_picked v" "v_log u = v_log v" using e w ok by (simp_all add: list_ok_def u)
  show "map fst (dv_rows u) = (if k \<in> set (map fst (dv_rows v)) then map fst (dv_rows v) else put_at i k (map fst (dv_rows v)))"
    using e w by (simp add: u keys_set_row map_put_at)
  have "map_of (dv_rows w) k \<noteq> None" using kw by (metis map_of_eq_None_iff set_map)
  then obtain d where "map_of (dv_rows w) k = Some d" by blast
  moreover have "map_of (dv_rows w) k' = map_of (dv_rows v) k'" if "k' \<noteq> k" for k'
    using w that map_of_put_at [of k "dv_rows v" i ?x] by (cases "k \<in> set (map fst (dv_rows v))") auto
  ultimately show "map_of (dv_rows u) = (map_of (dv_rows v))(k \<mapsto>
       \<lparr>r_filter = (if k = [] then emptyLabel tr p else tr k), r_count = c, r_health = Some (healthClass p k)\<rparr>)"
    using e by (auto simp: u fun_eq_iff map_of_set_row rw(2) state_row_def intro: row.equality)
qed

definition row_for :: "(string \<Rightarrow> string) \<Rightarrow> panel \<Rightarrow> string \<Rightarrow> int \<Rightarrow> row" where
  "row_for tr p k c = \<lparr>r_filter = (if k = [] then emptyLabel tr p else tr k), r_count = c, r_health = Some (healthClass p k)\<rparr>"

lemma add_states_ok:
  assumes "list_ok v" "distinct (done @ map fst ss)" "set done \<subseteq> set (map fst (dv_rows v))" "i = length done"
  shows "list_ok (add_states tr p i ss v) \<and> dv_picked (add_states tr p i ss v) = dv_picked v \<and>
    v_log (add_states tr p i ss v) = v_log v \<and>
    map fst (dv_rows (add_states tr p i ss v)) = ids_after i (map fst ss) (map fst (dv_rows v)) \<and>
    (\<forall>k. map_of (dv_rows (add_states tr p i ss v)) k =
       (case map_of ss k of None \<Rightarrow> map_of (dv_rows v) k | Some c \<Rightarrow> Some (row_for tr p k c)))"
  using assms
proof (induction ss arbitrary: v i "done")
  case Nil
  then show ?case by simp
next
  case (Cons s ss)
  obtain k c where s: "s = (k, c)" by (cases s)
  have "card (set done) = length done" using Cons.prems(2) by (simp add: distinct_card)
  moreover have "card (set done) \<le> card (set (map fst (dv_rows v)))" using Cons.prems(3) by (intro card_mono) simp_all
  ultimately have i: "i \<le> length (dv_rows v)"
    using Cons.prems(4) card_length [of "map fst (dv_rows v)"] by simp
  define w where "w = (case find_rec k v of None \<Rightarrow> dv_insert i k \<lparr>r_filter = k, r_count = c, r_health = None\<rparr> v | Some _ \<Rightarrow> v)"
  define u where "u = (case find_rec k w of None \<Rightarrow> w | Some r \<Rightarrow> dv_edit (state_row tr p k c) r w)"
  note pu = put_state_ok [OF Cons.prems(1) i, where k = k and c = c and tr = tr and p = p, folded w_def, folded u_def]
  have e: "add_states tr p i (s # ss) v = add_states tr p (i + 1) ss u"
    unfolding s add_states.simps Let_def w_def [symmetric] u_def [symmetric] ..
  have "set (done @ [k]) \<subseteq> set (map fst (dv_rows u))"
    using Cons.prems(3) pu(4) by (auto simp: set_put_at)
  then have IH: "list_ok (add_states tr p (i + 1) ss u) \<and> dv_picked (add_states tr p (i + 1) ss u) = dv_picked u \<and>
    v_log (add_states tr p (i + 1) ss u) = v_log u \<and>
    map fst (dv_rows (add_states tr p (i + 1) ss u)) = ids_after (i + 1) (map fst ss) (map fst (dv_rows u)) \<and>
    (\<forall>k. map_of (dv_rows (add_states tr p (i + 1) ss u)) k =
       (case map_of ss k of None \<Rightarrow> map_of (dv_rows u) k | Some c \<Rightarrow> Some (row_for tr p k c)))"
    using Cons.IH [of u "done @ [k]" "i + 1"] pu(1) Cons.prems(2,4) s by simp
  have "map_of ss k = None" using Cons.prems(2) s by (force simp: map_of_eq_None_iff)
  then show ?case unfolding e using IH pu by (auto simp: s row_for_def split: option.split)
qed

lemma set_ids_after: "set (ids_after i ks ids) = set ks \<union> set ids"
  by (induction ks arbitrary: i ids) (auto simp: set_put_at)

lemma panel_gone_ok:
  assumes v: "list_ok v" and r: "r \<in> set (items (v_store v))"
  shows "list_ok (remove_gone_row keep r v)"
    "dv_rows (remove_gone_row keep r v) = (if fst r \<in> set keep then dv_rows v else AList.delete (fst r) (dv_rows v))"
    "dv_picked (remove_gone_row keep r v) = filter (\<lambda>k. k \<noteq> fst r \<or> k \<in> set keep) (dv_picked v)"
    "v_log (remove_gone_row keep r v) = v_log v @ (if fst r \<in> set (dv_picked v) \<and> fst r \<notin> set keep then [[]] else [])"
    "items (v_store (remove_gone_row keep r v)) =
       (if fst r \<in> set keep then items (v_store v) else AList.delete (fst r) (items (v_store v)))"
proof -
  have ok: "dv_ok v" "\<not> v_multi v" "v_single v" using v by (simp_all add: list_ok_def)
  note rm = remove_ok [OF ok(1) r]
  have "map (map_option fst) (getSelectedRecords (dv_remove r v)) = map Some (filter (\<lambda>k. k \<noteq> fst r) (dv_picked v))"
    using selected_records [of "dv_remove r v"] rm(1,3) by (simp add: dv_ok_def)
  moreover have "filter (\<lambda>k. k \<noteq> fst r) (dv_picked v) \<noteq> fst r # zs" for zs
  proof
    assume "filter (\<lambda>k. k \<noteq> fst r) (dv_picked v) = fst r # zs"
    then have "fst r \<in> set (filter (\<lambda>k. k \<noteq> fst r) (dv_picked v))" by simp
    then show False by simp
  qed
  ultimately have dead: "remove_gone_row keep r v = (if fst r \<in> set keep then v else dv_remove r v)"
    by (auto simp: remove_gone_row_def Let_def Cons_eq_map_conv split: list.split option.split)
  have f: "filter (\<lambda>k. k \<noteq> fst r \<or> k \<in> set keep) (dv_picked v) =
      (if fst r \<in> set keep then dv_picked v else filter (\<lambda>k. k \<noteq> fst r) (dv_picked v))"
    by (auto simp: filter_id_conv intro: filter_cong)
  show "list_ok (remove_gone_row keep r v)"
    "dv_rows (remove_gone_row keep r v) = (if fst r \<in> set keep then dv_rows v else AList.delete (fst r) (dv_rows v))"
    "dv_picked (remove_gone_row keep r v) = filter (\<lambda>k. k \<noteq> fst r \<or> k \<in> set keep) (dv_picked v)"
    "v_log (remove_gone_row keep r v) = v_log v @ (if fst r \<in> set (dv_picked v) \<and> fst r \<notin> set keep then [[]] else [])"
    "items (v_store (remove_gone_row keep r v)) =
       (if fst r \<in> set keep then items (v_store v) else AList.delete (fst r) (items (v_store v)))"
    using rm ok f by (simp_all add: dead list_ok_def)
qed

lemma remove_gone_fold:
  fixes keep :: "string list" and v :: "row dview" and rs :: "(string \<times> nat) list"
  assumes "list_ok v" "set rs \<subseteq> set (items (v_store v))" "distinct (map fst rs)"
  defines "w \<equiv> fold (remove_gone_row keep) rs v" and "stay \<equiv> \<lambda>k. k \<in> set keep \<or> k \<notin> fst ` set rs"
  shows "list_ok w \<and> dv_rows w = filter (\<lambda>r. stay (fst r)) (dv_rows v) \<and> dv_picked w = filter stay (dv_picked v) \<and>
    v_log w = v_log v @ (if filter stay (dv_picked v) = dv_picked v then [] else [[]])"
  using assms(1-3) unfolding w_def stay_def
proof (induction rs arbitrary: v)
  case Nil
  then show ?case by simp
next
  case (Cons r rs)
  let ?u = "remove_gone_row keep r v"
  have r: "r \<in> set (items (v_store v))" using Cons.prems by simp
  note s = panel_gone_ok [OF Cons.prems(1) r, of keep]
  have "q \<in> set (items (v_store ?u))" if "q \<in> set rs" for q
  proof -
    have "fst r \<notin> fst ` set rs" using Cons.prems(3) by simp
    then have "fst q \<noteq> fst r" using that by (metis image_eqI)
    then show ?thesis using that Cons.prems(2) by (auto simp: s(5) AList.delete_eq)
  qed
  then have "set rs \<subseteq> set (items (v_store ?u))" by blast
  then have IH: "list_ok (fold (remove_gone_row keep) rs ?u) \<and>
    dv_rows (fold (remove_gone_row keep) rs ?u) = filter (\<lambda>r. fst r \<in> set keep \<or> fst r \<notin> fst ` set rs) (dv_rows ?u) \<and>
    dv_picked (fold (remove_gone_row keep) rs ?u) = filter (\<lambda>k. k \<in> set keep \<or> k \<notin> fst ` set rs) (dv_picked ?u) \<and>
    v_log (fold (remove_gone_row keep) rs ?u) = v_log ?u @
      (if filter (\<lambda>k. k \<in> set keep \<or> k \<notin> fst ` set rs) (dv_picked ?u) = dv_picked ?u then [] else [[]])"
    using Cons.IH [of ?u] s(1) Cons.prems(3) by simp
  have rows: "filter (\<lambda>q. fst q \<in> set keep \<or> fst q \<notin> fst ` set rs) (dv_rows ?u) =
      filter (\<lambda>q. fst q \<in> set keep \<or> fst q \<notin> fst ` set (r # rs)) (dv_rows v)"
    using Cons.prems(3) by (auto simp: s(2) AList.delete_eq intro!: filter_cong)
  have picked: "filter (\<lambda>k. k \<in> set keep \<or> k \<notin> fst ` set rs) (dv_picked ?u) =
      filter (\<lambda>k. k \<in> set keep \<or> k \<notin> fst ` set (r # rs)) (dv_picked v)"
    using Cons.prems(3) by (auto simp: s(3) intro!: filter_cong)
  have len: "dv_picked v = [] \<or> (\<exists>k. dv_picked v = [k])"
    using single_picked [of v] Cons.prems(1) by (cases "dv_picked v") (auto simp: list_ok_def)
  have log: "v_log ?u @ (if filter (\<lambda>k. k \<in> set keep \<or> k \<notin> fst ` set rs) (dv_picked ?u) = dv_picked ?u then [] else [[]]) =
      v_log v @ (if filter (\<lambda>k. k \<in> set keep \<or> k \<notin> fst ` set (r # rs)) (dv_picked v) = dv_picked v then [] else [[]])"
    unfolding filter_id_conv s(4) using len by (auto simp: s(3))
  show ?case using IH rows picked log by simp
qed

text \<open>The rows, the selection and the events of an update.\<close>

lemma sync_rows_ok:
  fixes v :: "row dview" and ss :: "(string \<times> int) list" and tr :: "string \<Rightarrow> string" and p :: panel
  assumes v: "list_ok v" and d: "distinct (map fst ss)"
  defines "w \<equiv> sync_rows tr p ss v" and "keep \<equiv> \<lambda>k. k \<in> fst ` set ss"
  shows "list_ok w" "map fst (dv_rows w) = filter keep (ids_after 0 (map fst ss) (map fst (dv_rows v)))"
    "map_of (dv_rows w) k = map_option (row_for tr p k) (map_of ss k)"
    "dv_picked w = (case dv_picked v of k # _ \<Rightarrow> if keep k then [k] else map fst (take 1 (dv_rows w))
                                      | [] \<Rightarrow> map fst (take 1 (dv_rows w)))"
    "v_log w = v_log v @ (if list_ex keep (dv_picked v) then []
       else (if dv_picked v = [] then [] else [[]]) @ (if dv_rows w = [] then [] else [[Some (fst (hd (dv_rows w)))]]))"
proof -
  define a where "a = add_states tr p 0 ss v"
  have A: "list_ok a" "dv_picked a = dv_picked v" "v_log a = v_log v"
    "map fst (dv_rows a) = ids_after 0 (map fst ss) (map fst (dv_rows v))"
    "map_of (dv_rows a) k = (case map_of ss k of None \<Rightarrow> map_of (dv_rows v) k | Some c \<Rightarrow> Some (row_for tr p k c))" for k
    using add_states_ok [of v "[]" ss 0 tr p] v d by (simp_all add: a_def)
  define b where "b = fold (remove_gone_row (map fst ss)) (items (v_store a)) a"
  have da: "distinct (map fst (items (v_store a)))"
    using A(1) rstore.wf_rows [of "v_store a"] by (simp add: list_ok_def dv_ok_def recs_ok_def)
  have fi: "fst ` set (items (v_store a)) = fst ` set (dv_rows a)" by (metis rows_keys set_map)
  have stay: "k \<in> set (map fst ss) \<or> k \<notin> fst ` set (items (v_store a)) \<longleftrightarrow> keep k" if "k \<in> fst ` set (dv_rows a)" for k
    using that by (simp add: keep_def fi)
  have pk: "set (dv_picked a) \<subseteq> fst ` set (dv_rows a)"
  proof
    fix k assume "k \<in> set (dv_picked a)"
    then obtain x where x: "x \<in> set (v_all a)" "k = fst (the (node_rec a x))"
      using A(1) by (auto simp: dv_picked_def list_ok_def dv_ok_def sel_ok_def)
    then show "k \<in> fst ` set (dv_rows a)"
      using node_rec_index [of a x] A(1) unfolding fi [symmetric] by (auto simp: list_ok_def dv_ok_def)
  qed
  have B: "list_ok b" "dv_rows b = filter (\<lambda>r. keep (fst r)) (dv_rows a)" "dv_picked b = filter keep (dv_picked v)"
    "v_log b = v_log v @ (if filter keep (dv_picked v) = dv_picked v then [] else [[]])"
  proof -
    note R = remove_gone_fold [OF A(1) subset_refl da, of "map fst ss", folded b_def]
    have "filter (\<lambda>r. fst r \<in> set (map fst ss) \<or> fst r \<notin> fst ` set (items (v_store a))) (dv_rows a) = filter (\<lambda>r. keep (fst r)) (dv_rows a)"
      by (rule filter_cong [OF refl]) (use stay in force)
    moreover have "filter (\<lambda>k. k \<in> set (map fst ss) \<or> k \<notin> fst ` set (items (v_store a))) (dv_picked a) = filter keep (dv_picked a)"
      by (rule filter_cong [OF refl]) (use stay pk in blast)
    ultimately show "list_ok b" "dv_rows b = filter (\<lambda>r. keep (fst r)) (dv_rows a)" "dv_picked b = filter keep (dv_picked v)"
      "v_log b = v_log v @ (if filter keep (dv_picked v) = dv_picked v then [] else [[]])"
      using R A(2,3) by simp_all
  qed
  define c where "c = commitChanges b"
  have C: "list_ok c" "dv_rows c = dv_rows b" "dv_picked c = dv_picked b" "v_log c = v_log b"
    using commitChanges_ok [of b] B(1) by (simp_all add: c_def list_ok_def)
  have e: "w = (if dv_picked c = [] then select (getNode 0 c) False False c else c)"
    unfolding w_def sync_rows_def a_def [symmetric] Let_def b_def [symmetric] c_def [symmetric]
    by (simp add: getSelectionCount_def dv_picked_def)
  note S = select_row_ok [of c 0]
  have cc: "dv_ok c" "\<not> v_multi c" "v_single c" using C(1) by (simp_all add: list_ok_def)
  show "list_ok w" using S(1,4) cc by (simp add: e list_ok_def)
  have rw: "dv_rows w = filter (\<lambda>r. keep (fst r)) (dv_rows a)" using S(2) cc C(2) B(2) by (simp add: e)
  show "map fst (dv_rows w) = filter keep (ids_after 0 (map fst ss) (map fst (dv_rows v)))"
    unfolding rw A(4) [symmetric] by (simp add: filter_map comp_def)
  have "map_of (filter (\<lambda>r. keep (fst r)) d) k = (if keep k then map_of d k else None)" for d :: "row dict"
    by (induction d) auto
  moreover have "map_of ss k = None \<longleftrightarrow> \<not> keep k" by (simp add: keep_def map_of_eq_None_iff)
  ultimately show "map_of (dv_rows w) k = map_option (row_for tr p k) (map_of ss k)"
    by (auto simp: rw A(5) split: option.split)
  have len: "dv_picked v = [] \<or> (\<exists>k. dv_picked v = [k])"
    using single_picked [of v] v by (cases "dv_picked v") (auto simp: list_ok_def)
  have t: "map fst (take 1 (dv_rows w)) = (if dv_rows w = [] then [] else [fst (dv_rows w ! 0)])"
    by (cases "dv_rows w") simp_all
  have wc: "dv_rows w = dv_rows c" using rw C(2) B(2) by simp
  show "dv_picked w = (case dv_picked v of k # _ \<Rightarrow> if keep k then [k] else map fst (take 1 (dv_rows w))
                                      | [] \<Rightarrow> map fst (take 1 (dv_rows w)))"
    using len S(3) [OF cc] C(3) B(3) unfolding t unfolding wc by (auto simp: e split: if_splits)
  show "v_log w = v_log v @ (if list_ex keep (dv_picked v) then []
       else (if dv_picked v = [] then [] else [[]]) @ (if dv_rows w = [] then [] else [[Some (fst (hd (dv_rows w)))]]))"
    using len S(5) [OF cc] C(3,4) B(3,4) unfolding wc by (auto simp: e hd_conv_nth split: if_splits)
qed

section \<open>Properties\<close>

lemma update_view:
  "view (updateStates tr z now ss p) = sync_rows tr (p\<lparr>states := Some (fold (\<lambda>(k, c) d. AList.update k c d) ss [])\<rparr>)
     (shown_states z p ss) (view p)"
  by (simp add: updateStates_def Let_def refreshHealth_def act_def shown_states_def)

lemma row_for_states: "row_for tr (p\<lparr>states := s\<rparr>) = row_for tr p"
  by (intro ext) (simp add: row_for_def emptyLabel_def healthClass_def)

lemma distinct_shown: "distinct (map fst ss) \<Longrightarrow> distinct (map fst (shown_states z p ss))"
  by (simp add: shown_states_def distinct_map_filter)

lemma rows_follow:
  assumes "list_ok (view p)" "distinct (map fst ss)"
  shows "list_ok (view (updateStates tr z now ss p)) \<and>
    (\<forall>k. map_of (dv_rows (view (updateStates tr z now ss p))) k = map_option (row_for tr p k) (map_of (shown_states z p ss) k)) \<and>
    set (map fst (dv_rows (view (updateStates tr z now ss p)))) = set (map fst (shown_states z p ss))"
proof -
  let ?p = "p\<lparr>states := Some (fold (\<lambda>(k, c) d. AList.update k c d) ss [])\<rparr>"
  note S = sync_rows_ok [OF assms(1) distinct_shown [OF assms(2)], where p = ?p and tr = tr]
  have "set (map fst (dv_rows (sync_rows tr ?p (shown_states z p ss) (view p)))) = set (map fst (shown_states z p ss))"
    unfolding S(2) by (auto simp: set_ids_after)
  then show ?thesis using S(1,3) unfolding update_view row_for_states by blast
qed

text \<open>C9: After an update the list has exactly one row for each state that is shown, with the label, the
  count and the health colour the panel gives it, whatever it had before; one node per row draws it as it
  is.  Which states are shown is decided by the panel's own setting or else the interface's.\<close>

theorem rows_follow_states:
  assumes "list_ok (view p)" "distinct (map fst ss)"
  shows "list_ok (view (updateStates tr z now ss p)) \<and>
    (\<forall>k. map_of (dv_rows (view (updateStates tr z now ss p))) k = map_option (row_for tr p k) (map_of (shown_states z p ss) k)) \<and>
    set (map fst (dv_rows (view (updateStates tr z now ss p)))) = set (map fst (shown_states z p ss))"
  using rows_follow [OF assms] by blast

definition two_states :: "(string \<times> int) list" where
  "two_states = [(''All'', 2), (''Seeding'', 2), (''Error'', 0)]"

lemma panel_new_ok: "list_ok (view (panel_new ft))"
  by (simp add: panel_new_def list_ok_def dv_new_ok)

theorem rows_follow_states_witness:
  "set (map fst (dv_rows (view (updateStates id False 1 two_states (panel_new ''state''))))) = {''All'', ''Seeding''}"
  using rows_follow_states [OF panel_new_ok [of "''state''"], where ss = two_states and tr = id and z = False and now = 1]
  by (simp add: two_states_def shown_states_def panel_new_def)

lemma ids_after_order:
  assumes "distinct (done @ rest)" "ids = done @ filter (\<lambda>k. k \<in> old) rest"
  shows "ids_after (length done) rest ids = done @ rest"
  using assms
proof (induction rest arbitrary: "done" ids)
  case Nil
  then show ?case by simp
next
  case (Cons k rest)
  have "(if k \<in> set ids then ids else put_at (length done) k ids) = (done @ [k]) @ filter (\<lambda>k. k \<in> old) rest"
    using Cons.prems by (auto simp: put_at_def)
  then have "ids_after (length done) (k # rest) ids = ids_after (length (done @ [k])) rest ((done @ [k]) @ filter (\<lambda>k. k \<in> old) rest)"
    by (simp only: ids_after.simps length_append list.size add_0_right Suc_eq_plus1 add.commute)
  also have "\<dots> = (done @ [k]) @ rest" by (rule Cons.IH) (use Cons.prems(1) in simp_all)
  finally show ?case by simp
qed

text \<open>As long as no row goes away, the rows are in the order the server sent the states in: if those
  there before are among the states shown, in that order, the list afterwards is the states shown.\<close>

theorem rows_keep_order:
  assumes "list_ok (view p)" "distinct (map fst ss)"
    "map fst (dv_rows (view p)) = filter (\<lambda>k. k \<in> old) (map fst (shown_states z p ss))"
  shows "map fst (dv_rows (view (updateStates tr z now ss p))) = map fst (shown_states z p ss)"
proof -
  let ?ss = "shown_states z p ss"
  have "ids_after 0 (map fst ?ss) (map fst (dv_rows (view p))) = map fst ?ss"
    using ids_after_order [of "[]" "map fst ?ss" _ old] distinct_shown [OF assms(2), of z p] assms(3) by simp
  moreover have "filter (\<lambda>k. k \<in> fst ` set ?ss) (map fst ?ss) = map fst ?ss" by (auto simp: filter_id_conv)
  ultimately show ?thesis
    using sync_rows_ok(2) [OF assms(1) distinct_shown [OF assms(2)]] unfolding update_view by simp
qed

theorem rows_keep_order_witness:
  "map fst (dv_rows (view (updateStates id True 1 two_states (panel_new ''state'')))) = [''All'', ''Seeding'', ''Error'']"
  using rows_keep_order [OF panel_new_ok [of "''state''"], where ss = two_states and tr = id and z = True and now = 1 and old = "{}"]
  by (simp add: two_states_def shown_states_def panel_new_def dv_new_ok)

text \<open>When one state leaves the list in the update that brings another, the rows can end out of the
  server's order, and stay so.  With \<open>a\<close>, \<open>b\<close>, \<open>c\<close> after the first row in the server's order, a list
  that showed \<open>a\<close> and \<open>b\<close> and is told \<open>b\<close> and \<open>c\<close> shows \<open>c\<close> before \<open>b\<close>, however often it is told
  again.\<close>

theorem order_lost:
  assumes "list_ok (view p)" "distinct [x, a, b, c]" "map fst (dv_rows (view p)) = [x, a, b]"
    "map fst (shown_states z p ss) = [x, b, c]" "distinct (map fst ss)"
  shows "map fst (dv_rows (view (updateStates tr z now ss p))) = [x, c, b] \<and>
    map fst (dv_rows (view (updateStates tr z later ss (updateStates tr z now ss p)))) = [x, c, b]"
proof
  let ?ss = "shown_states z p ss" and ?q = "updateStates tr z now ss p"
  have keep: "fst ` set ?ss = {x, b, c}" using assms(4) by (metis set_map list.set(1,2))
  show one: "map fst (dv_rows (view ?q)) = [x, c, b]"
    using sync_rows_ok(2) [OF assms(1) distinct_shown [OF assms(5), of z p], where tr = tr
        and p = "p\<lparr>states := Some (fold (\<lambda>(k, c) d. AList.update k c d) ss [])\<rparr>"] assms(2,3,4) keep
    unfolding update_view by (auto simp: put_at_def)
  have sz: "show_zero ?q = show_zero p" by (simp add: updateStates_def Let_def refreshHealth_def act_def)
  then have ss: "shown_states z ?q ss = ?ss" by (simp add: shown_states_def)
  have q: "list_ok (view ?q)" using rows_follow [OF assms(1,5)] by blast
  show "map fst (dv_rows (view (updateStates tr z later ss ?q))) = [x, c, b]"
    using sync_rows_ok(2) [OF q distinct_shown [OF assms(5), of z ?q], where tr = tr
        and p = "?q\<lparr>states := Some (fold (\<lambda>(k, c) d. AList.update k c d) ss [])\<rparr>"] assms(2,4) keep one
    unfolding update_view [of tr z later ss ?q] ss by auto
qed

definition first_states :: "(string \<times> int) list" where
  "first_states = [(''All'', 3), (''Active'', 1), (''Downloading'', 1), (''Seeding'', 0)]"

definition next_states :: "(string \<times> int) list" where
  "next_states = [(''All'', 3), (''Active'', 0), (''Downloading'', 1), (''Seeding'', 1)]"

theorem order_lost_witness:
  "map fst (dv_rows (view (updateStates id False 2 next_states (updateStates id False 1 first_states (panel_new ''state''))))) =
     [''All'', ''Seeding'', ''Downloading'']"
proof -
  let ?p = "updateStates id False 1 first_states (panel_new ''state'')"
  have d: "distinct (map fst first_states)" "distinct (map fst next_states)" by (simp_all add: first_states_def next_states_def)
  have p: "list_ok (view ?p)" using rows_follow [OF panel_new_ok [of "''state''"] d(1), where tr = id and z = False and now = 1] by blast
  have r: "map fst (dv_rows (view ?p)) = [''All'', ''Active'', ''Downloading'']"
    unfolding update_view
    by (subst sync_rows_ok(2) [OF panel_new_ok distinct_shown [OF d(1)]])
      (simp add: first_states_def shown_states_def panel_new_def dv_new_ok put_at_def)
  have "show_zero ?p = None" by (simp add: updateStates_def Let_def refreshHealth_def act_def panel_new_def)
  then have s: "map fst (shown_states False ?p next_states) = [''All'', ''Downloading'', ''Seeding'']"
    by (simp add: shown_states_def next_states_def)
  show ?thesis using order_lost [OF p _ r s d(2), where tr = id and now = 2 and later = 3] by simp
qed

text \<open>The selection survives an update whenever its row does: then the filter the panel stands for
  is unchanged and nobody is told anything.  When the selected state goes away the first row is selected
  instead, and the change is announced twice, once with nothing selected and once with the new row.\<close>

theorem selection_kept:
  assumes "list_ok (view p)" "distinct (map fst ss)" "dv_picked (view p) = [k]" "q = updateStates tr z now ss p"
  shows "if k \<in> fst ` set (shown_states z p ss)
    then dv_picked (view q) = [k] \<and> v_log (view q) = v_log (view p) \<and> getState q = getState p
    else dv_picked (view q) = map fst (take 1 (dv_rows (view q))) \<and>
      v_log (view q) = v_log (view p) @ [[]] @
        (if dv_rows (view q) = [] then [] else [[Some (fst (hd (dv_rows (view q))))]])"
proof -
  let ?ss = "shown_states z p ss"
  note S = sync_rows_ok [OF assms(1) distinct_shown [OF assms(2), of z p], where tr = tr]
  have st: "getState r = (if k = ''All'' then None else Some k)" if "list_ok (view r)" "dv_picked (view r) = [k]" for r
  proof -
    have "map (map_option fst) (getSelectedRecords (view r)) = [Some k]"
      using selected_records [of "view r"] that by (simp add: list_ok_def dv_ok_def)
    then show ?thesis using that(2) by (auto simp: getState_def getSelectionCount_def dv_picked_def)
  qed
  have q: "list_ok (view q)" using rows_follow [OF assms(1,2)] unfolding assms(4) by blast
  have v: "view q = sync_rows tr (p\<lparr>states := Some (fold (\<lambda>(k, c) d. AList.update k c d) ss [])\<rparr>) ?ss (view p)"
    unfolding assms(4) by (rule update_view)
  show ?thesis
  proof (cases "k \<in> fst ` set ?ss")
    case True
    then have "dv_picked (view q) = [k]" "v_log (view q) = v_log (view p)"
      using S(4,5) assms(3) unfolding v by simp_all
    then show ?thesis using True st [OF q] st [OF assms(1,3)] by simp
  next
    case False
    then show ?thesis using S(4,5) assms(3) unfolding v by simp
  qed
qed

theorem selection_kept_witness:
  "v_log (view (updateStates id False 2 [(''All'', 1), (''Error'', 0)]
     (panel_new ''state''\<lparr>view := dv_handle (SelectRow 0) (dv_handle (Insert 0 ''Error'' \<lparr>r_filter = ''Error'', r_count = 1, r_health = None\<rparr>)
        (view (panel_new ''state'')))\<rparr>))) =
   [[Some ''Error''], [], [Some ''All'']]"
proof -
  define v where "v = dv_handle (SelectRow 0) (dv_handle (Insert 0 ''Error'' \<lparr>r_filter = ''Error'', r_count = 1, r_health = None\<rparr>)
        (view (panel_new ''state'')))"
  define p where "p = panel_new ''state''\<lparr>view := v\<rparr>"
  let ?ss = "[(''All'', 1), (''Error'', 0)] :: (string \<times> int) list"
  let ?i = "dv_handle (Insert 0 ''Error'' \<lparr>r_filter = ''Error'', r_count = 1, r_health = None\<rparr>) (view (panel_new ''state''))"
  have n: "list_ok (view (panel_new ''state''))" by (rule panel_new_ok)
  have n0: "dv_rows (view (panel_new ''state'')) = []" "dv_picked (view (panel_new ''state'')) = []"
    "v_log (view (panel_new ''state'')) = []"
    by (simp_all add: panel_new_def dv_new_ok)
  have ei: "?i = dv_insert 0 ''Error'' \<lparr>r_filter = ''Error'', r_count = 1, r_health = None\<rparr> (view (panel_new ''state''))"
    using find_none [of "view (panel_new ''state'')" "''Error''"] n n0 by (simp add: list_ok_def)
  have i: "list_ok ?i" "map fst (dv_rows ?i) = [''Error'']" "v_log ?i = []"
    using insert_ok [of "view (panel_new ''state'')" "''Error''" 0 "\<lparr>r_filter = ''Error'', r_count = 1, r_health = None\<rparr>"] n n0
    unfolding ei list_ok_def by (simp_all add: put_at_def)
  then have h: "fst (dv_rows ?i ! 0) = ''Error''" "0 < length (dv_rows ?i)" by (cases "dv_rows ?i"; simp)+
  have v: "list_ok v" "dv_picked v = [''Error'']" "v_log v = [[Some ''Error'']]" "map fst (dv_rows v) = [''Error'']"
    using select_row_ok [of ?i 0] i h unfolding v_def list_ok_def by simp_all
  have s: "shown_states False p ?ss = [(''All'', 1)]" by (simp add: shown_states_def p_def panel_new_def)
  have vp: "list_ok (view p)" "dv_picked (view p) = [''Error'']" using v by (simp_all add: p_def)
  have d: "distinct (map fst ?ss)" by simp
  have r: "map fst (dv_rows (view (updateStates id False 2 ?ss p))) = [''All'']"
    unfolding update_view by (subst sync_rows_ok(2) [OF vp(1) distinct_shown [OF d]])
      (use s v(4) in \<open>simp add: p_def put_at_def\<close>)
  then have "fst (hd (dv_rows (view (updateStates id False 2 ?ss p)))) = ''All''" "dv_rows (view (updateStates id False 2 ?ss p)) \<noteq> []"
    by (cases "dv_rows (view (updateStates id False 2 ?ss p))"; simp)+
  then have "v_log (view (updateStates id False 2 ?ss p)) = v_log (view p) @ [[], [Some ''All'']]"
    using selection_kept [OF vp(1) d vp(2) refl, where z = False] s by simp
  then show ?thesis using v(3) unfolding p_def v_def by simp
qed

text \<open>The times the health of the trackers is asked for, as the events come: an update at a time not
  before the last, and an answer or a failure of a question that is out.\<close>

definition asks :: "panel \<Rightarrow> nat" where
  "asks p = length (filter (\<lambda>a. a = AskHealth) (acts p))"

inductive health_run :: "int \<Rightarrow> panel \<Rightarrow> int list \<Rightarrow> nat \<Rightarrow> bool" where
  start: "0 < t \<Longrightarrow> health_run t (panel_new ft) [] 0"
| wait: "health_run t p ts n \<Longrightarrow> t \<le> u \<Longrightarrow> health_run u p ts n"
| update: "health_run t p ts n \<Longrightarrow> q = updateStates tr z t ss p \<Longrightarrow>
    health_run t q (if asks q = asks p then ts else ts @ [t]) (n + (asks q - asks p))"
| answer: "health_run t p ts (Suc n) \<Longrightarrow> health_run t (onHealth a p) ts n"
| failure: "health_run t p ts (Suc n) \<Longrightarrow> health_run t (onHealthFailure p) ts n"
| menu: "health_run t p ts n \<Longrightarrow> health_run t (onContextMenu i p) ts n"
| list_event: "health_run t p ts n \<Longrightarrow> health_run t (p\<lparr>view := dv_handle e (view p)\<rparr>) ts n"

lemma refresh_asks:
  "asks (updateStates tr z now ss p) =
     (if filterType p = ''tracker_host'' \<and> \<not> healthInFlight p \<and>
         \<not> (case healthAt p of None \<Rightarrow> False | Some t \<Rightarrow> t \<noteq> 0 \<and> now - t < HEALTH_INTERVAL)
      then asks p + 1 else asks p)"
  by (simp add: updateStates_def Let_def refreshHealth_def act_def asks_def)

lemma refresh_fields:
  "filterType (updateStates tr z now ss p) = filterType p"
  "healthInFlight (updateStates tr z now ss p) = (healthInFlight p \<or> asks (updateStates tr z now ss p) \<noteq> asks p)"
  "healthAt (updateStates tr z now ss p) = (if asks (updateStates tr z now ss p) = asks p then healthAt p else Some now)"
  by (auto simp: updateStates_def Let_def refreshHealth_def act_def asks_def)

definition rate_inv :: "int \<Rightarrow> panel \<Rightarrow> int list \<Rightarrow> nat \<Rightarrow> bool" where
  "rate_inv t p ts n \<longleftrightarrow> 0 < t \<and> sorted_wrt (\<lambda>a b. a + HEALTH_INTERVAL \<le> b) ts \<and> (\<forall>a \<in> set ts. 0 < a \<and> a \<le> t) \<and>
     healthAt p = (if ts = [] then None else Some (last ts)) \<and> n = (if healthInFlight p then 1 else 0) \<and>
     (filterType p \<noteq> ''tracker_host'' \<longrightarrow> ts = [])"

lemma sorted_last: "sorted_wrt (\<lambda>a b. a + (d :: int) \<le> b) ts \<Longrightarrow> 0 \<le> d \<Longrightarrow> x \<in> set ts \<Longrightarrow> x \<le> last ts"
proof (induction ts)
  case (Cons y ts)
  show ?case
  proof (cases "ts = []")
    case False
    then have "last ts \<in> set ts" by simp
    then have "y \<le> last ts" using Cons.prems(1,2) by force
    then show ?thesis using Cons False by auto
  qed (use Cons.prems in simp)
qed simp

lemma context_health:
  "healthAt (onContextMenu i p) = healthAt p" "healthInFlight (onContextMenu i p) = healthInFlight p"
  "filterType (onContextMenu i p) = filterType p"
  by (auto simp: onContextMenu_def showMenu_def act_def split: option.split prod.split)

lemma health_run_rate: "health_run t p ts n \<Longrightarrow> rate_inv t p ts n"
proof (induction rule: health_run.induct)
  case (start t ft)
  then show ?case by (simp add: rate_inv_def panel_new_def)
next
  case (wait t p ts n u)
  then show ?case by (fastforce simp: rate_inv_def)
next
  case (update t p ts n q tr z ss)
  have i: "rate_inv t p ts n" by (rule update)
  show ?case
  proof (cases "asks q = asks p")
    case True
    then show ?thesis using i refresh_fields [of tr z t ss p] update(2) by (simp add: rate_inv_def)
  next
    case False
    then have c: "filterType p = ''tracker_host''" "\<not> healthInFlight p" "asks q = asks p + 1"
      "\<not> (case healthAt p of None \<Rightarrow> False | Some a \<Rightarrow> a \<noteq> 0 \<and> t - a < HEALTH_INTERVAL)"
      using refresh_asks [of tr z t ss p] update(2) by (auto split: if_splits)
    have "x + HEALTH_INTERVAL \<le> t" if "x \<in> set ts" for x
    proof -
      have "x \<le> last ts" "ts \<noteq> []"
        using i that sorted_last [of HEALTH_INTERVAL ts x] by (auto simp: rate_inv_def HEALTH_INTERVAL_def)
      moreover have "0 < last ts" using i \<open>ts \<noteq> []\<close> by (simp add: rate_inv_def)
      moreover have "healthAt p = Some (last ts)" using i \<open>ts \<noteq> []\<close> by (simp add: rate_inv_def)
      ultimately show ?thesis using c(4) by auto
    qed
    then show ?thesis using False i c refresh_fields [of tr z t ss p] update(2)
      by (auto simp: rate_inv_def sorted_wrt_append)
  qed
next
  case (answer t p ts n a)
  then show ?case by (auto simp: rate_inv_def onHealth_def applyHealth_def Let_def split: if_splits)
next
  case (failure t p ts n)
  then show ?case by (auto simp: rate_inv_def onHealthFailure_def split: if_splits)
next
  case (menu t p ts n i)
  then show ?case by (simp add: rate_inv_def context_health)
next
  case (list_event t p ts n e)
  then show ?case by (simp add: rate_inv_def)
qed

text \<open>However often the sidebar is updated, the health of the trackers is asked for at most once in
  twenty seconds and never while an earlier question is out, and only by the panel of the trackers; a
  daemon that fails to answer is asked no more often.\<close>

theorem health_rate:
  assumes "health_run t p ts n"
  shows "sorted_wrt (\<lambda>a b. a + 20000 \<le> b) ts \<and> n \<le> 1 \<and> (filterType p = ''tracker_host'' \<or> ts = [])"
  using health_run_rate [OF assms] by (auto simp: rate_inv_def HEALTH_INTERVAL_def)

theorem health_rate_witness: "sorted_wrt (\<lambda>a b. a + 20000 \<le> b) ([5] :: int list)"
proof -
  let ?p = "panel_new ''tracker_host''"
  have "health_run 5 (updateStates id True 5 [] ?p) (if asks (updateStates id True 5 [] ?p) = asks ?p then [] else [] @ [5])
      (0 + (asks (updateStates id True 5 [] ?p) - asks ?p))"
    by (rule health_run.update [OF health_run.start refl]) simp
  then have "health_run 5 (updateStates id True 5 [] ?p) [5] 1" by (simp add: refresh_asks panel_new_def)
  then show ?thesis using health_rate by blast
qed

text \<open>A menu opens only on a row that has one, remembers that row, and leaves the list as it was,
  selection included; its first entry then acts on that row: a state's menu only for the unregistered and
  the dead torrents and when there are any, a tracker's or label's for any row but the one of all and the
  one of none.\<close>

theorem menu_acts_on_row:
  "view (onContextMenu i p) = view p \<and>
   (onContextMenu i p = p \<or>
    (\<exists>k a. store_getAt (v_store (view p)) i = Some (k, a) \<and> k \<noteq> [] \<and> k \<noteq> ''All'' \<and>
      (if filterType p = ''state''
       then k \<in> {''Unregistered'', ''Dead''} \<and> r_count (v_heap (view p) a) \<noteq> 0 \<and>
         acts (onRemoveUnregistered (onContextMenu i p)) = acts p @ [ShowMenu ''unregistered'', AskGroup k]
       else if filterType p = ''label''
       then acts (onLabelSettingsClick (onContextMenu i p)) = acts p @ [ShowMenu ''label'', OpenLabel k]
       else acts (onInfoClick (onContextMenu i p)) = acts p @ [ShowMenu ''tracker'', OpenTrackerInfo k] \<and>
         acts (onSettingsClick (onContextMenu i p)) = acts p @ [ShowMenu ''tracker'', OpenTrackerSettings k])))"
proof (cases "store_getAt (v_store (view p)) i")
  case None
  then show ?thesis by (simp add: onContextMenu_def)
next
  case (Some r)
  obtain k a where r: "r = (k, a)" by (cases r)
  show ?thesis
    by (auto simp: onContextMenu_def Some r showMenu_def act_def held_def onRemoveUnregistered_def
        onLabelSettingsClick_def onInfoClick_def onSettingsClick_def)
qed

lemma filter_class_safe: "list_all filter_class_char (delugeFilterClass s)"
  unfolding delugeFilterClass_def list_all_iff by (auto simp: filter_class_char_def [of "CHR ''-''"])

text \<open>Whatever text a label, an owner or a state is, its row is one element whose class is made of
  letters, digits, underscores and dashes, and whose text cannot close the element or open another.\<close>

theorem filter_row_safe:
  assumes "ft \<noteq> ''tracker_host''"
  shows "\<exists>cls txt. filter_row_html ft r = ''<div class=\"x-deluge-filter x-deluge-'' @ cls @ ''\">'' @ txt @ '' ('' @
      js_string (num (of_int (r_count r))) @ '')</div>'' \<and>
    list_all filter_class_char cls \<and> set txt \<inter> {CHR ''<'', CHR ''>'', CHR 0x22, CHR 0x27} = {} \<and> decode_text txt = r_filter r"
proof -
  let ?t = "encode_text (r_filter r)"
  have t: "js_string (htmlEncode (Str (r_filter r))) = ?t"
    by (simp add: htmlEncode_def encode_text_def)
  show ?thesis
  proof (intro exI conjI)
    show "filter_row_html ft r = ''<div class=\"x-deluge-filter x-deluge-'' @ delugeFilterClass (r_filter r) @ ''\">'' @ ?t @ '' ('' @
      js_string (num (of_int (r_count r))) @ '')</div>''"
      using assms t by (simp add: filter_row_html_def Let_def)
    show "list_all filter_class_char (delugeFilterClass (r_filter r))" by (rule filter_class_safe)
    show "set ?t \<inter> {CHR ''<'', CHR ''>'', CHR 0x22, CHR 0x27} = {}" by (rule encode_text_safe)
    show "decode_text ?t = r_filter r" by (rule decode_encode_text)
  qed
qed

theorem filter_row_safe_witness:
  "\<exists>cls txt. filter_row_html ''label'' \<lparr>r_filter = [CHR 0x27], r_count = 1, r_health = None\<rparr> = ''<div class=\"x-deluge-filter x-deluge-'' @ cls @ ''\">'' @ txt @ '' ('' @
      js_string (num (of_int 1)) @ '')</div>'' \<and> list_all filter_class_char cls \<and> decode_text txt = [CHR 0x27]"
  using filter_row_safe [of "''label''" "\<lparr>r_filter = [CHR 0x27], r_count = 1, r_health = None\<rparr>"] by auto

end
