(* ===== verification/Keys.thy ===== *)
theory Keys
  imports TorrentGrid
begin

text \<open>
  \<open>deluge-all/Keys.js\<close>: the names of the torrent fields each panel asks for, and
  \<open>forGrid\<close>, which works out what the columns on screen need.
\<close>

section \<open>The lists\<close>

definition Keys_Grid :: "string list" where
  "Keys_Grid =
     [''queue'', ''name'', ''total_wanted'', ''state'', ''progress'', ''num_seeds'', ''total_seeds'',
      ''num_peers'', ''total_peers'', ''download_payload_rate'', ''upload_payload_rate'', ''eta'', ''ratio'',
      ''distributed_copies'', ''is_auto_managed'', ''time_added'', ''tracker_host'', ''download_location'',
      ''last_seen_complete'', ''total_done'', ''total_uploaded'', ''max_download_speed'', ''max_upload_speed'',
      ''seeds_peers_ratio'', ''total_remaining'', ''completed_time'', ''time_since_transfer'', ''label'',
      ''owner'', ''idle_since'', ''idle_pause_at'', ''idle_resume_at'', ''space_paused'', ''tracker_move_at'',
      ''tracker_remove_at'']"

definition Keys_Status_own :: "string list" where
  "Keys_Status_own =
     [''total_done'', ''total_payload_download'', ''total_uploaded'', ''total_payload_upload'',
      ''next_announce'', ''tracker_status'', ''num_pieces'', ''piece_length'', ''is_auto_managed'',
      ''active_time'', ''seeding_time'', ''time_since_transfer'', ''seed_rank'', ''last_seen_complete'',
      ''completed_time'', ''owner'', ''public'', ''shared'']"

definition Keys_Files :: "string list" where
  "Keys_Files = [''files'', ''file_progress'', ''file_priorities'']"

definition Keys_Peers :: "string list" where
  "Keys_Peers = [''peers'']"

definition Keys_Details :: "string list" where
  "Keys_Details =
     [''name'', ''download_location'', ''total_size'', ''num_files'', ''message'', ''tracker_host'',
      ''comment'', ''creator'']"

definition Keys_Options :: "string list" where
  "Keys_Options =
     [''max_download_speed'', ''max_upload_speed'', ''max_connections'', ''max_upload_slots'',
      ''is_auto_managed'', ''stop_at_ratio'', ''stop_ratio'', ''remove_at_ratio'', ''private'',
      ''prioritize_first_last'', ''move_completed'', ''move_completed_path'', ''super_seeding'', ''label'',
      ''idle_since'', ''idle_pause_at'', ''idle_resume_at'', ''space_paused'']"

text \<open>The last statement of the file appends the grid's keys to the status tab's.\<close>

definition Keys_Status :: "string list" where
  "Keys_Status = fold (\<lambda>key status. status @ [key]) Keys_Grid Keys_Status_own"

definition AlsoNeeded :: "string list dict" where
  "AlsoNeeded =
     [(''num_seeds'', [''total_seeds'']), (''num_peers'', [''total_peers'']),
      (''idle_pause_at'', [''idle_resume_at'']), (''tracker_remove_at'', [''tracker_move_at''])]"

definition Always :: "string list" where
  "Always = [''state'', ''label'', ''queue'', ''idle_resume_at'', ''space_paused'']"

section \<open>What the grid asks for\<close>

definition want :: "string \<Rightarrow> string list \<Rightarrow> string list" where
  "want key wanted =
     (if key \<noteq> [] \<and> key \<in> set Keys_Grid then List.insert key wanted else wanted)"

definition want_column :: "bool \<times> string \<Rightarrow> string list \<Rightarrow> string list" where
  "want_column = (\<lambda>(hid, index) wanted.
     if hid then wanted
     else fold want (case map_of AlsoNeeded index of None \<Rightarrow> [] | Some ks \<Rightarrow> ks) (want index wanted))"

text \<open>The columns as the column model has them, whether each is hidden and its \<open>dataIndex\<close>;
  \<open>None\<close> when there is no model yet.  \<open>keys.sort()\<close> orders by code unit.\<close>

definition forGrid :: "(bool \<times> string) list option \<Rightarrow> string option \<Rightarrow> string list" where
  "forGrid model sorted_by =
     (case model of
        None \<Rightarrow> Keys_Grid
      | Some cols \<Rightarrow>
          let wanted = fold want_column cols (fold want Always []);
              wanted = (case sorted_by of None \<Rightarrow> wanted | Some f \<Rightarrow> want f wanted)
          in sort wanted)"

text \<open>The fields of its record a renderer reads, beside the value of its own column.\<close>

fun reads :: "renderer \<Rightarrow> string list" where
  "reads NameR = [''state'']"
| "reads ProgressR = [''state'']"
| "reads SeedsR = [''total_seeds'']"
| "reads PeersR = [''total_peers'']"
| "reads IdleR = [''idle_resume_at'', ''idle_pause_at'']"
| "reads TrackerRuleR = [''tracker_remove_at'', ''tracker_move_at'']"
| "reads _ = []"

section \<open>Laws\<close>

lemma set_want: "set (want k w) = (if k \<noteq> [] \<and> k \<in> set Keys_Grid then insert k (set w) else set w)"
  by (simp add: want_def)

lemma distinct_want: "distinct w \<Longrightarrow> distinct (want k w)"
  by (simp add: want_def)

lemma set_fold_want: "set (fold want ks w) = set w \<union> (set ks \<inter> set Keys_Grid - {[]})"
  by (induction ks arbitrary: w) (auto simp: set_want)

lemma distinct_fold_want: "distinct w \<Longrightarrow> distinct (fold want ks w)"
  by (induction ks arbitrary: w) (auto simp: distinct_want)

definition needs :: "string \<Rightarrow> string set" where
  "needs index = insert index (set (case map_of AlsoNeeded index of None \<Rightarrow> [] | Some ks \<Rightarrow> ks))"

lemma set_want_column:
  "set (want_column (hid, index) w) = set w \<union> (if hid then {} else needs index \<inter> set Keys_Grid - {[]})"
  by (auto simp: want_column_def set_fold_want set_want needs_def)

lemma distinct_want_column: "distinct w \<Longrightarrow> distinct (want_column c w)"
  by (auto simp: want_column_def distinct_fold_want distinct_want split: prod.split)

lemma set_fold_want_column:
  "set (fold want_column cols w) =
     set w \<union> (\<Union>(hid, index) \<in> set cols. if hid then {} else needs index \<inter> set Keys_Grid - {[]})"
proof (induction cols arbitrary: w)
  case (Cons c cols)
  obtain hid index where c: "c = (hid, index)" by (cases c)
  show ?case unfolding c using Cons [of "want_column (hid, index) w"] by (simp add: set_want_column Un_assoc)
qed simp

lemma distinct_fold_want_column: "distinct w \<Longrightarrow> distinct (fold want_column cols w)"
  by (induction cols arbitrary: w) (auto simp: distinct_want_column)

lemma set_forGrid:
  "set (forGrid (Some cols) s) =
     (set Always \<union> (\<Union>(hid, index) \<in> set cols. if hid then {} else needs index) \<union> set_option s) \<inter> set Keys_Grid - {[]}"
  by (cases s) (auto simp: forGrid_def Let_def set_want set_fold_want_column set_fold_want split: if_splits)

lemma distinct_forGrid: "distinct (forGrid (Some cols) s)"
  by (cases s) (auto simp: forGrid_def Let_def distinct_fold_want_column distinct_fold_want distinct_want)

lemma sorted_forGrid: "sorted (forGrid (Some cols) s)"
  by (cases s) (auto simp: forGrid_def Let_def)

abbreviation shown_columns :: "column list \<Rightarrow> (bool \<times> string) list" where
  "shown_columns cs \<equiv> map (\<lambda>c. (hidden c, dataIndex c)) cs"

lemma Always_Grid: "set Always \<subseteq> set Keys_Grid"
  by (simp add: Always_def Keys_Grid_def)

lemma columns_reads:
  "\<forall>c \<in> set columns. set (reads (rend c)) \<subseteq> needs (dataIndex c) \<union> set Always"
  unfolding columns_def columns1_def columns2_def Always_def needs_def AlsoNeeded_def
  by simp

lemma columns_known: "\<forall>c \<in> set columns. dataIndex c \<in> set Keys_Grid \<union> {''public'', ''shared''}"
  unfolding columns_def columns1_def columns2_def Keys_Grid_def by simp

text \<open>What the daemon answers of a torrent's fields: those that were asked for.\<close>

definition only_fields :: "string list \<Rightarrow> jsval dict \<Rightarrow> jsval dict" where
  "only_fields ks r = filter (\<lambda>(k, v). k \<in> set ks) r"

lemma get_only [simp]: "js_get (only_fields ks r) k = (if k \<in> set ks then js_get r k else Undefined)"
  unfolding only_fields_def js_get_def by (induction r) auto

text \<open>A renderer reads no more of its record than \<open>reads\<close> says.\<close>

lemma render_reads:
  "(\<And>k. k \<in> set (reads rd) \<Longrightarrow> js_get r k = js_get r' k) \<Longrightarrow>
   render local now rd style r v = render local now rd style r' v"
  by (cases rd) (simp_all add: torrentNameRenderer_def torrentProgressRenderer_def seedsRenderer_def
      peersRenderer_def with_total_def idleRenderer_def trackerRuleRenderer_def)

lemma render_only:
  "set (reads rd) \<subseteq> set ks \<Longrightarrow> k \<in> set ks \<Longrightarrow>
   render local now rd style (only_fields ks r) (js_get (only_fields ks r) k) = render local now rd style r (js_get r k)"
  using render_reads [of rd "only_fields ks r" r local now style "js_get r k"] by (simp add: subset_iff)

section \<open>Properties\<close>

text \<open>The grid asks the same question for the same view. The keys are distinct, sorted, taken from
  the grid's list, and determined by which columns are shown and which one is sorted by, not by the
  order of the columns: two layouts that show the same fields ask with equal lists, so the server's
  difference is not thrown away.\<close>

theorem forGrid_canonical:
  "distinct (forGrid (Some cols) s) \<and> sorted (forGrid (Some cols) s) \<and>
   set (forGrid (Some cols) s) \<subseteq> set Keys_Grid \<and>
   ({i. (False, i) \<in> set cols} = {i. (False, i) \<in> set cols'} \<longrightarrow>
      forGrid (Some cols) s = forGrid (Some cols') s)"
proof -
  have eq: "forGrid (Some cols) s = forGrid (Some cols') s"
    if "{i. (False, i) \<in> set cols} = {i. (False, i) \<in> set cols'}"
  proof -
    have "(\<Union>(hid, index) \<in> set cs. if hid then {} else needs index) = \<Union> (needs ` {i. (False, i) \<in> set cs})" for cs
      by (auto split: if_splits)
    then have "set (forGrid (Some cols) s) = set (forGrid (Some cols') s)"
      unfolding set_forGrid using that by simp
    then show ?thesis
      by (rule sorted_distinct_set_unique [OF sorted_forGrid distinct_forGrid sorted_forGrid distinct_forGrid])
  qed
  have "set (forGrid (Some cols) s) \<subseteq> set Keys_Grid" unfolding set_forGrid by blast
  then show ?thesis using distinct_forGrid sorted_forGrid eq by blast
qed

theorem forGrid_canonical_witness:
  "forGrid (Some [(False, ''name''), (True, ''eta''), (False, ''ratio'')]) None =
   forGrid (Some [(False, ''ratio''), (False, ''name'')]) None"
proof -
  have "{i. (False, i) \<in> set [(False, ''name''), (True, ''eta''), (False, ''ratio'')]} =
      {i. (False, i) \<in> set [(False, ''ratio''), (False, ''name'')]}" by auto
  then show ?thesis
    using forGrid_canonical [of "[(False, ''name''), (True, ''eta''), (False, ''ratio'')]" None
        "[(False, ''ratio''), (False, ''name'')]"] by blast
qed

text \<open>C16: A cell drawn from what was asked for is the cell drawn from everything.  Take any torrent of the
  daemon and any columns shown, and keep of the torrent only the fields \<open>forGrid\<close> asks for: each shown
  column but \<open>Public\<close> and \<open>Shared\<close> draws what it would draw from the whole torrent, the rows compare
  under the sort column, hidden or not and again not those two, as the whole torrents would, and the
  fields the interface always needs are there.  Of those two columns no torrent ever carries the value.\<close>

theorem forGrid_covers:
  assumes "c \<in> set columns" "(False, dataIndex c) \<in> set cols" "dataIndex c \<notin> {''public'', ''shared''}"
  shows "let sent = only_fields (forGrid (Some cols) s)
    in render local now (rend c) style (sent r) (js_get (sent r) (dataIndex c)) =
         render local now (rend c) style r (js_get r (dataIndex c)) \<and>
       (\<forall>d \<in> set columns. s = Some (dataIndex d) \<and> dataIndex d \<notin> {''public'', ''shared''} \<longrightarrow>
          sort_compare st desc (dataIndex d) (sent r) (sent r') = sort_compare st desc (dataIndex d) r r') \<and>
       (\<forall>k \<in> set Always. js_get (sent r) k = js_get r k) \<and>
       js_get (sent r) ''public'' = Undefined \<and> js_get (sent r) ''shared'' = Undefined"
proof -
  let ?ks = "forGrid (Some cols) s"
  have ne: "[] \<notin> set Keys_Grid" by (simp add: Keys_Grid_def)
  have known: "dataIndex d \<in> set Keys_Grid" if "d \<in> set columns" "dataIndex d \<notin> {''public'', ''shared''}" for d
    using that columns_known by blast
  have n: "needs (dataIndex c) \<inter> set Keys_Grid \<subseteq> set ?ks"
    using assms(2) ne unfolding set_forGrid by fastforce
  have always: "set Always \<subseteq> set ?ks" using Always_Grid ne unfolding set_forGrid by auto
  have "set (reads (rend c)) \<subseteq> set Keys_Grid" by (cases "rend c") (simp_all add: Keys_Grid_def)
  moreover have "set (reads (rend c)) \<subseteq> needs (dataIndex c) \<union> set Always" using assms(1) columns_reads by blast
  ultimately have "set (reads (rend c)) \<subseteq> set ?ks" using n always by blast
  moreover have "dataIndex c \<in> set ?ks" using n known [OF assms(1,3)] by (auto simp: needs_def)
  ultimately have "render local now (rend c) style (only_fields ?ks r) (js_get (only_fields ?ks r) (dataIndex c)) =
      render local now (rend c) style r (js_get r (dataIndex c))"
    by (intro render_only) auto
  moreover have "sort_compare st desc (dataIndex d) (only_fields ?ks r) (only_fields ?ks r') =
      sort_compare st desc (dataIndex d) r r'"
    if "d \<in> set columns" "s = Some (dataIndex d)" "dataIndex d \<notin> {''public'', ''shared''}" for d
  proof -
    have "dataIndex d \<in> set Keys_Grid" using known that(1,3) .
    then have "dataIndex d \<in> set ?ks" using that(2) ne unfolding set_forGrid by auto
    then show ?thesis by (simp add: sort_compare_def)
  qed
  moreover have "''public'' \<notin> set ?ks" "''shared'' \<notin> set ?ks" unfolding set_forGrid by (simp_all add: Keys_Grid_def)
  ultimately show ?thesis using always by (auto simp: Let_def)
qed

theorem forGrid_covers_witness:
  "render (\<lambda>_. undefined) 0 IdleR (Str [])
     (only_fields (forGrid (Some (shown_columns columns)) None) [(''idle_resume_at'', num 60), (''comment'', Str ''x'')]) Undefined =
   render (\<lambda>_. undefined) 0 IdleR (Str []) [(''idle_resume_at'', num 60), (''comment'', Str ''x'')] Undefined"
proof -
  let ?c = "shown ''Idle'' 110 IdleR ''idle_pause_at''"
  have c: "?c \<in> set columns" by (simp add: columns_def columns2_def)
  then have "(False, ''idle_pause_at'') \<in> set (shown_columns columns)" by force
  then show ?thesis
    using forGrid_covers [OF c, of "shown_columns columns" None "\<lambda>_. undefined" 0 "Str []"
        "[(''idle_resume_at'', num 60), (''comment'', Str ''x'')]" NoSort False "[]"]
    by (simp add: Let_def js_get_def only_fields_def)
qed

text \<open>Two columns of the grid can never be filled. The fields of the Public and Shared columns are
  not in the grid's list, so no choice of columns or order ever asks for them and the cells stay
  empty.\<close>

theorem public_shared_never_asked:
  "\<exists>c1 \<in> set columns. \<exists>c2 \<in> set columns. dataIndex c1 = ''public'' \<and> dataIndex c2 = ''shared'' \<and>
     dataIndex c1 \<notin> set (forGrid model s) \<and> dataIndex c2 \<notin> set (forGrid model s)"
proof -
  have n: "''public'' \<notin> set Keys_Grid" "''shared'' \<notin> set Keys_Grid" by (simp_all add: Keys_Grid_def)
  have "set (forGrid model s) \<subseteq> set Keys_Grid"
    by (cases model) (auto simp: set_forGrid forGrid_def [of None])
  moreover have "off ''Public'' 80 PlainR ''public'' \<in> set columns" "off ''Shared'' 80 PlainR ''shared'' \<in> set columns"
    by (simp_all add: columns_def columns2_def)
  ultimately show ?thesis using n by force
qed

end
