(* ===== verification/TrackerSettings.thy ===== *)
theory TrackerSettings
  imports DurationField GridColumns
begin

text \<open>
  \<open>deluge-all/TrackerSettingsWindow.js\<close>: the window for the rules of one tracker, its form, what it says
  the rules would do, and what it writes; and what the daemon's sweep
  (\<open>features/tracker.rs\<close>, \<open>features/mod.rs\<close>) does with them, which the window claims to foresee.
  The widgets are what they hold: a box that is ticked, a number field, a delay, a text.
\<close>

section \<open>The table of rules\<close>

datatype xtype = Checkbox | Spinnerfield | Durationfield | Textfield

definition isNumber :: "xtype \<Rightarrow> bool" where
  "isNumber x \<longleftrightarrow> x = Spinnerfield \<or> x = Durationfield"

text \<open>What an entry leaves out is \<open>Undefined\<close>; titles, labels and widths are drawn only.\<close>

record field_spec =
  sp_name :: string
  sp_xtype :: xtype
  sp_value :: jsval
  sp_dflt :: jsval
  sp_needs :: "string option"
  sp_warn :: bool
  sp_precision :: nat
  sp_min :: rat

record rule =
  ru_key :: string
  ru_fields :: "field_spec list"

definition limit_spec :: "string \<Rightarrow> nat \<Rightarrow> field_spec" where
  "limit_spec name precision =
     \<lparr>sp_name = name, sp_xtype = Spinnerfield, sp_value = num (-1), sp_dflt = Undefined, sp_needs = None, sp_warn = False,
      sp_precision = precision, sp_min = -1\<rparr>"

definition check_spec :: "string \<Rightarrow> jsval \<Rightarrow> bool \<Rightarrow> field_spec" where
  "check_spec name dflt warn =
     \<lparr>sp_name = name, sp_xtype = Checkbox, sp_value = Undefined, sp_dflt = dflt, sp_needs = None, sp_warn = warn,
      sp_precision = 2, sp_min = 0\<rparr>"

definition text_spec :: "string \<Rightarrow> field_spec" where
  "text_spec name =
     \<lparr>sp_name = name, sp_xtype = Textfield, sp_value = Undefined, sp_dflt = Undefined, sp_needs = None, sp_warn = False,
      sp_precision = 2, sp_min = 0\<rparr>"

definition delay_spec :: "string \<Rightarrow> string option \<Rightarrow> field_spec" where
  "delay_spec name needs =
     \<lparr>sp_name = name, sp_xtype = Durationfield, sp_value = num 0, sp_dflt = Undefined, sp_needs = needs, sp_warn = False,
      sp_precision = 1, sp_min = 0\<rparr>"

definition RULES :: "rule list" where
  "RULES =
     [\<lparr>ru_key = ''auto_limit'', ru_fields =
        [limit_spec ''max_download_speed'' 1, limit_spec ''max_upload_speed'' 1,
         limit_spec ''max_connections'' 0, limit_spec ''max_upload_slots'' 0]\<rparr>,
      \<lparr>ru_key = ''auto_label'', ru_fields =
        [text_spec ''label'', check_spec ''label_on_add'' (Bool True) False, check_spec ''label_when_done'' Undefined False,
         delay_spec ''label_after_hours'' (Some ''label_when_done'')]\<rparr>,
      \<lparr>ru_key = ''auto_move'', ru_fields = [text_spec ''move_path'', delay_spec ''move_after_hours'' None]\<rparr>,
      \<lparr>ru_key = ''auto_remove'', ru_fields =
        [delay_spec ''remove_after_hours'' None, check_spec ''remove_data'' Undefined True]\<rparr>]"

section \<open>Fields\<close>

datatype tfield = CheckF bool | SpinF numfield | DurF duration | TextF string

fun getXType :: "tfield \<Rightarrow> xtype" where
  "getXType (CheckF _) = Checkbox"
| "getXType (SpinF _) = Spinnerfield"
| "getXType (DurF _) = Durationfield"
| "getXType (TextF _) = Textfield"

text \<open>What \<open>getValue\<close> of a field says: \<open>checked\<close>, the number of a box, the hours of a delay, the text.\<close>

fun field_get :: "tfield \<Rightarrow> jsval" where
  "field_get (CheckF b) = Bool b"
| "field_get (SpinF f) = nf_getValue f"
| "field_get (DurF d) = Num (dur_getValue d)"
| "field_get (TextF s) = Str s"

text \<open>\<open>setValue\<close>.  A check box is ticked for true and for a few strings, which its callers here do not pass.\<close>

definition checkbox_set :: "jsval \<Rightarrow> bool" where
  "checkbox_set v =
     (if v = Bool False then False
      else v = Bool True \<or> strict_eq v (Str ''true'') \<or> loose_eq v (Str ''1'') \<or> to_lower (js_string v) = ''on'')"

fun field_set :: "jsval \<Rightarrow> tfield \<Rightarrow> tfield" where
  "field_set v (CheckF _) = CheckF (checkbox_set v)"
| "field_set v (SpinF f) = SpinF (nf_setValue v f)"
| "field_set v (DurF d) = DurF (dur_setValue v d)"
| "field_set v (TextF _) = TextF (if isEmpty v False then [] else js_string v)"

definition make_field :: "field_spec \<Rightarrow> tfield" where
  "make_field spec =
     (case sp_xtype spec of
        Checkbox \<Rightarrow> CheckF False
      | Spinnerfield \<Rightarrow>
          SpinF (nf_setValue (sp_value spec)
            \<lparr>decimalPrecision = sp_precision spec, minValue = sp_min spec, maxValue = 9999999, incrementValue = 1, box_text = []\<rparr>)
      | Durationfield \<Rightarrow> DurF (dur_setValue (sp_value spec) duration_new)
      | Textfield \<Rightarrow> TextF [])"

definition defaultOf :: "field_spec \<Rightarrow> jsval" where
  "defaultOf spec =
     (if sp_dflt spec \<noteq> Undefined then sp_dflt spec
      else if sp_xtype spec = Checkbox then Bool False
      else if isNumber (sp_xtype spec) then js_or (sp_value spec) (num 0)
      else Str [])"

section \<open>The window\<close>

record field_group =
  g_key :: string
  g_fields :: "(string \<times> string option) list"
  g_warnings :: "string list"

text \<open>The calls that are out: \<open>load\<close>, \<open>loadTorrents\<close>, \<open>loadProtectedLabels\<close> and the read of \<open>onOk\<close>, with what
  its answer writes.\<close>

datatype tw_ask = LoadConfig | LoadTorrents string | LoadLabels | SaveRead string "jsval dict"

text \<open>\<open>tw_torrents\<close> is \<open>None\<close> for null; \<open>tw_disabled\<close> and \<open>tw_warned\<close> are what \<open>setDisabled\<close> and
  \<open>setVisible\<close> were told last; \<open>tw_sent\<close> holds the \<open>trackers\<close> of every \<open>set_config\<close>.\<close>

record tracker_window =
  tw_host :: "string option"
  tw_visible :: bool
  tw_fields :: "tfield dict"
  tw_defaults :: "jsval dict"
  tw_groups :: "field_group list"
  tw_disabled :: "bool dict"
  tw_warned :: "bool dict"
  tw_torrents :: "jsval dict list option"
  tw_protected :: "string list"
  tw_preview :: string
  tw_asks :: "tw_ask list"
  tw_sent :: "jsval dict list"
  tw_complaints :: nat

definition add_spec :: "field_spec \<Rightarrow> tracker_window \<Rightarrow> tracker_window" where
  "add_spec spec w =
     w\<lparr>tw_fields := AList.update (sp_name spec) (make_field spec) (tw_fields w),
       tw_defaults := AList.update (sp_name spec) (defaultOf spec) (tw_defaults w)\<rparr>"

definition addRule :: "rule \<Rightarrow> tracker_window \<Rightarrow> tracker_window" where
  "addRule rule w =
     (let w = w\<lparr>tw_fields := AList.update (ru_key rule) (CheckF False) (tw_fields w),
                tw_defaults := AList.update (ru_key rule) (Bool False) (tw_defaults w)\<rparr>;
          w = fold add_spec (ru_fields rule) w;
          group = \<lparr>g_key = ru_key rule, g_fields = map (\<lambda>s. (sp_name s, sp_needs s)) (ru_fields rule),
                   g_warnings = map sp_name (filter sp_warn (ru_fields rule))\<rparr>
      in w\<lparr>tw_groups := tw_groups w @ [group]\<rparr>)"

definition tracker_window_new :: tracker_window where
  "tracker_window_new =
     fold addRule RULES
       \<lparr>tw_host = None, tw_visible = False, tw_fields = [], tw_defaults = [], tw_groups = [], tw_disabled = [], tw_warned = [],
        tw_torrents = None, tw_protected = [], tw_preview = [], tw_asks = [], tw_sent = [], tw_complaints = 0\<rparr>"

text \<open>A field by its name; every name asked for is one of the table's.\<close>

definition tfield_of :: "tracker_window \<Rightarrow> string \<Rightarrow> tfield" where
  "tfield_of w name = (case map_of (tw_fields w) name of Some f \<Rightarrow> f | None \<Rightarrow> CheckF False)"

section \<open>What the form asks for\<close>

text \<open>The number a default is, when \<open>Deluge.number\<close> falls back on it.\<close>

definition fallback_num :: "jsval \<Rightarrow> rat" where
  "fallback_num v = (case v of Num (Fin q) \<Rightarrow> q | _ \<Rightarrow> 0)"

definition field_option :: "jsval \<Rightarrow> tfield \<Rightarrow> jsval" where
  "field_option dflt f =
     (if getXType f = Checkbox then Bool (strict_eq (field_get f) (Bool True))
      else if isNumber (getXType f) then Num (deluge_number (field_get f) (fallback_num dflt))
      else js_or (field_get f) (Str []))"

definition form_options :: "tracker_window \<Rightarrow> jsval dict" where
  "form_options w = map (\<lambda>(name, f). (name, field_option (js_get (tw_defaults w) name) f)) (tw_fields w)"

section \<open>What the preview says\<close>

text \<open>\<open>Number(v) || 0\<close>; the daemon's answers are JSON, which has no infinities.\<close>

definition number_or_0 :: "jsval \<Rightarrow> rat" where
  "number_or_0 v = (case to_number v of Fin q \<Rightarrow> q | _ \<Rightarrow> 0)"

definition finishedAt :: "jsval dict \<Rightarrow> bool \<Rightarrow> rat" where
  "finishedAt torrent destructive =
     (let completed = number_or_0 (js_get torrent ''completed_time'')
      in if 0 < completed then completed
         else if destructive then 0
         else number_or_0 (js_get torrent ''time_added''))"

text \<open>The names every object of the browser answers to, its own keys aside.\<close>

definition Object_prototype :: "string list" where
  "Object_prototype =
     [''constructor'', ''__proto__'', ''hasOwnProperty'', ''isPrototypeOf'', ''propertyIsEnumerable'', ''toString'',
      ''toLocaleString'', ''valueOf'', ''__defineGetter__'', ''__defineSetter__'', ''__lookupGetter__'', ''__lookupSetter__'']"

text \<open>\<open>!!protectedLabels[label]\<close>: a key the window put there, or one that every object has.\<close>

definition isProtected :: "string list \<Rightarrow> jsval dict \<Rightarrow> bool" where
  "isProtected protectedLabels torrent \<longleftrightarrow>
     (let label = js_string (js_or (js_get torrent ''label'') (Str []))
      in label \<in> set protectedLabels \<or> label \<in> set Object_prototype)"

text \<open>\<open>options[name]\<close> where it is a delay: \<open>options\<close> makes it a finite number (\<open>options_numbers\<close> below).\<close>

definition option_hours :: "jsval dict \<Rightarrow> string \<Rightarrow> rat" where
  "option_hours opts name = fallback_num (js_get opts name)"

definition when_text :: "rat \<Rightarrow> rat \<Rightarrow> string" where
  "when_text t now =
     (let left = round_half_up (t - now)
      in if left \<le> 0 then gettext ''at the next sweep, about a minute away''
         else case ftime (num (of_int left)) of
                Inr s \<Rightarrow> string_format (gettext ''the first in {0}'') [Str s]
              | Inl _ \<Rightarrow> [])"

text \<open>The loop of \<open>describeRemoval\<close>: when each torrent is due, what it would free, how many a label keeps.\<close>

definition removal_step :: "string list \<Rightarrow> jsval dict \<Rightarrow> jsval dict \<Rightarrow> rat list \<times> rat \<times> nat \<Rightarrow> rat list \<times> rat \<times> nat" where
  "removal_step protectedLabels opts torrent acc =
     (case acc of (due, freed, kept) \<Rightarrow>
        if isProtected protectedLabels torrent then (due, freed, Suc kept)
        else let from = finishedAt torrent True
             in if from \<le> 0 then acc
                else (due @ [from + option_hours opts ''remove_after_hours'' * 3600],
                      freed + number_or_0 (js_get torrent ''total_wanted''), kept))"

definition removal_figures :: "string list \<Rightarrow> jsval dict list \<Rightarrow> jsval dict \<Rightarrow> rat list \<times> rat \<times> nat" where
  "removal_figures protectedLabels finished opts = fold (removal_step protectedLabels opts) finished ([], 0, 0)"

definition nat_arg :: "nat \<Rightarrow> jsval" where
  "nat_arg n = num (of_nat n)"

definition describeRemoval :: "string list \<Rightarrow> jsval dict list \<Rightarrow> jsval dict \<Rightarrow> rat \<Rightarrow> string" where
  "describeRemoval protectedLabels finished opts now =
     (case removal_figures protectedLabels finished opts of (due, freed, kept) \<Rightarrow>
        let protectedNote =
              (if 0 < kept then '' '' @ string_format (gettext ''{0} are kept by their label, which outranks this rule.'') [nat_arg kept]
               else [])
        in if due = [] then
             (if 0 < kept then
                string_format (gettext ''Nothing would be removed: {0} are kept by their label, which outranks this rule.'') [nat_arg kept]
              else gettext ''Nothing would be removed: none of the finished ones has a completion time the daemon saw.'')
           else
             let fate = (if truthy (js_get opts ''remove_data'')
                         then string_format (gettext ''{0} would be removed with their files, freeing {1}'')
                                [nat_arg (length due), Str (fsize (num freed) False)]
                         else string_format (gettext ''{0} would be removed, their files kept'') [nat_arg (length due)])
             in fate @ '', '' @ when_text (hd (sort due)) now @ ''.'' @ protectedNote)"

text \<open>\<open>replace(/\/+$/, '')\<close>.\<close>

definition strip_slashes :: "string \<Rightarrow> string" where
  "strip_slashes s = rev (dropWhile (\<lambda>c. c = CHR ''/'') (rev s))"

definition move_step :: "jsval dict \<Rightarrow> jsval dict \<Rightarrow> rat list \<Rightarrow> rat list" where
  "move_step opts torrent due =
     (let destination = strip_slashes (js_string (js_get opts ''move_path''));
          whereabouts = strip_slashes (js_string (js_or (js_get torrent ''save_path'') (Str [])));
          from = finishedAt torrent False
      in if whereabouts = destination \<or> from \<le> 0 then due
         else due @ [from + option_hours opts ''move_after_hours'' * 3600])"

definition move_due :: "jsval dict list \<Rightarrow> jsval dict \<Rightarrow> rat list" where
  "move_due finished opts = fold (move_step opts) finished []"

definition describeMove :: "jsval dict list \<Rightarrow> jsval dict \<Rightarrow> rat \<Rightarrow> string" where
  "describeMove finished opts now =
     (let due = move_due finished opts
      in if due = [] then gettext ''Nothing would be moved: they are already there.''
         else string_format (gettext ''{0} would be moved to {1}'') [nat_arg (length due), htmlEncode (js_get opts ''move_path'')] @
              '', '' @ when_text (hd (sort due)) now @ ''.'')"

definition label_step :: "string \<Rightarrow> jsval dict \<Rightarrow> jsval dict \<Rightarrow> nat \<times> nat \<Rightarrow> nat \<times> nat" where
  "label_step wanted opts torrent acc =
     (case acc of (onArrival, onCompletion) \<Rightarrow>
        let current = js_string (js_or (js_get torrent ''label'') (Str []))
        in if current = wanted then acc
           else if truthy (js_get opts ''label_on_add'') \<and> current = [] then (Suc onArrival, onCompletion)
           else if truthy (js_get opts ''label_when_done'') \<and> truthy (js_get torrent ''is_finished'') then (onArrival, Suc onCompletion)
           else acc)"

definition label_figures :: "jsval dict list \<Rightarrow> jsval dict \<Rightarrow> nat \<times> nat" where
  "label_figures torrents opts =
     fold (label_step (to_lower (trim (js_string (js_get opts ''label'')))) opts) torrents (0, 0)"

definition describeLabel :: "jsval dict list \<Rightarrow> jsval dict \<Rightarrow> string" where
  "describeLabel torrents opts =
     (case label_figures torrents opts of (onArrival, onCompletion) \<Rightarrow>
        let total = onArrival + onCompletion; label = htmlEncode (js_get opts ''label'')
        in if total = 0 then string_format (gettext ''Every torrent here is already in {0}.'') [label]
           else string_format (gettext ''{0} would be put in {1}.'') [nat_arg total, label])"

text \<open>\<open>describe\<close>, with the clock's reading.\<close>

definition preview_lines :: "tracker_window \<Rightarrow> jsval dict list \<Rightarrow> rat \<Rightarrow> string list" where
  "preview_lines w torrents now =
     (let opts = form_options w;
          finished = filter (\<lambda>t. truthy (js_get t ''is_finished'')) torrents
      in [string_format (gettext ''{0} torrents here, {1} of them finished.'') [nat_arg (length torrents), nat_arg (length finished)]] @
         (if truthy (js_get opts ''auto_remove'') then [describeRemoval (tw_protected w) finished opts now] else []) @
         (if truthy (js_get opts ''auto_move'') \<and> truthy (js_get opts ''move_path'') then [describeMove finished opts now] else []) @
         (if truthy (js_get opts ''auto_label'') \<and> truthy (js_get opts ''label'') then [describeLabel torrents opts] else []) @
         (if truthy (js_get opts ''auto_limit'')
          then [string_format (gettext ''All {0} would be held to these limits.'') [nat_arg (length torrents)]] else []))"

definition describe :: "rat \<Rightarrow> tracker_window \<Rightarrow> tracker_window" where
  "describe now w =
     (case tw_torrents w of
        None \<Rightarrow> w
      | Some torrents \<Rightarrow>
          if torrents = [] then w\<lparr>tw_preview := encode_text (gettext ''No torrents announce to this tracker right now.'')\<rparr>
          else w\<lparr>tw_preview := join ''<br/>'' (preview_lines w torrents now)\<rparr>)"

section \<open>Filling in the form\<close>

text \<open>A rule's fields follow its switch, and the field they need.\<close>

definition wanted_field :: "tracker_window \<Rightarrow> field_group \<Rightarrow> string option \<Rightarrow> bool" where
  "wanted_field w g needs \<longleftrightarrow>
     strict_eq (field_get (tfield_of w (g_key g))) (Bool True) \<and>
     (case needs of None \<Rightarrow> True | Some n \<Rightarrow> strict_eq (field_get (tfield_of w n)) (Bool True))"

definition switch_group :: "field_group \<Rightarrow> tracker_window \<Rightarrow> tracker_window" where
  "switch_group g w =
     (let on = strict_eq (field_get (tfield_of w (g_key g))) (Bool True)
      in w\<lparr>tw_disabled := fold (\<lambda>(name, needs). AList.update name (\<not> wanted_field w g needs)) (g_fields g) (tw_disabled w),
           tw_warned := fold (\<lambda>name. AList.update name (on \<and> strict_eq (field_get (tfield_of w name)) (Bool True)))
                          (g_warnings g) (tw_warned w)\<rparr>)"

definition onSwitched :: "rat \<Rightarrow> tracker_window \<Rightarrow> tracker_window" where
  "onSwitched now w = describe now (fold switch_group (tw_groups w) w)"

text \<open>\<open>setOptions\<close>.  A check box that changes calls \<open>onSwitched\<close> on the way; the call at the end sets everything
  those set.\<close>

definition set_field :: "jsval dict \<Rightarrow> jsval dict \<Rightarrow> string \<Rightarrow> tfield \<Rightarrow> tfield" where
  "set_field opts dflts name f =
     (let value = js_get opts name; fallback = js_get dflts name;
          value = (if value = Undefined \<or> value = Null then fallback else value)
      in if getXType f = Checkbox then field_set (Bool (strict_eq value (Bool True))) f
         else if isNumber (getXType f) then field_set (Num (deluge_number value (fallback_num fallback))) f
         else field_set value f)"

definition setOptions :: "rat \<Rightarrow> jsval dict \<Rightarrow> tracker_window \<Rightarrow> tracker_window" where
  "setOptions now opts w =
     onSwitched now (w\<lparr>tw_fields := map (\<lambda>(name, f). (name, set_field opts (tw_defaults w) name f)) (tw_fields w)\<rparr>)"

text \<open>Somebody changes a field: a check box tells \<open>onSwitched\<close>, the others \<open>describe\<close>.\<close>

definition enter :: "rat \<Rightarrow> string \<Rightarrow> tfield \<Rightarrow> tracker_window \<Rightarrow> tracker_window" where
  "enter now name f w =
     (let w = w\<lparr>tw_fields := AList.update name f (tw_fields w)\<rparr>
      in if getXType f = Checkbox then onSwitched now w else describe now w)"

section \<open>Loading\<close>

text \<open>\<open>v[k]\<close> and \<open>v || {}\<close> of a value out of JSON.\<close>

definition prop_of :: "jsval \<Rightarrow> string \<Rightarrow> jsval" where
  "prop_of v k = (case v of Obj _ d \<Rightarrow> js_get d k | _ \<Rightarrow> Undefined)"

definition object_or_empty :: "jsval \<Rightarrow> jsval dict" where
  "object_or_empty v = (case v of Obj _ d \<Rightarrow> d | _ \<Rightarrow> [])"

definition trackersOf :: "jsval \<Rightarrow> jsval dict" where
  "trackersOf config = object_or_empty (prop_of (prop_of config ''tracker'') ''trackers'')"

definition tw_show :: "rat \<Rightarrow> string \<Rightarrow> tracker_window \<Rightarrow> tracker_window" where
  "tw_show now host w =
     (let w = setOptions now [] (w\<lparr>tw_visible := True, tw_host := Some host, tw_torrents := None\<rparr>)
      in w\<lparr>tw_preview := gettext ''Looking at what is here...'', tw_protected := [],
           tw_asks := tw_asks w @ [LoadConfig, LoadTorrents host, LoadLabels]\<rparr>)"

definition tw_hide :: "tracker_window \<Rightarrow> tracker_window" where
  "tw_hide w = w\<lparr>tw_visible := False\<rparr>"

definition host_entry :: "tracker_window \<Rightarrow> jsval \<Rightarrow> jsval dict" where
  "host_entry w config = object_or_empty (js_get (trackersOf config) (case tw_host w of Some h \<Rightarrow> h | None \<Rightarrow> ''undefined''))"

definition config_loaded :: "rat \<Rightarrow> jsval \<Rightarrow> tracker_window \<Rightarrow> tracker_window" where
  "config_loaded now config w = (if tw_visible w then setOptions now (host_entry w config) w else w)"

definition config_failed :: "rat \<Rightarrow> tracker_window \<Rightarrow> tracker_window" where
  "config_failed now w = (if tw_visible w then setOptions now [] w else w)"

definition torrents_loaded :: "rat \<Rightarrow> string \<Rightarrow> jsval \<Rightarrow> tracker_window \<Rightarrow> tracker_window" where
  "torrents_loaded now host torrents w =
     (if \<not> tw_visible w \<or> tw_host w \<noteq> Some host then w
      else describe now (w\<lparr>tw_torrents := Some (map (\<lambda>(_, t). object_or_empty t) (object_or_empty torrents))\<rparr>))"

definition torrents_failed :: "string \<Rightarrow> tracker_window \<Rightarrow> tracker_window" where
  "torrents_failed host w =
     (if \<not> tw_visible w \<or> tw_host w \<noteq> Some host then w else w\<lparr>tw_torrents := None, tw_preview := []\<rparr>)"

definition labels_loaded :: "rat \<Rightarrow> jsval \<Rightarrow> tracker_window \<Rightarrow> tracker_window" where
  "labels_loaded now config w =
     describe now (w\<lparr>tw_protected :=
       map fst (filter (\<lambda>(_, v). truthy v \<and> truthy (prop_of v ''never_remove'')) (object_or_empty (prop_of config ''labels'')))\<rparr>)"

definition labels_failed :: "tracker_window \<Rightarrow> tracker_window" where
  "labels_failed w = w\<lparr>tw_protected := []\<rparr>"

section \<open>Writing back\<close>

definition onCancel :: "tracker_window \<Rightarrow> tracker_window" where
  "onCancel w = tw_hide w"

definition onOk :: "tracker_window \<Rightarrow> tracker_window" where
  "onOk w =
     (case tw_host w of
        None \<Rightarrow> tw_hide w
      | Some host \<Rightarrow> if host = [] then tw_hide w else w\<lparr>tw_asks := tw_asks w @ [SaveRead host (form_options w)]\<rparr>)"

text \<open>The trackers \<open>set_config\<close> is sent: what was read, with this host's entry merged over what it had.\<close>

definition merged_trackers :: "string \<Rightarrow> jsval dict \<Rightarrow> jsval \<Rightarrow> jsval dict" where
  "merged_trackers host opts config =
     (let trackers = put_all [] (trackersOf config)
      in AList.update host (Obj 0 (put_all (put_all [] (object_or_empty (js_get trackers host))) opts)) trackers)"

definition save_read :: "string \<Rightarrow> jsval dict \<Rightarrow> jsval \<Rightarrow> tracker_window \<Rightarrow> tracker_window" where
  "save_read host opts config w = tw_hide (w\<lparr>tw_sent := tw_sent w @ [merged_trackers host opts config]\<rparr>)"

definition complain :: "tracker_window \<Rightarrow> tracker_window" where
  "complain w = w\<lparr>tw_complaints := Suc (tw_complaints w)\<rparr>"

section \<open>Answers\<close>

text \<open>One of the calls that are out is answered, with a result or with an error.\<close>

fun handle_ask :: "rat \<Rightarrow> tw_ask \<Rightarrow> jsval option \<Rightarrow> tracker_window \<Rightarrow> tracker_window" where
  "handle_ask now LoadConfig (Some config) w = config_loaded now config w"
| "handle_ask now LoadConfig None w = config_failed now w"
| "handle_ask now (LoadTorrents host) (Some torrents) w = torrents_loaded now host torrents w"
| "handle_ask now (LoadTorrents host) None w = torrents_failed host w"
| "handle_ask now LoadLabels (Some config) w = labels_loaded now config w"
| "handle_ask now LoadLabels None w = labels_failed w"
| "handle_ask now (SaveRead host opts) (Some config) w = save_read host opts config w"
| "handle_ask now (SaveRead host opts) None w = complain w"

definition tw_answer :: "rat \<Rightarrow> nat \<Rightarrow> jsval option \<Rightarrow> tracker_window \<Rightarrow> tracker_window" where
  "tw_answer now i result w =
     (if i < length (tw_asks w)
      then handle_ask now (tw_asks w ! i) result (w\<lparr>tw_asks := take i (tw_asks w) @ drop (Suc i) (tw_asks w)\<rparr>)
      else w)"

text \<open>What may happen to the window.\<close>

datatype tw_event =
    TwShow string
  | TwAnswer nat "jsval option"
  | TwEnter string tfield
  | TwOk
  | TwCancel

fun tw_event_step :: "rat \<Rightarrow> tw_event \<Rightarrow> tracker_window \<Rightarrow> tracker_window" where
  "tw_event_step now (TwShow host) w = tw_show now host w"
| "tw_event_step now (TwAnswer i result) w = tw_answer now i result w"
| "tw_event_step now (TwEnter name f) w = enter now name f w"
| "tw_event_step now TwOk w = onOk w"
| "tw_event_step now TwCancel w = onCancel w"

text \<open>A field stays the widget it was made as, with the precision it was made with; somebody can only change
  what it holds, and only while the window is up.\<close>

fun same_widget :: "tfield \<Rightarrow> tfield \<Rightarrow> bool" where
  "same_widget (CheckF _) (CheckF _) = True"
| "same_widget (SpinF f) (SpinF g) = (decimalPrecision f = decimalPrecision g)"
| "same_widget (DurF d) (DurF e) =
     (decimalPrecision (days_box d) = decimalPrecision (days_box e) \<and> decimalPrecision (hours_box d) = decimalPrecision (hours_box e))"
| "same_widget (TextF _) (TextF _) = True"
| "same_widget _ _ = False"

definition tw_possible :: "tracker_window \<Rightarrow> tw_event \<Rightarrow> bool" where
  "tw_possible w e =
     (case e of
        TwEnter name f \<Rightarrow> tw_visible w \<and> (case map_of (tw_fields w) name of Some g \<Rightarrow> same_widget f g | None \<Rightarrow> False)
      | TwAnswer i _ \<Rightarrow> i < length (tw_asks w)
      | TwShow _ \<Rightarrow> True
      | _ \<Rightarrow> tw_visible w)"

inductive tw_reachable :: "tracker_window \<Rightarrow> bool" where
  start: "tw_reachable tracker_window_new"
| step: "tw_reachable w \<Longrightarrow> tw_possible w e \<Longrightarrow> tw_reachable (tw_event_step now e w)"

section \<open>The form's shape\<close>

text \<open>The widgets of every window that can be: those of the table, in its order.\<close>

definition form_ok :: "tracker_window \<Rightarrow> bool" where
  "form_ok w \<longleftrightarrow>
     list_all2 (\<lambda>(n, f) (m, g). n = m \<and> same_widget f g) (tw_fields w) (tw_fields tracker_window_new) \<and>
     tw_defaults w = tw_defaults tracker_window_new \<and> tw_groups w = tw_groups tracker_window_new"

lemma same_widget_equiv:
  "same_widget f f" "same_widget f g \<Longrightarrow> same_widget g h \<Longrightarrow> same_widget f h" "same_widget f g \<Longrightarrow> getXType f = getXType g"
  by (cases f; cases g; cases h; simp)+

lemma same_widget_set: "same_widget (field_set v f) f"
  by (cases f) (auto simp: dur_setValue_def Let_def split: jsnum.split)

lemma same_widget_set_field: "same_widget (set_field opts dflts n f) f"
  by (simp add: set_field_def Let_def same_widget_set)

lemma describe_frame:
  "tw_fields (describe now w) = tw_fields w" "tw_defaults (describe now w) = tw_defaults w"
  "tw_groups (describe now w) = tw_groups w" "tw_host (describe now w) = tw_host w"
  "tw_asks (describe now w) = tw_asks w" "tw_sent (describe now w) = tw_sent w" "tw_visible (describe now w) = tw_visible w"
  "tw_disabled (describe now w) = tw_disabled w" "tw_warned (describe now w) = tw_warned w"
  "tw_torrents (describe now w) = tw_torrents w" "tw_protected (describe now w) = tw_protected w"
  by (simp_all add: describe_def Let_def split: option.split)

lemma switch_group_frame:
  "tw_fields (switch_group g w) = tw_fields w" "tw_defaults (switch_group g w) = tw_defaults w"
  "tw_groups (switch_group g w) = tw_groups w" "tw_host (switch_group g w) = tw_host w"
  "tw_asks (switch_group g w) = tw_asks w" "tw_sent (switch_group g w) = tw_sent w" "tw_visible (switch_group g w) = tw_visible w"
  "tw_torrents (switch_group g w) = tw_torrents w" "tw_protected (switch_group g w) = tw_protected w"
  by (simp_all add: switch_group_def Let_def)

lemma switch_groups_frame:
  "tw_fields (fold switch_group gs w) = tw_fields w" "tw_defaults (fold switch_group gs w) = tw_defaults w"
  "tw_groups (fold switch_group gs w) = tw_groups w" "tw_host (fold switch_group gs w) = tw_host w"
  "tw_asks (fold switch_group gs w) = tw_asks w" "tw_sent (fold switch_group gs w) = tw_sent w"
  "tw_visible (fold switch_group gs w) = tw_visible w"
  "tw_torrents (fold switch_group gs w) = tw_torrents w" "tw_protected (fold switch_group gs w) = tw_protected w"
  by (induction gs arbitrary: w) (simp_all add: switch_group_frame)

lemmas tw_frames = describe_frame switch_groups_frame

lemma form_ok_new: "form_ok tracker_window_new"
  by (auto simp: form_ok_def same_widget_equiv intro: list.rel_refl)

lemma form_ok_cong:
  "tw_fields w' = tw_fields w \<Longrightarrow> tw_defaults w' = tw_defaults w \<Longrightarrow> tw_groups w' = tw_groups w \<Longrightarrow> form_ok w' = form_ok w"
  by (simp add: form_ok_def)

lemma form_ok_setOptions: "form_ok w \<Longrightarrow> form_ok (setOptions now opts w)"
  unfolding form_ok_def setOptions_def onSwitched_def
  by (auto simp: tw_frames list_all2_map1 case_prod_unfold intro: same_widget_equiv(2) [OF same_widget_set_field] elim!: list_all2_mono)

lemma form_ok_enter:
  assumes "form_ok w" "map_of (tw_fields w) name = Some g" "same_widget f g"
  shows "form_ok (enter now name f w)"
proof -
  have "list_all2 (\<lambda>(n, f) (m, g). n = m \<and> same_widget f g) (AList.update name f xs) ys"
    if "list_all2 (\<lambda>(n, f) (m, g). n = m \<and> same_widget f g) xs ys" "map_of xs name = Some g" for xs ys
    using that
  proof (induction xs ys rule: list_all2_induct)
    case (Cons x xs y ys)
    then show ?case using assms(3) same_widget_equiv(2) by (cases x; cases y) (auto split: if_splits)
  qed simp
  then show ?thesis using assms(1,2) by (simp add: form_ok_def enter_def Let_def onSwitched_def tw_frames)
qed

lemma form_ok_show: "form_ok w \<Longrightarrow> form_ok (tw_show now h w)"
  using form_ok_setOptions [of "w\<lparr>tw_visible := True, tw_host := Some h, tw_torrents := None\<rparr>" now "[]"]
  by (simp add: tw_show_def Let_def form_ok_def)

lemma form_ok_handle:
  assumes "form_ok w"
  shows "form_ok (handle_ask now a r w)"
proof -
  have "form_ok (w\<lparr>tw_torrents := t\<rparr>)" "form_ok (w\<lparr>tw_protected := p\<rparr>)" for t p
    using assms by (simp_all add: form_ok_def)
  then have "form_ok (describe now (w\<lparr>tw_torrents := t\<rparr>))" "form_ok (describe now (w\<lparr>tw_protected := p\<rparr>))" for t p
    by (simp_all add: form_ok_def tw_frames)
  moreover have "form_ok (setOptions now opts w)" for opts using assms by (rule form_ok_setOptions)
  ultimately show ?thesis using assms
    by (cases a; cases r)
      (simp_all add: config_loaded_def config_failed_def torrents_loaded_def labels_loaded_def, simp_all add:
        form_ok_def torrents_failed_def labels_failed_def save_read_def complain_def tw_hide_def)
qed

lemma form_ok_reachable: "tw_reachable w \<Longrightarrow> form_ok w"
proof (induction rule: tw_reachable.induct)
  case start
  show ?case by (rule form_ok_new)
next
  case (step w e now)
  have "form_ok (w\<lparr>tw_asks := x\<rparr>)" for x using step.IH by (simp add: form_ok_def)
  then show ?case using step
    by (cases e) (auto simp: form_ok_show tw_answer_def form_ok_handle onOk_def onCancel_def tw_hide_def form_ok_def [of "_\<lparr>tw_visible := _\<rparr>"]
      form_ok_def [of w] tw_possible_def split: option.splits intro: form_ok_enter)
qed

section \<open>What the form holds\<close>

text \<open>The names of the table, in the order \<open>for (name in this.fields)\<close> visits them, and their widgets.\<close>

definition widget_ok :: "tfield \<Rightarrow> bool" where
  "widget_ok f = (case f of SpinF n \<Rightarrow> decimalPrecision n \<le> 17 | DurF d \<Rightarrow> dur_ok d | _ \<Rightarrow> True)"

lemma new_widgets: "list_all (\<lambda>(n, f). widget_ok f) (tw_fields tracker_window_new) \<and> distinct (keys_of (tw_fields tracker_window_new))"
  by code_simp

lemma same_field:
  assumes "list_all2 (\<lambda>(n, f) (m, g). n = m \<and> same_widget f g) xs ys" "(n, f) \<in> set xs"
  shows "\<exists>g. (n, g) \<in> set ys \<and> same_widget f g"
  using assms by (induction rule: list_all2_induct) auto

lemma form_ok_fields:
  assumes "form_ok w"
  shows "keys_of (tw_fields w) = keys_of (tw_fields tracker_window_new)" "wf_dict (tw_fields w)"
    "\<And>n f. (n, f) \<in> set (tw_fields w) \<Longrightarrow> widget_ok f"
proof -
  have r: "list_all2 (\<lambda>(n, f) (m, g). n = m \<and> same_widget f g) (tw_fields w) (tw_fields tracker_window_new)"
    using assms by (simp add: form_ok_def)
  have k: "keys_of xs = keys_of ys" if "list_all2 (\<lambda>(n, f) (m, g). n = m \<and> same_widget f g) xs ys" for xs ys
    using that by (induction rule: list_all2_induct) auto
  show e: "keys_of (tw_fields w) = keys_of (tw_fields tracker_window_new)" by (rule k [OF r])
  show "wf_dict (tw_fields w)" unfolding e using new_widgets by simp
  fix n f
  assume "(n, f) \<in> set (tw_fields w)"
  then obtain g where g: "(n, g) \<in> set (tw_fields tracker_window_new)" "same_widget f g" using same_field [OF r] by blast
  then have "widget_ok g" using new_widgets by (auto simp: list_all_iff)
  with g(2) show "widget_ok f" by (cases f; cases g) (auto simp: widget_ok_def dur_ok_def)
qed

lemma form_options_get:
  "js_get (form_options w) name =
     (case map_of (tw_fields w) name of Some f \<Rightarrow> field_option (js_get (tw_defaults w) name) f | None \<Rightarrow> Undefined)"
proof -
  have "map_of (map (\<lambda>(n, f). (n, h n f)) xs) name = map_option (h name) (map_of xs name)" for h :: "string \<Rightarrow> tfield \<Rightarrow> jsval" and xs
    by (induction xs) auto
  then show ?thesis by (simp add: form_options_def js_get_def split: option.split)
qed

lemma setOptions_fields:
  "map_of (tw_fields (setOptions now opts w)) name = map_option (set_field opts (tw_defaults w) name) (map_of (tw_fields w) name)"
  "tw_defaults (setOptions now opts w) = tw_defaults w"
proof -
  have "map_of (map (\<lambda>(n, f). (n, h n f)) xs) name = map_option (h name) (map_of xs name)" for h :: "string \<Rightarrow> tfield \<Rightarrow> tfield" and xs
    by (induction xs) auto
  then show "map_of (tw_fields (setOptions now opts w)) name = map_option (set_field opts (tw_defaults w) name) (map_of (tw_fields w) name)"
    "tw_defaults (setOptions now opts w) = tw_defaults w"
    by (simp_all add: setOptions_def onSwitched_def tw_frames)
qed

text \<open>A stored setting the field can show.\<close>

fun shows_exactly :: "tfield \<Rightarrow> jsval \<Rightarrow> bool" where
  "shows_exactly (CheckF _) v = (\<exists>b. v = Bool b)"
| "shows_exactly (SpinF f) v = (\<exists>q. v = num q \<and> q * 10 ^ decimalPrecision f \<in> \<int>)"
| "shows_exactly (DurF d) v = (\<exists>q. v = num q \<and> 0 \<le> q \<and> q \<le> maxHours \<and> q * 10 \<in> \<int>)"
| "shows_exactly (TextF _) v = (\<exists>s. v = Str s)"

lemma field_roundtrip:
  assumes "widget_ok f" "shows_exactly f v"
  shows "field_option dflt (field_set (if isNumber (getXType f) then Num (deluge_number v q) else v) f) = v"
proof (cases f)
  case (SpinF n)
  then obtain r where "v = num r" "r * 10 ^ decimalPrecision n \<in> \<int>" using assms(2) by auto
  then show ?thesis using SpinF assms(1) nf_get_set [of n r] fixed_id [of r "decimalPrecision n"]
    by (simp add: widget_ok_def isNumber_def field_option_def deluge_number_num)
next
  case (DurF d)
  then obtain r where v: "v = num r" "0 \<le> r" "r \<le> maxHours" "r * 10 \<in> \<int>" using assms(2) by auto
  then have "clamped r = r" by (simp add: clamped_def)
  then have "dur_getValue (dur_setValue (num r) d) = Fin r"
    using DurF assms(1) dur_set_get(3) [of d r] hours_part_exact [OF v(4)] by (simp add: widget_ok_def)
  then show ?thesis using DurF v(1) by (simp add: isNumber_def field_option_def deluge_number_num)
qed (use assms in \<open>auto simp: field_option_def isNumber_def checkbox_set_def js_or_def isEmpty_def loose_eq_def\<close>)

lemma default_ok:
  "list_all (\<lambda>(n, f). case js_get (tw_defaults tracker_window_new) n of
      Bool _ \<Rightarrow> getXType f = Checkbox | Str _ \<Rightarrow> getXType f = Textfield
    | Num (Fin q) \<Rightarrow> isNumber (getXType f) \<and> (q = 0 \<or> q = -1 \<and> getXType f = Spinnerfield) | _ \<Rightarrow> False) (tw_fields tracker_window_new)"
  by code_simp

text \<open>The setting an entry stands for: what it stores, or the default where it stores nothing.\<close>

definition setting_of :: "jsval dict \<Rightarrow> jsval dict \<Rightarrow> string \<Rightarrow> jsval" where
  "setting_of entry dflts name =
     (if js_get entry name = Undefined \<or> js_get entry name = Null then js_get dflts name else js_get entry name)"

lemma default_shows:
  assumes "form_ok w" "(n, f) \<in> set (tw_fields w)"
  shows "shows_exactly f (js_get (tw_defaults w) n)"
proof -
  have r: "list_all2 (\<lambda>(n, f) (m, g). n = m \<and> same_widget f g) (tw_fields w) (tw_fields tracker_window_new)"
    and d: "tw_defaults w = tw_defaults tracker_window_new"
    using assms(1) by (simp_all add: form_ok_def)
  obtain g where g: "(n, g) \<in> set (tw_fields tracker_window_new)" "same_widget f g"
    using same_field [OF r assms(2)] by blast
  have q: "q * 10 ^ p \<in> \<int>" if "q = 0 \<or> q = -1" for q :: rat and p :: nat using that by auto
  have "case js_get (tw_defaults tracker_window_new) n of
      Bool _ \<Rightarrow> getXType g = Checkbox | Str _ \<Rightarrow> getXType g = Textfield
    | Num (Fin q) \<Rightarrow> isNumber (getXType g) \<and> (q = 0 \<or> q = -1 \<and> getXType g = Spinnerfield) | _ \<Rightarrow> False"
    using default_ok g(1) unfolding list_all_iff by auto
  moreover have "getXType g = getXType f" using same_widget_equiv(3) [OF g(2)] by simp
  ultimately show ?thesis unfolding d
    by (cases f) (auto simp: isNumber_def maxHours_def q split: jsval.splits jsnum.splits)
qed

lemma options_after_setOptions:
  assumes "form_ok w" "map_of (tw_fields w) n = Some f"
    "js_get entry n \<noteq> Undefined \<Longrightarrow> js_get entry n \<noteq> Null \<Longrightarrow> shows_exactly f (js_get entry n)"
  shows "js_get (form_options (setOptions now entry w)) n = setting_of entry (tw_defaults w) n"
proof -
  let ?v = "setting_of entry (tw_defaults w) n"
  have i: "(n, f) \<in> set (tw_fields w)" using assms(2) by (rule map_of_SomeD)
  have v: "shows_exactly f ?v" using assms(3) default_shows [OF assms(1) i] by (auto simp: setting_of_def)
  have "set_field entry (tw_defaults w) n f =
      field_set (if isNumber (getXType f) then Num (deluge_number ?v (fallback_num (js_get (tw_defaults w) n))) else ?v) f"
    using v by (cases f) (auto simp: set_field_def setting_of_def Let_def isNumber_def)
  moreover have "getXType (set_field entry (tw_defaults w) n f) = getXType f"
    by (rule same_widget_equiv(3) [OF same_widget_set_field])
  ultimately show ?thesis
    using assms(2) field_roundtrip [OF form_ok_fields(3) [OF assms(1) i] v]
    by (simp add: form_options_get setOptions_fields)
qed

text \<open>A delay the form asks for is one the daemon takes.\<close>

lemma options_hours:
  assumes "form_ok w" "map_of (tw_fields w) n = Some (DurF d)"
  shows "\<exists>q. js_get (form_options w) n = num q \<and> option_hours (form_options w) n = q \<and> 0 \<le> q \<and> q \<le> maxHours"
proof -
  have i: "(n, DurF d) \<in> set (tw_fields w)" using assms(2) by (rule map_of_SomeD)
  then have "dur_ok d" using form_ok_fields(3) [OF assms(1) i] by (simp add: widget_ok_def)
  moreover obtain q0 where q0: "js_get (tw_defaults w) n = num q0" "0 \<le> q0" "q0 \<le> maxHours"
    using default_shows [OF assms(1) i] by auto
  moreover have o: "js_get (form_options w) n = Num (deluge_number (Num (dur_getValue d)) q0)"
    using assms(2) q0(1) by (simp add: form_options_get field_option_def isNumber_def fallback_num_def)
  moreover have "\<exists>q. deluge_number (Num (dur_getValue d)) q0 = Fin q \<and> 0 \<le> q \<and> q \<le> maxHours"
  proof (rule dur_total_cases [OF \<open>dur_ok d\<close>])
    assume "dur_getValue d = NaN"
    then show ?thesis using q0 by (simp add: deluge_number_def)
  next
    fix q
    assume "dur_getValue d = Fin q" "0 \<le> q" "q \<le> maxHours"
    then show ?thesis by (simp add: deluge_number_num)
  qed
  ultimately show ?thesis by (auto simp: option_hours_def fallback_num_def)
qed

end
