(* ===== verification/TrackerSweep.thy ===== *)
theory TrackerSweep
  imports TrackerSettings
begin

text \<open>
  What the daemon does with a tracker's rules (\<open>features/tracker.rs\<close>, \<open>features/mod.rs\<close>), and the laws of
  the window that sets them: what it shows, what it writes, and how far its preview of the sweep is true.
  Times and delays are exact numbers; limits, the disk's free space and the torrents of other trackers are
  not modelled.
\<close>

section \<open>A tracker's options\<close>

record rule_options =
  o_auto_remove :: bool
  o_remove_after_hours :: rat
  o_remove_data :: bool
  o_auto_move :: bool
  o_move_path :: string
  o_move_after_hours :: rat
  o_auto_label :: bool
  o_label :: string
  o_label_on_add :: bool
  o_label_when_done :: bool
  o_label_after_hours :: rat

definition rule_options_default :: rule_options where
  "rule_options_default =
     \<lparr>o_auto_remove = False, o_remove_after_hours = 0, o_remove_data = False, o_auto_move = False, o_move_path = [],
      o_move_after_hours = 0, o_auto_label = False, o_label = [], o_label_on_add = True, o_label_when_done = False,
      o_label_after_hours = 0\<rparr>"

text \<open>What an entry of the configuration says, where each setting it has is of its type.\<close>

definition entry_options :: "jsval dict \<Rightarrow> rule_options" where
  "entry_options e =
     (let flag = (\<lambda>k dflt. case js_get e k of Bool b \<Rightarrow> b | _ \<Rightarrow> dflt);
          number = (\<lambda>k. case js_get e k of Num (Fin q) \<Rightarrow> q | _ \<Rightarrow> 0);
          words = (\<lambda>k. case js_get e k of Str s \<Rightarrow> s | _ \<Rightarrow> [])
      in \<lparr>o_auto_remove = flag ''auto_remove'' False, o_remove_after_hours = number ''remove_after_hours'',
          o_remove_data = flag ''remove_data'' False, o_auto_move = flag ''auto_move'' False,
          o_move_path = words ''move_path'', o_move_after_hours = number ''move_after_hours'',
          o_auto_label = flag ''auto_label'' False, o_label = words ''label'', o_label_on_add = flag ''label_on_add'' True,
          o_label_when_done = flag ''label_when_done'' False, o_label_after_hours = number ''label_after_hours''\<rparr>)"

definition MAX_HOURS :: rat where
  "MAX_HOURS = 87600"

definition clamp_hours :: "rat \<Rightarrow> rat" where
  "clamp_hours v = min (max v 0) MAX_HOURS"

text \<open>Rust's \<open>trim\<close> takes one character more for a space than JavaScript's does.\<close>

definition rust_space :: "char \<Rightarrow> bool" where
  "rust_space c \<longleftrightarrow> is_space c \<or> c = CHR 0x85"

definition rust_trim :: "string \<Rightarrow> string" where
  "rust_trim s = rev (dropWhile rust_space (rev (dropWhile rust_space s)))"

definition sane :: "rule_options \<Rightarrow> rule_options" where
  "sane o1 =
     o1\<lparr>o_remove_after_hours := clamp_hours (o_remove_after_hours o1), o_move_path := rust_trim (o_move_path o1),
        o_move_after_hours := clamp_hours (o_move_after_hours o1), o_label := rust_trim (o_label o1),
        o_label_after_hours := clamp_hours (o_label_after_hours o1)\<rparr>"

definition removes :: "rule_options \<Rightarrow> bool" where
  "removes o1 \<longleftrightarrow> o_auto_remove o1"

definition moves :: "rule_options \<Rightarrow> bool" where
  "moves o1 \<longleftrightarrow> o_auto_move o1 \<and> rust_trim (o_move_path o1) \<noteq> []"

definition labels :: "rule_options \<Rightarrow> bool" where
  "labels o1 \<longleftrightarrow> o_auto_label o1 \<and> rust_trim (o_label o1) \<noteq> []"

section \<open>The sweep\<close>

record dtorrent =
  dt_finished :: bool
  dt_moving :: bool
  dt_completed :: int
  dt_added :: int
  dt_wanted :: int
  dt_path :: string
  dt_label :: string

definition HOUR :: rat where
  "HOUR = 3600"

definition due :: "rat \<Rightarrow> rat \<Rightarrow> rat \<Rightarrow> bool" where
  "due completed_at now hs \<longleftrightarrow> 0 < completed_at \<and> hs * HOUR \<le> now - completed_at"

definition finished_at :: "int \<Rightarrow> int \<Rightarrow> bool \<Rightarrow> rat" where
  "finished_at completed_time added_time destructive =
     (if 0 < completed_time then of_int completed_time
      else if destructive \<or> added_time \<le> 0 then 0
      else of_int added_time)"

text \<open>The characters \<open>is_ascii_alphanumeric\<close> and \<open>matches!\<close> let through.\<close>

definition label_char :: "char \<Rightarrow> bool" where
  "label_char c \<longleftrightarrow>
     is_digit c \<or> (CHR ''a'' \<le> c \<and> c \<le> CHR ''z'') \<or> (CHR ''A'' \<le> c \<and> c \<le> CHR ''Z'') \<or>
     c = CHR ''_'' \<or> c = CHR ''-'' \<or> c = CHR ''.''"

definition normalise_label :: "string \<Rightarrow> string" where
  "normalise_label raw = filter label_char (to_lower (rust_trim raw))"

text \<open>\<open>labels.never_removes(label)\<close>: the labels that somebody marked so.\<close>

definition never_removes :: "string list \<Rightarrow> string \<Rightarrow> bool" where
  "never_removes marked label \<longleftrightarrow> label \<in> set marked"

definition wants_label :: "rule_options \<Rightarrow> rat \<Rightarrow> dtorrent \<Rightarrow> string option" where
  "wants_label o1 now t =
     (if labels o1 then
        (let wanted = normalise_label (o_label o1);
             on_arrival = o_label_on_add o1 \<and> dt_label t = [];
             on_completion = o_label_when_done o1 \<and> dt_finished t \<and>
               due (finished_at (dt_completed t) (dt_added t) False) now (o_label_after_hours o1)
         in if (on_arrival \<or> on_completion) \<and> dt_label t \<noteq> wanted \<and> wanted \<noteq> [] then Some wanted else None)
      else None)"

definition starts_move :: "rule_options \<Rightarrow> rat \<Rightarrow> dtorrent \<Rightarrow> bool" where
  "starts_move o1 now t \<longleftrightarrow>
     moves o1 \<and> dt_finished t \<and> \<not> dt_moving t \<and>
     due (finished_at (dt_completed t) (dt_added t) False) now (o_move_after_hours o1) \<and>
     strip_slashes (dt_path t) \<noteq> strip_slashes (o_move_path o1)"

text \<open>\<open>Some with_data\<close>: the torrent is removed.\<close>

definition decide_removal :: "rule_options \<Rightarrow> string list \<Rightarrow> rat \<Rightarrow> dtorrent \<Rightarrow> bool option" where
  "decide_removal o1 marked now t =
     (let moving = dt_moving t \<or> starts_move o1 now t
      in if removes o1 \<and> dt_finished t \<and> \<not> moving \<and>
            due (finished_at (dt_completed t) (dt_added t) True) now (o_remove_after_hours o1)
         then (if never_removes marked (dt_label t) then None else Some (o_remove_data o1))
         else None)"

text \<open>What \<open>core.get_torrents_status\<close> says of a torrent, of the keys the window asks for.\<close>

definition status_of :: "dtorrent \<Rightarrow> jsval dict" where
  "status_of t =
     [(''is_finished'', Bool (dt_finished t)), (''completed_time'', num (of_int (dt_completed t))),
      (''time_added'', num (of_int (dt_added t))), (''total_wanted'', num (of_int (dt_wanted t))),
      (''save_path'', Str (dt_path t)), (''label'', Str (dt_label t))]"

section \<open>The form's options, as the daemon reads them\<close>

lemma status_get:
  "js_get (status_of t) ''is_finished'' = Bool (dt_finished t)"
  "number_or_0 (js_get (status_of t) ''completed_time'') = of_int (dt_completed t)"
  "number_or_0 (js_get (status_of t) ''time_added'') = of_int (dt_added t)"
  "number_or_0 (js_get (status_of t) ''total_wanted'') = of_int (dt_wanted t)"
  "js_string (js_or (js_get (status_of t) ''save_path'') (Str [])) = dt_path t"
  "js_string (js_or (js_get (status_of t) ''label'') (Str [])) = dt_label t"
  by (simp_all add: status_of_def js_get_def number_or_0_def js_or_def)

lemma finishedAt_status:
  "(if finishedAt (status_of t) d \<le> 0 then 0 else finishedAt (status_of t) d) = finished_at (dt_completed t) (dt_added t) d"
  by (simp add: finishedAt_def finished_at_def status_get Let_def)

lemma finishedAt_pos: "0 < finishedAt (status_of t) d \<longleftrightarrow> 0 < finished_at (dt_completed t) (dt_added t) d"
  "0 < finishedAt (status_of t) d \<Longrightarrow> finishedAt (status_of t) d = finished_at (dt_completed t) (dt_added t) d"
  using finishedAt_status [of t d] by (auto split: if_splits)

lemma due_iff: "due c now hs \<longleftrightarrow> 0 < c \<and> c + hs * 3600 \<le> now"
  by (auto simp: due_def HOUR_def)

text \<open>The widget behind each setting.\<close>

lemma new_form:
  "list_all (\<lambda>(n, x). map_option getXType (map_of (tw_fields tracker_window_new) n) = Some x)
     [(''auto_remove'', Checkbox), (''remove_data'', Checkbox), (''auto_move'', Checkbox), (''auto_label'', Checkbox),
      (''label_on_add'', Checkbox), (''label_when_done'', Checkbox), (''move_path'', Textfield), (''label'', Textfield),
      (''remove_after_hours'', Durationfield), (''move_after_hours'', Durationfield), (''label_after_hours'', Durationfield)]"
  by code_simp

lemma form_widget:
  assumes "form_ok w" "map_option getXType (map_of (tw_fields tracker_window_new) n) = Some x"
  shows "\<exists>f. map_of (tw_fields w) n = Some f \<and> getXType f = x"
proof -
  have r: "list_all2 (\<lambda>(n, f) (m, g). n = m \<and> same_widget f g) (tw_fields w) (tw_fields tracker_window_new)"
    using assms(1) by (simp add: form_ok_def)
  have "rel_option same_widget (map_of xs n) (map_of ys n)"
    if "list_all2 (\<lambda>(n, f) (m, g). n = m \<and> same_widget f g) xs ys" for xs ys
    using that by (induction rule: list_all2_induct) auto
  from this [OF r] show ?thesis using assms(2) same_widget_equiv(3) by (auto simp: option_rel_Some2)
qed

lemma form_flag:
  assumes "form_ok w" "map_option getXType (map_of (tw_fields tracker_window_new) n) = Some Checkbox"
  shows "\<exists>b. js_get (form_options w) n = Bool b"
  using form_widget [OF assms] by (auto simp: form_options_get field_option_def)

lemma form_words:
  assumes "form_ok w" "map_option getXType (map_of (tw_fields tracker_window_new) n) = Some Textfield"
  shows "\<exists>s. js_get (form_options w) n = Str s"
proof -
  obtain f where "map_of (tw_fields w) n = Some f" "getXType f = Textfield" using form_widget [OF assms] by blast
  then show ?thesis by (cases f) (auto simp: form_options_get field_option_def isNumber_def js_or_def)
qed

lemma form_hours:
  assumes "form_ok w" "map_option getXType (map_of (tw_fields tracker_window_new) n) = Some Durationfield"
  shows "\<exists>q. js_get (form_options w) n = num q \<and> option_hours (form_options w) n = q \<and> clamp_hours q = q"
proof -
  obtain f where f: "map_of (tw_fields w) n = Some f" "getXType f = Durationfield" using form_widget [OF assms] by blast
  then obtain d where "f = DurF d" by (cases f) auto
  then show ?thesis using options_hours [OF assms(1)] f(1) by (fastforce simp: clamp_hours_def MAX_HOURS_def maxHours_def)
qed

text \<open>A form's options read by the daemon: the same flags, texts less the spaces around them, and delays.\<close>

lemma options_read:
  assumes "form_ok w"
  defines "opts \<equiv> form_options w" and "rules \<equiv> sane (entry_options (form_options w))"
  shows "o_auto_remove rules = truthy (js_get opts ''auto_remove'')" "o_remove_data rules = truthy (js_get opts ''remove_data'')"
    "o_auto_move rules = truthy (js_get opts ''auto_move'')" "o_auto_label rules = truthy (js_get opts ''auto_label'')"
    "o_label_on_add rules = truthy (js_get opts ''label_on_add'')"
    "o_label_when_done rules = truthy (js_get opts ''label_when_done'')"
    "o_move_path rules = rust_trim (js_string (js_get opts ''move_path''))"
    "o_label rules = rust_trim (js_string (js_get opts ''label''))"
    "o_remove_after_hours rules = option_hours opts ''remove_after_hours''"
    "o_move_after_hours rules = option_hours opts ''move_after_hours''"
proof -
  note n = new_form [unfolded list.pred_inject prod.case]
  show "o_auto_remove rules = truthy (js_get opts ''auto_remove'')" "o_remove_data rules = truthy (js_get opts ''remove_data'')"
    "o_auto_move rules = truthy (js_get opts ''auto_move'')" "o_auto_label rules = truthy (js_get opts ''auto_label'')"
    "o_label_on_add rules = truthy (js_get opts ''label_on_add'')"
    "o_label_when_done rules = truthy (js_get opts ''label_when_done'')"
    using form_flag [OF assms(1), of "''auto_remove''"] form_flag [OF assms(1), of "''remove_data''"]
      form_flag [OF assms(1), of "''auto_move''"] form_flag [OF assms(1), of "''auto_label''"]
      form_flag [OF assms(1), of "''label_on_add''"] form_flag [OF assms(1), of "''label_when_done''"] n
    by (auto simp: rules_def opts_def sane_def entry_options_def Let_def)
  show "o_move_path rules = rust_trim (js_string (js_get opts ''move_path''))"
    "o_label rules = rust_trim (js_string (js_get opts ''label''))"
    using form_words [OF assms(1), of "''move_path''"] form_words [OF assms(1), of "''label''"] n
    by (auto simp: rules_def opts_def sane_def entry_options_def Let_def)
  show "o_remove_after_hours rules = option_hours opts ''remove_after_hours''"
    "o_move_after_hours rules = option_hours opts ''move_after_hours''"
    using form_hours [OF assms(1), of "''remove_after_hours''"] form_hours [OF assms(1), of "''move_after_hours''"] n
    by (auto simp: rules_def opts_def sane_def entry_options_def Let_def)
qed

section \<open>The figures of the preview\<close>

definition rules_of :: "tracker_window \<Rightarrow> rule_options" where
  "rules_of w = sane (entry_options (form_options w))"

lemma finished_status:
  "filter (\<lambda>t. truthy (js_get t ''is_finished'')) (map status_of ts) = map status_of (filter dt_finished ts)"
  by (induction ts) (simp_all add: status_get)

definition removable :: "string list \<Rightarrow> dtorrent \<Rightarrow> bool" where
  "removable marked t \<longleftrightarrow> dt_label t \<notin> set marked \<and> 0 < finished_at (dt_completed t) (dt_added t) True"

text \<open>A label the window does not mistake for one that is kept.\<close>

definition plain_label :: "dtorrent \<Rightarrow> bool" where
  "plain_label t \<longleftrightarrow> dt_label t \<notin> set Object_prototype"

definition removal_due :: "jsval dict \<Rightarrow> dtorrent \<Rightarrow> rat" where
  "removal_due opts t = finished_at (dt_completed t) (dt_added t) True + option_hours opts ''remove_after_hours'' * 3600"

lemma removal_fold:
  "fold (removal_step marked opts) (map status_of ts) (ds, f, k) =
     (ds @ map (removal_due opts) (filter (\<lambda>t. plain_label t \<and> removable marked t) ts),
      f + (\<Sum>t \<leftarrow> filter (\<lambda>t. plain_label t \<and> removable marked t) ts. of_int (dt_wanted t)),
      k + length (filter (\<lambda>t. dt_label t \<in> set marked \<or> \<not> plain_label t) ts))"
proof (induction ts arbitrary: ds f k)
  case (Cons t ts)
  have "removal_step marked opts (status_of t) (ds, f, k) =
     (if dt_label t \<in> set marked \<or> \<not> plain_label t then (ds, f, Suc k)
      else if removable marked t then (ds @ [removal_due opts t], f + of_int (dt_wanted t), k) else (ds, f, k))"
    using finishedAt_pos [of t True]
    by (auto simp: removal_step_def isProtected_def status_get Let_def removable_def removal_due_def not_le plain_label_def)
  then show ?case using Cons by (auto simp: removable_def)
qed simp

lemma removal_figures_status:
  "removal_figures marked (map status_of ts) opts =
     (map (removal_due opts) (filter (\<lambda>t. plain_label t \<and> removable marked t) ts),
      (\<Sum>t \<leftarrow> filter (\<lambda>t. plain_label t \<and> removable marked t) ts. of_int (dt_wanted t)),
      length (filter (\<lambda>t. dt_label t \<in> set marked \<or> \<not> plain_label t) ts))"
  unfolding removal_figures_def removal_fold by simp

text \<open>What the rule for removing would do by itself, with no torrent on the move and no rule that moves.\<close>

definition alone_removes :: "rule_options \<Rightarrow> string list \<Rightarrow> rat \<Rightarrow> dtorrent \<Rightarrow> bool" where
  "alone_removes o1 marked now t \<longleftrightarrow>
     decide_removal (o1\<lparr>o_auto_move := False\<rparr>) marked now (t\<lparr>dt_moving := False\<rparr>) \<noteq> None"

lemma alone_removes_iff:
  assumes "form_ok w" "truthy (js_get (form_options w) ''auto_remove'')"
  shows "alone_removes (rules_of w) marked now t \<longleftrightarrow>
    dt_finished t \<and> removable marked t \<and> removal_due (form_options w) t \<le> now"
  using options_read(1,9) [OF assms(1)] assms(2)
  by (auto simp: alone_removes_def decide_removal_def Let_def starts_move_def moves_def removes_def due_iff removable_def
    removal_due_def never_removes_def rules_of_def)

lemma decide_alone:
  "decide_removal o1 marked now t \<noteq> None \<longleftrightarrow>
     alone_removes o1 marked now t \<and> \<not> dt_moving t \<and> \<not> starts_move o1 now t"
  by (auto simp: alone_removes_def decide_removal_def Let_def starts_move_def [of "o1\<lparr>o_auto_move := False\<rparr>"] moves_def
    removes_def)

lemma hd_sort_le:
  fixes xs :: "rat list"
  assumes "xs \<noteq> []"
  shows "hd (sort xs) \<le> a \<longleftrightarrow> (\<exists>x \<in> set xs. x \<le> a)"
proof -
  obtain y ys where s: "sort xs = y # ys" using assms by (cases "sort xs") (auto dest: arg_cong [where f = length])
  have "sorted (y # ys)" unfolding s [symmetric] by simp
  moreover have "set xs = set (y # ys)" unfolding s [symmetric] by simp
  ultimately show ?thesis using order_trans by (auto simp: s)
qed

text \<open>The loop of \<open>describeMove\<close>, and of \<open>describeLabel\<close>.\<close>

definition movable :: "string \<Rightarrow> dtorrent \<Rightarrow> bool" where
  "movable path t \<longleftrightarrow> strip_slashes (dt_path t) \<noteq> strip_slashes path \<and> 0 < finished_at (dt_completed t) (dt_added t) False"

definition move_at :: "jsval dict \<Rightarrow> dtorrent \<Rightarrow> rat" where
  "move_at opts t = finished_at (dt_completed t) (dt_added t) False + option_hours opts ''move_after_hours'' * 3600"

lemma move_fold:
  "fold (move_step opts) (map status_of ts) ds =
     ds @ map (move_at opts) (filter (movable (js_string (js_get opts ''move_path''))) ts)"
proof (induction ts arbitrary: ds)
  case (Cons t ts)
  have "move_step opts (status_of t) ds =
     (if movable (js_string (js_get opts ''move_path'')) t then ds @ [move_at opts t] else ds)"
    using finishedAt_pos [of t False]
    by (auto simp: move_step_def status_get Let_def movable_def move_at_def not_le)
  then show ?case using Cons by auto
qed simp

definition labelled :: "string \<Rightarrow> bool \<Rightarrow> bool \<Rightarrow> dtorrent \<Rightarrow> bool" where
  "labelled wanted on_add when_done t \<longleftrightarrow>
     dt_label t \<noteq> wanted \<and> (on_add \<and> dt_label t = [] \<or> when_done \<and> dt_finished t)"

lemma label_fold:
  "(case fold (label_step wanted opts) (map status_of ts) (a, c) of (a', c') \<Rightarrow> a' + c') =
     a + c + length (filter (labelled wanted (truthy (js_get opts ''label_on_add'')) (truthy (js_get opts ''label_when_done''))) ts)"
proof (induction ts arbitrary: a c)
  case (Cons t ts)
  show ?case unfolding fold_simps list.map
    by (auto simp: Cons label_step_def status_get Let_def labelled_def)
qed simp

section \<open>The preview and the sweep\<close>

text \<open>C21: What the window says would be removed is what the rule by itself would remove, of the torrents
  whose label is not a name that every object of the browser has: at every moment the rule would take as
  many as there are due times behind it, the first of them at the time the window names, as many in all
  and as many bytes as it says; those it says a label keeps are the finished ones the daemon spares and
  the finished ones with such a name.  The sweep takes of a tracker's torrents those the rule would take
  by itself, except the ones that are on the move or that it starts to move in the same pass, of which
  the window's figures know nothing.\<close>

lemma preview_foresees_removal:
  assumes "tw_reachable w" "truthy (js_get (form_options w) ''auto_remove'')"
    and figures: "removal_figures marked (filter (\<lambda>t. truthy (js_get t ''is_finished'')) (map status_of ts)) (form_options w) =
      (dues, freed, kept)"
  defines "takes \<equiv> \<lambda>T t. plain_label t \<and> alone_removes (rules_of w) marked T t"
  shows "length (filter (\<lambda>d. d \<le> now) dues) = length (filter (takes now) ts) \<and>
    (dues \<noteq> [] \<longrightarrow> (hd (sort dues) \<le> now \<longleftrightarrow> (\<exists>t \<in> set ts. takes now t))) \<and>
    length dues = length (filter (\<lambda>t. \<exists>T. takes T t) ts) \<and>
    freed = (\<Sum>t \<leftarrow> filter (\<lambda>t. \<exists>T. takes T t) ts. of_int (dt_wanted t)) \<and>
    kept = length (filter (\<lambda>t. dt_finished t \<and> (never_removes marked (dt_label t) \<or> \<not> plain_label t)) ts) \<and>
    (\<forall>t \<in> set ts. decide_removal (rules_of w) marked now t \<noteq> None \<longleftrightarrow>
       alone_removes (rules_of w) marked now t \<and> \<not> dt_moving t \<and> \<not> starts_move (rules_of w) now t)"
proof (intro conjI impI ballI)
  let ?opts = "form_options w" let ?gone = "\<lambda>t. plain_label t \<and> removable marked t"
  have ok: "form_ok w" using assms(1) by (rule form_ok_reachable)
  have f: "dues = map (removal_due ?opts) (filter ?gone (filter dt_finished ts))"
    "freed = (\<Sum>t \<leftarrow> filter ?gone (filter dt_finished ts). of_int (dt_wanted t))"
    "kept = length (filter (\<lambda>t. dt_label t \<in> set marked \<or> \<not> plain_label t) (filter dt_finished ts))"
    using figures by (simp_all add: finished_status removal_figures_status)
  have now: "takes T = (\<lambda>t. dt_finished t \<and> ?gone t \<and> removal_due ?opts t \<le> T)" for T
    using alone_removes_iff [OF ok assms(2)] by (auto simp: takes_def fun_eq_iff)
  have ever: "(\<lambda>t. \<exists>T. takes T t) = (\<lambda>t. dt_finished t \<and> ?gone t)" unfolding now by auto
  show "length (filter (\<lambda>d. d \<le> now) dues) = length (filter (takes now) ts)"
    unfolding now f by (simp add: filter_map o_def conj_ac)
  show "length dues = length (filter (\<lambda>t. \<exists>T. takes T t) ts)"
    "freed = (\<Sum>t \<leftarrow> filter (\<lambda>t. \<exists>T. takes T t) ts. of_int (dt_wanted t))"
    unfolding ever f by (simp_all add: conj_ac)
  show "kept = length (filter (\<lambda>t. dt_finished t \<and> (never_removes marked (dt_label t) \<or> \<not> plain_label t)) ts)"
    by (simp add: f never_removes_def conj_ac)
  show "hd (sort dues) \<le> now \<longleftrightarrow> (\<exists>t \<in> set ts. takes now t)" if "dues \<noteq> []"
    unfolding hd_sort_le [OF that] now by (auto simp: f)
  show "decide_removal (rules_of w) marked now t \<noteq> None \<longleftrightarrow>
      alone_removes (rules_of w) marked now t \<and> \<not> dt_moving t \<and> \<not> starts_move (rules_of w) now t" for t
    by (rule decide_alone)
qed

text \<open>What the window says would be moved is what the daemon moves, at every moment, when the path has
  no spaces around it.\<close>

lemma preview_foresees_moves:
  assumes "tw_reachable w" "truthy (js_get (form_options w) ''auto_move'')"
    "js_get (form_options w) ''move_path'' = Str path" "path \<noteq> []" "rust_trim path = path"
    "list_all (\<lambda>t. \<not> dt_moving t) ts"
  shows "length (filter (\<lambda>d. d \<le> now) (move_due (filter (\<lambda>t. truthy (js_get t ''is_finished'')) (map status_of ts)) (form_options w))) =
    length (filter (starts_move (rules_of w) now) ts)"
proof -
  have ok: "form_ok w" using assms(1) by (rule form_ok_reachable)
  have "starts_move (rules_of w) now t \<longleftrightarrow> dt_finished t \<and> movable path t \<and> move_at (form_options w) t \<le> now" if "t \<in> set ts" for t
    using that options_read(3,7,10) [OF ok] assms(2-6)
    by (auto simp: starts_move_def moves_def rules_of_def due_iff movable_def move_at_def list_all_iff)
  then have "filter (starts_move (rules_of w) now) ts = filter (\<lambda>t. dt_finished t \<and> movable path t \<and> move_at (form_options w) t \<le> now) ts"
    by (simp cong: filter_cong)
  then show ?thesis using assms(3) by (simp add: move_due_def finished_status move_fold filter_map o_def conj_ac status_get)
qed

text \<open>The label rule reaches as many torrents as the window says, once their delays are up, when the label
  is made of characters the daemon keeps.\<close>

lemma preview_foresees_labels:
  assumes "tw_reachable w" "truthy (js_get (form_options w) ''auto_label'')" "js_get (form_options w) ''label'' = Str name"
    "normalise_label (rust_trim name) = to_lower (trim name)" "to_lower (trim name) \<noteq> []" "list_all (\<lambda>t. 0 < dt_added t) ts"
  shows "\<exists>T0. \<forall>now \<ge> T0. (case label_figures (map status_of ts) (form_options w) of (onArrival, onCompletion) \<Rightarrow> onArrival + onCompletion) =
    length (filter (\<lambda>t. wants_label (rules_of w) now t \<noteq> None) ts)"
proof -
  have ok: "form_ok w" using assms(1) by (rule form_ok_reachable)
  let ?r = "rules_of w" let ?opts = "form_options w"
  let ?d = "\<lambda>t. finished_at (dt_completed t) (dt_added t) False + o_label_after_hours ?r * 3600"
  have r: "o_auto_label ?r" "o_label ?r = rust_trim name" "o_label_on_add ?r = truthy (js_get ?opts ''label_on_add'')"
    "o_label_when_done ?r = truthy (js_get ?opts ''label_when_done'')"
    using options_read(4,5,6,8) [OF ok] assms(2,3) by (simp_all add: rules_of_def)
  have "rust_trim (rust_trim name) \<noteq> []"
  proof
    assume "rust_trim (rust_trim name) = []"
    then have "normalise_label (rust_trim name) = []" by (simp add: normalise_label_def to_lower_def)
    then show False using assms(4,5) by simp
  qed
  then have l: "labels ?r" using r by (simp add: labels_def)
  obtain T0 where T0: "\<forall>t \<in> set ts. ?d t \<le> T0"
  proof
    show "\<forall>t \<in> set ts. ?d t \<le> Max (insert 0 (?d ` set ts))" by simp
  qed
  have w: "wants_label ?r now t \<noteq> None \<longleftrightarrow>
      labelled (to_lower (trim name)) (truthy (js_get ?opts ''label_on_add'')) (truthy (js_get ?opts ''label_when_done'')) t"
    if "T0 \<le> now" "t \<in> set ts" for now t
  proof -
    have "due (finished_at (dt_completed t) (dt_added t) False) now (o_label_after_hours ?r)"
      using T0 that assms(6) by (auto simp: due_iff finished_at_def list_all_iff intro: order_trans)
    then show ?thesis using l r assms(4,5) by (simp add: wants_label_def Let_def labelled_def)
  qed
  have "(case label_figures (map status_of ts) ?opts of (onArrival, onCompletion) \<Rightarrow> onArrival + onCompletion) =
      length (filter (\<lambda>t. wants_label ?r now t \<noteq> None) ts)" if "T0 \<le> now" for now
  proof -
    have "filter (\<lambda>t. wants_label ?r now t \<noteq> None) ts =
        filter (labelled (to_lower (trim name)) (truthy (js_get ?opts ''label_on_add'')) (truthy (js_get ?opts ''label_when_done''))) ts"
      using w [OF that] by (simp cong: filter_cong)
    then show ?thesis using assms(3) by (simp add: label_figures_def label_fold)
  qed
  then show ?thesis by blast
qed

section \<open>What the window writes\<close>

text \<open>A tracker's entry that the form can show is what the form asks for again, with the daemon's defaults
  in place of what the entry leaves out; so opening the window and pressing OK changes nothing.\<close>

lemma opened_form_says_the_entry:
  assumes "tw_reachable w" "map_of (tw_fields w) name = Some f"
    "js_get entry name = Undefined \<or> js_get entry name = Null \<or> shows_exactly f (js_get entry name)"
  shows "js_get (form_options (setOptions now entry w)) name = setting_of entry (tw_defaults tracker_window_new) name"
proof -
  have ok: "form_ok w" using assms(1) by (rule form_ok_reachable)
  then have "tw_defaults w = tw_defaults tracker_window_new" by (simp add: form_ok_def)
  then show ?thesis using options_after_setOptions [OF ok assms(2)] assms(3) by auto
qed

lemma ok_sends:
  assumes "form_ok w" "tw_host w = Some host" "host \<noteq> []"
    and parsed: "wf_dict (trackersOf config)" "wf_dict (object_or_empty (js_get (trackersOf config) host))"
  shows "\<exists>sent. tw_sent (tw_answer now (length (tw_asks w)) (Some config) (onOk w)) = tw_sent w @ [sent] \<and>
      \<not> tw_visible (tw_answer now (length (tw_asks w)) (Some config) (onOk w)) \<and>
      (\<forall>h. h \<noteq> host \<longrightarrow> js_get sent h = js_get (trackersOf config) h) \<and>
      (\<forall>k. js_get (object_or_empty (js_get sent host)) k =
         (if k \<in> fst ` set (tw_fields w) then js_get (form_options w) k
          else js_get (object_or_empty (js_get (trackersOf config) host)) k))"
proof -
  let ?old = "object_or_empty (js_get (trackersOf config) host)"
  let ?entry = "put_all (put_all [] ?old) (form_options w)"
  let ?sent = "AList.update host (Obj 0 ?entry) (put_all [] (trackersOf config))"
  have copy: "js_get (put_all [] d) k = js_get d k" if "wf_dict d" for d k
    using that by (simp add: js_get_def map_of_put_all map_add_def split: option.split)
  have keys: "keys_of (form_options w) = keys_of (tw_fields w)" by (simp add: form_options_def case_prod_unfold)
  have wf: "wf_dict (form_options w)" unfolding keys by (rule form_ok_fields(2) [OF assms(1)])
  have e: "js_get ?entry k = (if k \<in> fst ` set (tw_fields w) then js_get (form_options w) k else js_get ?old k)" for k
  proof -
    have "map_of (form_options w) k = None \<longleftrightarrow> k \<notin> fst ` set (tw_fields w)"
      using keys by (metis map_of_eq_None_iff list.set_map)
    then show ?thesis using copy [OF parsed(2)] wf
      by (auto simp: get_put_all js_get_def [of "form_options w"] split: option.split)
  qed
  have "tw_answer now (length (tw_asks w)) (Some config) (onOk w) = tw_hide (w\<lparr>tw_sent := tw_sent w @ [?sent]\<rparr>)"
    using assms(2,3) copy [OF parsed(1)] by (simp add: tw_answer_def onOk_def save_read_def merged_trackers_def)
  moreover have "js_get ?sent h = (if h = host then Obj 0 ?entry else js_get (trackersOf config) h)" for h
    by (simp add: get_update copy [OF parsed(1)])
  moreover have "object_or_empty (Obj 0 ?entry) = ?entry" by (simp add: object_or_empty_def)
  ultimately show ?thesis using e by (simp add: tw_hide_def)
qed

text \<open>OK reads the configuration, sends it back with this tracker's entry changed and closes the window:
  every other tracker keeps its entry, this one keeps the settings the form does not have, and the form's
  settings are what the form said when OK was pressed.\<close>

lemma ok_merges:
  assumes "tw_reachable w" "tw_host w = Some host" "host \<noteq> []"
    and parsed: "wf_dict (trackersOf config)" "wf_dict (object_or_empty (js_get (trackersOf config) host))"
  shows "\<exists>sent. tw_sent (tw_answer now (length (tw_asks w)) (Some config) (onOk w)) = tw_sent w @ [sent] \<and>
      \<not> tw_visible (tw_answer now (length (tw_asks w)) (Some config) (onOk w)) \<and>
      (\<forall>h. h \<noteq> host \<longrightarrow> js_get sent h = js_get (trackersOf config) h) \<and>
      (\<forall>k. js_get (object_or_empty (js_get sent host)) k =
         (if k \<in> fst ` set (tw_fields w) then js_get (form_options w) k
          else js_get (object_or_empty (js_get (trackersOf config) host)) k))"
  using assms by (intro ok_sends form_ok_reachable)

lemma default_off:
  "list_all (\<lambda>(n, f). getXType f = Checkbox \<longrightarrow> n \<noteq> ''label_on_add'' \<longrightarrow> js_get (tw_defaults tracker_window_new) n = Bool False)
     (tw_fields tracker_window_new)"
  by code_simp

text \<open>The form is blank until the configuration arrives, and OK does not wait for it: pressed before, or
  after a load that failed, it switches every rule the tracker had off, whatever the configuration says.\<close>

lemma ok_before_loaded_wipes:
  fixes now later :: rat and host :: string and w :: tracker_window
  assumes "tw_reachable w" "host \<noteq> []" "map_of (tw_fields w) k = Some (CheckF b)" "k \<noteq> ''label_on_add''"
    and parsed: "wf_dict (trackersOf config)" "wf_dict (object_or_empty (js_get (trackersOf config) host))"
  defines "opened \<equiv> tw_show now host w"
  shows "\<exists>sent. tw_sent (tw_answer later (length (tw_asks opened)) (Some config) (onOk opened)) = tw_sent w @ [sent] \<and>
    js_get (object_or_empty (js_get sent host)) k = Bool False"
proof -
  let ?w = "w\<lparr>tw_visible := True, tw_host := Some host, tw_torrents := None\<rparr>"
  have ok: "form_ok w" "form_ok opened" using assms(1) by (simp_all add: form_ok_reachable form_ok_show opened_def)
  then have okw: "form_ok ?w" by (simp add: form_ok_def)
  have d: "tw_defaults w = tw_defaults tracker_window_new" using ok(1) by (simp add: form_ok_def)
  have r: "list_all2 (\<lambda>(n, f) (m, g). n = m \<and> same_widget f g) (tw_fields w) (tw_fields tracker_window_new)"
    using ok(1) by (simp add: form_ok_def)
  obtain g where "(k, g) \<in> set (tw_fields tracker_window_new)" "same_widget (CheckF b) g"
    using same_field [OF r map_of_SomeD [OF assms(3)]] by blast
  then have off: "js_get (tw_defaults w) k = Bool False"
    using default_off same_widget_equiv(3) [of "CheckF b" g] assms(4) by (auto simp: list_all_iff d)
  have o: "form_options opened = form_options (setOptions now [] ?w)"
    by (simp add: opened_def tw_show_def Let_def form_options_def)
  have "js_get (form_options opened) k = Bool False"
    using options_after_setOptions [OF okw, of k "CheckF b" "[]" now] assms(3) off by (simp add: o setting_of_def)
  moreover have "k \<in> fst ` set (tw_fields opened)"
    using form_ok_fields(1) [OF ok(2)] form_ok_fields(1) [OF ok(1)] map_of_SomeD [OF assms(3)]
    by (metis fst_conv image_eqI image_set)
  moreover have "tw_host opened = Some host" "tw_sent opened = tw_sent w"
    by (simp_all add: opened_def tw_show_def Let_def setOptions_def onSwitched_def tw_frames)
  ultimately show ?thesis using ok_sends [OF ok(2) _ assms(2) parsed, of later] by metis
qed

section \<open>Switches\<close>

text \<open>What \<open>switch_group\<close> tells the fields of all groups.\<close>

definition told :: "tracker_window \<Rightarrow> field_group list \<Rightarrow> bool dict" where
  "told w gs = concat (map (\<lambda>g. map (\<lambda>(n, needs). (n, \<not> wanted_field w g needs)) (g_fields g)) gs)"

definition told_warnings :: "tracker_window \<Rightarrow> field_group list \<Rightarrow> bool dict" where
  "told_warnings w gs = concat (map (\<lambda>g. map (\<lambda>n. (n, strict_eq (field_get (tfield_of w (g_key g))) (Bool True) \<and>
     strict_eq (field_get (tfield_of w n)) (Bool True))) (g_warnings g)) gs)"

lemma wanted_field_cong: "tw_fields w' = tw_fields w \<Longrightarrow> wanted_field w' g needs = wanted_field w g needs"
  by (simp add: wanted_field_def tfield_of_def cong: option.case_cong)

lemma told_cong:
  assumes "tw_fields w' = tw_fields w"
  shows "told w' gs = told w gs" "told_warnings w' gs = told_warnings w gs"
  unfolding told_def told_warnings_def tfield_of_def wanted_field_cong [OF assms] assms by simp_all

lemma put_all_append: "put_all d (xs @ ys) = put_all (put_all d xs) ys"
  by (simp add: put_all_def)

lemma told_Cons:
  "told w (g # gs) = map (\<lambda>(n, needs). (n, \<not> wanted_field w g needs)) (g_fields g) @ told w gs"
  "told_warnings w (g # gs) = map (\<lambda>n. (n, strict_eq (field_get (tfield_of w (g_key g))) (Bool True) \<and>
     strict_eq (field_get (tfield_of w n)) (Bool True))) (g_warnings g) @ told_warnings w gs"
  by (simp_all add: told_def told_warnings_def)

lemma switch_groups_told:
  "tw_disabled (fold switch_group gs w) = put_all (tw_disabled w) (told w gs) \<and>
   tw_warned (fold switch_group gs w) = put_all (tw_warned w) (told_warnings w gs)"
proof (induction gs arbitrary: w)
  case (Cons g gs)
  have f: "fold (\<lambda>(n, needs). AList.update n (h needs)) xs d = put_all d (map (\<lambda>(n, needs). (n, h needs)) xs)"
    for h :: "string option \<Rightarrow> bool" and xs d by (induction xs arbitrary: d) auto
  have f': "fold (\<lambda>n. AList.update n (h n)) xs d = put_all d (map (\<lambda>n. (n, h n)) xs)"
    for h :: "string \<Rightarrow> bool" and xs d by (induction xs arbitrary: d) auto
  have "tw_disabled (switch_group g w) = put_all (tw_disabled w) (map (\<lambda>(n, needs). (n, \<not> wanted_field w g needs)) (g_fields g))"
    by (simp add: switch_group_def Let_def f)
  moreover have "tw_warned (switch_group g w) = put_all (tw_warned w) (map (\<lambda>n. (n, strict_eq (field_get (tfield_of w (g_key g))) (Bool True) \<and>
     strict_eq (field_get (tfield_of w n)) (Bool True))) (g_warnings g))"
    by (simp add: switch_group_def Let_def f')
  ultimately show "tw_disabled (fold switch_group (g # gs) w) = put_all (tw_disabled w) (told w (g # gs)) \<and>
    tw_warned (fold switch_group (g # gs) w) = put_all (tw_warned w) (told_warnings w (g # gs))"
    using Cons [of "switch_group g w"] told_cong [OF switch_group_frame(1), of g w gs]
    by (simp_all add: told_Cons put_all_append)
qed (simp_all add: told_def told_warnings_def)

definition switched :: "tracker_window \<Rightarrow> bool" where
  "switched w \<longleftrightarrow>
     (\<forall>g \<in> set (tw_groups w).
        (\<forall>(n, needs) \<in> set (g_fields g). map_of (tw_disabled w) n = Some (\<not> wanted_field w g needs)) \<and>
        (\<forall>n \<in> set (g_warnings g). map_of (tw_warned w) n =
           Some (field_get (tfield_of w (g_key g)) = Bool True \<and> field_get (tfield_of w n) = Bool True)))"

lemma new_groups:
  "distinct (concat (map (\<lambda>g. map fst (g_fields g)) (tw_groups tracker_window_new))) \<and>
   distinct (concat (map g_warnings (tw_groups tracker_window_new)))"
  by code_simp

lemma strict_eq_True: "strict_eq v (Bool True) \<longleftrightarrow> v = Bool True"
  by (cases v) auto

lemma switched_onSwitched:
  assumes "form_ok w"
  shows "switched (onSwitched now w)"
proof -
  have g: "tw_groups w = tw_groups tracker_window_new" using assms by (simp add: form_ok_def)
  let ?gs = "tw_groups w"
  have "map fst (told w ?gs) = concat (map (\<lambda>g. map fst (g_fields g)) ?gs)"
    by (simp add: told_def map_concat o_def case_prod_unfold)
  then have t: "wf_dict (told w ?gs)" using new_groups by (simp add: g)
  have "map fst (told_warnings w ?gs) = concat (map g_warnings ?gs)"
    by (simp add: told_warnings_def map_concat o_def)
  then have u: "wf_dict (told_warnings w ?gs)" using new_groups by (simp add: g)
  have m: "map_of (put_all d xs) n = Some b" if "wf_dict xs" "(n, b) \<in> set xs" for d xs and n :: string and b :: bool
    using that by (simp add: map_of_put_all)
  let ?w = "onSwitched now w"
  have w: "tw_fields ?w = tw_fields w" "tw_groups ?w = ?gs" "tw_disabled ?w = put_all (tw_disabled w) (told w ?gs)"
    "tw_warned ?w = put_all (tw_warned w) (told_warnings w ?gs)"
    by (simp_all add: onSwitched_def tw_frames switch_groups_told)
  have tf: "tfield_of ?w n = tfield_of w n" for n by (simp add: tfield_of_def w(1))
  show ?thesis unfolding switched_def w(2-4) wanted_field_cong [OF w(1)] tf
  proof (intro ballI conjI)
    fix g x
    assume "g \<in> set ?gs" "x \<in> set (g_fields g)"
    then have "(fst x, \<not> wanted_field w g (snd x)) \<in> set (told w ?gs)" by (force simp: told_def case_prod_unfold)
    then show "case x of (n, needs) \<Rightarrow> map_of (put_all (tw_disabled w) (told w ?gs)) n = Some (\<not> wanted_field w g needs)"
      using m [OF t] by (simp add: case_prod_unfold)
  next
    fix g n
    assume "g \<in> set ?gs" "n \<in> set (g_warnings g)"
    then have "(n, field_get (tfield_of w (g_key g)) = Bool True \<and> field_get (tfield_of w n) = Bool True) \<in> set (told_warnings w ?gs)"
      by (force simp: told_warnings_def strict_eq_True)
    then show "map_of (put_all (tw_warned w) (told_warnings w ?gs)) n =
        Some (field_get (tfield_of w (g_key g)) = Bool True \<and> field_get (tfield_of w n) = Bool True)"
      by (rule m [OF u])
  qed
qed

text \<open>The switches and what they need are check boxes, so no other field being changed matters to them.\<close>

lemma switches_are_boxes:
  "list_all (\<lambda>g. list_all (\<lambda>k. map_option getXType (map_of (tw_fields tracker_window_new) k) = Some Checkbox)
     (g_key g # g_warnings g @ concat (map (\<lambda>(n, needs). case needs of Some k \<Rightarrow> [k] | None \<Rightarrow> []) (g_fields g)))) (tw_groups tracker_window_new)"
  by code_simp

lemma switched_cong:
  assumes "switched w" "form_ok w" "tw_disabled w' = tw_disabled w" "tw_warned w' = tw_warned w" "tw_groups w' = tw_groups w"
    "\<And>n f. map_of (tw_fields w) n = Some f \<Longrightarrow> getXType f = Checkbox \<Longrightarrow> tfield_of w' n = tfield_of w n"
  shows "switched w'"
proof -
  have box: "tfield_of w' n = tfield_of w n" if "map_option getXType (map_of (tw_fields tracker_window_new) n) = Some Checkbox" for n
    using form_widget [OF assms(2) that] assms(6) by blast
  have same: "tfield_of w' (g_key g) = tfield_of w (g_key g)"
      "\<And>n. n \<in> set (g_warnings g) \<Longrightarrow> tfield_of w' n = tfield_of w n"
      "\<And>m n. (m, Some n) \<in> set (g_fields g) \<Longrightarrow> tfield_of w' n = tfield_of w n"
    if "g \<in> set (tw_groups w)" for g
  proof -
    have "g \<in> set (tw_groups tracker_window_new)" using that assms(2) by (simp add: form_ok_def)
    then have "map_option getXType (map_of (tw_fields tracker_window_new) k) = Some Checkbox"
      if "k \<in> set (g_key g # g_warnings g @ concat (map (\<lambda>(n, needs). case needs of Some k \<Rightarrow> [k] | None \<Rightarrow> []) (g_fields g)))" for k
      using switches_are_boxes that unfolding list_all_iff by blast
    note b = box [OF this]
    show "tfield_of w' (g_key g) = tfield_of w (g_key g)" by (rule b) simp
    show "tfield_of w' n = tfield_of w n" if "n \<in> set (g_warnings g)" for n by (rule b) (use that in simp)
    show "tfield_of w' n = tfield_of w n" if "(m, Some n) \<in> set (g_fields g)" for m n by (rule b) (use that in force)
  qed
  have "wanted_field w' g needs = wanted_field w g needs" if "g \<in> set (tw_groups w)" "(n, needs) \<in> set (g_fields g)" for g n needs
    using same [OF that(1)] that(2) by (cases needs) (simp_all add: wanted_field_def)
  then show ?thesis using assms(1) same unfolding switched_def assms(3-5) by fastforce
qed

lemma switched_same:
  assumes "switched w" "tw_disabled w' = tw_disabled w" "tw_warned w' = tw_warned w" "tw_groups w' = tw_groups w" "tw_fields w' = tw_fields w"
  shows "switched w'"
proof -
  have "tfield_of w' n = tfield_of w n" for n by (simp add: tfield_of_def assms(5))
  then show ?thesis using assms(1) by (simp add: switched_def assms(2-4) wanted_field_cong [OF assms(5)])
qed

lemma switched_setOptions:
  assumes "form_ok w"
  shows "switched (setOptions now opts w)"
proof -
  let ?w = "w\<lparr>tw_fields := map (\<lambda>(name, f). (name, set_field opts (tw_defaults w) name f)) (tw_fields w)\<rparr>"
  have "form_ok ?w" using form_ok_setOptions [OF assms, of now opts]
    unfolding form_ok_def by (simp only: setOptions_def onSwitched_def tw_frames)
  then show ?thesis unfolding setOptions_def by (rule switched_onSwitched)
qed

text \<open>Once the window has been opened, each rule's fields are enabled exactly while its switch is on (and the
  box they need is ticked), and the line that warns of deleting files is there exactly while files would be
  deleted: whatever is loaded, typed or ticked, in whatever order.\<close>

lemma fields_follow_switches:
  assumes "tw_reachable w" "tw_host w \<noteq> None"
  shows "switched w"
  using assms
proof (induction rule: tw_reachable.induct)
  case start
  have "tw_host tracker_window_new = None" by code_simp
  then show ?case using start by simp
next
  case (step w e now)
  note ok = form_ok_reachable [OF step.hyps(1)]
  show ?case
  proof (cases e)
    case (TwShow h)
    have "form_ok (w\<lparr>tw_visible := True, tw_host := Some h, tw_torrents := None\<rparr>)" using ok by (simp add: form_ok_def)
    from switched_setOptions [OF this] show ?thesis
      by (simp add: TwShow tw_show_def Let_def) (rule switched_same [of "setOptions now [] _"]; simp)
  next
    case (TwAnswer i r)
    let ?w = "w\<lparr>tw_asks := take i (tw_asks w) @ drop (Suc i) (tw_asks w)\<rparr>"
    have "tw_host (handle_ask now a r u) = tw_host u" for a u
      by (cases a; cases r) (simp_all add: config_loaded_def config_failed_def torrents_loaded_def torrents_failed_def labels_loaded_def
        labels_failed_def save_read_def complain_def tw_hide_def setOptions_def onSwitched_def tw_frames)
    then have sw: "switched w" using step.IH step.prems by (simp add: TwAnswer tw_answer_def split: if_splits)
    have okw: "form_ok ?w" using ok by (simp add: form_ok_def)
    have "switched ?w" by (rule switched_same [OF sw]) simp_all
    then have "switched (handle_ask now a r ?w)" for a
      using switched_setOptions [OF okw]
      by (cases a; cases r) (auto simp: config_loaded_def config_failed_def torrents_loaded_def torrents_failed_def labels_loaded_def
        labels_failed_def save_read_def complain_def tw_hide_def tw_frames elim: switched_same)
    then show ?thesis using sw by (simp add: TwAnswer tw_answer_def)
  next
    case (TwEnter n f)
    then obtain g where g: "map_of (tw_fields w) n = Some g" "same_widget f g"
      using step.hyps(2) by (auto simp: tw_possible_def split: option.splits)
    let ?w = "w\<lparr>tw_fields := AList.update n f (tw_fields w)\<rparr>"
    have sw: "switched w" using step.IH step.prems TwEnter
      by (simp add: enter_def Let_def onSwitched_def tw_frames split: if_splits)
    have okw: "form_ok ?w" using form_ok_enter [OF ok g, of now]
      by (simp add: enter_def Let_def onSwitched_def form_ok_def tw_frames split: if_splits)
    have "switched ?w" if "getXType f \<noteq> Checkbox"
    proof (rule switched_cong [OF sw ok])
      fix m h
      assume "map_of (tw_fields w) m = Some h" "getXType h = Checkbox"
      then have "m \<noteq> n" using g that same_widget_equiv(3) by auto
      then show "tfield_of ?w m = tfield_of w m" by (simp add: tfield_of_def AList.update_conv')
    qed simp_all
    then have "getXType f \<noteq> Checkbox \<Longrightarrow> switched (describe now ?w)" using switched_same [of ?w "describe now ?w"] by (simp add: tw_frames)
    then show ?thesis using switched_onSwitched [OF okw] by (simp add: TwEnter enter_def Let_def)
  next
    case TwOk
    then show ?thesis using step switched_same [of w "onOk w"] by (auto simp: onOk_def tw_hide_def split: option.splits if_splits)
  next
    case TwCancel
    then show ?thesis using step switched_same [of w "onCancel w"] by (simp add: onCancel_def tw_hide_def)
  qed
qed

section \<open>A tracker, its torrents and a window on them\<close>

definition demo_entry :: "jsval dict" where
  "demo_entry =
     [(''auto_remove'', Bool True), (''remove_after_hours'', num 24), (''remove_data'', Bool True),
      (''auto_move'', Bool True), (''move_path'', Str ''/done''), (''move_after_hours'', num (1 / 2)),
      (''auto_label'', Bool True), (''label'', Str ''Films''), (''note'', Str ''mine'')]"

definition demo_config :: jsval where
  "demo_config =
     Obj 1 [(''tracker'', Obj 2 [(''trackers'', Obj 3 [(''t.org'', Obj 4 demo_entry), (''u.org'', Obj 5 [(''auto_remove'', Bool True)])])])]"

definition demo_opened :: tracker_window where
  "demo_opened = tw_event_step 0 (TwShow ''t.org'') tracker_window_new"

definition demo_window :: tracker_window where
  "demo_window = tw_event_step 0 (TwAnswer 0 (Some demo_config)) demo_opened"

definition demo_torrents :: "dtorrent list" where
  "demo_torrents =
     [\<lparr>dt_finished = True, dt_moving = False, dt_completed = 1000, dt_added = 500, dt_wanted = 7, dt_path = ''/done/'', dt_label = []\<rparr>,
      \<lparr>dt_finished = True, dt_moving = False, dt_completed = 0, dt_added = 600, dt_wanted = 8, dt_path = ''/done'', dt_label = ''films''\<rparr>,
      \<lparr>dt_finished = True, dt_moving = False, dt_completed = 2000, dt_added = 700, dt_wanted = 9, dt_path = ''/done'', dt_label = ''keep''\<rparr>]"

lemma demo_reachable: "tw_reachable demo_opened" "tw_reachable demo_window"
proof -
  show o: "tw_reachable demo_opened" unfolding demo_opened_def
    by (rule tw_reachable.step [OF tw_reachable.start]) (simp add: tw_possible_def)
  have "tw_possible demo_opened (TwAnswer 0 (Some demo_config))" by code_simp
  then show "tw_reachable demo_window" unfolding demo_window_def by (rule tw_reachable.step [OF o])
qed

lemma demo_options:
  "form_options demo_window =
     [(''auto_limit'', Bool False), (''max_download_speed'', num (-1)), (''max_upload_speed'', num (-1)), (''max_connections'', num (-1)),
      (''max_upload_slots'', num (-1)), (''auto_label'', Bool True), (''label'', Str ''Films''), (''label_on_add'', Bool True),
      (''label_when_done'', Bool False), (''label_after_hours'', num 0), (''auto_move'', Bool True), (''move_path'', Str ''/done''),
      (''move_after_hours'', num (1 / 2)), (''auto_remove'', Bool True), (''remove_after_hours'', num 24), (''remove_data'', Bool True)]"
  by code_simp

lemma demo_get:
  "js_get (form_options demo_window) ''auto_remove'' = Bool True" "js_get (form_options demo_window) ''auto_move'' = Bool True"
  "js_get (form_options demo_window) ''move_path'' = Str ''/done''" "js_get (form_options demo_window) ''auto_label'' = Bool True"
  "js_get (form_options demo_window) ''label'' = Str ''Films''"
  unfolding demo_options by (simp_all add: js_get_def)

lemma preview_foresees_removal_witness:
  "length (filter (\<lambda>d. d \<le> 90000) [87400 :: rat]) =
     length (filter (\<lambda>t. plain_label t \<and> alone_removes (rules_of demo_window) [''keep''] 90000 t) demo_torrents) \<and>
   1 = length (filter (\<lambda>t. dt_finished t \<and> (never_removes [''keep''] (dt_label t) \<or> \<not> plain_label t)) demo_torrents)"
proof -
  have f: "removal_figures [''keep''] (filter (\<lambda>t. truthy (js_get t ''is_finished'')) (map status_of demo_torrents)) (form_options demo_window) =
      ([87400], 7, 1)"
    unfolding demo_options by code_simp
  have on: "truthy (js_get (form_options demo_window) ''auto_remove'')" by (simp add: demo_get)
  note p = preview_foresees_removal [OF demo_reachable(2) on f, of 90000]
  show ?thesis by (intro conjI) (use p in blast)+
qed

text \<open>A torrent labelled \<open>constructor\<close>, which nobody marked, is said to be kept, and is removed.\<close>

lemma constructor_misjudged:
  fixes now :: rat
  defines "t \<equiv> (hd demo_torrents)\<lparr>dt_label := ''constructor''\<rparr>"
  shows "normalise_label ''constructor'' = ''constructor'' \<and>
    removal_figures [] [status_of t] (form_options demo_window) = ([], 0, 1) \<and>
    decide_removal (rules_of demo_window) [] 90000 t = Some True"
proof (intro conjI)
  show "normalise_label ''constructor'' = ''constructor''" by code_simp
  show "removal_figures [] [status_of t] (form_options demo_window) = ([], 0, 1)"
    unfolding demo_options t_def by code_simp
  show "decide_removal (rules_of demo_window) [] 90000 t = Some True"
    unfolding rules_of_def demo_options t_def by code_simp
qed

text \<open>The same window with a path for the last torrent that is somewhere else.\<close>

lemma preview_foresees_moves_witness:
  "length (filter (\<lambda>d. d \<le> 90000) (move_due (filter (\<lambda>t. truthy (js_get t ''is_finished''))
     (map status_of [hd demo_torrents\<lparr>dt_path := ''/home''\<rparr>])) (form_options demo_window))) =
   length (filter (starts_move (rules_of demo_window) 90000) [hd demo_torrents\<lparr>dt_path := ''/home''\<rparr>])"
proof -
  have "rust_trim ''/done'' = ''/done''" by code_simp
  moreover have "list_all (\<lambda>t. \<not> dt_moving t) [hd demo_torrents\<lparr>dt_path := ''/home''\<rparr>]" by code_simp
  ultimately show ?thesis
    using preview_foresees_moves [OF demo_reachable(2), of "''/done''" "[hd demo_torrents\<lparr>dt_path := ''/home''\<rparr>]" 90000] demo_get by simp
qed

lemma preview_foresees_labels_witness:
  "\<exists>T0. \<forall>now \<ge> T0. (case label_figures (map status_of demo_torrents) (form_options demo_window) of (onArrival, onCompletion) \<Rightarrow> onArrival + onCompletion) =
    length (filter (\<lambda>t. wants_label (rules_of demo_window) now t \<noteq> None) demo_torrents)"
proof -
  have "normalise_label (rust_trim ''Films'') = to_lower (trim ''Films'')" "to_lower (trim ''Films'') \<noteq> []" "list_all (\<lambda>t. 0 < dt_added t) demo_torrents"
    by code_simp+
  then show ?thesis using preview_foresees_labels [OF demo_reachable(2), of "''Films''" demo_torrents] demo_get by simp
qed

lemma opened_form_says_the_entry_witness:
  "js_get (form_options (setOptions 0 demo_entry demo_opened)) ''remove_data'' =
     setting_of demo_entry (tw_defaults tracker_window_new) ''remove_data'' \<and>
   setting_of demo_entry (tw_defaults tracker_window_new) ''remove_data'' = Bool True"
proof -
  have f: "map_of (tw_fields demo_opened) ''remove_data'' = Some (CheckF False)" by code_simp
  have g: "js_get demo_entry ''remove_data'' = Bool True" by code_simp
  have "shows_exactly (CheckF False) (js_get demo_entry ''remove_data'')"
    unfolding g by (simp only: shows_exactly.simps) blast
  then show ?thesis using opened_form_says_the_entry [OF demo_reachable(1) f disjI2 [OF disjI2]] g by (simp add: setting_of_def)
qed

lemma ok_merges_witness:
  "\<exists>sent. tw_sent (tw_answer 0 (length (tw_asks demo_window)) (Some demo_config) (onOk demo_window)) = tw_sent demo_window @ [sent] \<and>
      \<not> tw_visible (tw_answer 0 (length (tw_asks demo_window)) (Some demo_config) (onOk demo_window)) \<and>
      (\<forall>h. h \<noteq> ''t.org'' \<longrightarrow> js_get sent h = js_get (trackersOf demo_config) h) \<and>
      (\<forall>k. js_get (object_or_empty (js_get sent ''t.org'')) k =
         (if k \<in> fst ` set (tw_fields demo_window) then js_get (form_options demo_window) k
          else js_get (object_or_empty (js_get (trackersOf demo_config) ''t.org'')) k))"
proof (rule ok_merges [OF demo_reachable(2)])
  show "tw_host demo_window = Some ''t.org''" by code_simp
  show "wf_dict (trackersOf demo_config)" by code_simp
  show "wf_dict (object_or_empty (js_get (trackersOf demo_config) ''t.org''))" by code_simp
qed simp

lemma ok_before_loaded_wipes_witness:
  "\<exists>sent. tw_sent (tw_answer 1 (length (tw_asks (tw_show 0 ''t.org'' tracker_window_new))) (Some demo_config)
       (onOk (tw_show 0 ''t.org'' tracker_window_new))) = tw_sent tracker_window_new @ [sent] \<and>
     js_get (object_or_empty (js_get sent ''t.org'')) ''auto_remove'' = Bool False"
proof (rule ok_before_loaded_wipes [OF tw_reachable.start])
  show "map_of (tw_fields tracker_window_new) ''auto_remove'' = Some (CheckF False)" by code_simp
  show "wf_dict (trackersOf demo_config)" by code_simp
  show "wf_dict (object_or_empty (js_get (trackersOf demo_config) ''t.org''))" by code_simp
qed simp_all

lemma fields_follow_switches_witness: "switched demo_window"
proof (rule fields_follow_switches [OF demo_reachable(2)])
  show "tw_host demo_window \<noteq> None" by code_simp
qed

text \<open>Where a path has a space after it, or a label has a character the daemon leaves out, the window says of
  a torrent that is already there that it would be moved and labelled, and the daemon never does either.\<close>

lemma preview_misjudges:
  fixes now :: rat
  defines "opts \<equiv> [(''auto_move'', Bool True), (''move_path'', Str ''/done ''), (''move_after_hours'', num 0),
    (''auto_label'', Bool True), (''label'', Str ''My Films''), (''label_on_add'', Bool False), (''label_when_done'', Bool True)]"
    and "t \<equiv> (hd demo_torrents)\<lparr>dt_path := ''/done'', dt_label := ''myfilms''\<rparr>"
  shows "move_due [status_of t] opts = [1000] \<and>
    \<not> starts_move (sane (entry_options opts)) now t \<and>
    label_figures [status_of t] opts = (0, 1) \<and>
    wants_label (sane (entry_options opts)) now t = None"
proof (intro conjI)
  show "move_due [status_of t] opts = [1000]" unfolding opts_def t_def by code_simp
  show "label_figures [status_of t] opts = (0, 1)" unfolding opts_def t_def by code_simp
  have "strip_slashes (dt_path t) = strip_slashes (o_move_path (sane (entry_options opts)))" unfolding opts_def t_def by code_simp
  then show "\<not> starts_move (sane (entry_options opts)) now t" by (simp add: starts_move_def)
  have "dt_label t = normalise_label (o_label (sane (entry_options opts)))" unfolding opts_def t_def by code_simp
  then show "wants_label (sane (entry_options opts)) now t = None" by (simp add: wants_label_def Let_def)
qed

end
