(* ===== verification/OptionsManager.thy ===== *)
theory OptionsManager
  imports ExtCore
begin

text \<open>
  \<open>deluge-all/OptionsManager.js\<close>: the defaults of a set of options, the values changed from
  them, and the form fields bound to them.  A field is a number; \<open>shown\<close> is the value that
  \<open>setValue\<close> last gave it.  The \<open>changed\<close> events a manager fires are kept in \<open>fired\<close>,
  oldest first; the manager's own handler \<open>onChange\<close> runs on each of them.  The state that
  the per-torrent manager of \<open>MultiOptionsManager.js\<close> shares with this one is the record
  \<open>om_base\<close>, and the contract both keep is the locale \<open>options_manager\<close>.
\<close>

section \<open>State\<close>

record om_base =
  options :: "jsval dict"
  binds :: "nat list dict"
  focused :: "nat option"
  doption :: "nat \<Rightarrow> string option"
  shown :: "nat \<Rightarrow> jsval"
  fired :: "(string \<times> jsval \<times> jsval) list"

record om = om_base +
  changed :: "jsval dict"

text \<open>The first argument of \<open>set\<close>, \<open>update\<close> and \<open>setDefault\<close>: nothing, a name, or an object of
  names and values.\<close>

datatype optarg = OptNone | OptName string | OptDict "jsval dict"

definition om_new :: "jsval dict option \<Rightarrow> om" where
  "om_new config_options =
     \<lparr>options = (case config_options of None \<Rightarrow> [] | Some d \<Rightarrow> d), binds = [], focused = None,
      doption = (\<lambda>_. None), shown = (\<lambda>_. Undefined), fired = [], changed = []\<rparr>"

section \<open>Fields\<close>

definition binds_of :: "'a om_base_scheme \<Rightarrow> string \<Rightarrow> nat list" where
  "binds_of m option = (case map_of (binds m) option of None \<Rightarrow> [] | Some fs \<Rightarrow> fs)"

definition om_bind :: "string \<Rightarrow> nat \<Rightarrow> 'a om_base_scheme \<Rightarrow> 'a om_base_scheme" where
  "om_bind option field m =
     m\<lparr>binds := AList.update option (binds_of m option @ [field]) (binds m),
       doption := (doption m)(field := Some option)\<rparr>"

definition om_onFieldFocus :: "nat \<Rightarrow> 'a om_base_scheme \<Rightarrow> 'a om_base_scheme" where
  "om_onFieldFocus field m = m\<lparr>focused := Some field\<rparr>"

definition om_onFieldBlur :: "nat \<Rightarrow> 'a om_base_scheme \<Rightarrow> 'a om_base_scheme" where
  "om_onFieldBlur field m = (if focused m = Some field then m\<lparr>focused := None\<rparr> else m)"

definition om_onChange :: "string \<Rightarrow> jsval \<Rightarrow> 'a om_base_scheme \<Rightarrow> 'a om_base_scheme" where
  "om_onChange option newValue m =
     (if binds_of m option = [] then m
      else fold (\<lambda>bind m. if focused m = Some bind then m
                          else m\<lparr>shown := (shown m)(bind := newValue)\<rparr>)
                (binds_of m option) m)"

text \<open>\<open>fireEvent('changed', option, value, oldValue)\<close>, whose listener is \<open>onChange\<close>.\<close>

definition om_fire :: "string \<Rightarrow> jsval \<Rightarrow> jsval \<Rightarrow> 'a om_base_scheme \<Rightarrow> 'a om_base_scheme" where
  "om_fire option value oldValue m =
     om_onChange option value (m\<lparr>fired := fired m @ [(option, value, oldValue)]\<rparr>)"

section \<open>Reading\<close>

definition om_addOptions :: "jsval dict \<Rightarrow> 'a om_base_scheme \<Rightarrow> 'a om_base_scheme" where
  "om_addOptions opts m = m\<lparr>options := ext_applyIf (options m) opts\<rparr>"

definition convertValueType :: "jsval \<Rightarrow> jsval \<Rightarrow> jsval" where
  "convertValueType oldValue value =
     (if ext_type oldValue \<noteq> ext_type value
      then (if ext_type oldValue = Some ''string'' then Str (js_string value)
            else if ext_type oldValue = Some ''number'' then Num (to_number value)
            else if ext_type oldValue = Some ''boolean''
            then (case value of
                    Str s \<Rightarrow> Bool (to_lower s = ''true'' \<or> to_lower s = ''1'' \<or> to_lower s = ''on'')
                  | _ \<Rightarrow> Bool (truthy value))
            else value)
      else value)"

definition om_isDirty :: "om \<Rightarrow> string \<Rightarrow> bool" where
  "om_isDirty m option = (\<not> isEmpty (js_get (changed m) option) False)"

definition om_getDefault :: "om \<Rightarrow> string \<Rightarrow> jsval" where
  "om_getDefault m option = js_get (options m) option"

definition om_get :: "om \<Rightarrow> string \<Rightarrow> jsval" where
  "om_get m option = (if om_isDirty m option then js_get (changed m) option
                      else js_get (options m) option)"

definition om_has :: "om \<Rightarrow> string \<Rightarrow> jsval" where
  "om_has m option = js_get (options m) option"

text \<open>\<open>get\<close> called with any number of names but one.\<close>

definition om_get_many :: "om \<Rightarrow> string list \<Rightarrow> jsval dict" where
  "om_get_many m names =
     fold (\<lambda>option opts. if \<not> truthy (om_has m option) then opts
                         else AList.update option (om_get m option) opts) names []"

definition om_getDirty :: "om \<Rightarrow> jsval dict" where
  "om_getDirty m = changed m"

section \<open>Writing\<close>

definition om_reset :: "om \<Rightarrow> om" where
  "om_reset m = m\<lparr>changed := []\<rparr>"

definition om_commit :: "om \<Rightarrow> om" where
  "om_commit m = om_reset (m\<lparr>options := put_all (options m) (changed m)\<rparr>)"

fun om_set :: "optarg \<Rightarrow> jsval \<Rightarrow> 'a om_base_scheme \<Rightarrow> 'a om_base_scheme" where
  "om_set OptNone value m = m"
| "om_set (OptDict opts) value m =
     fold (\<lambda>(option, v) m. om_onChange option v m) opts
          (m\<lparr>options := put_all (options m) opts\<rparr>)"
| "om_set (OptName option) value m =
     om_onChange option value (m\<lparr>options := AList.update option value (options m)\<rparr>)"

text \<open>The last branch of \<open>update\<close>, for one name and a value that is not undefined.\<close>

definition om_update1 :: "string \<Rightarrow> jsval \<Rightarrow> om \<Rightarrow> om" where
  "om_update1 option value0 m =
     (let defaultValue = om_getDefault m option;
          value = convertValueType defaultValue value0;
          oldValue = om_get m option
      in if loose_eq oldValue value then m
         else if loose_eq defaultValue value
         then om_fire option value oldValue
                (if om_isDirty m option
                 then m\<lparr>changed := AList.delete option (changed m)\<rparr> else m)
         else om_fire option value oldValue
                (m\<lparr>changed := AList.update option value (changed m)\<rparr>))"

text \<open>\<open>for (key in option)\<close> over a string visits its positions, each holding one character.\<close>

definition string_props :: "string \<Rightarrow> jsval dict" where
  "string_props s = map (\<lambda>(i, c). (nat_str (int i), Str [c])) (zip [0..<length s] s)"

text \<open>An object's entry whose value is undefined calls \<open>update\<close> again with a name and no value,
  which walks the name's characters.\<close>

definition om_update_entry :: "string \<times> jsval \<Rightarrow> om \<Rightarrow> om" where
  "om_update_entry kv m =
     (if snd kv = Undefined
      then fold (\<lambda>(k, v). om_update1 k v) (string_props (fst kv)) m
      else om_update1 (fst kv) (snd kv) m)"

fun om_update :: "optarg \<Rightarrow> jsval \<Rightarrow> om \<Rightarrow> om" where
  "om_update OptNone value m = m"
| "om_update (OptName option) value m = om_update_entry (option, value) m"
| "om_update (OptDict opts) value m =
     (if value = Undefined then fold om_update_entry opts m
      else om_update1 ''[object Object]'' value m)"

text \<open>A spinner's event names the spinner, whose form field is its \<open>field\<close> property.\<close>

definition om_onFieldChange :: "nat \<Rightarrow> nat option \<Rightarrow> (nat \<Rightarrow> jsval) \<Rightarrow> om \<Rightarrow> om" where
  "om_onFieldChange field spinner_field getValue m =
     (let f = (case spinner_field of None \<Rightarrow> field | Some g \<Rightarrow> g)
      in om_update (case doption m f of None \<Rightarrow> OptNone | Some option \<Rightarrow> OptName option)
           (getValue f) m)"

section \<open>The contract of an options manager\<close>

text \<open>
  What the pages rely on when they read a manager back: an update leaves the other options and
  the defaults alone, and the updated option reads as the (converted) value, unless that value
  is one that \<open>Ext.isEmpty\<close> calls empty.
\<close>

locale options_manager =
  fixes get :: "'s \<Rightarrow> string \<Rightarrow> jsval"
    and getDefault :: "'s \<Rightarrow> string \<Rightarrow> jsval"
    and update :: "string \<Rightarrow> jsval \<Rightarrow> 's \<Rightarrow> 's"
  assumes getDefault_update: "getDefault (update opt v s) opt' = getDefault s opt'"
    and get_update_other: "opt' \<noteq> opt \<Longrightarrow> get (update opt v s) opt' = get s opt'"
    and get_update_same:
      "\<not> isEmpty (convertValueType (getDefault s opt) v) False \<Longrightarrow>
       convertValueType (getDefault s opt) v \<noteq> Num NaN \<Longrightarrow>
       loose_eq (get (update opt v s) opt) (convertValueType (getDefault s opt) v)"
    and get_update_noop:
      "loose_eq (get s opt) (convertValueType (getDefault s opt) v) \<Longrightarrow>
       get (update opt v s) opt' = get s opt'"
begin

lemma update_twice:
  assumes "\<not> isEmpty (convertValueType (getDefault s opt) v) False"
    and "convertValueType (getDefault s opt) v \<noteq> Num NaN"
  shows "get (update opt v (update opt v s)) opt' = get (update opt v s) opt'"
  by (rule get_update_noop) (simp add: getDefault_update get_update_same assms)

lemma updates_frame:
  "opt \<notin> fst ` set kvs \<Longrightarrow> get (fold (\<lambda>(k, v). update k v) kvs s) opt = get s opt"
proof (induction kvs arbitrary: s)
  case Nil
  then show ?case by simp
next
  case (Cons kv kvs)
  then show ?case by (cases kv) (auto simp: get_update_other)
qed

lemma updates_default: "getDefault (fold (\<lambda>(k, v). update k v) kvs s) opt = getDefault s opt"
  by (rule fold_projection) (auto simp: getDefault_update)

text \<open>Updating from an object of distinct names: every name reads as its own value.\<close>

lemma updates_get:
  assumes "wf_dict kvs" and "(opt, v) \<in> set kvs"
    and "\<not> isEmpty (convertValueType (getDefault s opt) v) False"
    and "convertValueType (getDefault s opt) v \<noteq> Num NaN"
  shows "loose_eq (get (fold (\<lambda>(k, v). update k v) kvs s) opt)
                  (convertValueType (getDefault s opt) v)"
  using assms
proof (induction kvs arbitrary: s)
  case Nil
  then show ?case by simp
next
  case (Cons kv kvs)
  obtain k w where kv: "kv = (k, w)" by (cases kv)
  show ?case
  proof (cases "k = opt")
    case True
    then have "w = v" "opt \<notin> fst ` set kvs" using Cons.prems kv
      by (auto simp: image_iff rev_image_eqI)
    then show ?thesis
      using Cons.prems kv True by (simp add: updates_frame get_update_same)
  next
    case False
    then show ?thesis
      using Cons.IH[of "update k w s"] Cons.prems kv by (simp add: getDefault_update)
  qed
qed

end

text \<open>The manager of a page promises more: what an option reads as after an update is determined by what
  it read as before and by its default, for empty values too.\<close>

definition reads_after :: "jsval \<Rightarrow> jsval \<Rightarrow> jsval \<Rightarrow> jsval" where
  "reads_after current dflt v =
     (let w = convertValueType dflt v
      in if loose_eq current w then current
         else if loose_eq dflt w \<or> isEmpty w False then dflt else w)"

locale exact_manager = options_manager +
  assumes get_update: "get (update opt v s) opt = reads_after (get s opt) (getDefault s opt) v"
begin

lemma updates_get_exact:
  assumes "wf_dict kvs" "(opt, v) \<in> set kvs"
  shows "get (fold (\<lambda>(k, v). update k v) kvs s) opt = reads_after (get s opt) (getDefault s opt) v"
  using assms
proof (induction kvs arbitrary: s)
  case (Cons kv kvs)
  obtain k w where kv: "kv = (k, w)" by (cases kv)
  show ?case
  proof (cases "k = opt")
    case True
    then have "w = v" "opt \<notin> fst ` set kvs" using Cons.prems kv by (auto simp: image_iff rev_image_eqI)
    then show ?thesis using kv True by (simp add: updates_frame get_update)
  next
    case False
    then show ?thesis using Cons.IH [of "update k w s"] Cons.prems kv by (simp add: getDefault_update get_update_other)
  qed
qed simp

end

section \<open>The manager keeps the contract\<close>

lemma base_onChange [om_simps]:
  "options (om_onChange k v m) = options m" "binds (om_onChange k v m) = binds m"
  "focused (om_onChange k v m) = focused m" "fired (om_onChange k v m) = fired m"
  "doption (om_onChange k v m) = doption m"
  unfolding om_onChange_def by (auto intro: fold_projection)

lemma changed_onChange [om_simps]: "changed (om_onChange k v m) = changed m"
  unfolding om_onChange_def by (auto intro: fold_projection)

lemma base_fire [om_simps]:
  "options (om_fire k v w m) = options m" "binds (om_fire k v w m) = binds m"
  "focused (om_fire k v w m) = focused m" "fired (om_fire k v w m) = fired m @ [(k, v, w)]"
  "doption (om_fire k v w m) = doption m"
  by (simp_all add: om_fire_def om_simps)

lemma changed_fire [om_simps]: "changed (om_fire k v w m) = changed m"
  by (simp add: om_fire_def om_simps)

lemma onChange_focused: "focused (fold (\<lambda>bind m. if focused m = Some bind then m
    else m\<lparr>shown := (shown m)(bind := v)\<rparr>) fs m) = focused m"
  by (rule fold_projection) simp

lemma shown_onChange:
  "shown (om_onChange k v m) f =
     (if f \<in> set (binds_of m k) \<and> focused m \<noteq> Some f then v else shown m f)"
proof -
  have "shown (fold (\<lambda>bind m. if focused m = Some bind then m
      else m\<lparr>shown := (shown m)(bind := v)\<rparr>) fs m) f =
      (if f \<in> set fs \<and> focused m \<noteq> Some f then v else shown m f)" for fs
    by (induction fs arbitrary: m) auto
  then show ?thesis by (simp add: om_onChange_def)
qed

lemma binds_of_fired [simp]: "binds_of (m\<lparr>fired := x\<rparr>) k = binds_of m k"
  by (simp add: binds_of_def)

lemma binds_of_changed [simp]: "binds_of (m\<lparr>changed := x\<rparr>) k = binds_of m k"
  by (simp add: binds_of_def)

lemma shown_fire:
  "shown (om_fire k v w m) f =
     (if f \<in> set (binds_of m k) \<and> focused m \<noteq> Some f then v else shown m f)"
  by (simp add: om_fire_def shown_onChange)

lemma om_getDefault_update1: "om_getDefault (om_update1 k v m) k' = om_getDefault m k'"
  by (simp add: om_getDefault_def om_update1_def Let_def om_simps)

lemma om_get_update1_other: "k' \<noteq> k \<Longrightarrow> om_get (om_update1 k v m) k' = om_get m k'"
  by (simp add: om_get_def om_isDirty_def om_update1_def Let_def om_simps get_update get_delete)

text \<open>An option that differs from what it reads as but equals its default has been changed.\<close>

lemma om_dirty_of_default:
  "\<not> loose_eq (om_get m k) v \<Longrightarrow> loose_eq (om_getDefault m k) v \<Longrightarrow> om_isDirty m k"
  by (auto simp: om_get_def om_getDefault_def split: if_splits)

lemma om_get_update1_same:
  assumes "\<not> isEmpty (convertValueType (om_getDefault m k) v) False"
    and "convertValueType (om_getDefault m k) v \<noteq> Num NaN"
  shows "loose_eq (om_get (om_update1 k v m) k) (convertValueType (om_getDefault m k) v)"
proof -
  define w where "w = convertValueType (om_getDefault m k) v"
  consider "loose_eq (om_get m k) w"
    | "\<not> loose_eq (om_get m k) w" "loose_eq (om_getDefault m k) w"
    | "\<not> loose_eq (om_get m k) w" "\<not> loose_eq (om_getDefault m k) w"
    by blast
  then show ?thesis
  proof cases
    case 1
    then show ?thesis by (simp add: om_update1_def Let_def w_def)
  next
    case 2
    then have "om_isDirty m k" by (rule om_dirty_of_default)
    with 2 show ?thesis
      by (simp add: om_update1_def Let_def om_get_def om_isDirty_def om_simps get_delete
          om_getDefault_def flip: w_def) (simp add: w_def om_getDefault_def)
  next
    case 3
    then have "om_get (om_update1 k v m) k = w"
      using assms by (simp add: om_update1_def Let_def om_get_def om_isDirty_def om_simps get_update
          flip: w_def)
    with assms(2) show ?thesis by (simp add: loose_eq_refl flip: w_def)
  qed
qed

lemma om_update1_noop:
  "loose_eq (om_get m k) (convertValueType (om_getDefault m k) v) \<Longrightarrow> om_update1 k v m = m"
  by (simp add: om_update1_def)

lemma om_get_update1: "om_get (om_update1 k v m) k = reads_after (om_get m k) (om_getDefault m k) v"
proof -
  have "om_get (m\<lparr>changed := AList.delete k (changed m)\<rparr>) k = om_getDefault m k"
    by (simp add: om_get_def om_isDirty_def om_getDefault_def get_delete)
  moreover have "loose_eq (om_getDefault m k) w \<Longrightarrow> \<not> loose_eq (om_get m k) w \<Longrightarrow> om_isDirty m k" for w
    by (rule om_dirty_of_default)
  ultimately show ?thesis
    by (simp add: reads_after_def om_update1_def Let_def)
      (auto simp: om_get_def om_isDirty_def om_getDefault_def om_simps get_update get_delete)
qed

interpretation single: exact_manager om_get om_getDefault om_update1
proof unfold_locales
  show "om_get (om_update1 opt v s) opt = reads_after (om_get s opt) (om_getDefault s opt) v" for opt v s
    by (rule om_get_update1)
qed (simp_all add: om_getDefault_update1 om_get_update1_other om_get_update1_same om_update1_noop)


section \<open>Edits of a user\<close>

text \<open>One action on a loaded page: a field is bound, focused or left, an edit reaches
  \<open>update\<close>, the page is applied or reset.\<close>

inductive om_step :: "om \<Rightarrow> om \<Rightarrow> bool" where
  step_bind: "om_step m (om_bind k f m)"
| step_focus: "om_step m (om_onFieldFocus f m)"
| step_blur: "om_step m (om_onFieldBlur f m)"
| step_update: "om_step m (om_update a v m)"
| step_field: "om_step m (om_onFieldChange f sp gv m)"
| step_commit: "om_step m (om_commit m)"
| step_reset: "om_step m (om_reset m)"

text \<open>What the page can rely on at any time: both objects are well formed and nothing is kept
  as changed that equals its default.\<close>

definition om_inv :: "om \<Rightarrow> bool" where
  "om_inv m \<longleftrightarrow> wf_dict (options m) \<and> wf_dict (changed m) \<and>
     (\<forall>k v. map_of (changed m) k = Some v \<longrightarrow> \<not> loose_eq (om_getDefault m k) v)"

lemma om_inv_update1:
  assumes "om_inv m"
  shows "om_inv (om_update1 k v m)"
proof -
  have "wf_dict (options (om_update1 k v m))" "wf_dict (changed (om_update1 k v m))"
    using assms by (simp_all add: om_inv_def om_update1_def Let_def om_simps wf_delete
        AList.distinct_update)
  moreover have "\<not> loose_eq (om_getDefault (om_update1 k v m) k') w"
    if "map_of (changed (om_update1 k v m)) k' = Some w" for k' w
    using assms that
    by (auto simp: om_getDefault_update1)
       (auto simp: om_inv_def om_update1_def Let_def om_simps dict_simps split: if_splits)
  ultimately show ?thesis by (simp add: om_inv_def)
qed

lemma om_inv_updates:
  "om_inv m \<Longrightarrow> om_inv (fold (\<lambda>(k, v). om_update1 k v) kvs m)"
  by (induction kvs arbitrary: m) (auto simp: om_inv_update1)

lemma om_inv_update_entry: "om_inv m \<Longrightarrow> om_inv (om_update_entry kv m)"
  by (simp add: om_update_entry_def om_inv_updates om_inv_update1)

lemma om_inv_update_entries: "om_inv m \<Longrightarrow> om_inv (fold om_update_entry kvs m)"
  by (induction kvs arbitrary: m) (auto simp: om_inv_update_entry)

lemma om_inv_update: "om_inv m \<Longrightarrow> om_inv (om_update a v m)"
  by (cases a) (simp_all add: om_inv_update1 om_inv_update_entry om_inv_update_entries)

lemma om_inv_step: "om_step m m' \<Longrightarrow> om_inv m \<Longrightarrow> om_inv m'"
proof (induction rule: om_step.induct)
  case (step_field m f sp gv)
  then show ?case by (auto simp: om_onFieldChange_def Let_def intro: om_inv_update)
next
  case (step_commit m)
  then show ?case by (simp add: om_inv_def om_commit_def om_reset_def wf_put_all)
next
  case (step_update m a v)
  then show ?case by (rule om_inv_update)
qed (auto simp: om_inv_def om_bind_def om_onFieldFocus_def om_onFieldBlur_def om_reset_def
      om_getDefault_def)

section \<open>Properties\<close>

lemma om_update_dict_fold:
  "\<forall>(k, v) \<in> set kvs. v \<noteq> Undefined \<Longrightarrow>
   om_update (OptDict kvs) Undefined m = fold (\<lambda>(k, v). om_update1 k v) kvs m"
proof -
  assume "\<forall>(k, v) \<in> set kvs. v \<noteq> Undefined"
  then have "fold om_update_entry kvs m = fold (\<lambda>(k, v). om_update1 k v) kvs m"
    by (intro fold_cong) (auto simp: om_update_entry_def fun_eq_iff)
  then show ?thesis by simp
qed


text \<open>C10: Updating a manager from an object of options makes each option read as the value given for it,
  converted to the type of its default, or as one that is \<open>==\<close> to it.  The exception is a value that \<open>Ext.isEmpty\<close> calls empty (null, no text, an empty list) and the option did not read as
  already: then the option reads as its default.  Every other option and all the defaults are as they
  were.\<close>

theorem om_update_reads_back:
  assumes "wf_dict kvs" and "\<forall>(k, v) \<in> set kvs. v \<noteq> Undefined" and "(opt, v) \<in> set kvs"
  shows "let w = convertValueType (om_getDefault m opt) v; m' = om_update (OptDict kvs) Undefined m
    in (if isEmpty w False \<and> \<not> loose_eq (om_get m opt) w then om_get m' opt = om_getDefault m opt
        else om_get m' opt = w \<or> loose_eq (om_get m' opt) w) \<and>
       (\<forall>k. k \<notin> fst ` set kvs \<longrightarrow> om_get m' k = om_get m k) \<and>
       (\<forall>k. om_getDefault m' k = om_getDefault m k)"
proof -
  let ?m = "fold (\<lambda>(k, v). om_update1 k v) kvs m" and ?w = "convertValueType (om_getDefault m opt) v"
  have u: "om_update (OptDict kvs) Undefined m = ?m" by (rule om_update_dict_fold [OF assms(2)])
  have "om_get ?m opt = reads_after (om_get m opt) (om_getDefault m opt) v"
    by (rule single.updates_get_exact [OF assms(1,3)])
  then have "if isEmpty ?w False \<and> \<not> loose_eq (om_get m opt) ?w then om_get ?m opt = om_getDefault m opt
      else om_get ?m opt = ?w \<or> loose_eq (om_get ?m opt) ?w"
    by (simp only: reads_after_def Let_def split: if_split) blast
  then show ?thesis unfolding u Let_def using single.updates_frame single.updates_default by blast
qed

theorem om_update_reads_back_witness:
  "let m = om_new (Some [(''port'', num 6881), (''dht'', Bool True), (''name'', Str ''x'')]);
       m' = om_update (OptDict [(''port'', Str ''58846''), (''dht'', Str ''off'')]) Undefined m
   in loose_eq (om_get m' ''port'') (num 58846) \<and> om_get m' ''name'' = Str ''x''"
proof -
  define m where "m = om_new (Some [(''port'', num 6881), (''dht'', Bool True), (''name'', Str ''x'')])"
  define kvs where "kvs = [(''port'', Str ''58846''), (''dht'', Str ''off'')]"
  have conv: "convertValueType (om_getDefault m ''port'') (Str ''58846'') = num 58846"
    unfolding m_def by code_simp
  have get: "om_get m ''name'' = Str ''x''" unfolding m_def by code_simp
  have w: "\<not> isEmpty (num 58846) False" by code_simp
  have "loose_eq (om_get (om_update (OptDict kvs) Undefined m) ''port'') (num 58846) \<and>
      (\<forall>k. k \<notin> fst ` set kvs \<longrightarrow> om_get (om_update (OptDict kvs) Undefined m) k = om_get m k)"
  proof -
    have k: "wf_dict kvs" "\<forall>(k, v) \<in> set kvs. v \<noteq> Undefined" "(''port'', Str ''58846'') \<in> set kvs" by (simp_all add: kvs_def)
    have "loose_eq (num 58846) (num 58846)" by (simp add: loose_eq_refl)
    then show ?thesis
      using om_update_reads_back [OF k, of m] w unfolding conv Let_def by (metis (no_types))
  qed
  then show ?thesis using get by (simp add: kvs_def m_def Let_def)
qed

text \<open>A change event reaches the form: when an update really changes an option, every field
  bound to it shows the converted value, except the field that has the focus, which keeps what
  it shows, as does every field bound to other options; one event is fired, carrying the new and
  the old value.  When the value equals what the option reads as, nothing happens at all.\<close>

theorem om_update_shows:
  fixes v opt m
  assumes "v \<noteq> Undefined"
  defines "w \<equiv> convertValueType (om_getDefault m opt) v"
  shows "om_update (OptName opt) v m = m \<and> loose_eq (om_get m opt) w \<or>
         \<not> loose_eq (om_get m opt) w \<and>
         fired (om_update (OptName opt) v m) = fired m @ [(opt, w, om_get m opt)] \<and>
         (\<forall>f. shown (om_update (OptName opt) v m) f =
            (if f \<in> set (binds_of m opt) \<and> focused m \<noteq> Some f then w else shown m f))"
  using assms by (simp add: om_update_entry_def om_update1_def Let_def om_simps shown_fire)

theorem om_update_shows_witness:
  "let m = om_onFieldFocus 2 (om_bind ''port'' 2 (om_bind ''port'' 1 (om_new (Some [(''port'', num 1)]))));
       m' = om_update (OptName ''port'') (Str ''7'') m
   in shown m' 1 = num 7 \<and> shown m' 2 = Undefined"
proof -
  define m where
    "m = om_onFieldFocus 2 (om_bind ''port'' 2 (om_bind ''port'' 1 (om_new (Some [(''port'', num 1)]))))"
  have conv: "convertValueType (om_getDefault m ''port'') (Str ''7'') = num 7"
    unfolding m_def by code_simp
  have "\<not> loose_eq (om_get m ''port'') (num 7)" "binds_of m ''port'' = [1, 2]"
    "focused m = Some 2" "shown m 2 = Undefined"
    unfolding m_def by code_simp+
  then show ?thesis
    using om_update_shows [where v = "Str ''7''" and m = m and opt = "''port''"] unfolding conv by (simp add: m_def Let_def)
qed

text \<open>C11: the changed values of a page are exactly what differs from its defaults.  Starting from
  a manager that satisfies \<open>om_inv\<close> (a fresh one does), any sequence of edits, commits and
  resets keeps both objects well formed and never leaves a value in the changed ones that
  equals its default, so what is sent to the daemon is never a value it already has.\<close>

theorem om_reachable_inv:
  assumes "om_step\<^sup>*\<^sup>* (om_new (Some opts)) m" and "wf_dict opts"
  shows "om_inv m"
  using assms(1)
proof (induction rule: rtranclp_induct)
  case base
  then show ?case using assms(2) by (simp add: om_inv_def om_new_def)
next
  case (step y z)
  then show ?case by (blast intro: om_inv_step)
qed

theorem om_reachable_inv_witness:
  "om_inv (om_update (OptName ''a'') (num 2) (om_new (Some [(''a'', num 1)]))) \<and>
   changed (om_update (OptName ''a'') (num 2) (om_new (Some [(''a'', num 1)]))) = [(''a'', num 2)]"
proof -
  have "om_step\<^sup>*\<^sup>* (om_new (Some [(''a'', num 1)]))
          (om_update (OptName ''a'') (num 2) (om_new (Some [(''a'', num 1)])))"
    by (blast intro: om_step.step_update)
  then show ?thesis using om_reachable_inv [of "[(''a'', num 1)]"]
    by (simp add: om_update_entry_def om_update1_def Let_def om_simps)
       (simp add: om_new_def om_getDefault_def om_get_def om_isDirty_def js_get_def
         convertValueType_def loose_eq_def)
qed

text \<open>Applying a page makes the changed values the defaults, forgets that they were changed,
  and every option that reads as a value before the commit reads as the same value after it,
  unless it was changed to an empty value.\<close>

theorem om_commit_keeps_values:
  assumes "wf_dict (changed m)"
  shows "om_getDirty (om_commit m) = [] \<and>
         (\<forall>opt. om_get (om_commit m) opt =
            (case map_of (changed m) opt of None \<Rightarrow> om_getDefault m opt | Some v \<Rightarrow> v)) \<and>
         (\<forall>opt. js_get (changed m) opt = Undefined \<and> map_of (changed m) opt = None \<or>
                \<not> isEmpty (js_get (changed m) opt) False \<longrightarrow>
                om_get (om_commit m) opt = om_get m opt)"
proof -
  have get: "om_get (om_commit m) opt =
      (case map_of (changed m) opt of None \<Rightarrow> om_getDefault m opt | Some v \<Rightarrow> v)" for opt
    using assms by (simp add: om_get_def om_isDirty_def om_commit_def om_reset_def get_put_all
        om_getDefault_def cong: option.case_cong)
  then show ?thesis
    by (auto simp: om_getDirty_def om_commit_def om_reset_def om_get_def om_isDirty_def
        om_getDefault_def js_get_def split: option.splits)
qed

theorem om_commit_keeps_values_witness:
  "let m = om_update (OptName ''a'') (num 2) (om_new (Some [(''a'', num 1)]))
   in om_getDirty (om_commit m) = [] \<and> om_get (om_commit m) ''a'' = num 2"
proof -
  define m where "m = om_update (OptName ''a'') (num 2) (om_new (Some [(''a'', num 1)]))"
  have c: "changed m = [(''a'', num 2)]" unfolding m_def by code_simp
  then show ?thesis using om_commit_keeps_values [of m] by (simp add: m_def Let_def js_get_def)
qed

text \<open>Clearing a text option and then typing its old value back does not undo the edit.
  \<open>isDirty\<close> takes an empty string for "not changed", so the option reads as its default while
  the empty string stays among the changed values; restoring the old text is then seen as no
  change, and applying the page stores the empty string.\<close>

theorem om_blank_edit_sticks:
  assumes "js_get (options m) opt = Str s" and "s \<noteq> []" and "js_get (changed m) opt = Undefined"
  defines "m' \<equiv> om_update (OptName opt) (Str s) (om_update (OptName opt) (Str []) m)"
  shows "om_get m' opt = Str s \<and> js_get (om_getDirty m') opt = Str [] \<and>
         (wf_dict (changed m) \<longrightarrow> om_getDefault (om_commit m') opt = Str [])"
proof -
  define m1 where "m1 = om_update (OptName opt) (Str []) m"
  have conv: "convertValueType (Str s) (Str t) = Str t" for t by (simp add: convertValueType_def)
  have m1: "changed m1 = AList.update opt (Str []) (changed m)" "options m1 = options m"
    unfolding m1_def using assms(1-3)
    by (simp_all add: om_update_entry_def om_update1_def Let_def om_simps om_get_def om_isDirty_def
        om_getDefault_def conv loose_eq_Str)
  then have get: "om_get m1 opt = Str s"
    using assms(1) by (simp add: om_get_def om_isDirty_def get_update)
  have m': "m' = m1" unfolding m'_def m1_def [symmetric] using m1 get assms(1)
    by (simp add: om_update_entry_def om_update1_noop om_getDefault_def conv loose_eq_Str)
  show ?thesis unfolding m' using m1 get
    by (simp add: om_getDirty_def get_update om_commit_def om_reset_def om_getDefault_def
        get_put_all AList.distinct_update AList.update_conv')
qed

theorem om_blank_edit_sticks_witness:
  "let m = om_new (Some [(''move_completed_path'', Str ''/srv'')]);
       m' = om_update (OptName ''move_completed_path'') (Str ''/srv'')
              (om_update (OptName ''move_completed_path'') (Str []) m)
   in om_get m' ''move_completed_path'' = Str ''/srv'' \<and>
      om_getDefault (om_commit m') ''move_completed_path'' = Str []"
  using om_blank_edit_sticks
    [of "om_new (Some [(''move_completed_path'', Str ''/srv'')])" "''move_completed_path''" "''/srv''"]
  by (simp add: om_new_def js_get_def Let_def)

end
