(* ===== verification/MultiOptionsManager.thy ===== *)
theory MultiOptionsManager
  imports OptionsManager
begin

text \<open>
  \<open>deluge-all/MultiOptionsManager.js\<close>: an options manager that keeps, for each torrent id, the
  values that torrent has (\<open>stored\<close>) and the values edited from them (\<open>mchanged\<close>, the code's
  \<open>changed\<close>), over the shared defaults in \<open>options\<close>.  The id in use is \<open>currentId\<close>; the
  initial \<open>null\<close> is used as a property name like any other and reads as the name \<open>"null"\<close>.
\<close>

section \<open>State\<close>

record mom = om_base +
  currentId :: "string option"
  stored :: "jsval dict dict"
  mchanged :: "jsval dict dict"

definition multi_new :: "jsval dict option \<Rightarrow> mom" where
  "multi_new config_options =
     \<lparr>options = (case config_options of None \<Rightarrow> [] | Some d \<Rightarrow> d), binds = [], focused = None,
      doption = (\<lambda>_. None), shown = (\<lambda>_. Undefined), fired = [],
      currentId = None, stored = [], mchanged = []\<rparr>"

definition id_key :: "mom \<Rightarrow> string" where
  "id_key m = (case currentId m of None \<Rightarrow> ''null'' | Some i \<Rightarrow> i)"

text \<open>\<open>this.stored[this.currentId]\<close> and \<open>this.changed[this.currentId]\<close>, which may be undefined.\<close>

definition cur_stored :: "mom \<Rightarrow> jsval dict option" where
  "cur_stored m = map_of (stored m) (id_key m)"

definition cur_changed :: "mom \<Rightarrow> jsval dict option" where
  "cur_changed m = map_of (mchanged m) (id_key m)"

section \<open>Reading\<close>

definition multi_isDirty :: "mom \<Rightarrow> string \<Rightarrow> bool" where
  "multi_isDirty m option =
     (case cur_changed m of None \<Rightarrow> False | Some d \<Rightarrow> \<not> isEmpty (js_get d option) False)"

definition multi_has :: "mom \<Rightarrow> string \<Rightarrow> bool" where
  "multi_has m option =
     (case cur_stored m of None \<Rightarrow> False | Some d \<Rightarrow> \<not> isEmpty (js_get d option) False)"

definition multi_getDefault :: "mom \<Rightarrow> string \<Rightarrow> jsval" where
  "multi_getDefault m option =
     (if multi_has m option then js_get (the (cur_stored m)) option else js_get (options m) option)"

definition multi_get :: "mom \<Rightarrow> string \<Rightarrow> jsval" where
  "multi_get m option =
     (if multi_isDirty m option then js_get (the (cur_changed m)) option
      else multi_getDefault m option)"

text \<open>\<open>get()\<close> and \<open>get\<close> with several names.\<close>

definition multi_get_many :: "mom \<Rightarrow> string list \<Rightarrow> jsval dict" where
  "multi_get_many m names = fold (\<lambda>option. AList.update option (multi_get m option)) names []"

definition multi_get_all :: "mom \<Rightarrow> jsval dict" where
  "multi_get_all m =
     fold (\<lambda>(option, v). AList.update option (multi_get m option)) (options m) []"

definition multi_getDirty :: "mom \<Rightarrow> jsval dict" where
  "multi_getDirty m = (case cur_changed m of None \<Rightarrow> [] | Some d \<Rightarrow> d)"

section \<open>Writing\<close>

definition multi_show_option :: "string \<Rightarrow> mom \<Rightarrow> mom" where
  "multi_show_option option m =
     (case map_of (binds m) option of
        None \<Rightarrow> m
      | Some fs \<Rightarrow> fold (\<lambda>bind m. m\<lparr>shown := (shown m)(bind := multi_get m option)\<rparr>) fs m)"

definition changeId :: "string option \<Rightarrow> bool \<Rightarrow> mom \<Rightarrow> mom" where
  "changeId newId dontUpdateBinds m =
     (let m = m\<lparr>currentId := newId\<rparr>
      in if dontUpdateBinds then m
         else fold (\<lambda>(option, v). multi_show_option option) (options m) m)"

definition multi_reset :: "mom \<Rightarrow> mom" where
  "multi_reset m =
     m\<lparr>mchanged := AList.delete (id_key m) (mchanged m), stored := AList.delete (id_key m) (stored m)\<rparr>"

text \<open>\<open>commit\<close>: when nothing is stored for the id, \<open>Ext.apply\<close> returns the undefined it was given
  and that is what is stored; either way \<open>reset\<close> follows.\<close>

definition multi_commit :: "mom \<Rightarrow> mom" where
  "multi_commit m =
     multi_reset
       (case ext_apply (cur_stored m) (cur_changed m) of
          None \<Rightarrow> m
        | Some d \<Rightarrow> m\<lparr>stored := AList.update (id_key m) d (stored m)\<rparr>)"

definition multi_resetAll :: "mom \<Rightarrow> mom" where
  "multi_resetAll m = changeId None False (m\<lparr>mchanged := [], stored := []\<rparr>)"

definition setDefault1 :: "string \<Rightarrow> jsval \<Rightarrow> mom \<Rightarrow> mom" where
  "setDefault1 option value0 m =
     (let oldValue = multi_getDefault m option;
          value = convertValueType oldValue value0
      in if loose_eq oldValue value then m
         else let d = (case cur_stored m of None \<Rightarrow> [] | Some d \<Rightarrow> d);
                  m' = m\<lparr>stored := AList.update (id_key m) (AList.update option value d) (stored m)\<rparr>
              in if multi_isDirty m' option then m' else om_fire option value oldValue m')"

definition setDefault_entry :: "string \<times> jsval \<Rightarrow> mom \<Rightarrow> mom" where
  "setDefault_entry kv m =
     (if snd kv = Undefined
      then fold (\<lambda>(k, v). setDefault1 k v) (string_props (fst kv)) m
      else setDefault1 (fst kv) (snd kv) m)"

fun setDefault :: "optarg \<Rightarrow> jsval \<Rightarrow> mom \<Rightarrow> mom" where
  "setDefault OptNone value m = m"
| "setDefault (OptName option) value m = setDefault_entry (option, value) m"
| "setDefault (OptDict opts) value m =
     (if value = Undefined then fold setDefault_entry opts m
      else setDefault1 ''[object Object]'' value m)"

definition multi_update1 :: "string \<Rightarrow> jsval \<Rightarrow> mom \<Rightarrow> mom" where
  "multi_update1 option value0 m0 =
     (let m = (case cur_changed m0 of
                 None \<Rightarrow> m0\<lparr>mchanged := AList.update (id_key m0) [] (mchanged m0)\<rparr>
               | Some _ \<Rightarrow> m0);
          d = the (cur_changed m);
          defaultValue = multi_getDefault m option;
          value = convertValueType defaultValue value0;
          oldValue = multi_get m option
      in if loose_eq oldValue value then m
         else if loose_eq defaultValue value
         then om_fire option value oldValue
                (if multi_isDirty m option
                 then m\<lparr>mchanged := AList.update (id_key m) (AList.delete option d) (mchanged m)\<rparr>
                 else m)
         else om_fire option value oldValue
                (m\<lparr>mchanged := AList.update (id_key m) (AList.update option value d) (mchanged m)\<rparr>))"

definition multi_update_entry :: "string \<times> jsval \<Rightarrow> mom \<Rightarrow> mom" where
  "multi_update_entry kv m =
     (if snd kv = Undefined
      then fold (\<lambda>(k, v). multi_update1 k v) (string_props (fst kv)) m
      else multi_update1 (fst kv) (snd kv) m)"

fun multi_update :: "optarg \<Rightarrow> jsval \<Rightarrow> mom \<Rightarrow> mom" where
  "multi_update OptNone value m = m"
| "multi_update (OptName option) value m = multi_update_entry (option, value) m"
| "multi_update (OptDict opts) value m =
     (if value = Undefined then fold multi_update_entry opts m
      else multi_update1 ''[object Object]'' value m)"

section \<open>The contract\<close>

lemma multi_onChange [om_simps]:
  "currentId (om_onChange k v m) = currentId m" "stored (om_onChange k v m) = stored m"
  "mchanged (om_onChange k v m) = mchanged m"
  unfolding om_onChange_def by (auto intro: fold_projection)

lemma multi_fire [om_simps]:
  "currentId (om_fire k v w m) = currentId m" "stored (om_fire k v w m) = stored m"
  "mchanged (om_fire k v w m) = mchanged m"
  by (simp_all add: om_fire_def om_simps)

text \<open>The observers depend on five fields only.\<close>

lemma id_key_cong: "currentId m = currentId m' \<Longrightarrow> id_key m = id_key m'"
  by (simp add: id_key_def)

lemma cur_fire [om_simps]:
  "id_key (om_fire k v w m) = id_key m" "cur_stored (om_fire k v w m) = cur_stored m"
  "cur_changed (om_fire k v w m) = cur_changed m"
  by (simp_all add: id_key_def cur_stored_def cur_changed_def om_simps)

lemma cur_mchanged [om_simps]:
  "id_key (m\<lparr>mchanged := x\<rparr>) = id_key m" "cur_stored (m\<lparr>mchanged := x\<rparr>) = cur_stored m"
  "cur_changed (m\<lparr>mchanged := x\<rparr>) = map_of x (id_key m)"
  by (simp_all add: id_key_def cur_stored_def cur_changed_def)

lemma cur_stored_upd [om_simps]:
  "id_key (m\<lparr>stored := x\<rparr>) = id_key m" "cur_changed (m\<lparr>stored := x\<rparr>) = cur_changed m"
  "cur_stored (m\<lparr>stored := x\<rparr>) = map_of x (id_key m)"
  by (simp_all add: id_key_def cur_stored_def cur_changed_def)

lemma multi_has_frame [om_simps]:
  "multi_has (om_fire k v w m) opt = multi_has m opt"
  "multi_has (m\<lparr>mchanged := x\<rparr>) opt = multi_has m opt"
  by (simp_all add: multi_has_def om_simps)

lemma multi_getDefault_frame [om_simps]:
  "multi_getDefault (om_fire k v w m) opt = multi_getDefault m opt"
  "multi_getDefault (m\<lparr>mchanged := x\<rparr>) opt = multi_getDefault m opt"
  by (simp_all add: multi_getDefault_def om_simps)

lemma multi_isDirty_frame [om_simps]:
  "multi_isDirty (om_fire k v w m) opt = multi_isDirty m opt"
  by (simp add: multi_isDirty_def om_simps)

lemma multi_get_fire [om_simps]: "multi_get (om_fire k v w m) opt = multi_get m opt"
  by (simp add: multi_get_def om_simps)

text \<open>Reading when the changed values of the id are \<open>d\<close>.\<close>

lemma multi_get_Some:
  "cur_changed m = Some d \<Longrightarrow>
   multi_get m opt = (if isEmpty (js_get d opt) False then multi_getDefault m opt else js_get d opt)"
  by (simp add: multi_get_def multi_isDirty_def)

lemma multi_get_None: "cur_changed m = None \<Longrightarrow> multi_get m opt = multi_getDefault m opt"
  by (simp add: multi_get_def multi_isDirty_def)

text \<open>\<open>update\<close> works on a changed object it has made sure exists; creating an empty one is not
  visible.\<close>

definition with_changed :: "mom \<Rightarrow> mom" where
  "with_changed m = (case cur_changed m of
     None \<Rightarrow> m\<lparr>mchanged := AList.update (id_key m) [] (mchanged m)\<rparr> | Some _ \<Rightarrow> m)"

lemma with_changed_frame [om_simps]:
  "id_key (with_changed m) = id_key m" "multi_getDefault (with_changed m) opt = multi_getDefault m opt"
  "multi_get (with_changed m) opt = multi_get m opt" "stored (with_changed m) = stored m"
  "options (with_changed m) = options m" "currentId (with_changed m) = currentId m"
  by (simp_all add: with_changed_def om_simps multi_get_None multi_get_Some AList.update_conv'
      split: option.split)

lemma with_changed_Some: "\<exists>d. cur_changed (with_changed m) = Some d"
  by (auto simp: with_changed_def om_simps AList.update_conv' split: option.split)

definition put_changed :: "mom \<Rightarrow> jsval dict \<Rightarrow> mom" where
  "put_changed m d =
     (with_changed m)\<lparr>mchanged := AList.update (id_key m) d (mchanged (with_changed m))\<rparr>"

lemma multi_update1_alt:
  assumes "cur_changed (with_changed m) = Some d"
  shows "multi_update1 k v m =
       (let w = convertValueType (multi_getDefault m k) v
        in if loose_eq (multi_get m k) w then with_changed m
           else if loose_eq (multi_getDefault m k) w
           then om_fire k w (multi_get m k)
             (if isEmpty (js_get d k) False then with_changed m
              else put_changed m (AList.delete k d))
           else om_fire k w (multi_get m k) (put_changed m (AList.update k w d)))"
  using assms
  by (simp add: multi_update1_def Let_def om_simps put_changed_def multi_isDirty_def
      flip: with_changed_def)

lemma put_changed_frame [om_simps]:
  "multi_getDefault (put_changed m d) opt = multi_getDefault m opt"
  "multi_get (put_changed m d) opt =
     (if isEmpty (js_get d opt) False then multi_getDefault m opt else js_get d opt)"
  by (simp_all add: put_changed_def om_simps multi_get_Some AList.update_conv')

lemma multi_get_with_changed:
  "cur_changed (with_changed m) = Some d \<Longrightarrow>
   multi_get m opt = (if isEmpty (js_get d opt) False then multi_getDefault m opt else js_get d opt)"
  using multi_get_Some [of "with_changed m" d opt] by (simp add: om_simps)

lemma multi_getDefault_update1: "multi_getDefault (multi_update1 k v m) k' = multi_getDefault m k'"
  using with_changed_Some [of m] by (auto simp: multi_update1_alt Let_def om_simps)

lemma multi_get_update1_other:
  assumes "k' \<noteq> k"
  shows "multi_get (multi_update1 k v m) k' = multi_get m k'"
proof -
  obtain d where d: "cur_changed (with_changed m) = Some d" using with_changed_Some by blast
  then show ?thesis
    using assms multi_get_with_changed [OF d, of k']
    by (simp add: multi_update1_alt [OF d] Let_def om_simps get_update get_delete)
qed

lemma multi_get_update1_same:
  assumes "\<not> isEmpty (convertValueType (multi_getDefault m k) v) False"
    and "convertValueType (multi_getDefault m k) v \<noteq> Num NaN"
  shows "loose_eq (multi_get (multi_update1 k v m) k) (convertValueType (multi_getDefault m k) v)"
proof -
  obtain d where d: "cur_changed (with_changed m) = Some d" using with_changed_Some by blast
  then show ?thesis
    using assms multi_get_with_changed [OF d, of k]
    by (auto simp: multi_update1_alt [OF d] Let_def om_simps get_update get_delete loose_eq_refl)
qed

lemma multi_update1_noop:
  "loose_eq (multi_get m k) (convertValueType (multi_getDefault m k) v) \<Longrightarrow>
   multi_get (multi_update1 k v m) k' = multi_get m k'"
  using with_changed_Some [of m] by (auto simp: multi_update1_alt Let_def om_simps)

interpretation multi: options_manager multi_get multi_getDefault multi_update1
  by unfold_locales
    (simp_all add: multi_getDefault_update1 multi_get_update1_other multi_get_update1_same
      multi_update1_noop)


section \<open>Defaults that arrive from the daemon\<close>

lemma getDefault_stored:
  "multi_getDefault (m\<lparr>stored := AList.update (id_key m) d x\<rparr>) opt =
     (if isEmpty (js_get d opt) False then js_get (options m) opt else js_get d opt)"
  by (simp add: multi_getDefault_def multi_has_def om_simps AList.update_conv')

lemma isDirty_stored [om_simps]: "multi_isDirty (m\<lparr>stored := x\<rparr>) opt = multi_isDirty m opt"
  by (simp add: multi_isDirty_def om_simps)

lemma getDefault_cases:
  "multi_getDefault m opt =
     (let d = (case cur_stored m of None \<Rightarrow> [] | Some d \<Rightarrow> d)
      in if isEmpty (js_get d opt) False then js_get (options m) opt else js_get d opt)"
  by (simp add: multi_getDefault_def multi_has_def split: option.split)

lemma setDefault1_frame [om_simps]:
  "multi_isDirty (setDefault1 k v m) opt = multi_isDirty m opt"
  "cur_changed (setDefault1 k v m) = cur_changed m" "options (setDefault1 k v m) = options m"
  "currentId (setDefault1 k v m) = currentId m"
  by (simp_all add: setDefault1_def Let_def om_simps)

lemma setDefault1_other:
  "k' \<noteq> k \<Longrightarrow> multi_getDefault (setDefault1 k v m) k' = multi_getDefault m k'"
  by (simp add: setDefault1_def Let_def om_simps getDefault_stored get_update)
     (simp add: getDefault_cases)

lemma setDefault1_same:
  assumes "\<not> isEmpty (convertValueType (multi_getDefault m k) v) False"
    and "convertValueType (multi_getDefault m k) v \<noteq> Num NaN"
  shows "loose_eq (multi_getDefault (setDefault1 k v m) k) (convertValueType (multi_getDefault m k) v)"
  using assms
  by (auto simp: setDefault1_def Let_def om_simps getDefault_stored get_update loose_eq_refl)

lemma setDefaults_dirty [om_simps]:
  "multi_isDirty (fold (\<lambda>(k, v). setDefault1 k v) kvs m) opt = multi_isDirty m opt"
  "cur_changed (fold (\<lambda>(k, v). setDefault1 k v) kvs m) = cur_changed m"
  by (rule fold_projection, auto simp: om_simps)+

lemma setDefaults_frame:
  "opt \<notin> fst ` set kvs \<Longrightarrow>
   multi_getDefault (fold (\<lambda>(k, v). setDefault1 k v) kvs m) opt = multi_getDefault m opt"
  by (induction kvs arbitrary: m) (auto simp: setDefault1_other)

lemma setDefaults_get:
  assumes "wf_dict kvs" and "(opt, v) \<in> set kvs"
    and "\<not> isEmpty (convertValueType (multi_getDefault m opt) v) False"
    and "convertValueType (multi_getDefault m opt) v \<noteq> Num NaN"
  shows "loose_eq (multi_getDefault (fold (\<lambda>(k, v). setDefault1 k v) kvs m) opt)
           (convertValueType (multi_getDefault m opt) v)"
  using assms
proof (induction kvs arbitrary: m)
  case Nil
  then show ?case by simp
next
  case (Cons kv kvs)
  obtain k w where kv: "kv = (k, w)" by (cases kv)
  show ?case
  proof (cases "k = opt")
    case True
    then have "w = v" "opt \<notin> fst ` set kvs" using Cons.prems kv
      by (auto simp: image_iff rev_image_eqI)
    then show ?thesis using Cons.prems kv True by (simp add: setDefaults_frame setDefault1_same)
  next
    case False
    then show ?thesis
      using Cons.IH [of "setDefault1 k w m"] Cons.prems kv by (simp add: setDefault1_other)
  qed
qed

lemma setDefault_dict_fold:
  "\<forall>(k, v) \<in> set kvs. v \<noteq> Undefined \<Longrightarrow>
   setDefault (OptDict kvs) Undefined m = fold (\<lambda>(k, v). setDefault1 k v) kvs m"
proof -
  assume "\<forall>(k, v) \<in> set kvs. v \<noteq> Undefined"
  then have "fold setDefault_entry kvs m = fold (\<lambda>(k, v). setDefault1 k v) kvs m"
    by (intro fold_cong) (auto simp: setDefault_entry_def fun_eq_iff)
  then show ?thesis by simp
qed

section \<open>One torrent at a time\<close>

text \<open>What another id reads: the same options over its own stored and changed values.\<close>

definition reads_as :: "mom \<Rightarrow> string \<Rightarrow> string \<Rightarrow> jsval" where
  "reads_as m i opt = multi_get (changeId (Some i) True m) opt"

lemma reads_as_eq:
  "options m' = options m \<Longrightarrow> map_of (stored m') i = map_of (stored m) i \<Longrightarrow>
   map_of (mchanged m') i = map_of (mchanged m) i \<Longrightarrow> reads_as m' i opt = reads_as m i opt"
  by (simp add: reads_as_def changeId_def multi_get_def multi_isDirty_def multi_getDefault_def
      multi_has_def cur_changed_def cur_stored_def id_key_def)

lemma multi_update1_frame:
  "options (multi_update1 k v m) = options m" "currentId (multi_update1 k v m) = currentId m"
  "stored (multi_update1 k v m) = stored m"
  "i \<noteq> id_key m \<Longrightarrow> map_of (mchanged (multi_update1 k v m)) i = map_of (mchanged m) i"
  by (simp_all add: multi_update1_def Let_def om_simps AList.update_conv' split: option.split)

lemma setDefault1_stored_frame:
  "mchanged (setDefault1 k v m) = mchanged m"
  "i \<noteq> id_key m \<Longrightarrow> map_of (stored (setDefault1 k v m)) i = map_of (stored m) i"
  by (simp_all add: setDefault1_def Let_def om_simps AList.update_conv')

text \<open>Everything an edit under the current id leaves alone.\<close>

definition same_elsewhere :: "mom \<Rightarrow> mom \<Rightarrow> bool" where
  "same_elsewhere m m' \<longleftrightarrow> options m' = options m \<and> currentId m' = currentId m \<and>
     (\<forall>i. i \<noteq> id_key m \<longrightarrow> map_of (stored m') i = map_of (stored m) i \<and>
                            map_of (mchanged m') i = map_of (mchanged m) i)"

lemma same_elsewhere_refl: "same_elsewhere m m"
  by (simp add: same_elsewhere_def)

lemma same_elsewhere_trans:
  "same_elsewhere a b \<Longrightarrow> same_elsewhere b c \<Longrightarrow> same_elsewhere a c"
  by (auto simp: same_elsewhere_def id_key_def)

lemma same_elsewhere_update1: "same_elsewhere m (multi_update1 k v m)"
  by (simp add: same_elsewhere_def multi_update1_frame)

lemma same_elsewhere_setDefault1: "same_elsewhere m (setDefault1 k v m)"
  by (simp add: same_elsewhere_def setDefault1_stored_frame om_simps)

lemma same_elsewhere_fold:
  assumes "\<And>x m. same_elsewhere m (f x m)"
  shows "same_elsewhere m (fold f xs m)"
proof (induction xs arbitrary: m)
  case Nil
  then show ?case by (simp add: same_elsewhere_refl)
next
  case (Cons x xs)
  then show ?case using assms same_elsewhere_trans by simp blast
qed

lemma same_elsewhere_pairs:
  assumes "\<And>k v m. same_elsewhere m (f k v m)"
  shows "same_elsewhere m (fold (\<lambda>(k, v). f k v) kvs m)"
  by (rule same_elsewhere_fold) (auto simp: assms)

lemma same_elsewhere_update: "same_elsewhere m (multi_update a v m)"
proof -
  have entry: "same_elsewhere m (multi_update_entry kv m)" for kv m
    by (simp add: multi_update_entry_def same_elsewhere_pairs same_elsewhere_update1)
  show ?thesis
    by (cases a) (simp_all add: entry same_elsewhere_refl same_elsewhere_update1 same_elsewhere_fold)
qed

lemma same_elsewhere_setDefault: "same_elsewhere m (setDefault a v m)"
proof -
  have entry: "same_elsewhere m (setDefault_entry kv m)" for kv m
    by (simp add: setDefault_entry_def same_elsewhere_pairs same_elsewhere_setDefault1)
  show ?thesis
    by (cases a) (simp_all add: entry same_elsewhere_refl same_elsewhere_setDefault1 same_elsewhere_fold)
qed

section \<open>Properties\<close>

text \<open>C12: torrents do not see each other's options.  Whatever is updated, or arrives as a default,
  while one torrent is the current one, every other torrent reads every option as before.\<close>

theorem multi_ids_isolated:
  assumes "i \<noteq> id_key m"
  shows "reads_as (multi_update a v m) i opt = reads_as m i opt \<and>
         reads_as (setDefault a v m) i opt = reads_as m i opt"
  using assms same_elsewhere_update [of m a v] same_elsewhere_setDefault [of m a v]
  by (auto simp: same_elsewhere_def intro!: reads_as_eq)

theorem multi_ids_isolated_witness:
  "let m = changeId (Some ''t1'') True (multi_new (Some [(''max_upload_speed'', num 5)]))
   in reads_as (multi_update (OptName ''max_upload_speed'') (num 9) m) ''t2'' ''max_upload_speed'' =
        reads_as m ''t2'' ''max_upload_speed'' \<and>
      reads_as m ''t2'' ''max_upload_speed'' = num 5"
proof -
  define m where "m = changeId (Some ''t1'') True (multi_new (Some [(''max_upload_speed'', num 5)]))"
  have k: "''t2'' \<noteq> id_key m" by (simp add: m_def changeId_def id_key_def)
  have "reads_as m ''t2'' ''max_upload_speed'' = num 5" unfolding m_def by code_simp
  then show ?thesis
    using multi_ids_isolated [OF k, of "OptName ''max_upload_speed''" "num 9" "''max_upload_speed''"]
    unfolding Let_def m_def [symmetric] by blast
qed

text \<open>A status answer refreshes what is not being edited and keeps what is.  After the
  daemon's values for the current torrent are set as defaults, an option nobody has edited reads
  as its (converted) new value, an edited one still reads as the edit, and no option becomes
  edited or stops being so.\<close>

theorem setDefault_refreshes:
  assumes "wf_dict kvs" and "\<forall>(k, v) \<in> set kvs. v \<noteq> Undefined" and "(opt, v) \<in> set kvs"
    and "\<not> isEmpty (convertValueType (multi_getDefault m opt) v) False"
    and "convertValueType (multi_getDefault m opt) v \<noteq> Num NaN"
  shows "(if multi_isDirty m opt
          then multi_get (setDefault (OptDict kvs) Undefined m) opt = multi_get m opt
          else loose_eq (multi_get (setDefault (OptDict kvs) Undefined m) opt)
                        (convertValueType (multi_getDefault m opt) v)) \<and>
         (\<forall>k. multi_isDirty (setDefault (OptDict kvs) Undefined m) k = multi_isDirty m k)"
  unfolding setDefault_dict_fold [OF assms(2)]
  using setDefaults_get [OF assms(1,3,4,5)] by (simp add: multi_get_def om_simps)

theorem setDefault_refreshes_witness:
  "let m = multi_update (OptName ''stop_ratio'') (num 3)
             (changeId (Some ''t1'') True (multi_new (Some [(''stop_ratio'', num 2), (''private'', Bool False)])));
       m' = setDefault (OptDict [(''stop_ratio'', num 4), (''private'', Bool True)]) Undefined m
   in multi_get m' ''stop_ratio'' = num 3 \<and> loose_eq (multi_get m' ''private'') (Bool True)"
proof -
  define m where "m = multi_update (OptName ''stop_ratio'') (num 3)
    (changeId (Some ''t1'') True (multi_new (Some [(''stop_ratio'', num 2), (''private'', Bool False)])))"
  define kvs where "kvs = [(''stop_ratio'', num 4), (''private'', Bool True)]"
  have facts: "multi_isDirty m ''stop_ratio''" "\<not> multi_isDirty m ''private''"
    "multi_get m ''stop_ratio'' = num 3"
    "convertValueType (multi_getDefault m ''stop_ratio'') (num 4) = num 4"
    "convertValueType (multi_getDefault m ''private'') (Bool True) = Bool True"
    unfolding m_def by code_simp+
  have "multi_get (setDefault (OptDict kvs) Undefined m) ''stop_ratio'' = num 3"
    using setDefault_refreshes [of kvs "''stop_ratio''" "num 4" m] facts by (simp add: kvs_def)
  moreover have "loose_eq (multi_get (setDefault (OptDict kvs) Undefined m) ''private'') (Bool True)"
    using setDefault_refreshes [of kvs "''private''" "Bool True" m] facts by (simp add: kvs_def)
  ultimately show ?thesis by (simp add: Let_def m_def kvs_def)
qed

text \<open>An edit of the current torrent's options reads back, converted to the type of the
  value the torrent has, and touches no other option and no default.\<close>

theorem multi_update_reads_back:
  assumes "\<not> isEmpty (convertValueType (multi_getDefault m opt) v) False"
    and "convertValueType (multi_getDefault m opt) v \<noteq> Num NaN" and "v \<noteq> Undefined"
  shows "loose_eq (multi_get (multi_update (OptName opt) v m) opt)
           (convertValueType (multi_getDefault m opt) v) \<and>
         (\<forall>k. k \<noteq> opt \<longrightarrow> multi_get (multi_update (OptName opt) v m) k = multi_get m k) \<and>
         (\<forall>k. multi_getDefault (multi_update (OptName opt) v m) k = multi_getDefault m k) \<and>
         (\<forall>k. multi_get (multi_update (OptName opt) v (multi_update (OptName opt) v m)) k =
              multi_get (multi_update (OptName opt) v m) k)"
  using assms
  by (simp add: multi_update_entry_def multi.get_update_same multi.get_update_other
      multi.getDefault_update multi.update_twice)

theorem multi_update_reads_back_witness:
  "loose_eq (multi_get (multi_update (OptName ''max_connections'') (Str ''50'')
      (multi_new (Some [(''max_connections'', num 0)]))) ''max_connections'') (num 50)"
proof -
  define m where "m = multi_new (Some [(''max_connections'', num 0)])"
  have c: "convertValueType (multi_getDefault m ''max_connections'') (Str ''50'') = num 50"
    unfolding m_def by code_simp
  show ?thesis using multi_update_reads_back [of m "''max_connections''" "Str ''50''"]
    unfolding c m_def [symmetric] by simp
qed

text \<open>Committing forgets the edits instead of making them the torrent's values.  \<open>commit\<close>
  stores the edited values and then calls \<open>reset\<close>, which deletes what is stored for the id, so
  afterwards every option of the torrent reads as the manager's built-in default.\<close>

theorem multi_commit_forgets:
  "multi_get (multi_commit m) opt = js_get (options m) opt \<and> multi_getDirty (multi_commit m) = [] \<and>
   multi_has (multi_commit m) opt = False"
  by (simp add: multi_commit_def multi_reset_def multi_get_def multi_isDirty_def multi_getDefault_def
      multi_has_def multi_getDirty_def cur_stored_def cur_changed_def id_key_def AList.delete_conv'
      split: option.split)

end
