(* ===== verification/TorrentOptions.thy ===== *)
theory TorrentOptions
  imports "HOL-Library.Word" TrackerSweep MultiOptionsManager
begin

text \<open>
  \<open>details/OptionsTab.js\<close>: the options of the selected torrent, kept by a manager of options per torrent, and
  what the daemon makes of what Apply sends (\<open>apply_torrent_options\<close>, \<open>status_with_peers\<close>).  A field is known
  to the manager by its place among \<open>tab_options\<close>.  When the manager gives a check box a value the box tells
  the manager so, which has that value already; only the box of \<open>private\<close> is given one by the tab itself.
\<close>

section \<open>The tab\<close>

definition tab_options :: "jsval dict" where
  "tab_options =
     [(''max_download_speed'', num (-1)), (''max_upload_speed'', num (-1)), (''max_connections'', num (-1)), (''max_upload_slots'', num (-1)),
      (''auto_managed'', Bool False), (''stop_at_ratio'', Bool False), (''stop_ratio'', num 2), (''remove_at_ratio'', Bool False),
      (''move_completed'', Bool False), (''move_completed_path'', Str []), (''private'', Bool False), (''prioritize_first_last'', Bool False),
      (''super_seeding'', Bool False), (''label'', Str [])]"

text \<open>Answers that are awaited: of \<open>get_torrent_status\<close> and of \<open>set_torrent_options\<close>.\<close>

datatype tab_ask = AskStatus string | AskApply

record opt_tab =
  ot_torrentId :: "string option"
  ot_mom :: mom
  ot_ratio_off :: bool
  ot_path_off :: bool
  ot_asks :: "tab_ask list"
  ot_sent :: "(string option \<times> jsval dict) list"

definition opt_tab_new :: opt_tab where
  "opt_tab_new =
     \<lparr>ot_torrentId = None,
      ot_mom = fold (\<lambda>(i, name, v). om_bind name i) (enumerate 0 tab_options) (multi_new (Some tab_options)),
      ot_ratio_off = True, ot_path_off = True, ot_asks = [], ot_sent = []\<rparr>"

definition box_checked :: "jsval \<Rightarrow> bool" where
  "box_checked v \<longleftrightarrow> v \<noteq> Bool False \<and> (v = Bool True \<or> v = Str ''true'' \<or> loose_eq v (Str ''1'') \<or> to_lower (js_string v) = ''on'')"

text \<open>The handlers \<open>onStopRatioChecked\<close> and \<open>onMoveCompletedChecked\<close> run when their boxes change.\<close>

definition box_changed :: "nat \<Rightarrow> mom \<Rightarrow> mom \<Rightarrow> bool \<Rightarrow> bool" where
  "box_changed f m m' was = (if box_checked (shown m f) \<noteq> box_checked (shown m' f) then \<not> box_checked (shown m' f) else was)"

definition with_mom :: "mom \<Rightarrow> opt_tab \<Rightarrow> opt_tab" where
  "with_mom m t =
     t\<lparr>ot_mom := m, ot_ratio_off := box_changed 5 (ot_mom t) m (ot_ratio_off t), ot_path_off := box_changed 8 (ot_mom t) m (ot_path_off t)\<rparr>"

definition ot_clear :: "opt_tab \<Rightarrow> opt_tab" where
  "ot_clear t =
     (if ot_torrentId t = None then t else with_mom (changeId None False (ot_mom t)) (t\<lparr>ot_torrentId := None\<rparr>))"

definition truthy_id :: "string option \<Rightarrow> bool" where
  "truthy_id i \<longleftrightarrow> i \<noteq> None \<and> i \<noteq> Some []"

definition ot_reset :: "opt_tab \<Rightarrow> opt_tab" where
  "ot_reset t = (if truthy_id (ot_torrentId t) then with_mom (multi_reset (ot_mom t)) t else t)"

definition ot_update :: "string option \<Rightarrow> opt_tab \<Rightarrow> opt_tab" where
  "ot_update i t0 =
     (let t = (if truthy_id (ot_torrentId t0) \<and> \<not> truthy_id i then ot_clear t0 else t0)
      in if \<not> truthy_id i then t
         else let t = (if ot_torrentId t \<noteq> i then with_mom (changeId i False (ot_mom t)) (t\<lparr>ot_torrentId := i\<rparr>) else t)
              in t\<lparr>ot_asks := ot_asks t @ [AskStatus (the i)]\<rparr>)"

definition ot_onApply :: "opt_tab \<Rightarrow> opt_tab" where
  "ot_onApply t =
     t\<lparr>ot_sent := ot_sent t @ [(ot_torrentId t, multi_getDirty (ot_mom t))], ot_asks := ot_asks t @ [AskApply]\<rparr>"

definition set_private :: "jsval \<Rightarrow> mom \<Rightarrow> mom" where
  "set_private v m =
     (let checked = box_checked v; m' = m\<lparr>shown := (shown m)(10 := Bool checked)\<rparr>
      in if checked \<noteq> box_checked (shown m 10) then multi_update (OptName ''private'') (Bool checked) m' else m')"

definition tab_dict :: "jsval dict \<Rightarrow> jsval dict" where
  "tab_dict torrent =
     (let torrent = AList.delete ''private'' torrent;
          torrent = AList.update ''auto_managed'' (js_get torrent ''is_auto_managed'') torrent
      in AList.update ''prioritize_first_last_pieces'' (js_get torrent ''prioritize_first_last'') torrent)"

definition ot_onRequestComplete :: "jsval dict \<Rightarrow> opt_tab \<Rightarrow> opt_tab" where
  "ot_onRequestComplete torrent t =
     (let m = setDefault (OptDict (tab_dict torrent)) Undefined (set_private (js_get torrent ''private'') (ot_mom t))
      in (with_mom m t)\<lparr>ot_ratio_off := \<not> truthy (multi_get m ''stop_at_ratio''),
           ot_path_off := \<not> truthy (multi_get m ''move_completed'')\<rparr>)"

definition ot_answer :: "nat \<Rightarrow> jsval dict \<Rightarrow> opt_tab \<Rightarrow> opt_tab" where
  "ot_answer i d t =
     (let t' = t\<lparr>ot_asks := take i (ot_asks t) @ drop (Suc i) (ot_asks t)\<rparr>
      in case ot_asks t ! i of
           AskStatus _ \<Rightarrow> ot_onRequestComplete d t'
         | AskApply \<Rightarrow> with_mom (multi_commit (ot_mom t')) t')"

text \<open>The user gives a field a value.\<close>

definition ot_edit :: "nat \<Rightarrow> jsval \<Rightarrow> opt_tab \<Rightarrow> opt_tab" where
  "ot_edit f v t =
     (case doption (ot_mom t) f of
        None \<Rightarrow> t
      | Some option \<Rightarrow> with_mom (multi_update (OptName option) v ((ot_mom t)\<lparr>shown := (shown (ot_mom t))(f := v)\<rparr>)) t)"

section \<open>The daemon\<close>

text \<open>A torrent's options as the daemon keeps them, and what it has told libtorrent.\<close>

record daemon_torrent =
  t_max_connections :: int
  t_max_upload_slots :: int
  t_max_download_speed :: rat
  t_max_upload_speed :: rat
  t_auto_managed :: bool
  t_sequential :: bool
  t_super_seeding :: bool
  t_first_last :: bool
  t_stop_at_ratio :: bool
  t_stop_ratio :: rat
  t_remove_at_ratio :: bool
  t_move_completed :: bool
  t_move_completed_path :: "string option"
  t_file_priorities :: "int list"
  t_label :: string
  t_owner :: string
  t_shared :: bool
  t_name :: "string option"
  lt_connections :: int
  lt_uploads :: int
  lt_download :: int
  lt_upload :: int
  lt_auto_managed :: bool
  lt_sequential :: bool
  lt_super_seeding :: bool
  lt_save_path :: string

text \<open>Numbers travel as JSON: a whole number in the range of 64 bits arrives as an integer, any other as a float, and
  what is no number as null.\<close>

definition as_i64 :: "jsval \<Rightarrow> int option" where
  "as_i64 v =
     (case v of
        Num (Fin q) \<Rightarrow> if of_int \<lfloor>q\<rfloor> = q \<and> - (2 ^ 63) \<le> \<lfloor>q\<rfloor> \<and> \<lfloor>q\<rfloor> < 2 ^ 63 then Some \<lfloor>q\<rfloor> else None
      | _ \<Rightarrow> None)"

definition as_f64 :: "jsval \<Rightarrow> rat option" where
  "as_f64 v = (case v of Num (Fin q) \<Rightarrow> Some q | _ \<Rightarrow> None)"

definition as_bool :: "jsval \<Rightarrow> bool option" where
  "as_bool v = (case v of Bool b \<Rightarrow> Some b | _ \<Rightarrow> None)"

definition as_str :: "jsval \<Rightarrow> string option" where
  "as_str v = (case v of Str s \<Rightarrow> Some s | _ \<Rightarrow> None)"

definition unwrap_or :: "'a option \<Rightarrow> 'a \<Rightarrow> 'a" where
  "unwrap_or x dflt = (case x of None \<Rightarrow> dflt | Some v \<Rightarrow> v)"

definition as_i32 :: "int \<Rightarrow> int" where
  "as_i32 n = sint (word_of_int n :: 32 word)"

definition kib_to_bytes :: "rat \<Rightarrow> int" where
  "kib_to_bytes speed = (if speed < 0 then -1 else \<lfloor>min (speed * 1024) (2 ^ 31 - 1)\<rfloor>)"

text \<open>One entry of \<open>core.set_torrent_options\<close>.\<close>

definition apply_option :: "string \<Rightarrow> jsval \<Rightarrow> daemon_torrent \<Rightarrow> daemon_torrent" where
  "apply_option key v t =
     (if key = ''max_connections''
      then (let limit = unwrap_or (as_i64 v) (-1) in t\<lparr>t_max_connections := limit, lt_connections := as_i32 limit\<rparr>)
      else if key = ''max_upload_slots''
      then (let limit = unwrap_or (as_i64 v) (-1) in t\<lparr>t_max_upload_slots := limit, lt_uploads := as_i32 limit\<rparr>)
      else if key = ''max_download_speed''
      then (let limit = unwrap_or (as_f64 v) (-1) in t\<lparr>t_max_download_speed := limit, lt_download := kib_to_bytes limit\<rparr>)
      else if key = ''max_upload_speed''
      then (let limit = unwrap_or (as_f64 v) (-1) in t\<lparr>t_max_upload_speed := limit, lt_upload := kib_to_bytes limit\<rparr>)
      else if key = ''sequential_download'' then (let on = unwrap_or (as_bool v) False in t\<lparr>t_sequential := on, lt_sequential := on\<rparr>)
      else if key = ''super_seeding'' then (let on = unwrap_or (as_bool v) False in t\<lparr>t_super_seeding := on, lt_super_seeding := on\<rparr>)
      else if key = ''auto_managed'' then (let on = unwrap_or (as_bool v) True in t\<lparr>t_auto_managed := on, lt_auto_managed := on\<rparr>)
      else if key = ''file_priorities''
      then (case v of
              Arr _ items \<Rightarrow> t\<lparr>t_file_priorities := map (\<lambda>p. max 0 (min 7 p)) (List.map_filter as_i64 items)\<rparr>
            | _ \<Rightarrow> t)
      else if key = ''stop_at_ratio'' then t\<lparr>t_stop_at_ratio := unwrap_or (as_bool v) False\<rparr>
      else if key = ''stop_ratio'' then t\<lparr>t_stop_ratio := unwrap_or (as_f64 v) 2\<rparr>
      else if key = ''remove_at_ratio'' then t\<lparr>t_remove_at_ratio := unwrap_or (as_bool v) False\<rparr>
      else if key = ''move_completed'' then t\<lparr>t_move_completed := unwrap_or (as_bool v) False\<rparr>
      else if key = ''move_completed_path'' then t\<lparr>t_move_completed_path := as_str v\<rparr>
      else if key = ''label'' then t\<lparr>t_label := normalise_label (unwrap_or (as_str v) [])\<rparr>
      else if key = ''owner'' then t\<lparr>t_owner := unwrap_or (as_str v) []\<rparr>
      else if key = ''prioritize_first_last_pieces'' then t\<lparr>t_first_last := unwrap_or (as_bool v) False\<rparr>
      else if key = ''shared'' then t\<lparr>t_shared := unwrap_or (as_bool v) False\<rparr>
      else if key = ''name'' then t\<lparr>t_name := as_str v\<rparr>
      else t)"

definition apply_torrent_options :: "jsval dict \<Rightarrow> daemon_torrent \<Rightarrow> daemon_torrent" where
  "apply_torrent_options entries t = fold (\<lambda>(key, v). apply_option key v) entries t"

text \<open>The status for the keys the tab asks for; what the idle rule and the disk-space rule add is \<open>extra\<close>.\<close>

definition options_status :: "daemon_torrent \<Rightarrow> jsval dict \<Rightarrow> jsval dict" where
  "options_status t extra =
     [(''max_download_speed'', num (t_max_download_speed t)), (''max_upload_speed'', num (t_max_upload_speed t)),
      (''max_connections'', num (of_int (t_max_connections t))), (''max_upload_slots'', num (of_int (t_max_upload_slots t))),
      (''is_auto_managed'', Bool (lt_auto_managed t)), (''stop_at_ratio'', Bool (t_stop_at_ratio t)), (''stop_ratio'', num (t_stop_ratio t)),
      (''remove_at_ratio'', Bool (t_remove_at_ratio t)), (''private'', Bool False), (''prioritize_first_last'', Bool (t_first_last t)),
      (''move_completed'', Bool (t_move_completed t)), (''move_completed_path'', Str (unwrap_or (t_move_completed_path t) (lt_save_path t))),
      (''super_seeding'', Bool (lt_super_seeding t)), (''label'', Str (t_label t))] @ extra"

section \<open>What Apply does\<close>

lemma with_mom_simps [simp]:
  "ot_mom (with_mom m t) = m" "ot_torrentId (with_mom m t) = ot_torrentId t" "ot_asks (with_mom m t) = ot_asks t"
  "ot_sent (with_mom m t) = ot_sent t"
  by (simp_all add: with_mom_def)

lemma onApply_simps [simp]:
  "ot_mom (ot_onApply t) = ot_mom t" "ot_torrentId (ot_onApply t) = ot_torrentId t" "ot_asks (ot_onApply t) = ot_asks t @ [AskApply]"
  "ot_sent (ot_onApply t) = ot_sent t @ [(ot_torrentId t, multi_getDirty (ot_mom t))]"
  by (simp_all add: ot_onApply_def)

lemma ot_edit_simps [simp]:
  "ot_torrentId (ot_edit f v t) = ot_torrentId t" "ot_asks (ot_edit f v t) = ot_asks t" "ot_sent (ot_edit f v t) = ot_sent t"
  by (simp_all add: ot_edit_def split: option.split)

text \<open>Showing a manager's values changes nothing it keeps.\<close>

lemma show_option_frame [simp]:
  "currentId (multi_show_option k m) = currentId m" "stored (multi_show_option k m) = stored m" "mchanged (multi_show_option k m) = mchanged m"
  "options (multi_show_option k m) = options m" "binds (multi_show_option k m) = binds m" "doption (multi_show_option k m) = doption m"
  by (auto simp: multi_show_option_def intro: fold_projection split: option.split)

lemma show_options_frame [simp]:
  "currentId (fold (\<lambda>(k, v). multi_show_option k) xs m) = currentId m" "stored (fold (\<lambda>(k, v). multi_show_option k) xs m) = stored m"
  "mchanged (fold (\<lambda>(k, v). multi_show_option k) xs m) = mchanged m" "options (fold (\<lambda>(k, v). multi_show_option k) xs m) = options m"
  "binds (fold (\<lambda>(k, v). multi_show_option k) xs m) = binds m" "doption (fold (\<lambda>(k, v). multi_show_option k) xs m) = doption m"
  by (rule fold_projection, force)+

lemma changeId_frame [simp]:
  "currentId (changeId i d m) = i" "stored (changeId i d m) = stored m" "mchanged (changeId i d m) = mchanged m" "options (changeId i d m) = options m"
  "binds (changeId i d m) = binds m" "doption (changeId i d m) = doption m"
  by (simp_all add: changeId_def Let_def)

text \<open>Edits of one torrent leave what another has.\<close>

lemma edit_elsewhere:
  "currentId (ot_mom (ot_edit f v t)) = currentId (ot_mom t) \<and> options (ot_mom (ot_edit f v t)) = options (ot_mom t) \<and>
   (i \<noteq> id_key (ot_mom t) \<longrightarrow> map_of (mchanged (ot_mom (ot_edit f v t))) i = map_of (mchanged (ot_mom t)) i)"
proof (cases "doption (ot_mom t) f")
  case (Some k)
  let ?m = "(ot_mom t)\<lparr>shown := (shown (ot_mom t))(f := v)\<rparr>"
  have "same_elsewhere ?m (multi_update (OptName k) v ?m)" by (rule same_elsewhere_update)
  then show ?thesis using Some by (simp add: ot_edit_def same_elsewhere_def id_key_def)
qed (simp add: ot_edit_def)

lemma edits_elsewhere:
  "currentId (ot_mom (fold (\<lambda>(f, v). ot_edit f v) es t)) = currentId (ot_mom t) \<and>
   (i \<noteq> id_key (ot_mom t) \<longrightarrow> map_of (mchanged (ot_mom (fold (\<lambda>(f, v). ot_edit f v) es t))) i = map_of (mchanged (ot_mom t)) i)"
proof (induction es arbitrary: t)
  case (Cons e es)
  obtain f v where e: "e = (f, v)" by (cases e)
  show ?case using Cons.IH [of "ot_edit f v t"] edit_elsewhere [of f v t i] by (simp add: e id_key_def)
qed simp

lemma edits_simps [simp]:
  "ot_torrentId (fold (\<lambda>(f, v). ot_edit f v) es t) = ot_torrentId t" "ot_asks (fold (\<lambda>(f, v). ot_edit f v) es t) = ot_asks t"
  "ot_sent (fold (\<lambda>(f, v). ot_edit f v) es t) = ot_sent t"
  by (auto intro: fold_projection)

text \<open>C34: The answer to Apply commits whatever torrent is shown by then: the edits of the torrent chosen since are gone
  without having been sent, and the torrent that was applied keeps its edits for unsaved ones.\<close>

lemma apply_hits_next_torrent:
  assumes "ot_torrentId t = Some a" "currentId (ot_mom t) = Some a" "a \<noteq> []" "b \<noteq> a" "b \<noteq> []" "ot_asks t = []"
  shows "let t' = fold (\<lambda>(f, v). ot_edit f v) edits (ot_update (Some b) (ot_onApply t)); u = ot_answer 0 [] t'
    in ot_torrentId u = Some b \<and> multi_getDirty (ot_mom u) = [] \<and> ot_sent u = ot_sent t @ [(Some a, multi_getDirty (ot_mom t))] \<and>
       multi_getDirty (changeId (Some a) True (ot_mom u)) = multi_getDirty (ot_mom t)"
proof -
  let ?s = "ot_update (Some b) (ot_onApply t)"
  let ?t = "fold (\<lambda>(f, v). ot_edit f v) edits ?s"
  have s: "currentId (ot_mom ?s) = Some b" "mchanged (ot_mom ?s) = mchanged (ot_mom t)" "ot_torrentId ?s = Some b"
    "ot_asks ?s = [AskApply, AskStatus b]" "ot_sent ?s = ot_sent t @ [(Some a, multi_getDirty (ot_mom t))]"
    using assms by (simp_all add: ot_update_def truthy_id_def Let_def)
  have m: "currentId (ot_mom ?t) = Some b" "map_of (mchanged (ot_mom ?t)) a = map_of (mchanged (ot_mom t)) a"
    using edits_elsewhere [of edits ?s a] s assms(4) by (simp_all add: id_key_def)
  have u: "ot_mom (ot_answer 0 [] ?t) = multi_commit (ot_mom ?t)" "ot_torrentId (ot_answer 0 [] ?t) = Some b"
    "ot_sent (ot_answer 0 [] ?t) = ot_sent t @ [(Some a, multi_getDirty (ot_mom t))]"
    using s by (simp_all add: ot_answer_def Let_def)
  have c: "currentId (multi_commit m) = currentId m" "mchanged (multi_commit m) = AList.delete (id_key m) (mchanged m)" for m
    by (simp_all add: multi_commit_def multi_reset_def id_key_def split: option.split)
  have "map_of (mchanged (multi_commit (ot_mom ?t))) a = map_of (mchanged (ot_mom t)) a"
    using m assms(4) by (simp add: c AList.delete_conv' id_key_def)
  then show ?thesis using m assms(2)
    by (simp add: Let_def u multi_getDirty_def cur_changed_def id_key_def c AList.delete_conv')
qed

section \<open>What the daemon takes\<close>

lemma apply_first_last: "key \<noteq> ''prioritize_first_last_pieces'' \<Longrightarrow> t_first_last (apply_option key v t) = t_first_last t"
  by (simp add: apply_option_def Let_def split: jsval.split)

text \<open>The manager's fields stay those of the tab, and nothing but their options is ever changed.\<close>

definition tab_keys :: "jsval dict \<Rightarrow> bool" where
  "tab_keys d \<longleftrightarrow> fst ` set d \<subseteq> fst ` set tab_options"

lemma tab_keys_simps [simp]:
  "tab_keys []" "tab_keys d \<Longrightarrow> tab_keys (AList.delete k d)" "tab_keys d \<Longrightarrow> k \<in> fst ` set tab_options \<Longrightarrow> tab_keys (AList.update k v d)"
  by (auto simp: tab_keys_def AList.delete_eq dom_update)

definition tab_wired :: "mom \<Rightarrow> bool" where
  "tab_wired m \<longleftrightarrow> options m = tab_options \<and> binds m = binds (ot_mom opt_tab_new) \<and> doption m = doption (ot_mom opt_tab_new) \<and>
     (\<forall>i d. map_of (mchanged m) i = Some d \<longrightarrow> wf_dict d \<and> tab_keys d)"

lemma tab_names: "doption (ot_mom opt_tab_new) f = Some k \<Longrightarrow> k \<in> fst ` set tab_options"
  by (auto simp: opt_tab_new_def tab_options_def multi_new_def om_bind_def binds_of_def split: if_splits)

lemma wired_new: "tab_wired (ot_mom opt_tab_new)"
proof -
  have "mchanged (fold (\<lambda>(i, name, v). om_bind name i) xs m) = mchanged m" "options (fold (\<lambda>(i, name, v). om_bind name i) xs m) = options m"
    for xs :: "(nat \<times> string \<times> jsval) list" and m :: mom by (rule fold_projection, force simp: om_bind_def)+
  then show ?thesis by (simp add: tab_wired_def opt_tab_new_def multi_new_def)
qed

lemma update_dirs: "mchanged (multi_update1 k v m) = mchanged m \<or>
    (\<exists>d. mchanged (multi_update1 k v m) = AList.update (id_key m) d (mchanged (with_changed m)) \<and>
       (\<exists>c. cur_changed (with_changed m) = Some c \<and> (d = AList.delete k c \<or> (\<exists>w. d = AList.update k w c)))) \<or>
    mchanged (multi_update1 k v m) = mchanged (with_changed m)"
proof -
  obtain c where "cur_changed (with_changed m) = Some c" using with_changed_Some by blast
  from multi_update1_alt [OF this] show ?thesis using \<open>cur_changed (with_changed m) = Some c\<close>
    by (auto simp: Let_def om_simps put_changed_def)
qed

lemma wired_update1:
  assumes "tab_wired m" "k \<in> fst ` set tab_options"
  shows "tab_wired (multi_update1 k v m)"
proof -
  have frame: "options (multi_update1 k v m) = options m" "binds (multi_update1 k v m) = binds m" "doption (multi_update1 k v m) = doption m"
    by (simp_all add: multi_update1_def Let_def om_simps split: option.split)
  have w: "wf_dict d \<and> tab_keys d" if "map_of (mchanged (with_changed m)) i = Some d" for i d
    using that assms(1) by (auto simp: with_changed_def tab_wired_def AList.update_conv' split: option.splits if_splits)
  have "wf_dict d \<and> tab_keys d" if "map_of (mchanged (multi_update1 k v m)) i = Some d" for i d
    using update_dirs [of k v m]
  proof (elim disjE exE conjE)
    assume "mchanged (multi_update1 k v m) = mchanged m"
    then show ?thesis using that assms(1) by (simp add: tab_wired_def)
  next
    assume "mchanged (multi_update1 k v m) = mchanged (with_changed m)"
    then show ?thesis using that w by simp
  next
    fix e c
    assume e: "mchanged (multi_update1 k v m) = AList.update (id_key m) e (mchanged (with_changed m))"
      and c: "cur_changed (with_changed m) = Some c" and d: "e = AList.delete k c"
    have "wf_dict c \<and> tab_keys c" using w c by (auto simp: cur_changed_def)
    then have "wf_dict e \<and> tab_keys e" using d wf_delete [of c k] by simp
    then show ?thesis using that e w by (auto simp: AList.update_conv' split: if_splits)
  next
    fix e c x
    assume e: "mchanged (multi_update1 k v m) = AList.update (id_key m) e (mchanged (with_changed m))"
      and c: "cur_changed (with_changed m) = Some c" and d: "e = AList.update k x c"
    have "wf_dict c \<and> tab_keys c" using w c by (auto simp: cur_changed_def)
    then have "wf_dict e \<and> tab_keys e" using d assms(2) by (simp add: distinct_update)
    then show ?thesis using that e w by (auto simp: AList.update_conv' split: if_splits)
  qed
  then show ?thesis using assms(1) frame by (simp add: tab_wired_def)
qed

lemma wired_cong:
  assumes "tab_wired m" "options m' = options m" "binds m' = binds m" "doption m' = doption m"
    "\<And>i d. map_of (mchanged m') i = Some d \<Longrightarrow> map_of (mchanged m) i = Some d"
  shows "tab_wired m'"
proof -
  have "wf_dict d \<and> tab_keys d" if "map_of (mchanged m') i = Some d" for i d
    using assms(1) assms(5) [OF that] unfolding tab_wired_def by blast
  then show ?thesis using assms(1-4) unfolding tab_wired_def by simp
qed

lemma wired_setDefault: "tab_wired m \<Longrightarrow> tab_wired (setDefault (OptDict d) Undefined m)"
proof -
  have one: "tab_wired m \<Longrightarrow> tab_wired (setDefault1 k v m)" for k v m
    by (erule wired_cong) (auto simp: setDefault1_def Let_def om_simps split: if_splits)
  have many: "tab_wired m \<Longrightarrow> tab_wired (fold (\<lambda>(k, v). setDefault1 k v) kvs m)" for kvs m
    by (induction kvs arbitrary: m) (auto simp: one)
  have "tab_wired m \<Longrightarrow> tab_wired (fold setDefault_entry d m)"
    by (induction d arbitrary: m) (auto simp: setDefault_entry_def one many)
  then show "tab_wired m \<Longrightarrow> ?thesis" by simp
qed

lemma wired_update: "tab_wired m \<Longrightarrow> k \<in> fst ` set tab_options \<Longrightarrow> v \<noteq> Undefined \<Longrightarrow> tab_wired (multi_update (OptName k) v m)"
  by (simp add: multi_update_entry_def wired_update1)

lemma wired_shown [simp]: "tab_wired (m\<lparr>shown := x\<rparr>) = tab_wired m"
  by (simp add: tab_wired_def)

lemma wired_private: "tab_wired m \<Longrightarrow> tab_wired (set_private v m)"
  by (auto simp: set_private_def Let_def tab_options_def intro!: wired_update [simplified])

lemma wired_changeId: "tab_wired m \<Longrightarrow> tab_wired (changeId i d m)"
  by (erule wired_cong) simp_all

lemma wired_reset: "tab_wired m \<Longrightarrow> tab_wired (multi_reset m)"
  by (erule wired_cong) (simp_all add: multi_reset_def AList.delete_conv' split: if_splits)

lemma wired_commit: "tab_wired m \<Longrightarrow> tab_wired (multi_commit m)"
  by (auto simp: multi_commit_def intro!: wired_reset intro: wired_cong split: option.split)

lemma wired_dirty: "tab_wired m \<Longrightarrow> wf_dict (multi_getDirty m) \<and> tab_keys (multi_getDirty m)"
  by (auto simp: tab_wired_def multi_getDirty_def cur_changed_def split: option.splits)

text \<open>What can happen to the tab.\<close>

inductive tab_step :: "opt_tab \<Rightarrow> opt_tab \<Rightarrow> bool" where
  step_clear: "tab_step t (ot_clear t)"
| step_reset: "tab_step t (ot_reset t)"
| step_update: "tab_step t (ot_update i t)"
| step_apply: "tab_step t (ot_onApply t)"
| step_answer: "i < length (ot_asks t) \<Longrightarrow> tab_step t (ot_answer i d t)"
| step_edit: "v \<noteq> Undefined \<Longrightarrow> tab_step t (ot_edit f v t)"

definition opt_ok :: "opt_tab \<Rightarrow> bool" where
  "opt_ok t \<longleftrightarrow> tab_wired (ot_mom t) \<and> (\<forall>(i, d) \<in> set (ot_sent t). tab_keys d)"

lemma wired_edit:
  assumes "tab_wired (ot_mom t)" "v \<noteq> Undefined"
  shows "tab_wired (ot_mom (ot_edit f v t))"
proof (cases "doption (ot_mom t) f")
  case (Some k)
  then have "k \<in> fst ` set tab_options" using assms(1) tab_names by (simp add: tab_wired_def)
  then show ?thesis using Some assms wired_update [of "(ot_mom t)\<lparr>shown := (shown (ot_mom t))(f := v)\<rparr>" k v] by (simp add: ot_edit_def)
qed (use assms in \<open>simp add: ot_edit_def\<close>)

lemma opt_ok_step: "tab_step s t \<Longrightarrow> opt_ok s \<Longrightarrow> opt_ok t"
proof (induction rule: tab_step.induct)
  case (step_clear t)
  then show ?case by (auto simp: opt_ok_def ot_clear_def wired_changeId)
next
  case (step_reset t)
  then show ?case by (auto simp: opt_ok_def ot_reset_def wired_reset)
next
  case (step_update t i)
  then show ?case by (auto simp: opt_ok_def ot_update_def ot_clear_def Let_def wired_changeId)
next
  case (step_apply t)
  then show ?case using wired_dirty by (auto simp: opt_ok_def)
next
  case (step_answer i t d)
  then show ?case
    by (auto simp: opt_ok_def ot_answer_def ot_onRequestComplete_def Let_def wired_commit wired_private intro: wired_setDefault [simplified] split: tab_ask.split)
next
  case (step_edit v t f)
  then show ?case using wired_edit by (auto simp: opt_ok_def)
qed

lemma opt_ok_reached: "tab_step\<^sup>*\<^sup>* opt_tab_new t \<Longrightarrow> opt_ok t"
proof (induction rule: rtranclp_induct)
  case base
  show ?case using wired_new by (simp add: opt_ok_def) (simp add: opt_tab_new_def)
qed (simp add: opt_ok_step)

lemma apply_options_first_last:
  "''prioritize_first_last_pieces'' \<notin> fst ` set d \<Longrightarrow> t_first_last (apply_torrent_options d t) = t_first_last t"
  unfolding apply_torrent_options_def by (induction d arbitrary: t) (auto simp: apply_first_last)

text \<open>C35: The box Prioritize First/Last has no effect: whatever is done on the tab, no Apply changes that option of a
  torrent, as the daemon knows it by another name than the one that is sent.\<close>

lemma first_last_ignored:
  assumes "tab_step\<^sup>*\<^sup>* opt_tab_new t" "(i, d) \<in> set (ot_sent t)"
  shows "t_first_last (apply_torrent_options d torrent) = t_first_last torrent"
proof -
  have "tab_keys d" using opt_ok_reached [OF assms(1)] assms(2) by (auto simp: opt_ok_def)
  then have "''prioritize_first_last_pieces'' \<notin> fst ` set d" by (auto simp: tab_keys_def tab_options_def)
  then show ?thesis by (rule apply_options_first_last)
qed

lemma tab_fields:
  "doption (ot_mom opt_tab_new) 2 = Some ''max_connections''" "doption (ot_mom opt_tab_new) 11 = Some ''prioritize_first_last''"
  "\<forall>k. 2 \<in> set (binds_of (ot_mom opt_tab_new) k) \<longrightarrow> k = ''max_connections''" "binds_of (ot_mom opt_tab_new) ''private'' = [10]"
  by (simp_all add: opt_tab_new_def tab_options_def multi_new_def om_bind_def binds_of_def)

text \<open>An edit that differs from what the torrent has is held as a change.\<close>

lemma edit_held:
  assumes "tab_wired (ot_mom t)" "doption (ot_mom t) f = Some k" "v \<noteq> Undefined" "convertValueType (multi_getDefault (ot_mom t) k) v = v"
    "\<not> loose_eq (multi_get (ot_mom t) k) v" "\<not> loose_eq (multi_getDefault (ot_mom t) k) v"
  shows "multi_getDirty (ot_mom (ot_edit f v t)) = AList.update k v (multi_getDirty (ot_mom t))"
proof -
  let ?m = "(ot_mom t)\<lparr>shown := (shown (ot_mom t))(f := v)\<rparr>"
  have m: "multi_getDefault ?m k = multi_getDefault (ot_mom t) k" "multi_get ?m k = multi_get (ot_mom t) k" "multi_getDirty ?m = multi_getDirty (ot_mom t)"
    by (simp_all add: multi_get_def multi_getDefault_def multi_has_def multi_isDirty_def multi_getDirty_def cur_changed_def cur_stored_def id_key_def)
  obtain d where d: "cur_changed (with_changed ?m) = Some d" using with_changed_Some by blast
  have e: "d = multi_getDirty ?m"
    using d by (auto simp: with_changed_def multi_getDirty_def om_simps AList.update_conv' split: option.splits)
  have "multi_getDirty (multi_update1 k v ?m) = AList.update k v d"
    using assms(4-6) m by (simp add: multi_update1_alt [OF d] multi_getDirty_def om_simps put_changed_def AList.update_conv')
  then show ?thesis using assms(2,3) e m by (simp add: ot_edit_def multi_update_entry_def)
qed

definition first_last_tab :: opt_tab where
  "first_last_tab = ot_onApply (ot_edit 11 (Bool True) (ot_update (Some ''t'') opt_tab_new))"

lemma new_tab_reads:
  "multi_getDirty (ot_mom (ot_update (Some i) opt_tab_new)) = []" "multi_getDefault (ot_mom (ot_update (Some i) opt_tab_new)) k = js_get tab_options k"
  "multi_get (ot_mom (ot_update (Some i) opt_tab_new)) k = js_get tab_options k" "tab_wired (ot_mom (ot_update (Some i) opt_tab_new))"
  "doption (ot_mom (ot_update (Some i) opt_tab_new)) = doption (ot_mom opt_tab_new)" "ot_sent (ot_update (Some i) opt_tab_new) = []"
  "i \<noteq> [] \<Longrightarrow> ot_torrentId (ot_update (Some i) opt_tab_new) = Some i"
  "i \<noteq> [] \<Longrightarrow> currentId (ot_mom (ot_update (Some i) opt_tab_new)) = Some i"
proof -
  have n: "mchanged (fold (\<lambda>(i, name, v). om_bind name i) xs m) = mchanged m" "stored (fold (\<lambda>(i, name, v). om_bind name i) xs m) = stored m"
    "options (fold (\<lambda>(i, name, v). om_bind name i) xs m) = options m"
    for xs :: "(nat \<times> string \<times> jsval) list" and m :: mom by (rule fold_projection, force simp: om_bind_def)+
  let ?m = "ot_mom (ot_update (Some i) opt_tab_new)"
  have m: "mchanged ?m = []" "stored ?m = []" "options ?m = tab_options"
    by (simp_all add: ot_update_def opt_tab_new_def truthy_id_def Let_def n multi_new_def ot_clear_def)
  show "multi_getDirty ?m = []" "multi_getDefault ?m k = js_get tab_options k" "multi_get ?m k = js_get tab_options k"
    by (simp_all add: m multi_getDirty_def multi_get_def multi_getDefault_def multi_has_def multi_isDirty_def cur_changed_def cur_stored_def)
  show "tab_wired ?m" using opt_ok_reached [OF r_into_rtranclp, OF step_update] by (simp add: opt_ok_def)
  then show "doption ?m = doption (ot_mom opt_tab_new)" by (simp add: tab_wired_def)
  show "ot_sent (ot_update (Some i) opt_tab_new) = []" "i \<noteq> [] \<Longrightarrow> ot_torrentId (ot_update (Some i) opt_tab_new) = Some i"
    "i \<noteq> [] \<Longrightarrow> currentId ?m = Some i"
    by (simp_all add: ot_update_def opt_tab_new_def truthy_id_def Let_def)
qed

lemma first_last_ignored_witness:
  "ot_sent first_last_tab = [(Some ''t'', [(''prioritize_first_last'', Bool True)])] \<and>
   (\<forall>torrent. t_first_last (apply_torrent_options [(''prioritize_first_last'', Bool True)] torrent) = t_first_last torrent)"
proof -
  let ?t = "ot_update (Some ''t'') opt_tab_new"
  have d: "js_get tab_options ''prioritize_first_last'' = Bool False" by (simp add: tab_options_def js_get_def)
  have l: "\<not> loose_eq (Bool False) (Bool True)" by (simp add: loose_eq_def)
  have c: "convertValueType (Bool False) (Bool True) = Bool True" by (simp add: convertValueType_def)
  have f: "doption (ot_mom ?t) 11 = Some ''prioritize_first_last''" using tab_fields(2) by (simp only: new_tab_reads)
  have "multi_getDirty (ot_mom (ot_edit 11 (Bool True) ?t)) = AList.update ''prioritize_first_last'' (Bool True) []"
    by (rule edit_held [OF new_tab_reads(4) f, of "Bool True", unfolded new_tab_reads(1-3) d, OF _ c l l]) simp
  then have s: "ot_sent first_last_tab = [(Some ''t'', [(''prioritize_first_last'', Bool True)])]"
    by (simp add: first_last_tab_def new_tab_reads)
  have a: "tab_step\<^sup>*\<^sup>* opt_tab_new ?t" by (rule r_into_rtranclp [of tab_step]) (rule step_update)
  have "tab_step ?t (ot_edit 11 (Bool True) ?t)" by (rule step_edit) simp
  from rtranclp.rtrancl_into_rtrancl [of tab_step, OF a this] have b: "tab_step\<^sup>*\<^sup>* opt_tab_new (ot_edit 11 (Bool True) ?t)" .
  have "tab_step\<^sup>*\<^sup>* opt_tab_new first_last_tab"
    unfolding first_last_tab_def by (rule rtranclp.rtrancl_into_rtrancl [of tab_step, OF b]) (rule step_apply)
  from first_last_ignored [OF this] s show ?thesis by simp
qed

section \<open>What comes back\<close>

text \<open>A value the daemon takes for an option as it is.\<close>

definition takes :: "string \<Rightarrow> jsval \<Rightarrow> bool" where
  "takes k v \<longleftrightarrow>
     (case v of
        Num (Fin q) \<Rightarrow> k \<in> {''max_download_speed'', ''max_upload_speed'', ''stop_ratio''} \<or>
          (k \<in> {''max_connections'', ''max_upload_slots''} \<and> as_i64 v \<noteq> None)
      | Bool b \<Rightarrow> k \<in> {''auto_managed'', ''stop_at_ratio'', ''remove_at_ratio'', ''move_completed'', ''super_seeding''}
      | Str s \<Rightarrow> s \<noteq> [] \<and> (k = ''move_completed_path'' \<or> (k = ''label'' \<and> normalise_label s = s))
      | _ \<Rightarrow> False)"

definition reported_as :: "string \<Rightarrow> string" where
  "reported_as k = (if k = ''auto_managed'' then ''is_auto_managed'' else k)"

lemma takes_name:
  assumes "takes k v"
  shows "k \<in> {''max_connections'', ''max_upload_slots'', ''max_download_speed'', ''max_upload_speed'', ''auto_managed'', ''super_seeding'',
    ''stop_at_ratio'', ''stop_ratio'', ''remove_at_ratio'', ''move_completed'', ''move_completed_path'', ''label''}"
  using assms by (cases v) (auto simp: takes_def split: jsnum.splits)

lemma as_i64_back: "as_i64 (num q) = Some n \<Longrightarrow> of_int n = q"
  by (auto simp: as_i64_def split: if_splits)

lemma apply_frames:
  "key \<noteq> ''max_connections'' \<Longrightarrow> t_max_connections (apply_option key v t) = t_max_connections t"
  "key \<noteq> ''max_upload_slots'' \<Longrightarrow> t_max_upload_slots (apply_option key v t) = t_max_upload_slots t"
  "key \<noteq> ''max_download_speed'' \<Longrightarrow> t_max_download_speed (apply_option key v t) = t_max_download_speed t"
  "key \<noteq> ''max_upload_speed'' \<Longrightarrow> t_max_upload_speed (apply_option key v t) = t_max_upload_speed t"
  "key \<noteq> ''auto_managed'' \<Longrightarrow> lt_auto_managed (apply_option key v t) = lt_auto_managed t"
  "key \<noteq> ''super_seeding'' \<Longrightarrow> lt_super_seeding (apply_option key v t) = lt_super_seeding t"
  "key \<noteq> ''stop_at_ratio'' \<Longrightarrow> t_stop_at_ratio (apply_option key v t) = t_stop_at_ratio t"
  "key \<noteq> ''stop_ratio'' \<Longrightarrow> t_stop_ratio (apply_option key v t) = t_stop_ratio t"
  "key \<noteq> ''remove_at_ratio'' \<Longrightarrow> t_remove_at_ratio (apply_option key v t) = t_remove_at_ratio t"
  "key \<noteq> ''move_completed'' \<Longrightarrow> t_move_completed (apply_option key v t) = t_move_completed t"
  "key \<noteq> ''move_completed_path'' \<Longrightarrow> t_move_completed_path (apply_option key v t) = t_move_completed_path t"
  "key \<noteq> ''label'' \<Longrightarrow> t_label (apply_option key v t) = t_label t"
  "lt_save_path (apply_option key v t) = lt_save_path t"
  by (simp_all add: apply_option_def Let_def split: jsval.split)

lemma status_reads:
  "js_get (options_status t extra) (reported_as ''max_connections'') = num (of_int (t_max_connections t))"
  "js_get (options_status t extra) (reported_as ''max_upload_slots'') = num (of_int (t_max_upload_slots t))"
  "js_get (options_status t extra) (reported_as ''max_download_speed'') = num (t_max_download_speed t)"
  "js_get (options_status t extra) (reported_as ''max_upload_speed'') = num (t_max_upload_speed t)"
  "js_get (options_status t extra) (reported_as ''auto_managed'') = Bool (lt_auto_managed t)"
  "js_get (options_status t extra) (reported_as ''super_seeding'') = Bool (lt_super_seeding t)"
  "js_get (options_status t extra) (reported_as ''stop_at_ratio'') = Bool (t_stop_at_ratio t)"
  "js_get (options_status t extra) (reported_as ''stop_ratio'') = num (t_stop_ratio t)"
  "js_get (options_status t extra) (reported_as ''remove_at_ratio'') = Bool (t_remove_at_ratio t)"
  "js_get (options_status t extra) (reported_as ''move_completed'') = Bool (t_move_completed t)"
  "js_get (options_status t extra) (reported_as ''move_completed_path'') = Str (unwrap_or (t_move_completed_path t) (lt_save_path t))"
  "js_get (options_status t extra) (reported_as ''label'') = Str (t_label t)"
  by (simp_all add: options_status_def js_get_def reported_as_def)

lemma apply_writes:
  "t_max_connections (apply_option ''max_connections'' v t) = unwrap_or (as_i64 v) (-1)"
  "t_max_upload_slots (apply_option ''max_upload_slots'' v t) = unwrap_or (as_i64 v) (-1)"
  "t_max_download_speed (apply_option ''max_download_speed'' v t) = unwrap_or (as_f64 v) (-1)"
  "t_max_upload_speed (apply_option ''max_upload_speed'' v t) = unwrap_or (as_f64 v) (-1)"
  "lt_auto_managed (apply_option ''auto_managed'' v t) = unwrap_or (as_bool v) True"
  "lt_super_seeding (apply_option ''super_seeding'' v t) = unwrap_or (as_bool v) False"
  "t_stop_at_ratio (apply_option ''stop_at_ratio'' v t) = unwrap_or (as_bool v) False"
  "t_stop_ratio (apply_option ''stop_ratio'' v t) = unwrap_or (as_f64 v) 2"
  "t_remove_at_ratio (apply_option ''remove_at_ratio'' v t) = unwrap_or (as_bool v) False"
  "t_move_completed (apply_option ''move_completed'' v t) = unwrap_or (as_bool v) False"
  "t_move_completed_path (apply_option ''move_completed_path'' v t) = as_str v"
  "t_label (apply_option ''label'' v t) = normalise_label (unwrap_or (as_str v) [])"
  by (simp_all add: apply_option_def Let_def)

lemma takes_reads:
  "takes ''max_connections'' v \<Longrightarrow> v = num (of_int (unwrap_or (as_i64 v) (-1)))" "takes ''max_upload_slots'' v \<Longrightarrow> v = num (of_int (unwrap_or (as_i64 v) (-1)))"
  "takes ''max_download_speed'' v \<Longrightarrow> v = num (unwrap_or (as_f64 v) (-1))" "takes ''max_upload_speed'' v \<Longrightarrow> v = num (unwrap_or (as_f64 v) (-1))"
  "takes ''stop_ratio'' v \<Longrightarrow> v = num (unwrap_or (as_f64 v) 2)" "takes ''auto_managed'' v \<Longrightarrow> v = Bool (unwrap_or (as_bool v) True)"
  "takes ''super_seeding'' v \<Longrightarrow> v = Bool (unwrap_or (as_bool v) False)" "takes ''stop_at_ratio'' v \<Longrightarrow> v = Bool (unwrap_or (as_bool v) False)"
  "takes ''remove_at_ratio'' v \<Longrightarrow> v = Bool (unwrap_or (as_bool v) False)" "takes ''move_completed'' v \<Longrightarrow> v = Bool (unwrap_or (as_bool v) False)"
  "takes ''move_completed_path'' v \<Longrightarrow> v = Str (unwrap_or (as_str v) p)" "takes ''label'' v \<Longrightarrow> v = Str (normalise_label (unwrap_or (as_str v) []))"
  by (cases v; auto simp: takes_def unwrap_or_def as_f64_def as_bool_def as_str_def dest: as_i64_back split: jsnum.splits)+

definition taken_options :: "string set" where
  "taken_options = {''max_connections'', ''max_upload_slots'', ''max_download_speed'', ''max_upload_speed'', ''auto_managed'', ''super_seeding'',
    ''stop_at_ratio'', ''stop_ratio'', ''remove_at_ratio'', ''move_completed'', ''move_completed_path'', ''label''}"

lemma option_taken:
  assumes "takes k v"
  shows "js_get (options_status (apply_option k v t) extra) (reported_as k) = v"
  using takes_name [OF assms] assms
  by (elim insertE emptyE) (simp_all only: status_reads apply_writes apply_frames takes_reads [symmetric])

lemma option_kept:
  assumes "k \<in> taken_options" "k' \<noteq> k"
  shows "js_get (options_status (apply_option k' w t) extra) (reported_as k) = js_get (options_status t extra) (reported_as k)"
  using assms unfolding taken_options_def
  by (elim insertE emptyE) (simp_all only: status_reads apply_frames not_False_eq_True)

text \<open>Of several options that are sent each is reported as if it had been sent last.\<close>

lemma options_last:
  assumes "wf_dict d" "map_of d k = Some v" "k \<in> taken_options"
  shows "\<exists>t'. js_get (options_status (apply_torrent_options d t) extra) (reported_as k) = js_get (options_status (apply_option k v t') extra) (reported_as k)"
proof -
  have keep: "js_get (options_status (apply_torrent_options d t) extra) (reported_as k) = js_get (options_status t extra) (reported_as k)"
    if "k \<notin> fst ` set d" for d t
    using that unfolding apply_torrent_options_def by (induction d arbitrary: t) (auto simp: option_kept [OF assms(3)])
  show ?thesis using assms(1,2)
  proof (induction d arbitrary: t)
    case (Cons e d)
    obtain k' w where e: "e = (k', w)" by (cases e)
    show ?case
    proof (cases "k' = k")
      case True
      then have "apply_torrent_options (e # d) t = apply_torrent_options d (apply_option k v t)" "k \<notin> fst ` set d"
        using Cons.prems e by (auto simp: apply_torrent_options_def)
      then show ?thesis using keep by metis
    next
      case False
      then show ?thesis using Cons.IH [of "apply_option k' w t"] Cons.prems e by (simp add: apply_torrent_options_def)
    qed
  qed simp
qed

section \<open>Apply and the next status\<close>

text \<open>The manager after Apply has been answered, and after the box of \<open>private\<close> was given its value.\<close>

lemma committed:
  "tab_wired m \<Longrightarrow> multi_getDefault (multi_commit m) k = js_get tab_options k" "cur_changed (multi_commit m) = None"
  "shown (multi_commit m) = shown m" "currentId (multi_commit m) = currentId m"
  by (simp_all add: multi_commit_def multi_reset_def multi_getDefault_def multi_has_def cur_stored_def cur_changed_def id_key_def
      AList.delete_conv' tab_wired_def split: option.split)

lemma private_unset:
  assumes "tab_wired m" "cur_changed m = None" "multi_getDefault m ''private'' = Bool False"
  shows "multi_getDefault (set_private (Bool False) m) k = multi_getDefault m k" "multi_isDirty (set_private (Bool False) m) k = False"
    "f \<noteq> 10 \<Longrightarrow> shown (set_private (Bool False) m) f = shown m f"
proof -
  let ?m = "m\<lparr>shown := (shown m)(10 := Bool False)\<rparr>"
  have d: "multi_getDefault ?m k' = multi_getDefault m k'" for k'
    by (simp add: multi_getDefault_def multi_has_def cur_stored_def id_key_def)
  have c: "cur_changed ?m = None" using assms(2) by (simp add: cur_changed_def id_key_def)
  have g: "multi_get ?m ''private'' = Bool False" using assms(3) d by (simp add: multi_get_None [OF c])
  obtain e where e: "cur_changed (with_changed ?m) = Some e" using with_changed_Some by blast
  then have n: "e = []" using c by (simp add: with_changed_def om_simps AList.update_conv')
  have u: "multi_update (OptName ''private'') (Bool False) ?m = with_changed ?m"
    using g d assms(3) by (simp add: multi_update_entry_def multi_update1_alt [OF e] convertValueType_def loose_eq_def)
  have s: "set_private (Bool False) m = with_changed ?m \<or> set_private (Bool False) m = ?m"
    using u by (auto simp: set_private_def box_checked_def Let_def)
  have w: "shown (with_changed ?m) = shown ?m" by (simp add: with_changed_def split: option.split)
  show "multi_getDefault (set_private (Bool False) m) k = multi_getDefault m k" using s d by (auto simp: om_simps)
  show "multi_isDirty (set_private (Bool False) m) k = False" using s c e n by (auto simp: multi_isDirty_def js_get_def)
  show "f \<noteq> 10 \<Longrightarrow> shown (set_private (Bool False) m) f = shown m f" using s w by auto
qed

text \<open>A key whose value is the default it has already leaves its field alone.\<close>

lemma setDefault1_shown:
  "f \<notin> set (binds_of m k) \<or> loose_eq (multi_getDefault m k) (convertValueType (multi_getDefault m k) v) \<Longrightarrow>
   shown (setDefault1 k v m) f = shown m f"
  by (auto simp: setDefault1_def Let_def shown_fire binds_of_def)

lemma setDefaults_shown:
  assumes "\<forall>k'. f \<in> set (binds_of m k') \<longrightarrow> k' = k" "\<forall>(k', v) \<in> set kvs. k' = k \<longrightarrow> loose_eq dflt (convertValueType dflt v)"
    "multi_getDefault m k = dflt"
  shows "shown (fold (\<lambda>(k, v). setDefault1 k v) kvs m) f = shown m f \<and> multi_getDefault (fold (\<lambda>(k, v). setDefault1 k v) kvs m) k = dflt"
  using assms
proof (induction kvs arbitrary: m)
  case (Cons e kvs)
  obtain k' v where e: "e = (k', v)" by (cases e)
  have b: "binds_of (setDefault1 k' v m) = binds_of m" by (rule ext) (simp add: binds_of_def setDefault1_def Let_def om_simps)
  have "shown (setDefault1 k' v m) f = shown m f" using Cons.prems by (intro setDefault1_shown) (auto simp: e)
  moreover have "multi_getDefault (setDefault1 k' v m) k = dflt"
  proof (cases "k' = k")
    case True
    then show ?thesis using Cons.prems by (simp add: e setDefault1_def Let_def)
  qed (use Cons.prems setDefault1_other in simp)
  ultimately show ?case using Cons.IH [of "setDefault1 k' v m"] Cons.prems b by (simp add: e)
qed simp

text \<open>What a status is once the tab has renamed its keys.\<close>

definition extra_ok :: "jsval dict \<Rightarrow> bool" where
  "extra_ok extra \<longleftrightarrow> wf_dict extra \<and> (\<forall>(k, v) \<in> set extra. v \<noteq> Undefined) \<and>
     fst ` set extra \<inter> ({''is_auto_managed'', ''prioritize_first_last_pieces''} \<union> fst ` set tab_options) = {}"

lemma status_dict:
  assumes "extra_ok extra"
  shows "wf_dict (tab_dict (options_status t extra))" "\<forall>(k, v) \<in> set (tab_dict (options_status t extra)). v \<noteq> Undefined"
    "k \<in> taken_options \<Longrightarrow> map_of (tab_dict (options_status t extra)) k = Some (js_get (options_status t extra) (reported_as k))"
    "js_get (options_status t extra) ''private'' = Bool False"
proof -
  let ?d = "options_status t extra"
  have w: "wf_dict ?d" using assms by (auto simp: options_status_def extra_ok_def tab_options_def)
  then show "wf_dict (tab_dict ?d)" by (simp add: tab_dict_def Let_def distinct_update wf_delete)
  show p: "js_get ?d ''private'' = Bool False" by (simp add: options_status_def js_get_def)
  have g: "js_get ?d ''is_auto_managed'' \<noteq> Undefined" "js_get ?d ''prioritize_first_last'' \<noteq> Undefined"
    by (simp_all add: options_status_def js_get_def)
  have u: "\<forall>(k, v) \<in> set ?d. v \<noteq> Undefined" using assms by (auto simp: options_status_def extra_ok_def)
  have s: "v \<noteq> Undefined" if "(k, v) \<in> set (tab_dict ?d)" for k v
  proof -
    have "map_of (tab_dict ?d) k = Some v" using that \<open>wf_dict (tab_dict ?d)\<close> by simp
    then show ?thesis using u g by (auto simp: tab_dict_def Let_def AList.update_conv' AList.delete_conv' js_get_def dest!: map_of_SomeD split: if_splits)
  qed
  then show "\<forall>(k, v) \<in> set (tab_dict ?d). v \<noteq> Undefined" by auto
  assume "k \<in> taken_options"
  then show "map_of (tab_dict ?d) k = Some (js_get ?d (reported_as k))"
    unfolding taken_options_def
    by (elim insertE emptyE) (simp_all add: tab_dict_def Let_def AList.update_conv' AList.delete_conv' reported_as_def js_get_def options_status_def)
qed

lemma frame_shown: "multi_getDefault (m\<lparr>shown := x\<rparr>) k = multi_getDefault m k"
  by (simp add: multi_getDefault_def multi_has_def cur_stored_def id_key_def)

lemma shown_update1: "shown (multi_update1 k v m) f = shown m f \<or> shown (multi_update1 k v m) f = convertValueType (multi_getDefault m k) v"
proof -
  obtain d where d: "cur_changed (with_changed m) = Some d" using with_changed_Some by blast
  have s: "shown (with_changed m) = shown m" "shown (put_changed m e) = shown m" for e
    by (simp_all add: put_changed_def with_changed_def split: option.split)
  show ?thesis by (simp add: multi_update1_alt [OF d] Let_def shown_fire s)
qed

lemma takes_type:
  assumes "takes k v"
  shows "convertValueType (js_get tab_options k) v = v" "\<not> isEmpty v False" "v \<noteq> Num NaN"
proof -
  have o: "js_get tab_options ''max_connections'' = num (-1)" "js_get tab_options ''max_upload_slots'' = num (-1)"
    "js_get tab_options ''max_download_speed'' = num (-1)" "js_get tab_options ''max_upload_speed'' = num (-1)"
    "js_get tab_options ''auto_managed'' = Bool False" "js_get tab_options ''super_seeding'' = Bool False"
    "js_get tab_options ''stop_at_ratio'' = Bool False" "js_get tab_options ''stop_ratio'' = num 2"
    "js_get tab_options ''remove_at_ratio'' = Bool False" "js_get tab_options ''move_completed'' = Bool False"
    "js_get tab_options ''move_completed_path'' = Str []" "js_get tab_options ''label'' = Str []"
    by (simp_all add: tab_options_def js_get_def)
  have c: "convertValueType (num q) (num p) = num p" "convertValueType (Bool a) (Bool b) = Bool b" "convertValueType (Str x) (Str y) = Str y" for q p a b x y
    by (simp_all add: convertValueType_def)
  show "convertValueType (js_get tab_options k) v = v"
    using assms unfolding takes_def by (auto simp: o c split: jsval.splits jsnum.splits)
  show "\<not> isEmpty v False" "v \<noteq> Num NaN" using assms unfolding takes_def by (auto simp: isEmpty_def split: jsval.splits jsnum.splits)
qed

text \<open>Apply, its answer, and the next status of the torrent, which the daemon makes from what it took.\<close>

definition apply_and_poll :: "string \<Rightarrow> daemon_torrent \<Rightarrow> jsval dict \<Rightarrow> opt_tab \<Rightarrow> opt_tab" where
  "apply_and_poll i torrent extra t =
     ot_answer 0 (options_status (apply_torrent_options (multi_getDirty (ot_mom t)) torrent) extra)
       (ot_update (Some i) (ot_answer 0 [] (ot_onApply t)))"

definition opt_settled :: "string \<Rightarrow> opt_tab \<Rightarrow> bool" where
  "opt_settled i t \<longleftrightarrow> opt_ok t \<and> ot_torrentId t = Some i \<and> i \<noteq> [] \<and> ot_asks t = []"

lemma polled_mom:
  assumes "opt_settled i t" "extra_ok extra"
  shows "ot_mom (apply_and_poll i torrent extra t) =
    fold (\<lambda>(k, v). setDefault1 k v) (tab_dict (options_status (apply_torrent_options (multi_getDirty (ot_mom t)) torrent) extra))
      (set_private (Bool False) (multi_commit (ot_mom t)))"
proof -
  have "ot_update (Some i) (ot_answer 0 [] (ot_onApply t)) = (with_mom (multi_commit (ot_mom t)) ((ot_onApply t)\<lparr>ot_asks := []\<rparr>))\<lparr>ot_asks := [AskStatus i]\<rparr>"
    using assms(1) by (simp add: opt_settled_def ot_answer_def ot_update_def truthy_id_def Let_def)
  then show ?thesis
    using setDefault_dict_fold [OF status_dict(2) [OF assms(2)]] status_dict(4) [OF assms(2)]
    by (simp add: apply_and_poll_def ot_answer_def ot_onRequestComplete_def Let_def with_mom_def)
qed

lemma polled_before:
  assumes "opt_settled i t"
  shows "multi_getDefault (set_private (Bool False) (multi_commit (ot_mom t))) k = js_get tab_options k"
    "multi_isDirty (set_private (Bool False) (multi_commit (ot_mom t))) k = False"
    "f \<noteq> 10 \<Longrightarrow> shown (set_private (Bool False) (multi_commit (ot_mom t))) f = shown (ot_mom t) f"
proof -
  have w: "tab_wired (ot_mom t)" using assms by (simp add: opt_settled_def opt_ok_def)
  have p: "multi_getDefault (multi_commit (ot_mom t)) ''private'' = Bool False"
    unfolding committed(1) [OF w] by (simp add: tab_options_def js_get_def)
  note u = private_unset [OF wired_commit [OF w] committed(2) p]
  show "multi_getDefault (set_private (Bool False) (multi_commit (ot_mom t))) k = js_get tab_options k"
    "multi_isDirty (set_private (Bool False) (multi_commit (ot_mom t))) k = False"
    "f \<noteq> 10 \<Longrightarrow> shown (set_private (Bool False) (multi_commit (ot_mom t))) f = shown (ot_mom t) f"
    using u committed(1) [OF w] committed(3) by simp_all
qed

text \<open>C33: An option that was edited and applied reads as it was edited after the next status of the torrent, if its value
  is one the daemon takes: the name that is sent, what the daemon keeps and what it reports agree.\<close>

lemma apply_comes_back:
  assumes "opt_settled i t" "extra_ok extra" "map_of (multi_getDirty (ot_mom t)) k = Some v" "takes k v"
  shows "let m = ot_mom (apply_and_poll i torrent extra t) in loose_eq (multi_get m k) v \<and> \<not> multi_isDirty m k"
proof -
  let ?d = "multi_getDirty (ot_mom t)"
  let ?s = "options_status (apply_torrent_options ?d torrent) extra"
  let ?m = "set_private (Bool False) (multi_commit (ot_mom t))"
  have w: "tab_wired (ot_mom t)" using assms(1) by (simp add: opt_settled_def opt_ok_def)
  have k: "k \<in> taken_options" using takes_name [OF assms(4)] by (simp add: taken_options_def)
  have "js_get ?s (reported_as k) = v"
    using options_last [of ?d k v torrent extra] wired_dirty [OF w] assms(3) k option_taken [OF assms(4)] by metis
  then have s: "(k, v) \<in> set (tab_dict ?s)" using status_dict(3) [OF assms(2) k] by (metis map_of_SomeD)
  note b = polled_before [OF assms(1)]
  have "loose_eq (multi_getDefault (fold (\<lambda>(k, v). setDefault1 k v) (tab_dict ?s) ?m) k) v"
    using setDefaults_get [OF status_dict(1) [OF assms(2)] s, of ?m] takes_type [OF assms(4)] by (simp add: b)
  then show ?thesis unfolding Let_def polled_mom [OF assms(1,2)] by (simp add: multi_get_def om_simps b)
qed

text \<open>C36: A number of connections with a fraction, which the field lets through as nothing reads its bounds, lifts the
  limit: the daemon takes no such number and falls back on none; and the field shows it as if it were the
  limit from then on, since what the daemon reports is the default the manager has anyway.\<close>

lemma fraction_lifts_limit:
  assumes "opt_settled i t" "extra_ok extra" "q \<notin> \<int>" "multi_get (ot_mom t) ''max_connections'' = num (of_int p)"
    "multi_getDefault (ot_mom t) ''max_connections'' = num (of_int p')"
  shows "let t' = ot_edit 2 (num q) t; u = apply_and_poll i torrent extra t'
    in t_max_connections (apply_torrent_options (multi_getDirty (ot_mom t')) torrent) = -1 \<and>
       multi_get (ot_mom u) ''max_connections'' = num (-1) \<and> shown (ot_mom u) 2 = num q"
proof -
  let ?t = "ot_edit 2 (num q) t"
  let ?d = "multi_getDirty (ot_mom ?t)"
  let ?s = "options_status (apply_torrent_options ?d torrent) extra"
  let ?m = "set_private (Bool False) (multi_commit (ot_mom ?t))"
  have w: "tab_wired (ot_mom t)" using assms(1) by (simp add: opt_settled_def opt_ok_def)
  have f: "doption (ot_mom t) 2 = Some ''max_connections''" using w tab_fields(1) by (simp add: tab_wired_def)
  have ne: "\<not> loose_eq (num (of_int n)) (num q)" for n using assms(3) by (auto simp: loose_eq_def)
  have "?d = AList.update ''max_connections'' (num q) (multi_getDirty (ot_mom t))"
    by (rule edit_held [OF w f]) (simp_all add: assms(4,5) ne convertValueType_def)
  then have sent: "map_of ?d ''max_connections'' = Some (num q)" by (simp add: AList.update_conv')
  have ok: "opt_settled i ?t" using assms(1) opt_ok_step [OF step_edit] by (simp add: opt_settled_def)
  have w': "tab_wired (ot_mom ?t)" using ok by (simp add: opt_settled_def opt_ok_def)
  have k: "''max_connections'' \<in> taken_options" by (simp add: taken_options_def)
  have none: "as_i64 (num q) = None" using assms(3) by (auto simp: as_i64_def Ints_def split: if_splits)
  have r: "js_get ?s (reported_as ''max_connections'') = num (-1)"
    using options_last [OF _ sent k, of torrent extra] wired_dirty [OF w'] none
    by (auto simp: status_reads apply_writes unwrap_or_def)
  then have t: "t_max_connections (apply_torrent_options ?d torrent) = -1"
    unfolding status_reads by (simp flip: of_int_eq_iff [where 'a = rat])
  note b = polled_before [OF ok]
  have bind: "\<forall>k'. 2 \<in> set (binds_of ?m k') \<longrightarrow> k' = ''max_connections''"
    using wired_private [OF wired_commit [OF w'], of "Bool False"] tab_fields(3) by (simp add: tab_wired_def binds_of_def)
  have dflt: "multi_getDefault ?m ''max_connections'' = num (-1)" by (simp add: b tab_options_def js_get_def)
  have same: "\<forall>(k', v) \<in> set (tab_dict ?s). k' = ''max_connections'' \<longrightarrow> loose_eq (num (-1)) (convertValueType (num (-1)) v)"
  proof clarify
    fix v
    assume "(''max_connections'', v) \<in> set (tab_dict ?s)"
    then have "map_of (tab_dict ?s) ''max_connections'' = Some v" using status_dict(1) [OF assms(2)] by simp
    then have "v = num (-1)" using status_dict(3) [OF assms(2) k] r by simp
    then show "loose_eq (num (-1)) (convertValueType (num (-1)) v)" by (simp add: convertValueType_def loose_eq_refl)
  qed
  have e: "shown (ot_mom ?t) 2 = num q"
    using shown_update1 [of "''max_connections''" "num q" "(ot_mom t)\<lparr>shown := (shown (ot_mom t))(2 := num q)\<rparr>" 2] assms(5)
    by (simp add: ot_edit_def f multi_update_entry_def frame_shown convertValueType_def)
  show ?thesis
    unfolding Let_def polled_mom [OF ok assms(2)]
    using setDefaults_shown [OF bind same dflt] t e by (simp add: b multi_get_def om_simps)
qed

section \<open>Witnesses\<close>

text \<open>The tab after a torrent was chosen whose status could not be read.\<close>

definition chosen_tab :: opt_tab where
  "chosen_tab = (ot_update (Some ''t'') opt_tab_new)\<lparr>ot_asks := []\<rparr>"

lemma chosen_simps [simp]:
  "ot_mom chosen_tab = ot_mom (ot_update (Some ''t'') opt_tab_new)" "ot_torrentId chosen_tab = Some ''t''" "ot_asks chosen_tab = []" "ot_sent chosen_tab = []"
  by (simp_all add: chosen_tab_def new_tab_reads)

lemma chosen_ok: "opt_settled ''t'' chosen_tab"
  by (simp add: opt_settled_def opt_ok_def new_tab_reads)

lemma max_connections_default: "js_get tab_options ''max_connections'' = num (of_int (-1))"
  by (simp add: tab_options_def js_get_def)

lemma chosen_edited:
  assumes "q \<noteq> -1"
  shows "multi_getDirty (ot_mom (ot_edit 2 (num q) chosen_tab)) = [(''max_connections'', num q)]"
proof -
  have f: "doption (ot_mom chosen_tab) 2 = Some ''max_connections''" using tab_fields(1) by (simp only: chosen_simps new_tab_reads)
  have w: "tab_wired (ot_mom chosen_tab)" using new_tab_reads(4) by simp
  have ne: "\<not> loose_eq (num (of_int (-1))) (num q)" using assms by (simp add: loose_eq_def)
  have "multi_getDirty (ot_mom (ot_edit 2 (num q) chosen_tab)) = AList.update ''max_connections'' (num q) (multi_getDirty (ot_mom chosen_tab))"
    by (rule edit_held [OF w f]) (simp_all only: chosen_simps new_tab_reads max_connections_default ne, simp_all add: convertValueType_def)
  then show ?thesis by (simp add: new_tab_reads)
qed

lemma apply_hits_next_torrent_witness:
  "multi_getDirty (ot_mom (ot_answer 0 [] (ot_edit 2 (num 7) (ot_update (Some ''u'') (ot_onApply (ot_edit 2 (num 50) chosen_tab)))))) = [] \<and>
   multi_getDirty (changeId (Some ''t'') True (ot_mom (ot_answer 0 []
     (ot_edit 2 (num 7) (ot_update (Some ''u'') (ot_onApply (ot_edit 2 (num 50) chosen_tab))))))) = [(''max_connections'', num 50)]"
proof -
  have c: "currentId (ot_mom (ot_edit 2 (num 50) chosen_tab)) = Some ''t''"
    using edit_elsewhere [of 2 "num 50" chosen_tab] by (simp add: new_tab_reads)
  show ?thesis
    using apply_hits_next_torrent [of "ot_edit 2 (num 50) chosen_tab" "''t''" "''u''" "[(2, num 7)]"] c chosen_edited [of 50]
    by (simp add: Let_def)
qed

definition some_torrent :: daemon_torrent where
  "some_torrent =
     \<lparr>t_max_connections = 100, t_max_upload_slots = 4, t_max_download_speed = -1, t_max_upload_speed = -1, t_auto_managed = True, t_sequential = False,
      t_super_seeding = False, t_first_last = False, t_stop_at_ratio = False, t_stop_ratio = 2, t_remove_at_ratio = False, t_move_completed = False,
      t_move_completed_path = None, t_file_priorities = [], t_label = ''linux'', t_owner = [], t_shared = False, t_name = None, lt_connections = 100,
      lt_uploads = 4, lt_download = -1, lt_upload = -1, lt_auto_managed = True, lt_sequential = False, lt_super_seeding = False, lt_save_path = ''/srv''\<rparr>"

lemma apply_comes_back_witness:
  "loose_eq (multi_get (ot_mom (apply_and_poll ''t'' some_torrent [] (ot_edit 2 (num 50) chosen_tab))) ''max_connections'') (num 50)"
proof -
  have s: "opt_settled ''t'' (ot_edit 2 (num 50) chosen_tab)"
    using chosen_ok opt_ok_step [OF step_edit] by (simp add: opt_settled_def)
  have "takes ''max_connections'' (num 50)" by (simp add: takes_def as_i64_def)
  from apply_comes_back [OF s, of "[]" "''max_connections''" "num 50" some_torrent] this show ?thesis
    by (simp add: chosen_edited extra_ok_def Let_def)
qed

lemma fraction_lifts_limit_witness:
  "let t' = ot_edit 2 (num (5/2)) chosen_tab; u = apply_and_poll ''t'' some_torrent [] t'
   in t_max_connections (apply_torrent_options (multi_getDirty (ot_mom t')) some_torrent) = -1 \<and> t_max_connections some_torrent = 100 \<and>
      shown (ot_mom u) 2 = num (5/2)"
proof -
  have q: "(5 / 2 :: rat) \<notin> \<int>"
  proof
    assume "(5 / 2 :: rat) \<in> \<int>"
    then obtain n where n: "(5 / 2 :: rat) = of_int n" by (rule Ints_cases)
    then have "rat_of_int (n * 2) = of_int 5" by simp
    then have "n * 2 = 5" by (simp only: of_int_eq_iff)
    then show False by presburger
  qed
  show ?thesis
    using fraction_lifts_limit [OF chosen_ok _ q, of "[]" "-1" "-1" some_torrent]
    by (simp add: new_tab_reads max_connections_default extra_ok_def Let_def some_torrent_def)
qed

end
