(* ===== verification/Labels.thy ===== *)
theory Labels
  imports TorrentOptions
begin

text \<open>
  Labels: \<open>LabelSettingsWindow.js\<close>, the form of what a label does to its torrents; \<open>preferences/LabelsPage.js\<close>,
  the list of labels with its buttons; and the daemon's register of labels (\<open>features/label.rs\<close> and the
  \<open>label.*\<close> methods of \<open>core.rs\<close>).  The grid of the page and the texts of the window are not modelled.
\<close>

section \<open>The window\<close>

datatype lab_field = LCheck bool | LSpin numfield | LDuration duration | LText string

definition lab_spinner :: "nat \<Rightarrow> rat \<Rightarrow> rat \<Rightarrow> lab_field" where
  "lab_spinner precision increment mn =
     LSpin \<lparr>decimalPrecision = precision, minValue = mn, maxValue = 9999999, incrementValue = increment, box_text = []\<rparr>"

definition label_form :: "(string \<times> lab_field) list" where
  "label_form =
     [(''apply_max'', LCheck False), (''max_download_speed'', lab_spinner 1 1 (-1)), (''max_upload_speed'', lab_spinner 1 1 (-1)),
      (''max_connections'', lab_spinner 0 1 (-1)), (''max_upload_slots'', lab_spinner 0 1 (-1)), (''apply_queue'', LCheck False),
      (''stop_at_ratio'', LCheck False), (''stop_ratio'', lab_spinner 1 (1/10) (-1)), (''remove_at_ratio'', LCheck False),
      (''apply_move_completed'', LCheck False), (''move_completed_path'', LText []), (''apply_stuck'', LCheck False),
      (''stuck_hours'', LDuration duration_new), (''stuck_max_progress'', lab_spinner 0 1 0), (''stuck_action'', LText ''pause''),
      (''stuck_label'', LText []), (''stuck_remove_data'', LCheck False), (''never_remove'', LCheck False), (''hide_by_default'', LCheck False)]"

definition label_GROUPS :: "(string \<times> string list) list" where
  "label_GROUPS =
     [(''apply_max'', [''max_download_speed'', ''max_upload_speed'', ''max_connections'', ''max_upload_slots'']),
      (''apply_queue'', [''stop_at_ratio'', ''stop_ratio'', ''remove_at_ratio'']), (''apply_move_completed'', [''move_completed_path'']),
      (''apply_stuck'', [''stuck_hours'', ''stuck_max_progress'', ''stuck_action'', ''stuck_label'', ''stuck_remove_data''])]"

definition label_DEFAULTS :: "jsval dict" where
  "label_DEFAULTS =
     [(''max_download_speed'', num (-1)), (''max_upload_speed'', num (-1)), (''max_connections'', num (-1)), (''max_upload_slots'', num (-1)),
      (''stop_ratio'', num 2), (''stuck_hours'', num 0), (''stuck_max_progress'', num 0), (''stuck_action'', Str ''pause'')]"

definition lab_default_of :: "string \<Rightarrow> rat" where
  "lab_default_of name = (case js_get label_DEFAULTS name of Num (Fin q) \<Rightarrow> q | _ \<Rightarrow> -1)"

text \<open>A field is given the value of its option, and read.\<close>

fun put_field :: "string \<Rightarrow> jsval \<Rightarrow> lab_field \<Rightarrow> lab_field" where
  "put_field name v (LCheck _) = LCheck (strict_eq v (Bool True))"
| "put_field name v (LSpin s) = LSpin (nf_setValue (Num (deluge_number v (lab_default_of name))) s)"
| "put_field name v (LDuration d) = LDuration (dur_setValue (Num (deluge_number v (lab_default_of name))) d)"
| "put_field name v (LText _) =
     (let t = (if v = Undefined \<or> v = Null \<or> v = Str [] then js_get label_DEFAULTS name else v)
      in LText (js_string (if t = Undefined then Str [] else t)))"

fun take_field :: "string \<Rightarrow> lab_field \<Rightarrow> jsval" where
  "take_field name (LCheck b) = Bool b"
| "take_field name (LSpin s) = Num (deluge_number (nf_getValue s) (lab_default_of name))"
| "take_field name (LDuration d) = Num (deluge_number (Num (dur_getValue d)) (lab_default_of name))"
| "take_field name (LText s) = Str s"

definition form_put :: "jsval dict \<Rightarrow> (string \<times> lab_field) list \<Rightarrow> (string \<times> lab_field) list" where
  "form_put opts form = map (\<lambda>(name, f). (name, put_field name (js_get opts name) f)) form"

definition label_form_options :: "(string \<times> lab_field) list \<Rightarrow> jsval dict" where
  "label_form_options form =
     (let opts = map (\<lambda>(name, f). (name, take_field name f)) form
      in AList.update ''move_completed'' (js_get opts ''apply_move_completed'') opts)"

definition checked_in :: "(string \<times> lab_field) list \<Rightarrow> string \<Rightarrow> bool" where
  "checked_in form name \<longleftrightarrow> map_of form name = Some (LCheck True)"

text \<open>The fields that are greyed, and whether the warning is shown.\<close>

definition switched_off :: "(string \<times> lab_field) list \<Rightarrow> string list" where
  "switched_off form =
     (let groups = concat (map (\<lambda>(group, names). if checked_in form group then [] else names) label_GROUPS);
          on = checked_in form ''apply_stuck'';
          removing = (map_of form ''stuck_action'' = Some (LText ''remove''))
      in filter (\<lambda>name. name \<notin> {''stuck_label'', ''stuck_remove_data''}) groups @
         (if \<not> on \<or> removing then [''stuck_label''] else []) @ (if \<not> on \<or> \<not> removing then [''stuck_remove_data''] else []))"

definition warning_shown :: "(string \<times> lab_field) list \<Rightarrow> bool" where
  "warning_shown form \<longleftrightarrow>
     checked_in form ''apply_stuck'' \<and> map_of form ''stuck_action'' = Some (LText ''remove'') \<and> checked_in form ''stuck_remove_data''"

record label_window =
  lw_visible :: bool
  lw_label :: "string option"
  lw_form :: "(string \<times> lab_field) list"
  lw_off :: "string list"
  lw_warning :: bool
  lw_asks :: "string list"
  lw_sets :: "(string \<times> jsval dict) list"
  lw_hides :: "(string \<times> bool) list"

definition lw_onSwitched :: "label_window \<Rightarrow> label_window" where
  "lw_onSwitched w = w\<lparr>lw_off := switched_off (lw_form w), lw_warning := warning_shown (lw_form w)\<rparr>"

definition label_window_new :: label_window where
  "label_window_new =
     \<lparr>lw_visible = False, lw_label = None, lw_form = label_form, lw_off = [], lw_warning = False, lw_asks = [], lw_sets = [], lw_hides = []\<rparr>"

definition lw_setOptions :: "jsval dict \<Rightarrow> label_window \<Rightarrow> label_window" where
  "lw_setOptions opts w = lw_onSwitched (w\<lparr>lw_form := form_put opts (lw_form w)\<rparr>)"

definition lw_show :: "string \<Rightarrow> label_window \<Rightarrow> label_window" where
  "lw_show name w =
     (let w = lw_setOptions [] (w\<lparr>lw_visible := True, lw_label := Some name\<rparr>) in w\<lparr>lw_asks := lw_asks w @ [name]\<rparr>)"

text \<open>The answer to the \<open>i\<close>th call that is out, or its failure.\<close>

definition lw_loaded :: "nat \<Rightarrow> jsval dict option \<Rightarrow> label_window \<Rightarrow> label_window" where
  "lw_loaded i opts w =
     (let name = lw_asks w ! i; w = w\<lparr>lw_asks := take i (lw_asks w) @ drop (Suc i) (lw_asks w)\<rparr>
      in if \<not> lw_visible w \<or> lw_label w \<noteq> Some name then w
         else lw_setOptions (case opts of None \<Rightarrow> [] | Some d \<Rightarrow> d) w)"

definition lw_edit :: "string \<Rightarrow> lab_field \<Rightarrow> label_window \<Rightarrow> label_window" where
  "lw_edit name f w =
     (let w' = w\<lparr>lw_form := map (\<lambda>(n, g). (n, if n = name then f else g)) (lw_form w)\<rparr>
      in if name \<in> fst ` set label_GROUPS \<or> name \<in> {''stuck_action'', ''stuck_remove_data''} then lw_onSwitched w' else w')"

definition lw_onCancel :: "label_window \<Rightarrow> label_window" where
  "lw_onCancel w = w\<lparr>lw_visible := False\<rparr>"

definition lw_onOk :: "label_window \<Rightarrow> label_window" where
  "lw_onOk w =
     (if lw_label w = None \<or> lw_label w = Some [] then w\<lparr>lw_visible := False\<rparr>
      else let name = the (lw_label w); opts = label_form_options (lw_form w)
           in w\<lparr>lw_hides := lw_hides w @ [(name, strict_eq (js_get opts ''hide_by_default'') (Bool True))],
                lw_sets := lw_sets w @ [(name, opts)], lw_visible := False\<rparr>)"

section \<open>The register\<close>

text \<open>An \<open>Options\<close> value is what it is in JSON: its fields by name, each of its kind.\<close>

datatype label_kind = KBool | KFloat | KInt | KString | KStrings

definition label_fields :: "(string \<times> label_kind \<times> jsval) list" where
  "label_fields =
     [(''apply_max'', KBool, Bool False), (''max_download_speed'', KFloat, num (-1)), (''max_upload_speed'', KFloat, num (-1)),
      (''max_connections'', KInt, num (-1)), (''max_upload_slots'', KInt, num (-1)), (''prioritize_first_last'', KBool, Bool False),
      (''apply_queue'', KBool, Bool False), (''is_auto_managed'', KBool, Bool False), (''stop_at_ratio'', KBool, Bool False),
      (''stop_ratio'', KFloat, num 2), (''remove_at_ratio'', KBool, Bool False), (''apply_move_completed'', KBool, Bool False),
      (''move_completed'', KBool, Bool False), (''move_completed_path'', KString, Str []), (''apply_stuck'', KBool, Bool False),
      (''stuck_hours'', KFloat, num 0), (''stuck_max_progress'', KFloat, num 0), (''stuck_action'', KString, Str ''pause''),
      (''stuck_label'', KString, Str []), (''stuck_remove_data'', KBool, Bool True), (''never_remove'', KBool, Bool False),
      (''hide_by_default'', KBool, Bool False), (''auto_add'', KBool, Bool False), (''auto_add_trackers'', KStrings, Arr 0 [])]"

definition label_default :: "jsval dict" where
  "label_default = map (\<lambda>(k, kind, v). (k, v)) label_fields"

fun kind_ok :: "label_kind \<Rightarrow> jsval \<Rightarrow> bool" where
  "kind_ok KBool v = (as_bool v \<noteq> None)"
| "kind_ok KFloat v = (as_f64 v \<noteq> None)"
| "kind_ok KInt v = (as_i64 v \<noteq> None)"
| "kind_ok KString v = (as_str v \<noteq> None)"
| "kind_ok KStrings v = (case v of Arr _ vs \<Rightarrow> list_all (\<lambda>w. as_str w \<noteq> None) vs | _ \<Rightarrow> False)"

text \<open>\<open>serde_json::from_value\<close>: a key that is missing has its default, one that is not known is left out.\<close>

definition label_parse :: "jsval dict \<Rightarrow> jsval dict option" where
  "label_parse d =
     (if list_all (\<lambda>(k, kind, v). case map_of d k of None \<Rightarrow> True | Some w \<Rightarrow> kind_ok kind w) label_fields
      then Some (map (\<lambda>(k, kind, v). (k, case map_of d k of None \<Rightarrow> v | Some w \<Rightarrow> w)) label_fields)
      else None)"

definition to_torrent_options :: "jsval dict \<Rightarrow> jsval dict" where
  "to_torrent_options opts =
     (let entry = (\<lambda>k. (k, js_get opts k)); on = (\<lambda>k. js_get opts k = Bool True)
      in (if on ''apply_max''
          then [entry ''max_download_speed'', entry ''max_upload_speed'', entry ''max_connections'', entry ''max_upload_slots'',
                (''prioritize_first_last_pieces'', js_get opts ''prioritize_first_last'')] else []) @
         (if on ''apply_queue''
          then [(''auto_managed'', js_get opts ''is_auto_managed''), entry ''stop_at_ratio'', entry ''stop_ratio'',
                (''remove_at_ratio'', Bool (on ''remove_at_ratio'' \<and> \<not> on ''never_remove''))] else []) @
         (if on ''apply_move_completed'' then [entry ''move_completed'', entry ''move_completed_path''] else []))"

record label_daemon =
  ld_labels :: "jsval dict dict"
  ld_torrents :: "daemon_torrent dict"

definition label_add :: "string \<Rightarrow> label_daemon \<Rightarrow> bool option \<times> label_daemon" where
  "label_add raw s =
     (let i = normalise_label raw
      in if i = [] then (None, s)
         else if map_of (ld_labels s) i \<noteq> None then (Some False, s)
         else (Some True, s\<lparr>ld_labels := AList.update i label_default (ld_labels s)\<rparr>))"

definition clear_label :: "string \<Rightarrow> label_daemon \<Rightarrow> label_daemon" where
  "clear_label i s = s\<lparr>ld_torrents := map (\<lambda>(tid, t). (tid, if t_label t = i then t\<lparr>t_label := []\<rparr> else t)) (ld_torrents s)\<rparr>"

definition label_remove :: "string \<Rightarrow> label_daemon \<Rightarrow> bool \<times> label_daemon" where
  "label_remove raw s =
     (let i = normalise_label raw
      in if map_of (ld_labels s) i = None then (False, s)
         else (True, clear_label i (s\<lparr>ld_labels := AList.delete i (ld_labels s)\<rparr>)))"

definition label_get_options :: "string \<Rightarrow> label_daemon \<Rightarrow> jsval dict option" where
  "label_get_options raw s = map_of (ld_labels s) (normalise_label raw)"

definition apply_label_options :: "string \<Rightarrow> jsval dict \<Rightarrow> label_daemon \<Rightarrow> label_daemon" where
  "apply_label_options i opts s =
     s\<lparr>ld_torrents := map (\<lambda>(tid, t). (tid, if t_label t = i then apply_torrent_options (to_torrent_options opts) t else t)) (ld_torrents s)\<rparr>"

text \<open>Whether the options were taken.\<close>

definition label_set_options :: "string \<Rightarrow> jsval dict \<Rightarrow> label_daemon \<Rightarrow> bool \<times> label_daemon" where
  "label_set_options raw given s =
     (let i = normalise_label raw
      in case map_of (ld_labels s) i of
           None \<Rightarrow> (False, s)
         | Some kept \<Rightarrow>
             (case label_parse (put_all kept given) of
                None \<Rightarrow> (False, s)
              | Some opts \<Rightarrow> (True, apply_label_options i opts (s\<lparr>ld_labels := AList.update i opts (ld_labels s)\<rparr>))))"

definition set_torrent_options :: "string list \<Rightarrow> jsval dict \<Rightarrow> label_daemon \<Rightarrow> label_daemon" where
  "set_torrent_options ids changes s =
     s\<lparr>ld_torrents := map (\<lambda>(tid, t). (tid, if tid \<in> set ids then apply_torrent_options changes t else t)) (ld_torrents s)\<rparr>"

definition torrents_with :: "string \<Rightarrow> label_daemon \<Rightarrow> string list" where
  "torrents_with label s = map fst (filter (\<lambda>(tid, t). t_label t = label) (ld_torrents s))"

section \<open>The page\<close>

text \<open>\<open>describe_label\<close>, and the rows: a label, its torrents and what it applies, in the order of the names.\<close>

definition describe_label :: "jsval dict \<Rightarrow> string" where
  "describe_label opts =
     (let parts = concat (map (\<lambda>(key, text). if truthy (js_get opts key) then [text] else [])
        [(''apply_max'', ''bandwidth''), (''apply_queue'', ''seeding''), (''apply_move_completed'', ''move on completion''),
         (''apply_stuck'', ''removes stuck downloads''), (''hide_by_default'', ''hidden by default'')])
      in if parts = [] then ''nothing'' else join '', '' parts)"

definition label_rows :: "jsval dict dict \<Rightarrow> nat dict \<Rightarrow> (string \<times> nat \<times> string) list" where
  "label_rows config counts =
     map (\<lambda>name. (name, case map_of counts name of None \<Rightarrow> 0 | Some n \<Rightarrow> n, describe_label (the (map_of config name))))
       (sort (map fst config))"

text \<open>The calls of the buttons, and what follows the answer to each: success with the ids that were found, or
  failure.  A rename is \<open>LabAdd\<close> with the label it comes from.\<close>

datatype label_call =
    LabAdd "string option" string
  | LabList string string
  | LabMove string "string list" string
  | LabRemove string
  | LabReload

fun after_answer :: "label_call \<Rightarrow> string list option \<Rightarrow> label_call list" where
  "after_answer (LabAdd None name) _ = [LabReload]"
| "after_answer (LabAdd (Some source) name) _ = [LabList source name]"
| "after_answer (LabList source name) (Some ids) = (if ids = [] then [LabRemove source] else [LabMove source ids name])"
| "after_answer (LabList source name) None = []"
| "after_answer (LabMove source ids name) (Some _) = [LabRemove source]"
| "after_answer (LabMove source ids name) None = []"
| "after_answer (LabRemove name) _ = [LabReload]"
| "after_answer LabReload _ = []"

fun serve_call :: "label_call \<Rightarrow> label_daemon \<Rightarrow> string list option \<times> label_daemon" where
  "serve_call (LabAdd source name) s = (case label_add name s of (None, s) \<Rightarrow> (None, s) | (Some _, s) \<Rightarrow> (Some [], s))"
| "serve_call (LabList source name) s = (Some (torrents_with source s), s)"
| "serve_call (LabMove source ids name) s = (Some [], set_torrent_options ids [(''label'', Str name)] s)"
| "serve_call (LabRemove name) s = (Some [], snd (label_remove name s))"
| "serve_call LabReload s = (Some [], s)"

text \<open>The calls one after the other, at most one is out at a time; a call may be lost, and fails then.\<close>

fun run_calls :: "nat \<Rightarrow> (label_call \<Rightarrow> bool) \<Rightarrow> label_call list \<Rightarrow> label_daemon \<Rightarrow> label_call list \<times> label_daemon" where
  "run_calls fuel lost [] s = ([], s)"
| "run_calls 0 lost calls s = (calls, s)"
| "run_calls (Suc fuel) lost (c # calls) s =
     (case (if lost c then (None, s) else serve_call c s) of
        (answer, s) \<Rightarrow> run_calls fuel lost (calls @ after_answer c answer) s)"

definition onAddLabel :: "string \<Rightarrow> label_call list" where
  "onAddLabel text = (if text = [] then [] else [LabAdd None text])"

definition onRenameLabel :: "string \<Rightarrow> string \<Rightarrow> label_call list" where
  "onRenameLabel source text = (if text = [] \<or> text = source then [] else [LabAdd (Some source) text])"

definition onRemoveLabel :: "string \<Rightarrow> label_call list" where
  "onRemoveLabel name = [LabRemove name]"

section \<open>The form and the register\<close>

text \<open>What makes two fields show a value alike.\<close>

fun field_shape :: "lab_field \<Rightarrow> nat \<times> nat" where
  "field_shape (LCheck _) = (0, 0)"
| "field_shape (LSpin f) = (1, decimalPrecision f)"
| "field_shape (LDuration _) = (2, 0)"
| "field_shape (LText _) = (3, 0)"

definition shapes :: "(string \<times> lab_field) list \<Rightarrow> (string \<times> nat \<times> nat) list" where
  "shapes form = map (\<lambda>(name, f). (name, field_shape f)) form"

definition lab_form_ok :: "(string \<times> lab_field) list \<Rightarrow> bool" where
  "lab_form_ok form \<longleftrightarrow> shapes form = shapes label_form \<and> (\<forall>name d. (name, LDuration d) \<in> set form \<longrightarrow> dur_ok d)"

text \<open>A value its field can show: a number with no more places than the field has, a delay of tenths of an hour within
  the field's range, a text that is not blank where a blank is taken for none.\<close>

definition lab_fits :: "string \<Rightarrow> nat \<times> nat \<Rightarrow> jsval \<Rightarrow> bool" where
  "lab_fits name sh v \<longleftrightarrow>
     (fst sh = 0 \<and> as_bool v \<noteq> None) \<or>
     (fst sh = 1 \<and> snd sh \<le> 17 \<and> (\<exists>q. v = num q \<and> q * 10 ^ snd sh \<in> \<int>)) \<or>
     (fst sh = 2 \<and> (\<exists>q. v = num q \<and> 0 \<le> q \<and> q \<le> maxHours \<and> q * 10 \<in> \<int>)) \<or>
     (fst sh = 3 \<and> (\<exists>t. v = Str t \<and> (t \<noteq> [] \<or> js_get label_DEFAULTS name = Undefined)))"

lemma dur_get_set: "dur_ok d \<Longrightarrow> 0 \<le> q \<Longrightarrow> q \<le> maxHours \<Longrightarrow> q * 10 \<in> \<int> \<Longrightarrow> dur_getValue (dur_setValue (num q) d) = Fin q"
  using dur_set_get(3) [of d q] hours_part_exact [of q] by (simp add: clamped_def)

lemma lab_field_roundtrip:
  assumes "lab_fits name (field_shape f) v" "\<And>d. f = LDuration d \<Longrightarrow> dur_ok d"
  shows "take_field name (put_field name v f) = v"
proof (cases f)
  case (LCheck b)
  then show ?thesis using assms(1) by (cases v) (auto simp: lab_fits_def as_bool_def)
next
  case (LSpin n)
  then obtain q where q: "v = num q" "decimalPrecision n \<le> 17" "q * 10 ^ decimalPrecision n \<in> \<int>"
    using assms(1) by (auto simp: lab_fits_def)
  then show ?thesis by (simp add: LSpin nf_get_set deluge_number_num fixed_id)
next
  case (LDuration d)
  then obtain q where q: "v = num q" "0 \<le> q" "q \<le> maxHours" "q * 10 \<in> \<int>" using assms(1) by (auto simp: lab_fits_def)
  then show ?thesis using dur_get_set [OF assms(2) [OF LDuration]] by (simp add: LDuration deluge_number_num)
next
  case (LText t)
  then obtain u where "v = Str u" "u \<noteq> [] \<or> js_get label_DEFAULTS name = Undefined" using assms(1) by (auto simp: lab_fits_def)
  then show ?thesis by (simp add: LText)
qed

lemma shapes_in: "(name, f) \<in> set form \<Longrightarrow> (name, field_shape f) \<in> set (shapes form)"
  by (force simp: shapes_def)

lemma shape_put [simp]: "field_shape (put_field name v f) = field_shape f"
  by (cases f) (simp_all add: nf_setValue_def Let_def split: jsnum.split)

lemma lab_form_ok_put: "lab_form_ok form \<Longrightarrow> lab_form_ok (form_put opts form)"
proof -
  assume ok: "lab_form_ok form"
  have "shapes (form_put opts form) = shapes form" by (auto simp: shapes_def form_put_def)
  moreover have "dur_ok d" if d: "(name, LDuration d) \<in> set (form_put opts form)" for name d
  proof -
    obtain f where f: "(name, f) \<in> set form" "put_field name (js_get opts name) f = LDuration d" using d by (auto simp: form_put_def)
    then obtain e where e: "f = LDuration e" by (cases f) (auto simp: Let_def)
    then show ?thesis using f ok by (auto simp: lab_form_ok_def intro!: dur_ok_setValue)
  qed
  ultimately show ?thesis using ok by (simp add: lab_form_ok_def)
qed

lemma form_shown:
  assumes "lab_form_ok form" "\<forall>(name, sh) \<in> set (shapes label_form). lab_fits name sh (js_get opts name)"
  shows "label_form_options (form_put opts form) =
    AList.update ''move_completed'' (js_get opts ''apply_move_completed'') (map (\<lambda>(name, f). (name, js_get opts name)) label_form)"
proof -
  have "take_field name (put_field name (js_get opts name) f) = js_get opts name" if "(name, f) \<in> set form" for name f
    using assms shapes_in [OF that] that by (intro lab_field_roundtrip) (auto simp: lab_form_ok_def)
  then have "map (\<lambda>(name, f). (name, take_field name f)) (form_put opts form) = map (\<lambda>(name, f). (name, js_get opts name)) form"
    by (auto simp: form_put_def)
  also have "\<dots> = map (\<lambda>(name, sh). (name, js_get opts name)) (shapes form)" by (simp add: shapes_def split_def)
  also have "\<dots> = map (\<lambda>(name, f). (name, js_get opts name)) label_form" using assms(1) by (simp add: lab_form_ok_def) (simp add: shapes_def split_def)
  finally show ?thesis by (simp add: label_form_options_def Let_def) (simp add: label_form_def js_get_def)
qed

lemma label_parse_cong: "(\<And>k. map_of d k = map_of d' k) \<Longrightarrow> label_parse d = label_parse d'"
  by (simp add: label_parse_def)

text \<open>Options that a label has and the window can show.\<close>

definition label_exact :: "jsval dict \<Rightarrow> bool" where
  "label_exact opts \<longleftrightarrow> (\<forall>(name, sh) \<in> set (shapes label_form). lab_fits name sh (js_get opts name)) \<and>
     js_get opts ''move_completed'' = js_get opts ''apply_move_completed''"

lemma parsed_keys: "label_parse d = Some opts \<Longrightarrow> map fst opts = map fst label_fields"
  by (auto simp: label_parse_def split_def split: if_splits)

lemma names_known: "fst ` set label_form \<union> {''move_completed''} \<subseteq> fst ` set label_fields"
  by (simp add: label_form_def label_fields_def)

lemma fields_distinct: "distinct (map fst label_fields)" "distinct (map fst label_form)"
  by (simp_all add: label_fields_def label_form_def)

lemma shown_parses:
  assumes "lab_form_ok form" "label_parse opts = Some opts" "label_exact opts"
  shows "label_parse (put_all opts (label_form_options (form_put opts form))) = Some opts"
proof -
  let ?sent = "label_form_options (form_put opts form)"
  let ?keep = "map (\<lambda>(n, f). (n, js_get opts n)) label_form"
  have sent: "?sent = AList.update ''move_completed'' (js_get opts ''apply_move_completed'') ?keep"
    using assms(3) by (intro form_shown assms(1)) (simp add: label_exact_def)
  have keys: "map fst opts = map fst label_fields" using parsed_keys [OF assms(2)] .
  have get: "map_of opts k = Some (js_get opts k)" if "k \<in> fst ` set label_fields" for k
  proof -
    have "k \<in> set (map fst opts)" unfolding keys using that by simp
    then have "map_of opts k \<noteq> None" by (simp add: map_of_eq_None_iff)
    then show ?thesis by (auto simp: js_get_def)
  qed
  have "map fst ?keep = map fst label_form" by (simp add: split_def)
  then have "wf_dict ?keep" using fields_distinct(2) by (simp only:)
  then have wf: "wf_dict ?sent" unfolding sent by (rule distinct_update)
  have keep: "map_of ?keep k = Some v \<Longrightarrow> v = js_get opts k \<and> k \<in> fst ` set label_form" for k v by (force dest!: map_of_SomeD)
  have at: "map_of ?sent k = Some v \<Longrightarrow> map_of opts k = Some v" for k v
    using assms(3) keep [of k v] get [of k] names_known unfolding sent AList.update_conv' label_exact_def by (auto split: if_splits)
  have "map_of (put_all opts ?sent) k = map_of opts k" for k
    using at [of k] by (simp add: map_of_put_all [OF wf] map_add_def split: option.split)
  then show ?thesis using label_parse_cong [of "put_all opts ?sent" opts] assms(2) by simp
qed

lemma parse_get: "label_parse d = Some opts \<Longrightarrow> map_of d k = Some v \<Longrightarrow> k \<in> fst ` set label_fields \<Longrightarrow> js_get opts k = v"
proof -
  assume a: "label_parse d = Some opts" "map_of d k = Some v" "k \<in> fst ` set label_fields"
  obtain kind w where "(k, kind, w) \<in> set label_fields" using a(3) by auto
  then have "(k, v) \<in> set opts" using a(1,2) by (force simp: label_parse_def split: if_splits)
  then show "js_get opts k = v" using parsed_keys [OF a(1)] fields_distinct(1) by (simp add: js_get_def)
qed

lemma lab_form_ok_new: "lab_form_ok label_form"
  by (auto simp: lab_form_ok_def label_form_def dur_ok_new lab_spinner_def)

text \<open>What a field gives for a value that was put in it is of the kind of the value.\<close>

definition kind_fits :: "label_kind \<Rightarrow> nat \<times> nat \<Rightarrow> bool" where
  "kind_fits kind sh \<longleftrightarrow>
     (case kind of
        KBool \<Rightarrow> fst sh = 0
      | KFloat \<Rightarrow> fst sh = 1 \<and> snd sh \<le> 17 \<or> fst sh = 2
      | KInt \<Rightarrow> fst sh = 1 \<and> snd sh = 0
      | KString \<Rightarrow> fst sh = 3
      | KStrings \<Rightarrow> False)"

lemma take_kind:
  assumes "kind_ok kind v" "kind_fits kind (field_shape f)" "\<And>d. f = LDuration d \<Longrightarrow> dur_ok d"
  shows "kind_ok kind (take_field name (put_field name v f))"
proof (cases kind)
  case KBool
  then show ?thesis using assms(2) by (cases f) (auto simp: kind_fits_def as_bool_def)
next
  case KFloat
  then obtain q where q: "v = num q" using assms(1) by (auto simp: as_f64_def split: jsval.splits jsnum.splits)
  show ?thesis
    using KFloat assms(2,3) dur_set_get(3) by (cases f) (auto simp: kind_fits_def q nf_get_set deluge_number_num as_f64_def)
next
  case KInt
  then obtain q where q: "v = num q" "of_int \<lfloor>q\<rfloor> = q" using assms(1) by (auto simp: as_i64_def split: jsval.splits jsnum.splits if_splits)
  then have "q \<in> \<int>" by (metis Ints_of_int)
  then have "take_field name (put_field name v f) = v"
    using KInt assms(2,3) q(1) by (intro lab_field_roundtrip) (auto simp: kind_fits_def lab_fits_def)
  then show ?thesis using assms(1) by simp
next
  case KString
  then show ?thesis using assms(2) by (cases f) (auto simp: kind_fits_def as_str_def Let_def)
qed (use assms(2) in \<open>simp add: kind_fits_def\<close>)

lemma form_kinds:
  "list_all (\<lambda>(k, kind, v). case map_of (shapes label_form) k of None \<Rightarrow> True | Some sh \<Rightarrow> kind_fits kind sh) label_fields"
  by code_simp

lemma shape_of: "lab_form_ok form \<Longrightarrow> map_option field_shape (map_of form k) = map_of (shapes label_form) k"
proof -
  have "map_of (shapes f) k = map_option field_shape (map_of f k)" for f by (induction f) (auto simp: shapes_def)
  then show "lab_form_ok form \<Longrightarrow> ?thesis" by (metis lab_form_ok_def)
qed

lemma sent_value:
  assumes "lab_form_ok form" "js_get opts ''apply_move_completed'' = Bool b"
  shows "map_of (label_form_options (form_put opts form)) k =
    (if k = ''move_completed'' then Some (Bool b) else map_option (\<lambda>f. take_field k (put_field k (js_get opts k) f)) (map_of form k))"
proof -
  have all: "map_of (map (\<lambda>(name, f). (name, take_field name f)) (form_put opts f)) k =
      map_option (\<lambda>f. take_field k (put_field k (js_get opts k) f)) (map_of f k)" for k f
    by (induction f) (auto simp: form_put_def)
  have "map_option field_shape (map_of form ''apply_move_completed'') = Some (0, 0)"
    unfolding shape_of [OF assms(1)] by (simp add: shapes_def label_form_def lab_spinner_def)
  then obtain f where f: "map_of form ''apply_move_completed'' = Some f" "field_shape f = (0, 0)" by auto
  then have "take_field ''apply_move_completed'' (put_field ''apply_move_completed'' (Bool b) f) = Bool b" by (cases f) auto
  then show ?thesis using all f(1) assms(2) by (simp add: label_form_options_def Let_def AList.update_conv' js_get_def all)
qed

lemma sent_wf: "lab_form_ok form \<Longrightarrow> wf_dict (label_form_options (form_put opts form))"
proof -
  assume "lab_form_ok form"
  then have "map fst form = map fst label_form" by (metis (no_types, lifting) lab_form_ok_def shapes_def map_map fst_conv map_cong comp_apply case_prod_unfold)
  then have "distinct (map fst form)" using fields_distinct(2) by simp
  then show ?thesis by (simp add: label_form_options_def Let_def distinct_update form_put_def split_def comp_def)
qed

lemma stored_options:
  assumes "label_parse opts = Some opts" "(k, kind, v) \<in> set label_fields"
  shows "map_of opts k = Some (js_get opts k) \<and> kind_ok kind (js_get opts k)"
proof -
  have "k \<in> set (map fst opts)" unfolding parsed_keys [OF assms(1)] using assms(2) by force
  then obtain w where w: "map_of opts k = Some w" by (metis map_of_eq_None_iff not_None_eq set_map)
  moreover have "kind_ok kind w" using assms w by (auto simp: label_parse_def list_all_iff split: if_splits)
  ultimately show ?thesis by (simp add: js_get_def)
qed

text \<open>The options after the window has sent what it shows of the stored ones.\<close>

lemma resent:
  assumes "lab_form_ok form" "label_parse opts = Some opts"
  defines "sent \<equiv> label_form_options (form_put opts form)"
  shows "\<exists>after. label_parse (put_all opts sent) = Some after \<and>
    (\<forall>k sh. (k, sh) \<in> set (shapes label_form) \<and> lab_fits k sh (js_get opts k) \<longrightarrow> js_get after k = js_get opts k) \<and>
    (\<forall>k. k \<notin> fst ` set label_form \<and> k \<noteq> ''move_completed'' \<longrightarrow> js_get after k = js_get opts k) \<and>
    js_get after ''move_completed'' = js_get opts ''apply_move_completed''"
proof -
  let ?m = "put_all opts sent"
  obtain b where b: "js_get opts ''apply_move_completed'' = Bool b"
    using stored_options [OF assms(2), of "''apply_move_completed''" KBool "Bool False"] by (auto simp: label_fields_def as_bool_def split: jsval.splits)
  note val = sent_value [OF assms(1) b, folded sent_def]
  have m: "map_of ?m k = (case map_of sent k of None \<Rightarrow> map_of opts k | Some v \<Rightarrow> Some v)" for k
    using map_of_put_all [OF sent_wf [OF assms(1)], of opts opts] by (simp add: map_add_def sent_def split: option.split)
  have dur: "dur_ok d" if "map_of form k = Some (LDuration d)" for k d
    using assms(1) map_of_SomeD [OF that] by (auto simp: lab_form_ok_def)
  have kinds: "kind_ok kind w" if k: "(k, kind, v) \<in> set label_fields" and w: "map_of ?m k = Some w" for k kind v w
  proof (cases "k = ''move_completed''")
    case True
    then have "kind = KBool" using k by (simp add: label_fields_def)
    then show ?thesis using w True by (auto simp: m val as_bool_def)
  next
    case False
    note st = stored_options [OF assms(2) k]
    show ?thesis
    proof (cases "map_of form k")
      case None
      then show ?thesis using w st False by (simp add: m val)
    next
      case (Some f)
      then have "map_of (shapes label_form) k = Some (field_shape f)" using shape_of [OF assms(1), of k] by simp
      then have "kind_fits kind (field_shape f)" using form_kinds k unfolding list_all_iff by fastforce
      then have "kind_ok kind (take_field k (put_field k (js_get opts k) f))" using st Some dur by (intro take_kind) auto
      then show ?thesis using w Some False by (simp add: m val)
    qed
  qed
  define after where "after = map (\<lambda>(k, kind, v). (k, case map_of ?m k of None \<Rightarrow> v | Some w \<Rightarrow> w)) label_fields"
  have parse: "label_parse ?m = Some after"
    using kinds by (auto simp: label_parse_def after_def list_all_iff split: option.split)
  have keys: "map fst opts = map fst after" using parsed_keys [OF assms(2)] parsed_keys [OF parse] by simp
  have at: "js_get after k = v" if "map_of ?m k = Some v" "k \<in> fst ` set label_fields" for k v by (rule parse_get [OF parse that])
  have "js_get after k = js_get opts k" if s: "(k, sh) \<in> set (shapes label_form)" "lab_fits k sh (js_get opts k)" for k sh
  proof -
    have in_form: "k \<in> fst ` set label_form" using s(1) by (force simp: shapes_def)
    then have ne: "k \<noteq> ''move_completed''" by (auto simp: label_form_def)
    have "map fst (shapes label_form) = map fst label_form" by (simp add: shapes_def split_def)
    then have "map_of (shapes label_form) k = Some sh" using s(1) fields_distinct(2) by (simp add: map_of_is_SomeI)
    then obtain f where f: "map_of form k = Some f" "field_shape f = sh" using shape_of [OF assms(1), of k] by auto
    then have "take_field k (put_field k (js_get opts k) f) = js_get opts k" using s(2) dur by (intro lab_field_roundtrip) auto
    then have "map_of ?m k = Some (js_get opts k)" using f(1) ne by (simp add: m val)
    then show ?thesis by (rule at) (use in_form names_known in blast)
  qed
  moreover have "js_get after k = js_get opts k" if k: "k \<notin> fst ` set label_form" "k \<noteq> ''move_completed''" for k
  proof (cases "k \<in> fst ` set label_fields")
    case True
    have "map_of label_form k = None" using k(1) by (simp add: map_of_eq_None_iff)
    then have "map_of form k = None" using shape_of [OF assms(1), of k] shape_of [OF lab_form_ok_new, of k] by simp
    then have "map_of ?m k = map_of opts k" using k(2) by (simp add: m val)
    moreover have "map_of opts k = Some (js_get opts k)" using True stored_options [OF assms(2)] by fastforce
    ultimately have "map_of ?m k = Some (js_get opts k)" by (rule trans)
    then show ?thesis using True by (rule at)
  next
    case False
    then have "k \<notin> set (map fst label_fields)" by simp
    then have "k \<notin> set (map fst opts)" "k \<notin> set (map fst after)" 
      unfolding parsed_keys [OF assms(2)] parsed_keys [OF parse] by - (assumption+)
    then have "map_of opts k = None" "map_of after k = None" by (simp_all add: map_of_eq_None_iff)
    then show ?thesis by (simp add: js_get_def)
  qed
  moreover have "js_get after ''move_completed'' = js_get opts ''apply_move_completed''"
    unfolding b by (rule at) (simp_all add: m val label_fields_def)
  ultimately show ?thesis using parse by auto
qed

text \<open>C37: Opening a label's settings, waiting for them to come and pressing OK is taken by the daemon and changes no other label,
  whatever the daemon holds for this one: every option whose value its field can show (\<open>lab_fits\<close>: a rate of whole tenths, a delay of
  whole tenths of an hour within the field's range) stays as it was stored, and so does every option without a field, but for
  \<open>move_completed\<close>, which is made the same as \<open>apply_move_completed\<close>.\<close>

lemma ok_keeps_label:
  assumes "lab_form_ok (lw_form w)" "name \<noteq> []" "label_get_options name s = Some opts" "label_parse opts = Some opts"
  shows "\<exists>sent after. lw_sets (lw_onOk (lw_loaded (length (lw_asks w)) (label_get_options name s) (lw_show name w))) = lw_sets w @ [(name, sent)] \<and>
    fst (label_set_options name sent s) \<and>
    ld_labels (snd (label_set_options name sent s)) = AList.update (normalise_label name) after (ld_labels s) \<and>
    (\<forall>k sh. (k, sh) \<in> set (shapes label_form) \<and> lab_fits k sh (js_get opts k) \<longrightarrow> js_get after k = js_get opts k) \<and>
    (\<forall>k. k \<notin> fst ` set label_form \<and> k \<noteq> ''move_completed'' \<longrightarrow> js_get after k = js_get opts k) \<and>
    js_get after ''move_completed'' = js_get opts ''apply_move_completed''"
proof -
  let ?sent = "label_form_options (form_put opts (form_put [] (lw_form w)))"
  obtain after where a: "label_parse (put_all opts ?sent) = Some after"
      "\<forall>k sh. (k, sh) \<in> set (shapes label_form) \<and> lab_fits k sh (js_get opts k) \<longrightarrow> js_get after k = js_get opts k"
      "\<forall>k. k \<notin> fst ` set label_form \<and> k \<noteq> ''move_completed'' \<longrightarrow> js_get after k = js_get opts k"
      "js_get after ''move_completed'' = js_get opts ''apply_move_completed''"
    using resent [OF lab_form_ok_put [OF assms(1), of "[]"] assms(4)] by blast
  have "label_set_options name ?sent s = (True, apply_label_options (normalise_label name) after
      (s\<lparr>ld_labels := AList.update (normalise_label name) after (ld_labels s)\<rparr>))"
    using assms(3) a(1) by (simp add: label_set_options_def label_get_options_def Let_def)
  then have "fst (label_set_options name ?sent s)"
      "ld_labels (snd (label_set_options name ?sent s)) = AList.update (normalise_label name) after (ld_labels s)"
    by (simp_all add: apply_label_options_def)
  moreover have "lw_sets (lw_onOk (lw_loaded (length (lw_asks w)) (label_get_options name s) (lw_show name w))) = lw_sets w @ [(name, ?sent)]"
    using assms(2,3) by (simp add: lw_onOk_def lw_loaded_def lw_show_def lw_setOptions_def lw_onSwitched_def Let_def)
  ultimately show ?thesis using a(2-4) by blast
qed

lemma parse_default: "label_parse label_default = Some label_default"
  by code_simp

lemma default_exact: "label_exact label_default"
proof -
  have "\<forall>(name, sh) \<in> set (shapes label_form). lab_fits name sh (js_get label_default name)"
    by (simp add: shapes_def label_form_def lab_spinner_def label_default_def label_fields_def js_get_def lab_fits_def as_bool_def maxHours_def
        label_DEFAULTS_def) blast
  then show ?thesis by (simp add: label_exact_def label_default_def label_fields_def js_get_def)
qed

definition label_state :: label_daemon where
  "label_state = \<lparr>ld_labels = [(''linux'', label_default)], ld_torrents = [(''t1'', some_torrent)]\<rparr>"

lemma normal_linux: "normalise_label ''linux'' = ''linux''"
  by code_simp

lemma ok_keeps_label_witness:
  "\<exists>sent after. lw_sets (lw_onOk (lw_loaded 0 (Some label_default) (lw_show ''linux'' label_window_new))) = [(''linux'', sent)] \<and>
     fst (label_set_options ''linux'' sent label_state) \<and>
     ld_labels (snd (label_set_options ''linux'' sent label_state)) = [(''linux'', after)] \<and>
     js_get after ''stop_ratio'' = num 2 \<and> js_get after ''auto_add'' = Bool False"
proof -
  have "label_get_options ''linux'' label_state = Some label_default"
    unfolding label_get_options_def normal_linux by (simp add: label_state_def)
  moreover have "(''stop_ratio'', 1, 1) \<in> set (shapes label_form)" "lab_fits ''stop_ratio'' (1, 1) (js_get label_default ''stop_ratio'')"
      "js_get label_default ''stop_ratio'' = num 2" "js_get label_default ''auto_add'' = Bool False" "''auto_add'' \<notin> fst ` set label_form"
    by (simp_all add: shapes_def label_form_def lab_spinner_def lab_fits_def label_default_def label_fields_def js_get_def)
  moreover have "AList.update (normalise_label ''linux'') after (ld_labels label_state) = [(''linux'', after)]" for after
    unfolding normal_linux by (simp add: label_state_def)
  ultimately show ?thesis
    using ok_keeps_label [of label_window_new "''linux''" label_state label_default] lab_form_ok_new parse_default
    by (fastforce simp: label_window_new_def)
qed

section \<open>Seeding rules and the queue\<close>

lemma apply_keeps_label: "''label'' \<notin> fst ` set d \<Longrightarrow> t_label (apply_torrent_options d t) = t_label t"
  unfolding apply_torrent_options_def by (induction d arbitrary: t) (auto simp: apply_frames)

lemma torrent_options_keys: "wf_dict (to_torrent_options opts)" "''label'' \<notin> fst ` set (to_torrent_options opts)"
  by (cases "js_get opts ''apply_max'' = Bool True"; cases "js_get opts ''apply_queue'' = Bool True";
      cases "js_get opts ''apply_move_completed'' = Bool True"; simp add: to_torrent_options_def Let_def)+

text \<open>C38: Ticking Seeding rules for a label takes all its torrents out of the queue: the window has no field for
  \<open>is_auto_managed\<close>, which is off unless another client set it, and the daemon imposes it with the rest of the group.\<close>

lemma seeding_rules_unqueue:
  assumes "lab_form_ok form" "checked_in form ''apply_queue''" "label_get_options name s = Some kept" "wf_dict kept"
    "js_get kept ''is_auto_managed'' = Bool False" "label_set_options name (label_form_options form) s = (True, s')" "(tid, t) \<in> set (ld_torrents s)"
    "t_label t = normalise_label name"
  shows "\<exists>t'. (tid, t') \<in> set (ld_torrents s') \<and> t_label t' = normalise_label name \<and> \<not> lt_auto_managed t'"
proof -
  let ?sent = "label_form_options form" and ?i = "normalise_label name"
  obtain opts where o: "label_parse (put_all kept ?sent) = Some opts"
      "s' = apply_label_options ?i opts (s\<lparr>ld_labels := AList.update ?i opts (ld_labels s)\<rparr>)"
    using assms(3,6) by (auto simp: label_set_options_def label_get_options_def Let_def split: option.splits)
  let ?read = "map (\<lambda>(n, f). (n, take_field n f)) form"
  have names: "map fst form = map fst label_form"
  proof -
    have "map fst (shapes form) = map fst (shapes label_form)" using assms(1) by (simp add: lab_form_ok_def)
    then show ?thesis by (simp add: shapes_def split_def comp_def)
  qed
  have keys: "map fst ?read = map fst label_form" unfolding names [symmetric] by (simp add: split_def)
  then have w: "wf_dict ?read" using fields_distinct(2) by (simp only:)
  have sent: "map_of ?sent k = map_of ?read k" if "k \<noteq> ''move_completed''" for k
    using that by (simp add: label_form_options_def Let_def AList.update_conv')
  have ws: "wf_dict ?sent" unfolding label_form_options_def Let_def by (rule distinct_update [OF w])
  have "map_of ?read ''apply_queue'' = Some (Bool True)"
    using assms(2) w by (force simp: checked_in_def dest: map_of_SomeD)
  then have q: "map_of (put_all kept ?sent) ''apply_queue'' = Some (Bool True)" by (simp add: map_of_put_all [OF ws] sent)
  have "''is_auto_managed'' \<notin> set (map fst ?read)" unfolding keys by (simp add: label_form_def)
  then have "map_of ?read ''is_auto_managed'' = None" unfolding map_of_eq_None_iff set_map .
  then have "map_of ?sent ''is_auto_managed'' = None" by (simp add: sent)
  moreover have "map_of kept ''is_auto_managed'' = Some (Bool False)" using assms(5) by (simp add: js_get_def split: option.splits)
  ultimately have a: "map_of (put_all kept ?sent) ''is_auto_managed'' = Some (Bool False)" by (simp add: map_of_put_all [OF ws] map_add_def)
  have opts: "js_get opts ''apply_queue'' = Bool True" "js_get opts ''is_auto_managed'' = Bool False"
    by (rule parse_get [OF o(1) q] parse_get [OF o(1) a], simp add: label_fields_def)+
  let ?d = "to_torrent_options opts"
  have "map_of ?d ''auto_managed'' = Some (Bool False)" by (simp add: to_torrent_options_def Let_def opts)
  from options_last [OF torrent_options_keys(1) this, of t "[]"] have "\<not> lt_auto_managed (apply_torrent_options ?d t)"
    by (auto simp: taken_options_def status_reads apply_writes unwrap_or_def as_bool_def)
  moreover have "t_label (apply_torrent_options ?d t) = ?i" using apply_keeps_label [OF torrent_options_keys(2)] assms(8) by simp
  moreover have "(tid, apply_torrent_options ?d t) \<in> set (ld_torrents s')"
    using assms(7,8) by (force simp: o(2) apply_label_options_def)
  ultimately show ?thesis by blast
qed

definition queue_label :: "jsval dict" where
  "queue_label = AList.update ''apply_queue'' (Bool True) label_default"

lemma queue_label_parses: "label_parse queue_label = Some queue_label"
  by code_simp

lemma queue_label_exact: "label_exact queue_label"
  using default_exact by (auto simp: label_exact_def queue_label_def get_update lab_fits_def as_bool_def shapes_def label_form_def lab_spinner_def)

lemma seeding_rules_unqueue_witness:
  "\<exists>sent t'. (''t1'', t') \<in> set (ld_torrents (snd (label_set_options ''linux'' sent (label_state\<lparr>ld_labels := [(''linux'', queue_label)]\<rparr>)))) \<and>
     \<not> lt_auto_managed t' \<and> lt_auto_managed some_torrent"
proof -
  let ?s = "label_state\<lparr>ld_labels := [(''linux'', queue_label)]\<rparr>" and ?f = "form_put queue_label label_form"
  have c: "checked_in ?f ''apply_queue''"
    by (simp add: checked_in_def form_put_def label_form_def queue_label_def get_update)
  have g: "label_get_options ''linux'' ?s = Some queue_label"
    unfolding label_get_options_def normal_linux by simp
  have d: "wf_dict queue_label" "js_get queue_label ''is_auto_managed'' = Bool False"
    by (simp_all add: queue_label_def label_default_def label_fields_def js_get_def)
  obtain s' where s: "label_set_options ''linux'' (label_form_options ?f) ?s = (True, s')"
    using g shown_parses [OF lab_form_ok_new queue_label_parses queue_label_exact] by (simp add: label_set_options_def label_get_options_def Let_def)
  have "\<exists>t'. (''t1'', t') \<in> set (ld_torrents s') \<and> t_label t' = normalise_label ''linux'' \<and> \<not> lt_auto_managed t'"
    by (rule seeding_rules_unqueue [OF lab_form_ok_put [OF lab_form_ok_new] c g d s, of "''t1''" some_torrent])
      (simp_all add: normal_linux, simp_all add: label_state_def some_torrent_def)
  then show ?thesis using s by (metis prod.sel(2) daemon_torrent.select_convs(23) some_torrent_def)
qed

section \<open>Renaming\<close>

text \<open>A torrent is given a label.\<close>

lemma apply_label: "apply_torrent_options [(''label'', Str name)] t = t\<lparr>t_label := normalise_label name\<rparr>"
  by (simp add: apply_torrent_options_def apply_option_def unwrap_or_def as_str_def)

lemma move_all:
  assumes "wf_dict (ld_torrents s)"
  shows "ld_torrents (set_torrent_options (torrents_with source s) [(''label'', Str name)] s) =
    map (\<lambda>(tid, t). (tid, if t_label t = source then t\<lparr>t_label := normalise_label name\<rparr> else t)) (ld_torrents s)"
proof -
  have "tid \<in> set (torrents_with source s) \<longleftrightarrow> t_label t = source" if "(tid, t) \<in> set (ld_torrents s)" for tid t
    using that assms by (force simp: torrents_with_def dest: wf_dict_eq)
  then show ?thesis by (auto simp: set_torrent_options_def apply_label)
qed

lemma move_none: "torrents_with source s = [] \<Longrightarrow> set_torrent_options [] c s = s"
  by (simp add: set_torrent_options_def)

text \<open>The calls of a rename, whatever becomes of the first, when the others are served.\<close>

lemma rename_run:
  assumes "\<And>c. c \<noteq> LabAdd (Some source) wish \<Longrightarrow> \<not> lost c"
  shows "run_calls 5 lost [LabAdd (Some source) wish] s =
    (let s1 = (if lost (LabAdd (Some source) wish) then s else snd (label_add wish s))
     in ([], snd (label_remove source (set_torrent_options (torrents_with source s1) [(''label'', Str wish)] s1))))"
proof -
  let ?s1 = "if lost (LabAdd (Some source) wish) then s else snd (label_add wish s)"
  have rest: "run_calls 4 lost [LabList source wish] ?s1 =
      ([], snd (label_remove source (set_torrent_options (torrents_with source ?s1) [(''label'', Str wish)] ?s1)))"
    using assms by (cases "torrents_with source ?s1 = []") (simp_all add: eval_nat_numeral move_none del: torrents_with_def)
  have "run_calls 5 lost [LabAdd (Some source) wish] s = run_calls 4 lost [LabList source wish] ?s1"
    by (simp add: eval_nat_numeral split: prod.split option.split)
  then show ?thesis using rest by (simp add: Let_def)
qed

lemma torrents_add [simp]: "ld_torrents (snd (label_add wish s)) = ld_torrents s"
  by (simp add: label_add_def Let_def)

lemma map_of_torrents: "map_of (map (\<lambda>(tid, t). (tid, g t)) xs) tid = map_option g (map_of xs tid)"
  by (induction xs) auto

text \<open>C39: A rename to a name that is new, when no call is lost, gives every torrent of the label the new one and nothing
  else, and ends the old one; the new label starts with the settings of any new label, not with those of the
  old one.\<close>

lemma rename_moves:
  assumes "wf_dict (ld_torrents s)" "normalise_label source = source" "map_of (ld_labels s) source \<noteq> None"
    "normalise_label wish \<noteq> []" "normalise_label wish \<noteq> source" "map_of (ld_labels s) (normalise_label wish) = None"
  shows "\<exists>s'. run_calls 5 (\<lambda>_. False) (onRenameLabel source wish) s = ([], s') \<and>
    map_of (ld_labels s') = (map_of (ld_labels s))(source := None, normalise_label wish \<mapsto> label_default) \<and>
    map_of (ld_torrents s') = (\<lambda>tid. map_option (\<lambda>t. if t_label t = source then t\<lparr>t_label := normalise_label wish\<rparr> else t) (map_of (ld_torrents s) tid))"
proof -
  let ?i = "normalise_label wish"
  have ne: "wish \<noteq> []" "wish \<noteq> source" using assms(2,4,5) by (auto simp: normalise_label_def rust_trim_def to_lower_def)
  let ?s1 = "snd (label_add wish s)"
  have s1: "?s1 = s\<lparr>ld_labels := AList.update ?i label_default (ld_labels s)\<rparr>" using assms(4,6) by (simp add: label_add_def Let_def)
  let ?s2 = "set_torrent_options (torrents_with source ?s1) [(''label'', Str wish)] ?s1"
  have t2: "ld_torrents ?s2 = map (\<lambda>(tid, t). (tid, if t_label t = source then t\<lparr>t_label := ?i\<rparr> else t)) (ld_torrents s)"
    using move_all [of ?s1 source wish] assms(1) by simp
  have l2: "ld_labels ?s2 = AList.update ?i label_default (ld_labels s)" by (simp add: set_torrent_options_def s1)
  have r: "label_remove source ?s2 = (True, clear_label source (?s2\<lparr>ld_labels := AList.delete source (ld_labels ?s2)\<rparr>))"
    using assms(2,3) l2 by (auto simp: label_remove_def AList.update_conv')
  have "ld_torrents (snd (label_remove source ?s2)) = ld_torrents ?s2"
    unfolding r snd_conv clear_label_def using assms(5) by (auto simp: t2 intro!: map_idI)
  then have "map_of (ld_torrents (snd (label_remove source ?s2))) = (\<lambda>tid. map_option (\<lambda>t. if t_label t = source then t\<lparr>t_label := ?i\<rparr> else t) (map_of (ld_torrents s) tid))"
    using t2 by (simp add: map_of_torrents fun_eq_iff)
  moreover have "map_of (ld_labels (snd (label_remove source ?s2))) = (map_of (ld_labels s))(source := None, ?i \<mapsto> label_default)"
    using assms(5) by (auto simp: r clear_label_def l2 AList.delete_conv' AList.update_conv')
  moreover have "run_calls 5 (\<lambda>_. False) (onRenameLabel source wish) s = ([], snd (label_remove source ?s2))"
    using rename_run [of source wish "\<lambda>_. False" s] ne by (simp add: onRenameLabel_def Let_def)
  ultimately show ?thesis by blast
qed

lemma normal_films: "normalise_label ''Films'' = ''films''" "normalise_label ''LINUX'' = ''linux''" "normalise_label ''?!'' = []"
  by code_simp+

lemma rename_moves_witness:
  "\<exists>s'. run_calls 5 (\<lambda>_. False) (onRenameLabel ''linux'' ''Films'') label_state = ([], s') \<and>
     map_of (ld_torrents s') ''t1'' = Some (some_torrent\<lparr>t_label := ''films''\<rparr>) \<and> map_of (ld_labels s') ''linux'' = None"
  using rename_moves [of label_state "''linux''" "''Films''"] unfolding normal_films normal_linux
  by (auto simp: label_state_def some_torrent_def)

text \<open>C40: A rename can lose the label instead: a new name that comes to the old one in the daemon's spelling, or to
  nothing, ends the label and leaves its torrents without one; and when the call that adds the new label is
  lost, the others follow all the same and leave the torrents in a label that is not in the register.\<close>

lemma rename_loses_label:
  assumes "wf_dict (ld_torrents s)" "normalise_label source = source" "source \<noteq> []" "map_of (ld_labels s) source \<noteq> None" "wish \<notin> {[], source}"
    "map_of (ld_torrents s) tid = Some t" "t_label t = source"
  shows "if normalise_label wish \<in> {[], source}
    then \<exists>s'. run_calls 5 (\<lambda>_. False) (onRenameLabel source wish) s = ([], s') \<and>
      map_of (ld_labels s') source = None \<and> map_of (ld_torrents s') tid = Some (t\<lparr>t_label := []\<rparr>)
    else map_of (ld_labels s) (normalise_label wish) = None \<longrightarrow>
      (\<exists>s'. run_calls 5 (\<lambda>c. c = LabAdd (Some source) wish) (onRenameLabel source wish) s = ([], s') \<and>
        map_of (ld_torrents s') tid = Some (t\<lparr>t_label := normalise_label wish\<rparr>) \<and> map_of (ld_labels s') (normalise_label wish) = None)"
proof -
  let ?i = "normalise_label wish"
  let ?s2 = "\<lambda>s1. set_torrent_options (torrents_with source s1) [(''label'', Str wish)] s1"
  have t2: "map_of (ld_torrents (?s2 s1)) tid = Some (t\<lparr>t_label := ?i\<rparr>)" if "ld_torrents s1 = ld_torrents s" for s1
    using move_all [of s1 source wish] that assms(1,6,7) by (simp add: map_of_torrents)
  have l2: "ld_labels (?s2 s1) = ld_labels s1" for s1 by (simp add: set_torrent_options_def)
  have r: "map_of (ld_torrents (snd (label_remove source (?s2 s1)))) tid = Some (t\<lparr>t_label := if ?i = source then [] else ?i\<rparr>) \<and>
      map_of (ld_labels (snd (label_remove source (?s2 s1)))) = (map_of (ld_labels s1))(source := None)"
    if "ld_torrents s1 = ld_torrents s" "map_of (ld_labels s1) source \<noteq> None" for s1
    using that(2) t2 [OF that(1)] assms(2) by (auto simp: label_remove_def l2 clear_label_def map_of_torrents AList.delete_conv')
  have kept: "map_of (ld_labels (snd (label_add wish s))) source \<noteq> None" using assms(4) by (auto simp: label_add_def Let_def AList.update_conv')
  show ?thesis
  proof (cases "?i \<in> {[], source}")
    case True
    have "run_calls 5 (\<lambda>_. False) (onRenameLabel source wish) s = ([], snd (label_remove source (?s2 (snd (label_add wish s)))))"
      using rename_run [of source wish "\<lambda>_. False" s] assms(5) by (simp add: onRenameLabel_def Let_def)
    then show ?thesis using True r [OF torrents_add kept] by auto
  next
    case False
    have "run_calls 5 (\<lambda>c. c = LabAdd (Some source) wish) (onRenameLabel source wish) s = ([], snd (label_remove source (?s2 s)))"
      using rename_run [of source wish "\<lambda>c. c = LabAdd (Some source) wish" s] assms(5) by (simp add: onRenameLabel_def Let_def)
    then show ?thesis using False r [OF refl assms(4)] by auto
  qed
qed

lemma rename_loses_label_witness:
  "(\<exists>s'. run_calls 5 (\<lambda>_. False) (onRenameLabel ''linux'' ''LINUX'') label_state = ([], s') \<and>
      map_of (ld_labels s') ''linux'' = None \<and> map_of (ld_torrents s') ''t1'' = Some (some_torrent\<lparr>t_label := []\<rparr>)) \<and>
   (\<exists>s'. run_calls 5 (\<lambda>_. False) (onRenameLabel ''linux'' ''?!'') label_state = ([], s') \<and> map_of (ld_labels s') ''linux'' = None)"
  using rename_loses_label [of label_state "''linux''" "''LINUX''" "''t1''" some_torrent]
    rename_loses_label [of label_state "''linux''" "''?!''" "''t1''" some_torrent] unfolding normal_films normal_linux
  by (auto simp: label_state_def some_torrent_def)

text \<open>OK before the label's options have come writes a form that is blank over them: whatever the label did, its
  torrents are under no rule of it any more.\<close>

lemma ok_before_options_wipes:
  assumes "lab_form_ok (lw_form w)" "name \<noteq> []" "label_get_options name s = Some kept" "wf_dict kept"
    "lw_sets (lw_onOk (lw_show name w)) = lw_sets w @ [(name, sent)]" "label_set_options name sent s = (True, s')"
  shows "\<exists>opts. label_get_options name s' = Some opts \<and> to_torrent_options opts = [] \<and>
    js_get opts ''apply_stuck'' = Bool False \<and> js_get opts ''never_remove'' = Bool False"
proof -
  let ?f = "form_put [] (lw_form w)" and ?i = "normalise_label name"
  have sent: "sent = label_form_options ?f"
    using assms(2,5) by (simp add: lw_onOk_def lw_show_def lw_setOptions_def lw_onSwitched_def Let_def)
  obtain opts where o: "label_parse (put_all kept sent) = Some opts"
      "s' = apply_label_options ?i opts (s\<lparr>ld_labels := AList.update ?i opts (ld_labels s)\<rparr>)"
    using assms(3,6) by (auto simp: label_set_options_def label_get_options_def Let_def split: option.splits)
  let ?read = "map (\<lambda>(n, f). (n, take_field n f)) ?f"
  have keys: "map fst ?read = map fst label_form"
  proof -
    have "map fst (shapes (lw_form w)) = map fst (shapes label_form)" using assms(1) by (simp add: lab_form_ok_def)
    then show ?thesis by (simp add: shapes_def split_def comp_def form_put_def)
  qed
  then have w: "wf_dict ?read" using fields_distinct(2) by (simp only:)
  have ws: "wf_dict sent" unfolding sent label_form_options_def Let_def by (rule distinct_update [OF w])
  have switch: "map_of sent k = Some (Bool False)" if k: "(k, 0, 0) \<in> set (shapes label_form)" for k
  proof -
    have "(k, 0, 0) \<in> set (shapes (lw_form w))" using k assms(1) by (simp add: lab_form_ok_def)
    then obtain f where f: "(k, f) \<in> set (lw_form w)" "field_shape f = (0, 0)" by (auto simp: shapes_def)
    then obtain b where "f = LCheck b" by (cases f) auto
    then have "(k, Bool False) \<in> set ?read" using f(1) by (force simp: form_put_def js_get_def)
    then have "map_of ?read k = Some (Bool False)" using w by simp
    moreover have "k \<noteq> ''move_completed''" using k by (auto simp: shapes_def label_form_def lab_spinner_def)
    ultimately show ?thesis by (simp add: sent label_form_options_def Let_def AList.update_conv')
  qed
  have off: "js_get opts k = Bool False" if k: "(k, 0, 0) \<in> set (shapes label_form)" for k
  proof (rule parse_get [OF o(1)])
    show "map_of (put_all kept sent) k = Some (Bool False)" using switch [OF k] by (simp add: map_of_put_all [OF ws])
    show "k \<in> fst ` set label_fields" using k names_known by (force simp: shapes_def)
  qed
  have sw: "(''apply_max'', 0, 0) \<in> set (shapes label_form)" "(''apply_queue'', 0, 0) \<in> set (shapes label_form)"
    "(''apply_move_completed'', 0, 0) \<in> set (shapes label_form)" "(''apply_stuck'', 0, 0) \<in> set (shapes label_form)"
    "(''never_remove'', 0, 0) \<in> set (shapes label_form)"
    by (simp_all add: shapes_def label_form_def lab_spinner_def)
  have "label_get_options name s' = Some opts" by (simp add: o(2) label_get_options_def apply_label_options_def AList.update_conv')
  then show ?thesis using off sw by (simp add: to_torrent_options_def)
qed

end
