(* ===== verification/PrefPages.thy ===== *)
theory PrefPages
  imports TrackerSettings OptionsManager CreateTorrent
begin

text \<open>
  The pages of the preferences that keep what they show in lists or in a manager of their own:
  \<open>preferences/AutoAddPage.js\<close>, \<open>RssPage.js\<close>, \<open>NotificationsPage.js\<close> and \<open>InterfacePage.js\<close>; and the two
  fields that stand for a dictionary, \<open>ProxyField.js\<close> and \<open>IdentityPage.js\<close>.  A page is what its fields and
  rows hold.  The window that shows what a feed offers and the list of themes are not modelled.
\<close>

section \<open>Fields\<close>

definition spinner :: "nat \<Rightarrow> rat \<Rightarrow> rat \<Rightarrow> rat \<Rightarrow> numfield" where
  "spinner precision mn mx increment =
     \<lparr>decimalPrecision = precision, minValue = mn, maxValue = mx, incrementValue = increment, box_text = []\<rparr>"

text \<open>\<open>Deluge.number(field.getValue(), fallback)\<close>.\<close>

definition box_num_or :: "numfield \<Rightarrow> rat \<Rightarrow> jsnum" where
  "box_num_or f fallback = deluge_number (nf_getValue f) fallback"

definition is_true :: "jsval \<Rightarrow> bool" where
  "is_true v \<longleftrightarrow> strict_eq v (Bool True)"

definition not_false :: "jsval \<Rightarrow> bool" where
  "not_false v \<longleftrightarrow> \<not> strict_eq v (Bool False)"

text \<open>A column of a store of the type \<open>string\<close>.\<close>

definition string_column :: "jsval \<Rightarrow> string" where
  "string_column v = (if v = Undefined \<or> v = Null then [] else js_string v)"

text \<open>\<open>settings[key] || []\<close>, where what is stored is a list.\<close>

definition list_of :: "jsval \<Rightarrow> jsval list" where
  "list_of v = (case v of Arr _ vs \<Rightarrow> vs | _ \<Rightarrow> [])"

text \<open>The row of a grid that is selected is taken out.\<close>

definition remove_selected :: "nat option \<Rightarrow> 'r list \<Rightarrow> 'r list" where
  "remove_selected sel rs = (case sel of None \<Rightarrow> rs | Some i \<Rightarrow> take i rs @ drop (Suc i) rs)"

section \<open>Watched folders\<close>

record watch_row =
  wr_enabled :: bool
  wr_path :: string
  wr_download :: string
  wr_label :: string
  wr_paused :: bool
  wr_after :: string
  wr_extension :: string
  wr_copy :: string

record autoadd =
  aad_enabled :: bool
  aad_interval :: numfield
  aad_rows :: "watch_row list"
  aad_loaded :: bool

definition autoadd_new :: autoadd where
  "autoadd_new = \<lparr>aad_enabled = False, aad_interval = spinner 0 1 MAX_VALUE 1, aad_rows = [], aad_loaded = False\<rparr>"

definition onAddFolder :: "autoadd \<Rightarrow> autoadd" where
  "onAddFolder r =
     r\<lparr>aad_rows := aad_rows r @ [\<lparr>wr_enabled = True, wr_path = [], wr_download = [], wr_label = [], wr_paused = False,
        wr_after = ''rename'', wr_extension = ''.added'', wr_copy = []\<rparr>]\<rparr>"

definition onRemoveFolder :: "nat option \<Rightarrow> autoadd \<Rightarrow> autoadd" where
  "onRemoveFolder sel r = r\<lparr>aad_rows := remove_selected sel (aad_rows r)\<rparr>"

definition watch_read :: "jsval \<Rightarrow> watch_row" where
  "watch_read dir =
     \<lparr>wr_enabled = not_false (prop_of dir ''enabled''), wr_path = string_column (ext_value (prop_of dir ''path'') (Str [])),
      wr_download = string_column (ext_value (prop_of dir ''download_location'') (Str [])),
      wr_label = string_column (ext_value (prop_of dir ''label'') (Str [])), wr_paused = is_true (prop_of dir ''add_paused''),
      wr_after = string_column (ext_value (prop_of dir ''after_add'') (Str ''rename'')),
      wr_extension = string_column (ext_value (prop_of dir ''rename_extension'') (Str ''.added'')),
      wr_copy = string_column (ext_value (prop_of dir ''copy_to'') (Str []))\<rparr>"

definition autoadd_read :: "jsval \<Rightarrow> autoadd \<Rightarrow> autoadd" where
  "autoadd_read config r =
     (let settings = object_or_empty (prop_of config ''autoadd'')
      in r\<lparr>aad_enabled := is_true (js_get settings ''enabled''),
           aad_interval := nf_setValue (ext_value (js_get settings ''interval'') (num 5)) (aad_interval r),
           aad_rows := map watch_read (list_of (js_get settings ''watchdirs''))\<rparr>)"

definition or_text :: "string \<Rightarrow> string \<Rightarrow> string" where
  "or_text s dflt = (if s = [] then dflt else s)"

definition watch_write :: "watch_row \<Rightarrow> jsval" where
  "watch_write row =
     Obj 0 [(''enabled'', Bool (wr_enabled row)), (''path'', Str (trim (wr_path row))), (''download_location'', Str (wr_download row)),
       (''label'', Str (wr_label row)), (''add_paused'', Bool (wr_paused row)), (''after_add'', Str (or_text (wr_after row) ''rename'')),
       (''rename_extension'', Str (or_text (wr_extension row) ''.added'')), (''copy_to'', Str (wr_copy row))]"

definition autoadd_write :: "autoadd \<Rightarrow> jsval dict" where
  "autoadd_write r =
     [(''enabled'', Bool (aad_enabled r)), (''interval'', Num (box_num_or (aad_interval r) 5)),
      (''watchdirs'', Arr 0 (map watch_write (filter (\<lambda>row. trim (wr_path row) \<noteq> []) (aad_rows r))))]"

section \<open>Feeds\<close>

record feed_row =
  fr_enabled :: bool
  fr_name :: string
  fr_url :: string

record rule_row =
  rr_enabled :: bool
  rr_name :: string
  rr_feed :: string
  rr_contains :: string
  rr_excludes :: string
  rr_label :: string
  rr_save_path :: string
  rr_paused :: bool

record rss =
  rss_enabled :: bool
  rss_interval :: numfield
  rss_feeds :: "feed_row list"
  rss_rules :: "rule_row list"
  rss_loaded :: bool

definition rss_new :: rss where
  "rss_new = \<lparr>rss_enabled = False, rss_interval = spinner 0 1 1440 5, rss_feeds = [], rss_rules = [], rss_loaded = False\<rparr>"

definition onAddFeed :: "rss \<Rightarrow> rss" where
  "onAddFeed r = r\<lparr>rss_feeds := rss_feeds r @ [\<lparr>fr_enabled = True, fr_name = [], fr_url = []\<rparr>]\<rparr>"

definition onRemoveFeed :: "nat option \<Rightarrow> rss \<Rightarrow> rss" where
  "onRemoveFeed sel r = r\<lparr>rss_feeds := remove_selected sel (rss_feeds r)\<rparr>"

definition onAddRule :: "rss \<Rightarrow> rss" where
  "onAddRule r =
     r\<lparr>rss_rules := rss_rules r @ [\<lparr>rr_enabled = True, rr_name = [], rr_feed = [], rr_contains = [], rr_excludes = [], rr_label = [],
        rr_save_path = [], rr_paused = False\<rparr>]\<rparr>"

definition onRemoveRule :: "nat option \<Rightarrow> rss \<Rightarrow> rss" where
  "onRemoveRule sel r = r\<lparr>rss_rules := remove_selected sel (rss_rules r)\<rparr>"

text \<open>\<open>v || ''\<close> in a column of text.\<close>

definition text_or_none :: "jsval \<Rightarrow> string" where
  "text_or_none v = string_column (js_or v (Str []))"

definition feed_read :: "jsval \<Rightarrow> feed_row" where
  "feed_read v =
     \<lparr>fr_enabled = not_false (prop_of v ''enabled''), fr_name = text_or_none (prop_of v ''name''), fr_url = text_or_none (prop_of v ''url'')\<rparr>"

definition rule_read :: "jsval \<Rightarrow> rule_row" where
  "rule_read v =
     \<lparr>rr_enabled = not_false (prop_of v ''enabled''), rr_name = text_or_none (prop_of v ''name''),
      rr_feed = text_or_none (prop_of v ''feed''), rr_contains = text_or_none (prop_of v ''contains''),
      rr_excludes = text_or_none (prop_of v ''excludes''), rr_label = text_or_none (prop_of v ''label''),
      rr_save_path = text_or_none (prop_of v ''save_path''), rr_paused = is_true (prop_of v ''paused'')\<rparr>"

definition rss_read :: "jsval \<Rightarrow> rss \<Rightarrow> rss" where
  "rss_read config r =
     (let settings = object_or_empty (prop_of config ''rss'')
      in r\<lparr>rss_enabled := is_true (js_get settings ''enabled''),
           rss_interval := nf_setValue (Num (deluge_number (js_get settings ''interval'') 30)) (rss_interval r),
           rss_feeds := map feed_read (list_of (js_get settings ''feeds'')),
           rss_rules := map rule_read (list_of (js_get settings ''rules''))\<rparr>)"

definition feed_write :: "feed_row \<Rightarrow> jsval" where
  "feed_write row =
     Obj 0 [(''enabled'', Bool (fr_enabled row)), (''name'', Str (trim (fr_name row))), (''url'', Str (trim (fr_url row)))]"

definition rule_write :: "rule_row \<Rightarrow> jsval" where
  "rule_write row =
     Obj 0 [(''enabled'', Bool (rr_enabled row)), (''name'', Str (trim (rr_name row))), (''feed'', Str (trim (rr_feed row))),
       (''contains'', Str (trim (rr_contains row))), (''excludes'', Str (trim (rr_excludes row))), (''label'', Str (trim (rr_label row))),
       (''save_path'', Str (trim (rr_save_path row))), (''paused'', Bool (rr_paused row))]"

definition rss_write :: "rss \<Rightarrow> jsval dict" where
  "rss_write r =
     [(''enabled'', Bool (rss_enabled r)), (''interval'', Num (box_num_or (rss_interval r) 30)),
      (''feeds'', Arr 0 (map feed_write (rss_feeds r))), (''rules'', Arr 0 (map rule_write (rss_rules r)))]"

section \<open>Notifications\<close>

record endpoint_row =
  er_enabled :: bool
  er_kind :: string
  er_url :: string
  er_token :: string

text \<open>\<open>ntf_timeout\<close> and \<open>ntf_tries\<close> have no field; they are kept to be written back.\<close>

record notifications =
  ntf_enabled :: bool
  ntf_finished :: bool
  ntf_error :: bool
  ntf_added :: bool
  ntf_tracker :: bool
  ntf_rows :: "endpoint_row list"
  ntf_timeout :: jsval
  ntf_tries :: jsval
  ntf_result :: string
  ntf_pollFor :: int
  ntf_loaded :: bool

definition notifications_new :: notifications where
  "notifications_new =
     \<lparr>ntf_enabled = False, ntf_finished = False, ntf_error = False, ntf_added = False, ntf_tracker = False, ntf_rows = [],
      ntf_timeout = Undefined, ntf_tries = Undefined, ntf_result = [], ntf_pollFor = 0, ntf_loaded = False\<rparr>"

definition onAddEndpoint :: "notifications \<Rightarrow> notifications" where
  "onAddEndpoint r =
     r\<lparr>ntf_rows := ntf_rows r @ [\<lparr>er_enabled = True, er_kind = ''discord'', er_url = [], er_token = []\<rparr>]\<rparr>"

definition onRemoveEndpoint :: "nat option \<Rightarrow> notifications \<Rightarrow> notifications" where
  "onRemoveEndpoint sel r = r\<lparr>ntf_rows := remove_selected sel (ntf_rows r)\<rparr>"

definition endpoint_read :: "jsval \<Rightarrow> endpoint_row" where
  "endpoint_read v =
     \<lparr>er_enabled = not_false (prop_of v ''enabled''), er_kind = string_column (ext_value (prop_of v ''kind'') (Str ''discord'')),
      er_url = string_column (ext_value (prop_of v ''url'') (Str [])), er_token = string_column (ext_value (prop_of v ''token'') (Str []))\<rparr>"

definition notifications_read :: "jsval \<Rightarrow> notifications \<Rightarrow> notifications" where
  "notifications_read v r =
     (let settings = object_or_empty v
      in r\<lparr>ntf_enabled := is_true (js_get settings ''enabled''), ntf_finished := not_false (js_get settings ''on_finished''),
           ntf_error := not_false (js_get settings ''on_error''), ntf_added := is_true (js_get settings ''on_added''),
           ntf_tracker := is_true (js_get settings ''on_tracker''), ntf_result := text_or_none (js_get settings ''last_test''),
           ntf_timeout := ext_value (js_get settings ''timeout'') (num 15), ntf_tries := ext_value (js_get settings ''try_times'') (num 3),
           ntf_rows := map endpoint_read (list_of (js_get settings ''endpoints''))\<rparr>)"

definition endpoint_write :: "endpoint_row \<Rightarrow> jsval" where
  "endpoint_write row =
     Obj 0 [(''enabled'', Bool (er_enabled row)), (''kind'', Str (or_text (er_kind row) ''discord'')), (''url'', Str (trim (er_url row))),
       (''token'', Str (er_token row))]"

definition notifications_write :: "bool \<Rightarrow> notifications \<Rightarrow> jsval dict" where
  "notifications_write test r =
     [(''enabled'', Bool (ntf_enabled r)), (''on_finished'', Bool (ntf_finished r)), (''on_error'', Bool (ntf_error r)),
      (''on_added'', Bool (ntf_added r)), (''on_tracker'', Bool (ntf_tracker r)),
      (''endpoints'', Arr 0 (map endpoint_write (filter (\<lambda>row. trim (er_url row) \<noteq> []) (ntf_rows r)))),
      (''timeout'', ext_value (ntf_timeout r) (num 15)), (''try_times'', ext_value (ntf_tries r) (num 3)), (''test'', Bool test)]"

text \<open>\<open>onSendTest\<close>: the page and the settings that are written, if it has read any; then \<open>pollTest\<close> asks until the daemon has
  cleared the flag, eleven times at most.  \<open>True\<close>: the timer is set again.\<close>

definition onSendTest :: "notifications \<Rightarrow> notifications \<times> jsval dict list" where
  "onSendTest r =
     (r\<lparr>ntf_result := gettext ''Sending...'', ntf_pollFor := 10\<rparr>, if ntf_loaded r then [notifications_write True r] else [])"

definition pollTest :: "jsval option \<Rightarrow> notifications \<Rightarrow> bool \<times> notifications" where
  "pollTest answer r =
     (case answer of
        None \<Rightarrow> (False, r\<lparr>ntf_result := gettext ''No answer from the daemon''\<rparr>)
      | Some v \<Rightarrow>
          let settings = object_or_empty v; waits = is_true (js_get settings ''test'')
          in if waits \<and> 0 < ntf_pollFor r then (True, r\<lparr>ntf_pollFor := ntf_pollFor r - 1\<rparr>)
             else (False, r\<lparr>ntf_pollFor := (if waits then ntf_pollFor r - 1 else ntf_pollFor r),
                      ntf_result := js_string (js_or (js_get settings ''last_test'') (Str (gettext ''No answer from the daemon'')))\<rparr>))"

section \<open>Interface\<close>

text \<open>A manager of its own, the three boxes of the password, and the \<open>deluge.config\<close> the rest of the page reads.\<close>

record interface_page =
  ifc_om :: om
  ifc_old :: string
  ifc_new :: string
  ifc_confirm :: string
  ifc_config :: "jsval dict"

definition interface_names :: "string list" where
  "interface_names =
     [''show_session_speed'', ''sidebar_show_zero'', ''sidebar_multiple_filters'', ''theme'', ''session_timeout'', ''poll_interval'',
      ''delta_updates'']"

definition interface_new :: "jsval dict \<Rightarrow> interface_page" where
  "interface_new config =
     \<lparr>ifc_om = fold (\<lambda>(i, name). om_bind name i) (enumerate 0 interface_names) (om_new None), ifc_old = [], ifc_new = [], ifc_confirm = [],
      ifc_config = config\<rparr>"

text \<open>What the page calls: the web server's \<open>set_config\<close> and \<open>set_theme\<close>, the poll loop's \<open>schedule\<close>, the change of the
  password, and the box that says the two do not match.\<close>

datatype web_call = WebSetConfig "jsval dict" | Reschedule | SetTheme jsval | ChangePassword string string | PasswordsDiffer

definition interface_onApply :: "interface_page \<Rightarrow> interface_page \<times> web_call list" where
  "interface_onApply p =
     (let ch = om_getDirty (ifc_om p);
          p' = (if isObjectEmpty ch then p
                else p\<lparr>ifc_config := map (\<lambda>(k, v). (k, om_get (ifc_om p) k)) (ifc_config p)\<rparr>)
      in (p', (if isObjectEmpty ch then []
               else [WebSetConfig ch] @ (if ''poll_interval'' \<in> fst ` set ch then [Reschedule] else []) @
                 (if ''theme'' \<in> fst ` set ch then [SetTheme (js_get ch ''theme'')] else [])) @
              (if ifc_old p \<noteq> [] \<or> ifc_new p \<noteq> [] then
                 [if ifc_new p \<noteq> ifc_confirm p then PasswordsDiffer else ChangePassword (ifc_old p) (ifc_new p)]
               else [])))"

definition interface_onOk :: "interface_page \<Rightarrow> interface_page \<times> web_call list" where
  "interface_onOk p = interface_onApply p"

definition interface_gotConfig :: "jsval dict \<Rightarrow> interface_page \<Rightarrow> interface_page" where
  "interface_gotConfig config p = p\<lparr>ifc_om := om_set (OptDict config) Undefined (ifc_om p)\<rparr>"

definition interface_setConfig :: "interface_page \<Rightarrow> interface_page" where
  "interface_setConfig p = p\<lparr>ifc_om := om_commit (ifc_om p)\<rparr>"

text \<open>The answer to a change of the password: whether the old one was right.\<close>

definition password_changed :: "bool \<Rightarrow> interface_page \<Rightarrow> interface_page" where
  "password_changed right p =
     (if \<not> right then p\<lparr>ifc_old := []\<rparr> else p\<lparr>ifc_old := [], ifc_new := [], ifc_confirm := []\<rparr>)"

section \<open>Proxy and identity\<close>

text \<open>Which of the fields are shown is not modelled.\<close>

record proxy_field =
  prx_type :: jsval
  prx_hostname :: string
  prx_port :: numfield
  prx_username :: string
  prx_password :: string
  prx_hostnames :: bool
  prx_peers :: bool
  prx_trackers :: bool
  prx_anonymous :: bool

definition proxy_new :: proxy_field where
  "proxy_new =
     \<lparr>prx_type = Str [], prx_hostname = [], prx_port = spinner 0 0 65535 1, prx_username = [], prx_password = [], prx_hostnames = False,
      prx_peers = False, prx_trackers = False, prx_anonymous = False\<rparr>"

definition proxy_getValue :: "proxy_field \<Rightarrow> jsval dict" where
  "proxy_getValue p =
     [(''type'', prx_type p), (''hostname'', Str (prx_hostname p)), (''port'', Num (to_number (nf_getValue (prx_port p)))),
      (''username'', Str (prx_username p)), (''password'', Str (prx_password p)), (''proxy_hostnames'', Bool (prx_hostnames p)),
      (''proxy_peer_connections'', Bool (prx_peers p)), (''proxy_tracker_connections'', Bool (prx_trackers p)),
      (''anonymous_mode'', Bool (prx_anonymous p))]"

text \<open>A box of text shows nothing for a value that is missing.  The last line of \<open>setValue\<close> reads the record of the type, and
  raises when there is no such type; everything is set by then.\<close>

definition proxy_setValue :: "jsval \<Rightarrow> proxy_field \<Rightarrow> bool \<times> proxy_field" where
  "proxy_setValue value p =
     (let d = object_or_empty value;
          words = (\<lambda>k. if isEmpty (js_get d k) False then [] else js_string (js_get d k))
      in (js_string (js_get d ''type'') \<in> set (map (\<lambda>c. [c]) ''0123456''),
          p\<lparr>prx_type := js_get d ''type'', prx_hostname := words ''hostname'', prx_port := nf_setValue (js_get d ''port'') (prx_port p),
            prx_username := words ''username'', prx_password := words ''password'',
            prx_hostnames := checkbox_set (js_get d ''proxy_hostnames''), prx_peers := checkbox_set (js_get d ''proxy_peer_connections''),
            prx_trackers := checkbox_set (js_get d ''proxy_tracker_connections''),
            prx_anonymous := is_true (js_get d ''anonymous_mode'')\<rparr>))"

text \<open>The mode that is checked, and the two boxes of text.\<close>

record identity_page =
  idn_mode :: "string option"
  idn_agent :: string
  idn_peer :: string

definition identity_modes :: "string list" where
  "identity_modes = [''show'', ''hide'', ''rotate'', ''custom'']"

definition identity_new :: identity_page where
  "identity_new = \<lparr>idn_mode = None, idn_agent = [], idn_peer = []\<rparr>"

definition identity_mode :: "identity_page \<Rightarrow> string" where
  "identity_mode p = (case idn_mode p of None \<Rightarrow> ''show'' | Some m \<Rightarrow> m)"

definition identity_getValue :: "identity_page \<Rightarrow> jsval dict" where
  "identity_getValue p = [(''mode'', Str (identity_mode p)), (''user_agent'', Str (idn_agent p)), (''peer_id'', Str (idn_peer p))]"

text \<open>A name that every object has is taken for a mode, and then none is checked.\<close>

definition identity_setValue :: "jsval \<Rightarrow> identity_page \<Rightarrow> identity_page" where
  "identity_setValue value p =
     (let d = object_or_empty value; m = js_string (js_get d ''mode'')
      in p\<lparr>idn_mode := (if m \<in> set identity_modes then Some m else if m \<in> set Object_prototype then None else Some ''show''),
           idn_agent := js_string (js_or (js_get d ''user_agent'') (Str [])), idn_peer := js_string (js_or (js_get d ''peer_id'') (Str []))\<rparr>)"

definition onKnownClient :: "string \<Rightarrow> string \<Rightarrow> identity_page \<Rightarrow> identity_page" where
  "onKnownClient agent peer p = p\<lparr>idn_agent := agent, idn_peer := peer\<rparr>"

end
