(* ===== verification/Preferences.thy ===== *)
theory Preferences
  imports PrefPages
begin

text \<open>
  \<open>preferences/PreferencesWindow.js\<close> and the pages that keep settings of their own beside the flat ones of
  the options manager: \<open>QueuePage.js\<close>, \<open>DownloadsPage.js\<close>, \<open>OtherPage.js\<close>, \<open>SchedulerPage.js\<close> and
  \<open>BlocklistPage.js\<close>; and how the daemon takes what they send (\<open>config.rs\<close>, \<open>prefs.rs\<close>).  A page is what its
  fields hold; the pages with rows and the Interface page are in \<open>PrefPages\<close>.  The labels that say when a list was
  fetched are not modelled.
\<close>

section \<open>Downloads: the rule for a full disk\<close>

record space_rule =
  spc_enabled :: bool
  spc_min_free :: numfield
  spc_resume_free :: numfield
  spc_usable :: bool
  spc_loaded :: bool

definition spaceSpinner :: numfield where
  "spaceSpinner = spinner 1 0 1024 (1/2)"

definition space_rule_new :: space_rule where
  "space_rule_new = \<lparr>spc_enabled = False, spc_min_free = spaceSpinner, spc_resume_free = spaceSpinner, spc_usable = True, spc_loaded = False\<rparr>"

definition gib :: rat where
  "gib = 1024 * 1024 * 1024"

definition toGiB :: "jsval \<Rightarrow> rat \<Rightarrow> jsnum" where
  "toGiB bytes fallback =
     (case to_number bytes of
        Fin q \<Rightarrow> if q < 0 then Fin fallback else num_scale (1/10) (math_round (Fin (q / gib * 10)))
      | _ \<Rightarrow> Fin fallback)"

definition onSpaceToggled :: "space_rule \<Rightarrow> space_rule" where
  "onSpaceToggled r = r\<lparr>spc_usable := spc_enabled r\<rparr>"

definition space_read :: "jsval \<Rightarrow> space_rule \<Rightarrow> space_rule" where
  "space_read v r =
     (let settings = object_or_empty v
      in onSpaceToggled (r\<lparr>spc_enabled := \<not> strict_eq (js_get settings ''enabled'') (Bool False),
           spc_min_free := nf_setValue (Num (toGiB (js_get settings ''min_free'') 1)) (spc_min_free r),
           spc_resume_free := nf_setValue (Num (toGiB (js_get settings ''resume_free'') 2)) (spc_resume_free r)\<rparr>))"

definition space_write :: "space_rule \<Rightarrow> jsval dict" where
  "space_write r =
     [(''enabled'', Bool (spc_enabled r)),
      (''min_free'', Num (math_round (num_scale gib (box_num_or (spc_min_free r) 1)))),
      (''resume_free'', Num (math_round (num_scale gib (box_num_or (spc_resume_free r) 2))))]"

section \<open>Queue: idle downloads and stuck ones\<close>

record idle_rule =
  idl_enabled :: bool
  idl_rate :: numfield
  idl_grace :: numfield
  idl_pause :: numfield
  idl_min :: numfield
  idl_queued :: bool
  idl_usable :: bool
  idl_loaded :: bool

definition idleSpinner :: "nat \<Rightarrow> rat \<Rightarrow> numfield" where
  "idleSpinner precision increment = spinner precision 0 99999 increment"

definition idle_rule_new :: idle_rule where
  "idle_rule_new =
     \<lparr>idl_enabled = False, idl_rate = idleSpinner 1 (1/10), idl_grace = idleSpinner 0 1, idl_pause = idleSpinner 0 1,
      idl_min = idleSpinner 0 1, idl_queued = False, idl_usable = True, idl_loaded = False\<rparr>"

definition onIdleToggled :: "idle_rule \<Rightarrow> idle_rule" where
  "onIdleToggled r = r\<lparr>idl_usable := idl_enabled r\<rparr>"

text \<open>Seconds shown in minutes, as \<open>Math.round(v / 60)\<close>.\<close>

definition minutes :: "jsval \<Rightarrow> jsnum" where
  "minutes v = math_round (num_scale (1/60) (to_number v))"

definition idle_read :: "jsval \<Rightarrow> idle_rule \<Rightarrow> idle_rule" where
  "idle_read v r =
     (let settings = object_or_empty v
      in onIdleToggled (r\<lparr>idl_enabled := is_true (js_get settings ''enabled''),
           idl_rate := nf_setValue (Num (num_scale (1/1024) (to_number (ext_value (js_get settings ''inactive_rate'') (num 2048))))) (idl_rate r),
           idl_grace := nf_setValue (Num (minutes (ext_value (js_get settings ''grace'') (num 300)))) (idl_grace r),
           idl_pause := nf_setValue (Num (minutes (ext_value (js_get settings ''pause_for'') (num 3600)))) (idl_pause r),
           idl_min := nf_setValue (ext_value (js_get settings ''min_active'') (num 1)) (idl_min r),
           idl_queued := \<not> strict_eq (js_get settings ''only_when_queued'') (Bool False)\<rparr>))"

definition idle_write :: "idle_rule \<Rightarrow> jsval dict" where
  "idle_write r =
     [(''enabled'', Bool (idl_enabled r)),
      (''inactive_rate'', Num (math_round (num_scale 1024 (box_num_or (idl_rate r) 2)))),
      (''grace'', Num (num_scale 60 (box_num_or (idl_grace r) 5))),
      (''pause_for'', Num (num_scale 60 (box_num_or (idl_pause r) 60))),
      (''min_active'', Num (box_num_or (idl_min r) 1)),
      (''only_when_queued'', Bool (idl_queued r))]"

record stuck_rule =
  stk_enabled :: bool
  stk_hours :: duration
  stk_progress :: numfield
  stk_action :: string
  stk_label :: string
  stk_remove_data :: bool
  stk_usable :: bool
  stk_label_on :: bool
  stk_remove_on :: bool
  stk_warning :: bool
  stk_loaded :: bool

definition stuck_rule_new :: stuck_rule where
  "stuck_rule_new =
     \<lparr>stk_enabled = False, stk_hours = duration_new, stk_progress = idleSpinner 0 1, stk_action = ''pause'', stk_label = [],
      stk_remove_data = False, stk_usable = True, stk_label_on = True, stk_remove_on = True, stk_warning = False, stk_loaded = False\<rparr>"

definition onStuckToggled :: "stuck_rule \<Rightarrow> stuck_rule" where
  "onStuckToggled r =
     (let on = stk_enabled r; removing = (stk_action r = ''remove'')
      in r\<lparr>stk_usable := on, stk_label_on := \<not> (\<not> on \<or> removing), stk_remove_on := \<not> (\<not> on \<or> \<not> removing),
           stk_warning := (on \<and> removing \<and> stk_remove_data r)\<rparr>)"

definition stuck_read :: "jsval \<Rightarrow> stuck_rule \<Rightarrow> stuck_rule" where
  "stuck_read v r =
     (let settings = object_or_empty v
      in onStuckToggled (r\<lparr>stk_enabled := is_true (js_get settings ''enabled''),
           stk_hours := dur_setValue (Num (deluge_number (js_get settings ''hours'') 0)) (stk_hours r),
           stk_progress := nf_setValue (Num (deluge_number (js_get settings ''max_progress'') 0)) (stk_progress r),
           stk_action := js_string (js_or (js_get settings ''action'') (Str ''pause'')),
           stk_label := js_string (js_or (js_get settings ''label'') (Str [])),
           stk_remove_data := \<not> strict_eq (js_get settings ''remove_data'') (Bool False)\<rparr>))"

definition stuck_write :: "stuck_rule \<Rightarrow> jsval dict" where
  "stuck_write r =
     [(''enabled'', Bool (stk_enabled r)),
      (''hours'', Num (deluge_number (Num (dur_getValue (stk_hours r))) 0)),
      (''max_progress'', Num (box_num_or (stk_progress r) 0)),
      (''action'', js_or (Str (stk_action r)) (Str ''pause'')),
      (''label'', Str (stk_label r)),
      (''remove_data'', Bool (stk_remove_data r))]"

section \<open>Other: the country database\<close>

record country_db =
  cdb_enabled :: bool
  cdb_url :: string
  cdb_usable :: bool
  cdb_loaded :: bool

definition country_db_new :: country_db where
  "country_db_new = \<lparr>cdb_enabled = False, cdb_url = [], cdb_usable = False, cdb_loaded = False\<rparr>"

definition onDatabaseToggled :: "country_db \<Rightarrow> country_db" where
  "onDatabaseToggled r = r\<lparr>cdb_usable := cdb_enabled r\<rparr>"

definition country_read :: "jsval \<Rightarrow> country_db \<Rightarrow> country_db" where
  "country_read v r =
     (let settings = object_or_empty v
      in onDatabaseToggled (r\<lparr>cdb_enabled := is_true (js_get settings ''enabled''),
           cdb_url := js_string (ext_value (js_get settings ''url'') (Str []))\<rparr>))"

definition country_write :: "country_db \<Rightarrow> jsval dict" where
  "country_write r = [(''enabled'', Bool (cdb_enabled r)), (''url'', Str (cdb_url r))]"

section \<open>Schedule\<close>

record scheduler =
  sch_enabled :: bool
  sch_low_down :: numfield
  sch_low_up :: numfield
  sch_low_active :: numfield
  sch_low_active_down :: numfield
  sch_low_active_up :: numfield
  sch_grid :: "jsnum list list"
  sch_loaded :: bool

definition low_box :: "nat \<Rightarrow> numfield" where
  "low_box precision = nf_setValue (num (-1)) (spinner precision (-1) 9999999 1)"

definition scheduler_new :: scheduler where
  "scheduler_new =
     \<lparr>sch_enabled = False, sch_low_down = low_box 1, sch_low_up = low_box 1, sch_low_active = low_box 0, sch_low_active_down = low_box 0,
      sch_low_active_up = low_box 0, sch_grid = replicate 24 (replicate 7 (Fin 0)), sch_loaded = False\<rparr>"

text \<open>\<open>value % STATES\<close>, with the sign of the value.\<close>

definition mod_states :: "jsnum \<Rightarrow> jsnum" where
  "mod_states n = (case n of Fin q \<Rightarrow> Fin (q - 3 * of_int (if q < 0 then \<lceil>q / 3\<rceil> else \<lfloor>q / 3\<rfloor>)) | _ \<Rightarrow> NaN)"

definition onCellClick :: "nat \<Rightarrow> nat \<Rightarrow> scheduler \<Rightarrow> scheduler" where
  "onCellClick hr wd r =
     r\<lparr>sch_grid := (sch_grid r)[hr := (sch_grid r ! hr)[wd := mod_states (num_add (sch_grid r ! hr ! wd) (Fin 1))]]\<rparr>"

text \<open>An array's entry, or what there is where there is none.\<close>

definition array_at :: "jsval \<Rightarrow> nat \<Rightarrow> jsval" where
  "array_at v i = (case v of Arr _ vs \<Rightarrow> if i < length vs then vs ! i else Undefined | _ \<Rightarrow> Undefined)"

definition stored_cell :: "jsval \<Rightarrow> nat \<Rightarrow> nat \<Rightarrow> jsnum" where
  "stored_cell stored hr wd =
     mod_states (if truthy stored \<and> truthy (array_at stored hr)
                 then case array_at (array_at stored hr) wd of Num n \<Rightarrow> n | _ \<Rightarrow> Fin 0
                 else Fin 0)"

definition scheduler_read :: "jsval \<Rightarrow> scheduler \<Rightarrow> scheduler" where
  "scheduler_read config r =
     (let settings = object_or_empty (prop_of config ''scheduler'');
          low = (\<lambda>name. nf_setValue (ext_value (js_get settings name) (num (-1))))
      in r\<lparr>sch_enabled := is_true (js_get settings ''enabled''), sch_low_down := low ''low_down'' (sch_low_down r),
           sch_low_up := low ''low_up'' (sch_low_up r), sch_low_active := low ''low_active'' (sch_low_active r),
           sch_low_active_down := low ''low_active_down'' (sch_low_active_down r),
           sch_low_active_up := low ''low_active_up'' (sch_low_active_up r),
           sch_grid := map (\<lambda>hr. map (stored_cell (js_get settings ''button_state'') hr) [0..<7]) [0..<24]\<rparr>)"

definition scheduler_write :: "scheduler \<Rightarrow> jsval dict" where
  "scheduler_write r =
     [(''enabled'', Bool (sch_enabled r)),
      (''button_state'', Arr 0 (map (\<lambda>row. Arr 0 (map Num row)) (sch_grid r))),
      (''low_down'', Num (box_num_or (sch_low_down r) (-1))),
      (''low_up'', Num (box_num_or (sch_low_up r) (-1))),
      (''low_active'', Num (box_num_or (sch_low_active r) (-1))),
      (''low_active_down'', Num (box_num_or (sch_low_active_down r) (-1))),
      (''low_active_up'', Num (box_num_or (sch_low_active_up r) (-1)))]"

section \<open>Block list\<close>

record blocklist =
  bll_settings :: "jsval dict option"
  bll_enabled :: bool
  bll_url :: string
  bll_days :: numfield
  bll_timeout :: numfield
  bll_tries :: numfield
  bll_white :: string
  bll_loaded :: bool

definition blocklist_new :: blocklist where
  "blocklist_new =
     \<lparr>bll_settings = None, bll_enabled = False, bll_url = [], bll_days = spinner 0 0 9999999 1, bll_timeout = spinner 0 1 9999999 1,
      bll_tries = spinner 0 1 9999999 1, bll_white = [], bll_loaded = False\<rparr>"

definition blocklist_read :: "jsval \<Rightarrow> blocklist \<Rightarrow> blocklist" where
  "blocklist_read config r =
     (let settings = object_or_empty (prop_of config ''blocklist'')
      in r\<lparr>bll_settings := Some settings, bll_enabled := is_true (js_get settings ''enabled''),
           bll_url := js_string (ext_value (js_get settings ''url'') (Str [])),
           bll_days := nf_setValue (ext_value (js_get settings ''check_after_days'') (num 4)) (bll_days r),
           bll_timeout := nf_setValue (ext_value (js_get settings ''timeout'') (num 180)) (bll_timeout r),
           bll_tries := nf_setValue (ext_value (js_get settings ''try_times'') (num 3)) (bll_tries r),
           bll_white := (case js_get settings ''whitelisted'' of
                           Arr _ vs \<Rightarrow> join [CHR 0x0A] (map (\<lambda>v. if v = Undefined \<or> v = Null then [] else js_string v) vs)
                         | _ \<Rightarrow> [])\<rparr>)"

text \<open>\<open>write\<close>: the page and what is sent.\<close>

definition blocklist_merge :: "jsval dict \<Rightarrow> blocklist \<Rightarrow> blocklist \<times> jsval dict" where
  "blocklist_merge changes r =
     (let settings = put_all (case bll_settings r of None \<Rightarrow> [] | Some d \<Rightarrow> d) changes
      in (r\<lparr>bll_settings := Some settings\<rparr>, settings))"

definition blocklist_changes :: "blocklist \<Rightarrow> jsval dict" where
  "blocklist_changes r =
     [(''enabled'', Bool (bll_enabled r)), (''url'', Str (bll_url r)), (''check_after_days'', Num (box_num_or (bll_days r) 4)),
      (''timeout'', Num (box_num_or (bll_timeout r) 180)), (''try_times'', Num (box_num_or (bll_tries r) 3)),
      (''whitelisted'', Arr 0 (map Str (lines_of (bll_white r))))]"

section \<open>The flat settings\<close>

text \<open>The options the pages bind to the manager, with the field each is bound to: a box that is ticked, a number with its
  places and bounds, a text, a choice between true and false, and the two that stand for a dictionary.\<close>

datatype bound_field = BCheck | BSpin nat rat rat | BText | BRadio | BProxy | BIdentity

definition downloads_fields :: "(string \<times> bound_field) list" where
  "downloads_fields =
     [(''download_location'', BText), (''move_completed'', BCheck), (''move_completed_path'', BText), (''copy_torrent_file'', BCheck),
      (''torrentfiles_location'', BText), (''prioritize_first_last_pieces'', BCheck), (''sequential_download'', BCheck),
      (''add_paused'', BCheck), (''pre_allocate_storage'', BCheck)]"

definition network_fields :: "(string \<times> bound_field) list" where
  "network_fields =
     [(''listen_interface'', BText), (''random_port'', BCheck), (''listen_ports'', BSpin 0 0 65535), (''outgoing_interface'', BText),
      (''upnp'', BCheck), (''natpmp'', BCheck), (''lsd'', BCheck), (''dht'', BCheck), (''peer_tos'', BText)]"

definition bandwidth_fields :: "(string \<times> bound_field) list" where
  "bandwidth_fields =
     [(''max_connections_global'', BSpin 0 (-1) 9999999), (''max_upload_slots_global'', BSpin 0 (-1) 9999999),
      (''max_download_speed'', BSpin 1 (-1) 9999999), (''max_upload_speed'', BSpin 1 (-1) 9999999),
      (''max_half_open_connections'', BSpin 0 (-1) 9999999), (''max_connections_per_second'', BSpin 0 (-1) 9999999),
      (''ignore_limits_on_local_network'', BCheck), (''rate_limit_ip_overhead'', BCheck),
      (''max_connections_per_torrent'', BSpin 0 (-1) 99999), (''max_upload_slots_per_torrent'', BSpin 0 (-1) 99999),
      (''max_download_speed_per_torrent'', BSpin 0 (-1) 99999), (''max_upload_speed_per_torrent'', BSpin 0 (-1) 99999)]"

definition daemon_fields :: "(string \<times> bound_field) list" where
  "daemon_fields = [(''daemon_port'', BSpin 0 (-1) 65535), (''allow_remote'', BCheck)]"

definition other_fields :: "(string \<times> bound_field) list" where
  "other_fields = [(''geoip_db_location'', BText)]"

definition queue_fields :: "(string \<times> bound_field) list" where
  "queue_fields =
     [(''queue_new_to_top'', BCheck), (''max_active_limit'', BSpin 0 (-1) 99999), (''max_active_downloading'', BSpin 0 (-1) 99999),
      (''max_active_seeding'', BSpin 0 (-1) 99999), (''dont_count_slow_torrents'', BCheck), (''announce_to_all_tiers'', BCheck),
      (''auto_manage_prefer_seeds'', BCheck), (''share_ratio_limit'', BSpin 2 (-1) 99999), (''seed_time_ratio_limit'', BSpin 2 (-1) 99999),
      (''seed_time_limit'', BSpin 0 (-1) 99999), (''stop_seed_at_ratio'', BCheck), (''stop_seed_ratio'', BSpin 2 (-1) 99999),
      (''remove_seed_at_ratio'', BRadio)]"

definition proxy_fields :: "(string \<times> bound_field) list" where
  "proxy_fields = [(''proxy'', BProxy)]"

definition identity_fields :: "(string \<times> bound_field) list" where
  "identity_fields = [(''identity'', BIdentity)]"

text \<open>In the order of the pages; a field is known to the manager by the number of its place.\<close>

definition bound_fields :: "(string \<times> bound_field) list" where
  "bound_fields = downloads_fields @ network_fields @ bandwidth_fields @ other_fields @ daemon_fields @ queue_fields @
     proxy_fields @ identity_fields"

definition bind_pages :: "om \<Rightarrow> om" where
  "bind_pages m = fold (\<lambda>(i, name, f). om_bind name i) (enumerate 0 bound_fields) m"

section \<open>The window\<close>

text \<open>A page without handlers of its own, and the others.\<close>

datatype page =
    PgPlain
  | PgInterface interface_page
  | PgAutoAdd autoadd
  | PgRss rss
  | PgNotifications notifications
  | PgDownloads space_rule
  | PgQueue idle_rule stuck_rule
  | PgOther country_db
  | PgScheduler scheduler
  | PgBlocklist blocklist

text \<open>Requests that are out: the window's \<open>get_config\<close>, a page's \<open>get_config_value\<close> of a key or \<open>get_config\<close>, and a
  \<open>set_config\<close> whose answer commits; and those of the Interface page to the web server.\<close>

datatype pref_ask = AskConfig | AskKey string string | AskPage string | SetFlat | AskWeb | SetWeb | AskPassword

record pref_window =
  pw_visible :: bool
  pw_om :: om
  pw_pages :: "(string \<times> page) list"
  pw_current :: "string option"
  pw_asks :: "pref_ask list"
  pw_sets :: "jsval dict list"
  pw_web :: "web_call list"
  pw_arrays :: nat

definition initPages :: "jsval dict \<Rightarrow> (string \<times> page) list" where
  "initPages config =
     [(''Downloads'', PgDownloads space_rule_new), (''Network'', PgPlain), (''Bandwidth'', PgPlain), (''Interface'', PgInterface (interface_new config)),
      (''Other'', PgOther country_db_new), (''Daemon'', PgPlain), (''Queue'', PgQueue idle_rule_new stuck_rule_new),
      (''Proxy'', PgPlain), (''Identity'', PgPlain), (''Labels'', PgPlain),
      (''Watched Folders'', PgAutoAdd autoadd_new), (''Feeds'', PgRss rss_new),
      (''Block List'', PgBlocklist blocklist_new), (''Schedule'', PgScheduler scheduler_new),
      (''Notifications'', PgNotifications notifications_new)]"

definition pref_window_new :: "jsval dict \<Rightarrow> pref_window" where
  "pref_window_new config =
     \<lparr>pw_visible = False, pw_om = bind_pages (om_new None), pw_pages = initPages config, pw_current = None, pw_asks = [], pw_sets = [],
      pw_web = [], pw_arrays = 1\<rparr>"

text \<open>\<open>onApply\<close> and \<open>onOk\<close> of a page, where it has them: the page after it and the \<open>set_config\<close> calls.\<close>

definition one_key :: "string \<Rightarrow> jsval dict \<Rightarrow> jsval dict" where
  "one_key key d = [(key, Obj 0 d)]"

fun page_onApply :: "page \<Rightarrow> page \<times> jsval dict list" where
  "page_onApply (PgDownloads r) = (PgDownloads r, if spc_loaded r then [one_key ''disk_space'' (space_write r)] else [])"
| "page_onApply (PgQueue i s) =
     (PgQueue i s, (if stk_loaded s then [one_key ''stuck'' (stuck_write s)] else []) @
        (if idl_loaded i then [one_key ''idle_pause'' (idle_write i)] else []))"
| "page_onApply (PgOther r) = (PgOther r, if cdb_loaded r then [one_key ''countrydb'' (country_write r)] else [])"
| "page_onApply (PgScheduler r) = (PgScheduler r, if sch_loaded r then [one_key ''scheduler'' (scheduler_write r)] else [])"
| "page_onApply (PgBlocklist r) =
     (if bll_loaded r
      then (case blocklist_merge (blocklist_changes r) r of (r, d) \<Rightarrow> (PgBlocklist r, [one_key ''blocklist'' d]))
      else (PgBlocklist r, []))"
| "page_onApply (PgAutoAdd r) = (PgAutoAdd r, if aad_loaded r then [one_key ''autoadd'' (autoadd_write r)] else [])"
| "page_onApply (PgRss r) = (PgRss r, if rss_loaded r then [one_key ''rss'' (rss_write r)] else [])"
| "page_onApply (PgNotifications r) = (PgNotifications r, if ntf_loaded r then [one_key ''webhook'' (notifications_write False r)] else [])"
| "page_onApply (PgInterface r) = (PgInterface (fst (interface_onApply r)), [])"
| "page_onApply PgPlain = (PgPlain, [])"

fun page_onOk :: "page \<Rightarrow> page \<times> jsval dict list" where
  "page_onOk (PgScheduler r) = page_onApply (PgScheduler r)"
| "page_onOk (PgBlocklist r) = page_onApply (PgBlocklist r)"
| "page_onOk (PgAutoAdd r) = page_onApply (PgAutoAdd r)"
| "page_onOk (PgRss r) = page_onApply (PgRss r)"
| "page_onOk (PgNotifications r) = page_onApply (PgNotifications r)"
| "page_onOk (PgInterface r) = (PgInterface (fst (interface_onOk r)), [])"
| "page_onOk p = (p, [])"

text \<open>What the Interface page calls is apart, with the answers it waits for; its two handlers are the same.\<close>

fun page_web :: "page \<Rightarrow> web_call list" where
  "page_web (PgInterface r) = snd (interface_onApply r)"
| "page_web p = []"

fun web_ask :: "web_call \<Rightarrow> pref_ask list" where
  "web_ask (WebSetConfig d) = [SetWeb]"
| "web_ask (ChangePassword old new) = [AskPassword]"
| "web_ask c = []"

definition call_pages :: "(page \<Rightarrow> page \<times> jsval dict list) \<Rightarrow> pref_window \<Rightarrow> pref_window" where
  "call_pages f w =
     (let calls = concat (map (\<lambda>(name, p). page_web p) (pw_pages w))
      in w\<lparr>pw_pages := map (\<lambda>(name, p). (name, fst (f p))) (pw_pages w),
           pw_sets := pw_sets w @ concat (map (\<lambda>(name, p). snd (f p)) (pw_pages w)),
           pw_web := pw_web w @ calls, pw_asks := pw_asks w @ concat (map web_ask calls)\<rparr>)"

definition send_flat :: "pref_window \<Rightarrow> pref_window" where
  "send_flat w = w\<lparr>pw_sets := pw_sets w @ [om_getDirty (pw_om w)], pw_asks := pw_asks w @ [SetFlat]\<rparr>"

text \<open>The workaround changes the manager's own object of changed values.\<close>

definition listen_ports_pair :: "pref_window \<Rightarrow> pref_window" where
  "listen_ports_pair w =
     (case map_of (changed (pw_om w)) ''listen_ports'' of
        None \<Rightarrow> w
      | Some v \<Rightarrow>
          w\<lparr>pw_om := (pw_om w)\<lparr>changed := AList.update ''listen_ports'' (Arr (pw_arrays w) [v, v]) (changed (pw_om w))\<rparr>,
            pw_arrays := Suc (pw_arrays w)\<rparr>)"

definition pw_onApply :: "pref_window \<Rightarrow> pref_window" where
  "pw_onApply w =
     call_pages page_onApply
       (if isObjectEmpty (om_getDirty (pw_om w)) then w else send_flat (listen_ports_pair w))"

definition pw_onOk :: "pref_window \<Rightarrow> pref_window" where
  "pw_onOk w =
     (call_pages page_onOk (if isObjectEmpty (om_getDirty (pw_om w)) then w else send_flat w))\<lparr>pw_visible := False\<rparr>"

text \<open>A page is shown when it is selected; it asks for its settings once, the Interface page each time.\<close>

fun page_onShow :: "string \<Rightarrow> page \<Rightarrow> page \<times> pref_ask list" where
  "page_onShow name (PgDownloads r) =
     (if spc_loaded r then (PgDownloads r, []) else (PgDownloads (r\<lparr>spc_loaded := True\<rparr>), [AskKey name ''disk_space'']))"
| "page_onShow name (PgQueue i s) =
     (PgQueue (if idl_loaded i then i else i\<lparr>idl_loaded := True\<rparr>) (if stk_loaded s then s else s\<lparr>stk_loaded := True\<rparr>),
      (if stk_loaded s then [] else [AskKey name ''stuck'']) @ (if idl_loaded i then [] else [AskKey name ''idle_pause'']))"
| "page_onShow name (PgOther r) =
     (if cdb_loaded r then (PgOther r, []) else (PgOther (r\<lparr>cdb_loaded := True\<rparr>), [AskKey name ''countrydb'']))"
| "page_onShow name (PgScheduler r) =
     (if sch_loaded r then (PgScheduler r, []) else (PgScheduler (r\<lparr>sch_loaded := True\<rparr>), [AskPage name]))"
| "page_onShow name (PgBlocklist r) =
     (if bll_loaded r then (PgBlocklist r, []) else (PgBlocklist (r\<lparr>bll_loaded := True\<rparr>), [AskPage name]))"
| "page_onShow name (PgAutoAdd r) =
     (if aad_loaded r then (PgAutoAdd r, []) else (PgAutoAdd (r\<lparr>aad_loaded := True\<rparr>), [AskPage name]))"
| "page_onShow name (PgRss r) =
     (if rss_loaded r then (PgRss r, []) else (PgRss (r\<lparr>rss_loaded := True\<rparr>), [AskPage name]))"
| "page_onShow name (PgNotifications r) =
     (if ntf_loaded r then (PgNotifications r, []) else (PgNotifications (r\<lparr>ntf_loaded := True\<rparr>), [AskKey name ''webhook'']))"
| "page_onShow name (PgInterface r) = (PgInterface r, [AskWeb])"
| "page_onShow name PgPlain = (PgPlain, [])"

definition set_page :: "string \<Rightarrow> page \<Rightarrow> pref_window \<Rightarrow> pref_window" where
  "set_page name p w = w\<lparr>pw_pages := AList.update name p (pw_pages w)\<rparr>"

definition doSelectPage :: "string \<Rightarrow> pref_window \<Rightarrow> pref_window" where
  "doSelectPage name w =
     (case map_of (pw_pages w) name of
        None \<Rightarrow> w
      | Some p \<Rightarrow>
          (case page_onShow name p of
             (p, asks) \<Rightarrow> (set_page name p w)\<lparr>pw_current := Some name, pw_asks := pw_asks w @ asks\<rparr>))"

definition pw_onShow :: "bool \<Rightarrow> pref_window \<Rightarrow> pref_window" where
  "pw_onShow has_core w =
     (let w = w\<lparr>pw_visible := True\<rparr> in if \<not> has_core then w else w\<lparr>pw_asks := pw_asks w @ [AskConfig]\<rparr>)"

text \<open>A page's settings arrive, or do not: \<open>None\<close>.\<close>

fun page_answer :: "string \<Rightarrow> jsval option \<Rightarrow> page \<Rightarrow> page" where
  "page_answer key (Some v) (PgDownloads r) = PgDownloads (space_read v r)"
| "page_answer key None (PgDownloads r) = PgDownloads (onSpaceToggled r)"
| "page_answer key (Some v) (PgQueue i s) = (if key = ''stuck'' then PgQueue i (stuck_read v s) else PgQueue (idle_read v i) s)"
| "page_answer key None (PgQueue i s) =
     (if key = ''stuck'' then PgQueue i (s\<lparr>stk_loaded := False\<rparr>) else PgQueue (onIdleToggled i) s)"
| "page_answer key (Some v) (PgOther r) = PgOther (country_read v r)"
| "page_answer key None (PgOther r) = PgOther (onDatabaseToggled r)"
| "page_answer key (Some v) (PgScheduler r) = PgScheduler (scheduler_read v r)"
| "page_answer key (Some v) (PgBlocklist r) = PgBlocklist (blocklist_read v r)"
| "page_answer key (Some v) (PgAutoAdd r) = PgAutoAdd (autoadd_read v r)"
| "page_answer key (Some v) (PgRss r) = PgRss (rss_read v r)"
| "page_answer key (Some v) (PgNotifications r) = PgNotifications (notifications_read v r)"
| "page_answer key _ p = p"

definition answer_page :: "string \<Rightarrow> string \<Rightarrow> jsval option \<Rightarrow> pref_window \<Rightarrow> pref_window" where
  "answer_page name key v w = (case map_of (pw_pages w) name of None \<Rightarrow> w | Some p \<Rightarrow> set_page name (page_answer key v p) w)"

fun interface_answer :: "pref_ask \<Rightarrow> jsval \<Rightarrow> page \<Rightarrow> page" where
  "interface_answer AskWeb v (PgInterface r) = PgInterface (interface_gotConfig (object_or_empty v) r)"
| "interface_answer SetWeb v (PgInterface r) = PgInterface (interface_setConfig r)"
| "interface_answer AskPassword v (PgInterface r) = PgInterface (password_changed (truthy v) r)"
| "interface_answer ask v p = p"

fun pw_handle :: "pref_ask \<Rightarrow> jsval option \<Rightarrow> pref_window \<Rightarrow> pref_window" where
  "pw_handle AskConfig (Some config) w = w\<lparr>pw_om := om_set (OptDict (object_or_empty config)) Undefined (pw_om w)\<rparr>"
| "pw_handle AskConfig None w = w"
| "pw_handle (AskKey name key) v w = answer_page name key v w"
| "pw_handle (AskPage name) v w = answer_page name [] v w"
| "pw_handle SetFlat (Some _) w = w\<lparr>pw_om := om_commit (pw_om w)\<rparr>"
| "pw_handle SetFlat None w = w"
| "pw_handle ask (Some v) w = w\<lparr>pw_pages := map (\<lambda>(name, p). (name, interface_answer ask v p)) (pw_pages w)\<rparr>"
| "pw_handle ask None w = w"

definition pw_answer :: "nat \<Rightarrow> jsval option \<Rightarrow> pref_window \<Rightarrow> pref_window" where
  "pw_answer i v w = pw_handle (pw_asks w ! i) v (w\<lparr>pw_asks := take i (pw_asks w) @ drop (Suc i) (pw_asks w)\<rparr>)"

text \<open>A field bound to the manager is changed.\<close>

definition pw_edit :: "string \<Rightarrow> jsval \<Rightarrow> pref_window \<Rightarrow> pref_window" where
  "pw_edit option v w = w\<lparr>pw_om := om_update (OptName option) v (pw_om w)\<rparr>"

text \<open>The block list's button.\<close>

definition onFetchNow :: "blocklist \<Rightarrow> blocklist \<times> jsval dict list" where
  "onFetchNow r =
     (if \<not> bll_loaded r then (r, [])
      else case blocklist_merge (blocklist_changes r) r of
             (r, d1) \<Rightarrow> (case blocklist_merge [(''last_update'', num 0)] r of
                (r, d2) \<Rightarrow> (r, [one_key ''blocklist'' d1, one_key ''blocklist'' d2])))"

section \<open>The daemon\<close>

text \<open>\<open>Config::set\<close>, which refuses an unknown key and a change of type, and \<open>core.set_config\<close>, which goes on with the
  next key; the port \<open>listen_interfaces\<close> takes from the configuration.\<close>

fun type_name :: "jsval \<Rightarrow> string" where
  "type_name (Bool _) = ''bool''"
| "type_name (Num _) = ''number''"
| "type_name (Str _) = ''string''"
| "type_name (Arr _ _) = ''list''"
| "type_name (Obj _ _) = ''dict''"
| "type_name _ = ''null''"

definition config_set :: "string \<Rightarrow> jsval \<Rightarrow> jsval dict \<Rightarrow> jsval dict" where
  "config_set key v config =
     (case map_of config key of
        None \<Rightarrow> config
      | Some current \<Rightarrow>
          if type_name current = type_name v \<or> type_name current = ''null'' \<or> type_name v = ''null''
          then AList.update key v config else config)"

definition set_config :: "jsval dict \<Rightarrow> jsval dict \<Rightarrow> jsval dict" where
  "set_config changes config = fold (\<lambda>(key, v). config_set key v) changes config"

definition listen_port :: "jsval dict \<Rightarrow> int" where
  "listen_port config =
     (let ports = (case js_get config ''listen_ports'' of
                     Arr _ (Num (Fin q) # _) \<Rightarrow> if q \<in> \<int> then \<lfloor>q\<rfloor> else 6881
                   | _ \<Rightarrow> 6881)
      in if js_get config ''random_port'' = Bool False then ports
         else case js_get config ''listen_random_port'' of Num (Fin q) \<Rightarrow> if q \<in> \<int> then \<lfloor>q\<rfloor> else 0 | _ \<Rightarrow> 0)"

text \<open>The configuration of a fresh install.  The paths come from the machine, and a feature's settings are what its own
  module has as defaults.\<close>

definition config_defaults :: "(string \<Rightarrow> string) \<Rightarrow> string \<Rightarrow> (string \<Rightarrow> jsval dict) \<Rightarrow> jsval dict" where
  "config_defaults path downloads feature =
     [(''send_info'', Bool False), (''info_sent'', num 0), (''daemon_port'', num 58846), (''allow_remote'', Bool False),
      (''pre_allocate_storage'', Bool False), (''download_location'', Str downloads), (''listen_ports'', Arr 1 [num 6881, num 6891]),
      (''listen_interface'', Str []), (''outgoing_interface'', Str []), (''random_port'', Bool True), (''listen_random_port'', Null),
      (''listen_use_sys_port'', Bool False), (''listen_reuse_port'', Bool True), (''outgoing_ports'', Arr 2 [num 0, num 0]),
      (''random_outgoing_ports'', Bool True), (''copy_torrent_file'', Bool False), (''del_copy_torrent_file'', Bool False),
      (''torrentfiles_location'', Str (path ''torrents'')), (''plugins_location'', Str (path ''plugins'')),
      (''prioritize_first_last_pieces'', Bool False), (''sequential_download'', Bool False), (''dht'', Bool True), (''upnp'', Bool True),
      (''natpmp'', Bool True), (''utpex'', Bool True), (''lsd'', Bool True), (''enc_in_policy'', num 1), (''enc_out_policy'', num 1),
      (''enc_level'', num 2), (''max_connections_global'', num 200), (''max_upload_speed'', num (-1)), (''max_download_speed'', num (-1)),
      (''max_upload_slots_global'', num 4), (''max_half_open_connections'', num 50), (''max_connections_per_second'', num 20),
      (''ignore_limits_on_local_network'', Bool True), (''max_connections_per_torrent'', num (-1)),
      (''max_upload_slots_per_torrent'', num (-1)), (''max_upload_speed_per_torrent'', num (-1)),
      (''max_download_speed_per_torrent'', num (-1)), (''enabled_plugins'', Arr 3 []), (''add_paused'', Bool False),
      (''max_active_seeding'', num 5), (''max_active_downloading'', num 3), (''max_active_limit'', num 8),
      (''dont_count_slow_torrents'', Bool False), (''auto_manage_prefer_seeds'', Bool False), (''queue_new_to_top'', Bool False),
      (''stop_seed_at_ratio'', Bool False), (''remove_seed_at_ratio'', Bool False), (''stop_seed_ratio'', num 2),
      (''share_ratio_limit'', num 2), (''seed_time_ratio_limit'', num 7), (''seed_time_limit'', num 180), (''auto_managed'', Bool True),
      (''move_completed'', Bool False), (''move_completed_path'', Str downloads), (''move_completed_paths_list'', Arr 4 []),
      (''download_location_paths_list'', Arr 5 []), (''path_chooser_show_chooser_button_on_localhost'', Bool True),
      (''path_chooser_auto_complete_enabled'', Bool True), (''path_chooser_accelerator_string'', Str ''Tab''),
      (''path_chooser_max_popup_rows'', num 20), (''path_chooser_show_hidden_files'', Bool False), (''new_release_check'', Bool True),
      (''proxy'', Obj 6
         [(''type'', num 0), (''hostname'', Str []), (''username'', Str []), (''password'', Str []), (''port'', num 8080),
          (''proxy_hostnames'', Bool True), (''proxy_peer_connections'', Bool True), (''proxy_tracker_connections'', Bool True),
          (''force_proxy'', Bool False), (''anonymous_mode'', Bool False)]),
      (''stuck'', Obj 7 (feature ''stuck'')), (''identity'', Obj 8 (feature ''identity'')), (''peer_tos'', Str ''0x00''),
      (''rate_limit_ip_overhead'', Bool True), (''geoip_db_location'', Str ''/usr/share/GeoIP/GeoIP.dat''), (''cache_size'', num 512),
      (''cache_expiry'', num 60), (''shared'', Bool False), (''super_seeding'', Bool False), (''announce_to_all_tiers'', Bool False),
      (''ssl_torrents'', Bool False), (''ssl_listen_ports'', Arr 9 [num 6892, num 6896]),
      (''ssl_torrents_certs'', Str (path ''ssl_torrents_certs''))] @
     map (\<lambda>(i, name). (name, Obj i (feature name)))
       (enumerate 10 [''autoadd'', ''countrydb'', ''disk_space'', ''idle_pause'', ''label'', ''blocklist'', ''peers'', ''scheduler'',
          ''rss'', ''tracker'', ''webhook''])"

text \<open>\<open>is_stale\<close> of the country database's settings, where a setting that is not stored has its default.\<close>

definition number_or :: "rat \<Rightarrow> jsval \<Rightarrow> rat" where
  "number_or dflt v = (case v of Num (Fin q) \<Rightarrow> q | _ \<Rightarrow> dflt)"

definition is_stale :: "rat \<Rightarrow> jsval \<Rightarrow> bool" where
  "is_stale now settings =
     (let check_after_days = number_or 7 (prop_of settings ''check_after_days''); last_update = number_or 0 (prop_of settings ''last_update'')
      in if check_after_days \<le> 0 then False
         else if last_update \<le> 0 then True
         else check_after_days * 86400 \<le> now - last_update)"

section \<open>What the buttons send\<close>

lemma one_key_inject [simp]: "one_key k a = one_key k b \<longleftrightarrow> a = b"
  by (simp add: one_key_def)

lemma call_pages_simps [simp]:
  "pw_om (call_pages f w) = pw_om w" "pw_visible (call_pages f w) = pw_visible w"
  "pw_sets (call_pages f w) = pw_sets w @ concat (map (\<lambda>(name, p). snd (f p)) (pw_pages w))"
  "pw_web (call_pages f w) = pw_web w @ concat (map (\<lambda>(name, p). page_web p) (pw_pages w))"
  by (simp_all add: call_pages_def Let_def)

lemma send_flat_simps [simp]:
  "pw_om (send_flat w) = pw_om w" "pw_pages (send_flat w) = pw_pages w" "pw_sets (send_flat w) = pw_sets w @ [changed (pw_om w)]"
  "pw_web (send_flat w) = pw_web w"
  by (simp_all add: send_flat_def om_getDirty_def)

lemma bind_pages_changed [simp]: "changed (bind_pages m) = changed m"
  unfolding bind_pages_def by (rule fold_projection) (simp add: om_bind_def split: prod.split)

lemma listen_pair_simps [simp]:
  "pw_pages (listen_ports_pair w) = pw_pages w" "pw_sets (listen_ports_pair w) = pw_sets w" "pw_asks (listen_ports_pair w) = pw_asks w"
  by (simp_all add: listen_ports_pair_def split: option.split)

lemma dirty_iff: "isObjectEmpty (om_getDirty m) \<longleftrightarrow> changed m = []"
  by (simp add: isObjectEmpty_def om_getDirty_def split: list.split)

text \<open>The window's pages with whatever they hold.\<close>

record page_data =
  d_space :: space_rule
  d_country :: country_db
  d_idle :: idle_rule
  d_stuck :: stuck_rule
  d_blocklist :: blocklist
  d_scheduler :: scheduler
  d_interface :: interface_page
  d_autoadd :: autoadd
  d_rss :: rss
  d_notifications :: notifications

definition pages_with :: "page_data \<Rightarrow> (string \<times> page) list" where
  "pages_with d =
     [(''Downloads'', PgDownloads (d_space d)), (''Network'', PgPlain), (''Bandwidth'', PgPlain), (''Interface'', PgInterface (d_interface d)),
      (''Other'', PgOther (d_country d)), (''Daemon'', PgPlain), (''Queue'', PgQueue (d_idle d) (d_stuck d)),
      (''Proxy'', PgPlain), (''Identity'', PgPlain), (''Labels'', PgPlain), (''Watched Folders'', PgAutoAdd (d_autoadd d)),
      (''Feeds'', PgRss (d_rss d)), (''Block List'', PgBlocklist (d_blocklist d)), (''Schedule'', PgScheduler (d_scheduler d)),
      (''Notifications'', PgNotifications (d_notifications d))]"

definition new_data :: "jsval dict \<Rightarrow> page_data" where
  "new_data config =
     \<lparr>d_space = space_rule_new, d_country = country_db_new, d_idle = idle_rule_new, d_stuck = stuck_rule_new, d_blocklist = blocklist_new,
      d_scheduler = scheduler_new, d_interface = interface_new config, d_autoadd = autoadd_new, d_rss = rss_new,
      d_notifications = notifications_new\<rparr>"

lemma initPages_with: "initPages config = pages_with (new_data config)"
  by (simp add: initPages_def pages_with_def new_data_def)

text \<open>The pages that have asked for their settings, which is when they start to write.\<close>

definition all_loaded :: "page_data \<Rightarrow> bool" where
  "all_loaded d \<longleftrightarrow> spc_loaded (d_space d) \<and> cdb_loaded (d_country d) \<and> idl_loaded (d_idle d) \<and> stk_loaded (d_stuck d) \<and>
     bll_loaded (d_blocklist d) \<and> sch_loaded (d_scheduler d) \<and> aad_loaded (d_autoadd d) \<and> rss_loaded (d_rss d) \<and>
     ntf_loaded (d_notifications d)"

definition blocklist_sent :: "blocklist \<Rightarrow> jsval dict" where
  "blocklist_sent r = snd (blocklist_merge (blocklist_changes r) r)"

text \<open>C28: With all pages read and no flat setting changed, OK closes the window and writes five of them: the watched
  folders, the feeds, the block list, the schedule and the notifications.  The rules for a full disk, for stuck
  downloads and for idle ones and the country database, on the Downloads, Queue and Other pages, have an
  \<open>onApply\<close> but no \<open>onOk\<close>: Apply writes them too, and OK drops them.  The Interface page calls the same
  for both.\<close>

lemma ok_forgets_pages:
  assumes "pw_pages w = pages_with d" "changed (pw_om w) = []" "all_loaded d"
  shows "pw_sets (pw_onOk w) = pw_sets w @
      [one_key ''autoadd'' (autoadd_write (d_autoadd d)), one_key ''rss'' (rss_write (d_rss d)),
       one_key ''blocklist'' (blocklist_sent (d_blocklist d)), one_key ''scheduler'' (scheduler_write (d_scheduler d)),
       one_key ''webhook'' (notifications_write False (d_notifications d))] \<and>
    pw_sets (pw_onApply w) = pw_sets w @
      [one_key ''disk_space'' (space_write (d_space d)), one_key ''countrydb'' (country_write (d_country d)),
       one_key ''stuck'' (stuck_write (d_stuck d)), one_key ''idle_pause'' (idle_write (d_idle d)),
       one_key ''autoadd'' (autoadd_write (d_autoadd d)), one_key ''rss'' (rss_write (d_rss d)),
       one_key ''blocklist'' (blocklist_sent (d_blocklist d)), one_key ''scheduler'' (scheduler_write (d_scheduler d)),
       one_key ''webhook'' (notifications_write False (d_notifications d))] \<and>
    pw_web (pw_onOk w) = pw_web w @ snd (interface_onApply (d_interface d)) \<and> pw_web (pw_onApply w) = pw_web (pw_onOk w) \<and>
    \<not> pw_visible (pw_onOk w) \<and> pw_visible (pw_onApply w) = pw_visible w"
  using assms by (simp add: pw_onOk_def pw_onApply_def dirty_iff pages_with_def all_loaded_def blocklist_sent_def blocklist_merge_def Let_def)

definition loaded_data :: page_data where
  "loaded_data =
     (new_data [])\<lparr>d_space := space_rule_new\<lparr>spc_loaded := True\<rparr>, d_country := country_db_new\<lparr>cdb_loaded := True\<rparr>,
       d_idle := idle_rule_new\<lparr>idl_loaded := True\<rparr>, d_stuck := stuck_rule_new\<lparr>stk_loaded := True, stk_enabled := True\<rparr>,
       d_blocklist := blocklist_new\<lparr>bll_loaded := True\<rparr>, d_scheduler := scheduler_new\<lparr>sch_loaded := True\<rparr>,
       d_autoadd := autoadd_new\<lparr>aad_loaded := True\<rparr>, d_rss := rss_new\<lparr>rss_loaded := True\<rparr>,
       d_notifications := notifications_new\<lparr>ntf_loaded := True\<rparr>\<rparr>"

lemma ok_forgets_pages_witness:
  "map (\<lambda>d. map fst d) (pw_sets (pw_onOk ((pref_window_new [])\<lparr>pw_pages := pages_with loaded_data\<rparr>))) =
     [[''autoadd''], [''rss''], [''blocklist''], [''scheduler''], [''webhook'']]"
  using ok_forgets_pages [of "(pref_window_new [])\<lparr>pw_pages := pages_with loaded_data\<rparr>" loaded_data]
  by (simp add: loaded_data_def all_loaded_def pref_window_new_def om_new_def one_key_def)

section \<open>What the daemon takes\<close>

lemma config_set_other: "k \<noteq> key \<Longrightarrow> map_of (config_set key v config) k = map_of config k"
  by (simp add: config_set_def update_conv' split: option.split)

lemma config_set_map:
  "map_of (config_set key v config) key =
     (case map_of config key of
        None \<Rightarrow> None
      | Some current \<Rightarrow> Some (if type_name current = type_name v \<or> type_name current = ''null'' \<or> type_name v = ''null'' then v else current))"
  by (auto simp: config_set_def update_conv' split: option.split)

lemma set_config_map:
  assumes "wf_dict changes"
  shows "map_of (set_config changes config) k =
    (case map_of changes k of None \<Rightarrow> map_of config k | Some v \<Rightarrow> map_of (config_set k v config) k)"
  using assms
proof (induction changes arbitrary: config)
  case (Cons c changes)
  obtain key v where c: "c = (key, v)" by (cases c)
  have m: "map_of changes key = None" using Cons.prems by (simp add: c map_of_eq_None_iff)
  have cong: "map_of (config_set k x d) k = map_of (config_set k x d') k" if "map_of d k = map_of d' k" for x d d'
    by (simp add: config_set_map that)
  show ?case
  proof (cases "k = key")
    case True
    then show ?thesis using Cons.IH [of "config_set key v config"] Cons.prems m by (simp add: c set_config_def)
  next
    case False
    then show ?thesis using Cons.IH [of "config_set key v config"] Cons.prems cong [OF config_set_other [OF False]]
      by (simp add: c set_config_def config_set_other split: option.split)
  qed
qed (simp add: set_config_def)

lemma set_one_key:
  "map_of (set_config (one_key key d) config) key =
     (case map_of config key of None \<Rightarrow> None | Some current \<Rightarrow> Some (if type_name current = ''dict'' \<or> type_name current = ''null'' then Obj 0 d else current))"
  by (simp add: set_config_def one_key_def config_set_map split: option.split)

text \<open>The settings a button sends before those of the pages.\<close>

definition flat_sent :: "(pref_window \<Rightarrow> pref_window) \<Rightarrow> pref_window \<Rightarrow> jsval dict" where
  "flat_sent press w = pw_sets (press w) ! length (pw_sets w)"

lemma flat_sent_ok: "changed (pw_om w) \<noteq> [] \<Longrightarrow> flat_sent pw_onOk w = changed (pw_om w)"
  by (simp add: flat_sent_def pw_onOk_def dirty_iff nth_append)

lemma flat_sent_apply: "changed (pw_om w) \<noteq> [] \<Longrightarrow> flat_sent pw_onApply w = changed (pw_om (listen_ports_pair w))"
  by (simp add: flat_sent_def pw_onApply_def dirty_iff nth_append)

text \<open>C29: A new listening port that is sent by OK is refused by the daemon, which keeps the old ones, since OK lacks
  the workaround of Apply that makes a pair of it; when the call is answered the window holds it for saved.\<close>

lemma ok_loses_port:
  assumes "wf_dict (changed (pw_om w))" "map_of (changed (pw_om w)) ''listen_ports'' = Some (num (of_int p))"
    "map_of config ''listen_ports'' = Some (Arr i ps)" "map_of config ''random_port'' = Some (Bool False)"
    "map_of (changed (pw_om w)) ''random_port'' = None"
  shows "listen_port (set_config (flat_sent pw_onOk w) config) = listen_port config \<and>
    listen_port (set_config (flat_sent pw_onApply w) config) = p \<and>
    map_of (options (om_commit (pw_om (pw_onOk w)))) ''listen_ports'' = Some (num (of_int p)) \<and> changed (om_commit (pw_om (pw_onOk w))) = []"
proof (intro conjI)
  let ?c = "changed (pw_om w)"
  have ne: "?c \<noteq> []" using assms(2) by auto
  have "map_of (set_config ?c config) ''listen_ports'' = map_of config ''listen_ports''"
    "map_of (set_config ?c config) ''random_port'' = map_of config ''random_port''"
    using set_config_map [OF assms(1)] assms(2-5) by (simp_all add: config_set_map)
  then show "listen_port (set_config (flat_sent pw_onOk w) config) = listen_port config"
    using assms(4) by (simp add: listen_port_def js_get_def flat_sent_ok [OF ne])
  let ?d = "changed (pw_om (listen_ports_pair w))"
  let ?v = "num (of_int p)"
  have d: "?d = AList.update ''listen_ports'' (Arr (pw_arrays w) [?v, ?v]) ?c"
    using assms(2) by (simp add: listen_ports_pair_def)
  have "wf_dict ?d" using assms(1) by (simp add: d distinct_update)
  note m = set_config_map [OF this, of config]
  have "map_of (set_config ?d config) ''listen_ports'' = Some (Arr (pw_arrays w) [?v, ?v])"
    "map_of (set_config ?d config) ''random_port'' = Some (Bool False)"
    unfolding m using assms(3-5) by (simp_all add: d update_conv' config_set_map)
  then show "listen_port (set_config (flat_sent pw_onApply w) config) = p"
    by (simp add: listen_port_def js_get_def flat_sent_apply [OF ne])
  have om: "pw_om (pw_onOk w) = pw_om w" by (simp add: pw_onOk_def)
  show "map_of (options (om_commit (pw_om (pw_onOk w)))) ''listen_ports'' = Some ?v"
    using assms(2) by (simp add: om om_commit_def om_reset_def map_of_put_all [OF assms(1)])
  show "changed (om_commit (pw_om (pw_onOk w))) = []" by (simp add: om_commit_def om_reset_def)
qed

definition port_window :: pref_window where
  "port_window = (pref_window_new [])\<lparr>pw_om := (om_new None)\<lparr>changed := [(''listen_ports'', num (of_int 7000))]\<rparr>\<rparr>"

definition port_config :: "jsval dict" where
  "port_config = [(''listen_ports'', Arr 5 [num 6881, num 6891]), (''random_port'', Bool False)]"

lemma ok_loses_port_witness:
  "listen_port (set_config (flat_sent pw_onOk port_window) port_config) = 6881 \<and>
   listen_port (set_config (flat_sent pw_onApply port_window) port_config) = 7000"
proof -
  have "listen_port port_config = 6881" by (simp add: listen_port_def port_config_def js_get_def)
  then show ?thesis using ok_loses_port [of port_window 7000 port_config 5 "[num 6881, num 6891]"]
    by (simp add: port_window_def port_config_def)
qed

text \<open>A setting that is edited while \<open>set_config\<close> is out is taken for saved when the answer comes: it was never
  sent, the window holds no change any more, and OK does not send it.\<close>

lemma commit_takes_unsent:
  assumes "i < length (pw_asks w)" "pw_asks w ! i = SetFlat" "wf_dict (changed (pw_om w))" "map_of (changed (pw_om w)) option = Some v"
    "\<forall>d \<in> set (pw_sets w). map_of d option = None" "option \<notin> {''blocklist'', ''scheduler'', ''autoadd'', ''rss'', ''webhook''}"
  shows "let w' = pw_answer i (Some r) w
    in changed (pw_om w') = [] \<and> om_get (pw_om w') option = v \<and> (\<forall>d \<in> set (pw_sets (pw_onOk w')). map_of d option = None)"
proof -
  let ?w = "w\<lparr>pw_asks := take i (pw_asks w) @ drop (Suc i) (pw_asks w)\<rparr>"
  have w': "pw_answer i (Some r) w = ?w\<lparr>pw_om := om_commit (pw_om w)\<rparr>" using assms(2) by (simp add: pw_answer_def)
  have c: "changed (om_commit (pw_om w)) = []" "map_of (options (om_commit (pw_om w))) option = Some v"
    using assms(4) by (simp_all add: om_commit_def om_reset_def map_of_put_all [OF assms(3)])
  have page: "map_of d option = None" if "d \<in> set (snd (page_onOk p))" for d p
    using that assms(6) by (cases p) (auto simp: one_key_def blocklist_merge_def Let_def split: if_splits)
  have "pw_sets (pw_onOk (?w\<lparr>pw_om := om_commit (pw_om w)\<rparr>)) = pw_sets w @ concat (map (\<lambda>(name, p). snd (page_onOk p)) (pw_pages w))"
    using c(1) by (simp add: pw_onOk_def dirty_iff)
  then have "\<forall>d \<in> set (pw_sets (pw_onOk (?w\<lparr>pw_om := om_commit (pw_om w)\<rparr>))). map_of d option = None" using assms(5) page by auto
  then show ?thesis using c by (simp add: w' Let_def om_get_def om_isDirty_def js_get_def)
qed

definition racing_window :: pref_window where
  "racing_window =
     (pref_window_new [])\<lparr>pw_om := (om_new None)\<lparr>changed := [(''add_paused'', Bool True), (''dht'', Bool False)]\<rparr>,
       pw_sets := [[(''dht'', Bool False)]], pw_asks := [SetFlat]\<rparr>"

lemma commit_takes_unsent_witness:
  "let w' = pw_answer 0 (Some Null) racing_window
   in changed (pw_om w') = [] \<and> om_get (pw_om w') ''add_paused'' = Bool True \<and> (\<forall>d \<in> set (pw_sets (pw_onOk w')). map_of d ''add_paused'' = None)"
  by (rule commit_takes_unsent) (simp_all add: racing_window_def)

section \<open>Pages that have not read their settings\<close>

text \<open>A page counts as read from the moment it asks.  OK before the answer sends a schedule that is off and
  has full speed in every hour, which the daemon puts in the place of the one it has; and when the rule for
  idle downloads could not be read, Apply sends it switched off, while the rule for stuck ones is left alone.\<close>

lemma unread_pages_write:
  assumes "map_of (pw_pages w) ''Schedule'' = Some (PgScheduler scheduler_new)" "map_of config ''scheduler'' = Some (Obj i d)"
  shows "map_of (pw_pages (doSelectPage ''Schedule'' w)) ''Schedule'' = Some (PgScheduler (scheduler_new\<lparr>sch_loaded := True\<rparr>)) \<and>
    snd (page_onOk (PgScheduler (scheduler_new\<lparr>sch_loaded := True\<rparr>))) = [one_key ''scheduler'' (scheduler_write scheduler_new)] \<and>
    (let stored = js_get (set_config (one_key ''scheduler'' (scheduler_write scheduler_new)) config) ''scheduler''
     in prop_of stored ''enabled'' = Bool False \<and>
        (\<forall>hr < 24. \<forall>wd < 7. array_at (array_at (prop_of stored ''button_state'') hr) wd = num 0)) \<and>
    (\<exists>idle. snd (page_onApply (page_answer ''stuck'' None (page_answer ''idle_pause'' None
          (fst (page_onShow ''Queue'' (PgQueue idle_rule_new stuck_rule_new)))))) = [one_key ''idle_pause'' idle] \<and>
        js_get idle ''enabled'' = Bool False)"
proof (intro conjI)
  show "map_of (pw_pages (doSelectPage ''Schedule'' w)) ''Schedule'' = Some (PgScheduler (scheduler_new\<lparr>sch_loaded := True\<rparr>))"
    using assms(1) by (simp add: doSelectPage_def set_page_def update_conv' scheduler_new_def)
  have same: "scheduler_write (scheduler_new\<lparr>sch_loaded := True\<rparr>) = scheduler_write scheduler_new" by (simp add: scheduler_write_def)
  show "snd (page_onOk (PgScheduler (scheduler_new\<lparr>sch_loaded := True\<rparr>))) = [one_key ''scheduler'' (scheduler_write scheduler_new)]"
    by (simp add: same)
  have "js_get (set_config (one_key ''scheduler'' (scheduler_write scheduler_new)) config) ''scheduler'' = Obj 0 (scheduler_write scheduler_new)"
    using set_one_key [of "''scheduler''" "scheduler_write scheduler_new" config] assms(2) by (simp add: js_get_def)
  then show "let stored = js_get (set_config (one_key ''scheduler'' (scheduler_write scheduler_new)) config) ''scheduler''
      in prop_of stored ''enabled'' = Bool False \<and>
         (\<forall>hr < 24. \<forall>wd < 7. array_at (array_at (prop_of stored ''button_state'') hr) wd = num 0)"
    by (simp add: Let_def prop_of_def scheduler_write_def scheduler_new_def js_get_def array_at_def)
  show "\<exists>idle. snd (page_onApply (page_answer ''stuck'' None (page_answer ''idle_pause'' None
          (fst (page_onShow ''Queue'' (PgQueue idle_rule_new stuck_rule_new)))))) = [one_key ''idle_pause'' idle] \<and>
        js_get idle ''enabled'' = Bool False"
    by (simp add: idle_rule_new_def stuck_rule_new_def onIdleToggled_def idle_write_def js_get_def)
qed

lemma unread_pages_write_witness:
  "let stored = js_get (set_config (one_key ''scheduler'' (scheduler_write scheduler_new)) [(''scheduler'', Obj 3 [(''enabled'', Bool True)])]) ''scheduler''
   in prop_of stored ''enabled'' = Bool False"
  using unread_pages_write [of "pref_window_new []" "[(''scheduler'', Obj 3 [(''enabled'', Bool True)])]" 3 "[(''enabled'', Bool True)]"]
  by (simp add: pref_window_new_def initPages_def Let_def)

section \<open>Settings read and written again\<close>

lemma box_num_or_set: "decimalPrecision f \<le> 17 \<Longrightarrow> box_num_or (nf_setValue (num q) f) dflt = Fin (fixed (decimalPrecision f) q)"
  by (simp add: box_num_or_def nf_get_set deluge_number_num)

text \<open>The settings a page can show: a rate of whole tenths of KiB, times of whole minutes.\<close>

definition idle_exact :: "jsval dict \<Rightarrow> bool" where
  "idle_exact d \<longleftrightarrow>
     (\<exists>b c rate grace pause n. js_get d ''enabled'' = Bool b \<and> js_get d ''only_when_queued'' = Bool c \<and>
        js_get d ''inactive_rate'' = num rate \<and> rate \<in> \<int> \<and> rate / 1024 * 10 \<in> \<int> \<and>
        js_get d ''grace'' = num grace \<and> grace / 60 \<in> \<int> \<and> js_get d ''pause_for'' = num pause \<and> pause / 60 \<in> \<int> \<and>
        js_get d ''min_active'' = num n \<and> n \<in> \<int>)"

definition idle_boxes :: "idle_rule \<Rightarrow> bool" where
  "idle_boxes r \<longleftrightarrow> decimalPrecision (idl_rate r) = 1 \<and> decimalPrecision (idl_grace r) = 0 \<and> decimalPrecision (idl_pause r) = 0 \<and>
     decimalPrecision (idl_min r) = 0"

lemma round_int: "q \<in> \<int> \<Longrightarrow> of_int (round_half_up q) = q"
  by (auto elim: Ints_cases)

text \<open>The rule for idle downloads is kept in bytes and seconds and shown in KiB and minutes.  What the page reads it
  writes again unchanged, if the rate is one of whole tenths of KiB and the times are whole minutes.\<close>

lemma idle_roundtrip:
  assumes "idle_exact d" "idle_boxes r" "k \<in> {''enabled'', ''inactive_rate'', ''grace'', ''pause_for'', ''min_active'', ''only_when_queued''}"
  shows "js_get (idle_write (idle_read (Obj i d) r)) k = js_get d k"
proof -
  obtain b c rate grace pause n where d: "js_get d ''enabled'' = Bool b" "js_get d ''only_when_queued'' = Bool c"
      "js_get d ''inactive_rate'' = num rate" "rate \<in> \<int>" "rate / 1024 * 10 \<in> \<int>"
      "js_get d ''grace'' = num grace" "grace / 60 \<in> \<int>" "js_get d ''pause_for'' = num pause" "pause / 60 \<in> \<int>"
      "js_get d ''min_active'' = num n" "n \<in> \<int>"
    using assms(1) unfolding idle_exact_def by blast
  have f: "fixed 1 (rate / 1024) = rate / 1024" "fixed 0 (grace / 60) = grace / 60" "fixed 0 (pause / 60) = pause / 60" "fixed 0 n = n"
    using d(5,7,9,11) by (simp_all add: fixed_id)
  have m: "minutes (num grace) = Fin (grace / 60)" "minutes (num pause) = Fin (pause / 60)"
    using round_int [OF d(7)] round_int [OF d(9)] by (simp_all add: minutes_def)
  let ?r = "idle_read (Obj i d) r"
  have v: "box_num_or (idl_rate ?r) x = Fin (rate / 1024)" "box_num_or (idl_grace ?r) x = Fin (grace / 60)"
    "box_num_or (idl_pause ?r) x = Fin (pause / 60)" "box_num_or (idl_min ?r) x = Fin n" for x
    using assms(2) d f m by (simp_all add: idle_read_def onIdleToggled_def object_or_empty_def ext_value_def idle_boxes_def box_num_or_set Let_def)
  have e: "idl_enabled ?r = b" "idl_queued ?r = c"
    using d(1,2) by (simp_all add: idle_read_def onIdleToggled_def object_or_empty_def is_true_def Let_def)
  have "idle_write ?r = [(''enabled'', Bool b), (''inactive_rate'', num rate), (''grace'', num grace), (''pause_for'', num pause),
      (''min_active'', num n), (''only_when_queued'', Bool c)]"
    unfolding idle_write_def v e using round_int [OF d(4)] by simp
  then show ?thesis using assms(3) d by (auto simp: js_get_def)
qed

definition idle_settings :: "jsval dict" where
  "idle_settings = [(''enabled'', Bool True), (''inactive_rate'', num 2048), (''grace'', num 300), (''pause_for'', num 3600), (''min_active'', num 1),
     (''only_when_queued'', Bool True)]"

lemma idle_roundtrip_witness:
  "js_get (idle_write (idle_read (Obj 1 idle_settings) idle_rule_new)) ''inactive_rate'' = num 2048"
proof -
  have "idle_exact idle_settings"
    unfolding idle_exact_def
    by (intro exI [of _ True] exI [of _ 2048] exI [of _ 300] exI [of _ 3600] exI [of _ 1]) (simp add: idle_settings_def js_get_def)
  then have "js_get (idle_write (idle_read (Obj 1 idle_settings) idle_rule_new)) ''inactive_rate'' = js_get idle_settings ''inactive_rate''"
    by (rule idle_roundtrip) (simp_all add: idle_boxes_def idle_rule_new_def idleSpinner_def spinner_def)
  then show ?thesis by (simp add: idle_settings_def js_get_def)
qed

text \<open>Any other rate comes back as another one: two thousand bytes a second are shown as 2 KiB, and Apply writes 2048.\<close>

lemma idle_rate_drifts:
  assumes "js_get d ''inactive_rate'' = num rate" "idle_boxes r"
  shows "js_get (idle_write (idle_read (Obj i d) r)) ''inactive_rate'' = num (of_int (round_half_up (1024 * fixed 1 (rate / 1024))))"
  using assms by (simp add: idle_write_def idle_read_def onIdleToggled_def object_or_empty_def ext_value_def idle_boxes_def box_num_or_set
      js_get_def Let_def)

lemma idle_rate_drifts_witness:
  "js_get (idle_write (idle_read (Obj 1 [(''inactive_rate'', num 2000)]) idle_rule_new)) ''inactive_rate'' = num 2048"
proof -
  have "round_half_up (1024 * fixed 1 (2000 / 1024)) = 2048" by code_simp
  then show ?thesis using idle_rate_drifts [of "[(''inactive_rate'', num 2000)]" 2000 idle_rule_new 1]
    by (simp add: js_get_def idle_boxes_def idle_rule_new_def idleSpinner_def spinner_def)
qed

text \<open>C30: What is painted in the schedule is what was stored, hour by hour and day by day with the indices the same way
  round, and it is sent again as it was read.\<close>

lemma schedule_roundtrip:
  assumes "js_get d ''button_state'' = Arr i rows" "hr < 24" "wd < 7" "hr < length rows" "rows ! hr = Arr j cells" "wd < length cells"
    "cells ! wd = num (of_nat c)" "c < 3"
  shows "array_at (array_at (js_get (scheduler_write (scheduler_read (Obj k [(''scheduler'', Obj l d)]) r)) ''button_state'') hr) wd = num (of_nat c)"
proof -
  let ?s = "Arr i rows"
  have "c = 0 \<or> c = 1 \<or> c = 2" using assms(8) by auto
  then have m: "mod_states (Fin (of_nat c)) = Fin (of_nat c)" by (auto simp: mod_states_def floor_eq_iff)
  have "stored_cell ?s hr wd = Fin (of_nat c)" using assms(4-7) m by (simp add: stored_cell_def array_at_def)
  moreover have "sch_grid (scheduler_read (Obj k [(''scheduler'', Obj l d)]) r) = map (\<lambda>h. map (stored_cell ?s h) [0..<7]) [0..<24]"
    using assms(1) by (simp add: scheduler_read_def prop_of_def object_or_empty_def js_get_def Let_def)
  ultimately show ?thesis using assms(2,3) by (simp add: scheduler_write_def js_get_def array_at_def del: upt_conv_Cons upt_rec_numeral)
qed

lemma schedule_roundtrip_witness:
  "array_at (array_at (js_get (scheduler_write (scheduler_read (Obj 1 [(''scheduler'', Obj 2 [(''button_state'', Arr 3 [Arr 4 [num 0, num 2]])])])
     scheduler_new)) ''button_state'') 0) 1 = num 2"
  using schedule_roundtrip [of "[(''button_state'', Arr 3 [Arr 4 [num 0, num 2]])]" 3 "[Arr 4 [num 0, num 2]]" 0 1 4 "[num 0, num 2]" 2 1 2 scheduler_new]
  by (simp add: js_get_def)

section \<open>The daemon's own keys\<close>

text \<open>C31: The block list page keeps every setting it has no field for, the times and counts the daemon writes among
  them; what the Other page writes drops them, so that the daemon takes its country database for one that
  was never fetched, whenever it was and even if it was to be kept for ever.\<close>

lemma pages_and_daemon_keys:
  assumes "k \<notin> {''enabled'', ''url'', ''check_after_days'', ''timeout'', ''try_times'', ''whitelisted''}" "map_of config ''countrydb'' = Some (Obj i d)"
  shows "(\<exists>sent. snd (page_onApply (PgBlocklist ((blocklist_read (Obj j [(''blocklist'', Obj l settings)]) bl)\<lparr>bll_loaded := True\<rparr>))) =
        [one_key ''blocklist'' sent] \<and> js_get sent k = js_get settings k) \<and>
    is_stale now (js_get (set_config (one_key ''countrydb'' (country_write r)) config) ''countrydb'')"
proof
  let ?b = "(blocklist_read (Obj j [(''blocklist'', Obj l settings)]) bl)\<lparr>bll_loaded := True\<rparr>"
  have s: "bll_settings ?b = Some settings" by (simp add: blocklist_read_def prop_of_def object_or_empty_def js_get_def Let_def)
  have "wf_dict (blocklist_changes ?b)" by (simp add: blocklist_changes_def)
  from map_of_put_all [OF this, of settings] have "map_of (put_all settings (blocklist_changes ?b)) k = map_of settings k"
    using assms(1) by (simp add: blocklist_changes_def map_add_def)
  then show "\<exists>sent. snd (page_onApply (PgBlocklist ?b)) = [one_key ''blocklist'' sent] \<and> js_get sent k = js_get settings k"
    using s by (simp add: blocklist_merge_def Let_def js_get_def)
  show "is_stale now (js_get (set_config (one_key ''countrydb'' (country_write r)) config) ''countrydb'')"
    using set_one_key [of "''countrydb''" "country_write r" config] assms(2)
    by (simp add: js_get_def is_stale_def prop_of_def country_write_def number_or_def)
qed

lemma pages_and_daemon_keys_witness:
  "is_stale 5 (js_get (set_config (one_key ''countrydb'' (country_write country_db_new))
     [(''countrydb'', Obj 2 [(''check_after_days'', num 0), (''last_update'', num 4)])]) ''countrydb'') \<and>
   \<not> is_stale 5 (Obj 2 [(''check_after_days'', num 0), (''last_update'', num 4)])"
proof -
  have "is_stale 5 (js_get (set_config (one_key ''countrydb'' (country_write country_db_new))
     [(''countrydb'', Obj 2 [(''check_after_days'', num 0), (''last_update'', num 4)])]) ''countrydb'')"
    using pages_and_daemon_keys [of "''last_update''" "[(''countrydb'', Obj 2 [(''check_after_days'', num 0), (''last_update'', num 4)])]" 2
      "[(''check_after_days'', num 0), (''last_update'', num 4)]" 0 0 "[]" blocklist_new 5 country_db_new] by simp
  then show ?thesis by (simp add: is_stale_def number_or_def prop_of_def js_get_def)
qed

section \<open>What the daemon accepts of the flat settings\<close>

text \<open>What a field can give: the two that stand for a dictionary give the dictionary of their boxes, and nothing is
  asked of the others, which the manager converts.\<close>

definition gives :: "bound_field \<Rightarrow> jsval \<Rightarrow> bool" where
  "gives f v \<longleftrightarrow>
     (case f of BProxy \<Rightarrow> \<exists>i p. v = Obj i (proxy_getValue p) | BIdentity \<Rightarrow> \<exists>i p. v = Obj i (identity_getValue p) | _ \<Rightarrow> True)"

lemma convert_type:
  assumes "type_name d \<in> {''bool'', ''number'', ''string''} \<or> type_name d = ''dict'' \<and> type_name v = ''dict''"
  shows "type_name (convertValueType d v) = type_name d"
  using assms by (cases d; cases v) (auto simp: convertValueType_def)

text \<open>Neither the keys of the configuration nor the kinds of their values depend on the machine.\<close>

lemma defaults_kinds:
  "map (map_prod id type_name) (config_defaults path downloads feature) = map (map_prod id type_name) (config_defaults id [] (\<lambda>_. []))"
  by (simp add: config_defaults_def)

lemma map_of_kinds: "map_of (map (map_prod id g) xs) k = map_option g (map_of xs k)"
  by (induction xs) auto

definition kind_of :: "bound_field \<Rightarrow> string" where
  "kind_of f = (case f of BCheck \<Rightarrow> ''bool'' | BSpin _ _ _ \<Rightarrow> ''number'' | BText \<Rightarrow> ''string'' | BRadio \<Rightarrow> ''bool''
     | BProxy \<Rightarrow> ''dict'' | BIdentity \<Rightarrow> ''dict'')"

lemma bound_kinds:
  "list_all (\<lambda>(name, f). map_of (map (map_prod id type_name) (config_defaults id [] (\<lambda>_. []))) name =
      Some (if name = ''listen_ports'' then ''list'' else kind_of f)) bound_fields"
  by code_simp

lemma bound_default:
  assumes "(name, f) \<in> set bound_fields"
  shows "\<exists>d. map_of (config_defaults path downloads feature) name = Some d \<and> type_name d = (if name = ''listen_ports'' then ''list'' else kind_of f)"
proof -
  have "map_of (map (map_prod id type_name) (config_defaults path downloads feature)) name = Some (if name = ''listen_ports'' then ''list'' else kind_of f)"
    unfolding defaults_kinds [of path downloads feature] using bound_kinds assms unfolding list_all_iff by fast
  then show ?thesis by (auto simp: map_of_kinds)
qed

lemma convert_dict: "convertValueType (Obj i a) (Obj j b) = Obj j b"
  by (simp add: convertValueType_def)

lemma kind_given:
  assumes "type_name d = kind_of f" "gives f v"
  shows "type_name (convertValueType d v) = kind_of f"
  using assms convert_type [of d v] by (cases f) (auto simp: kind_of_def gives_def)

text \<open>C32: Every option a page binds to the manager of the window, the dictionaries of the Proxy and the Identity page
  among them, is one the daemon knows, with a default of the kind its field gives, and whatever the field gives, what
  the manager makes of it is accepted; except for the listening port, where a number never is.\<close>

lemma bound_options_accepted:
  assumes "(name, f) \<in> set bound_fields" "gives f v"
  shows "let config = config_defaults path downloads feature; dflt = js_get config name; sent = convertValueType dflt v
    in if name = ''listen_ports'' then map_of (set_config [(name, num q)] config) name = Some dflt
       else type_name dflt = kind_of f \<and> map_of (set_config [(name, sent)] config) name = Some sent"
proof -
  let ?config = "config_defaults path downloads feature"
  obtain d where d: "map_of ?config name = Some d" and t: "type_name d = (if name = ''listen_ports'' then ''list'' else kind_of f)"
    using bound_default [OF assms(1)] by blast
  have g: "js_get ?config name = d" by (simp add: js_get_def d)
  have one: "map_of (set_config [(name, x)] ?config) name = Some (if type_name d = type_name x \<or> type_name d = ''null'' \<or> type_name x = ''null'' then x else d)"
    for x by (simp add: set_config_def config_set_map d)
  show ?thesis
  proof (cases "name = ''listen_ports''")
    case True
    then have "type_name d = ''list''" using t by simp
    then show ?thesis unfolding Let_def g using True one [of "num q"] by simp
  next
    case False
    then have k: "type_name d = kind_of f" using t by simp
    from kind_given [OF this assms(2)] show ?thesis unfolding Let_def g using False k one [of "convertValueType d v"] by simp
  qed
qed

lemma bound_options_accepted_witness:
  "map_of (set_config [(''max_upload_speed'', num 5)] (config_defaults id [] (\<lambda>_. []))) ''max_upload_speed'' = Some (num 5) \<and>
   map_of (set_config [(''proxy'', Obj 3 (proxy_getValue proxy_new))] (config_defaults id [] (\<lambda>_. []))) ''proxy'' =
     Some (Obj 3 (proxy_getValue proxy_new))"
proof
  have "(''max_upload_speed'', BSpin 1 (-1) 9999999) \<in> set bound_fields" by (simp add: bound_fields_def bandwidth_fields_def)
  from bound_options_accepted [OF this, of "num 5" id "[]" "\<lambda>_. []" 0]
  show "map_of (set_config [(''max_upload_speed'', num 5)] (config_defaults id [] (\<lambda>_. []))) ''max_upload_speed'' = Some (num 5)"
    by (simp add: Let_def config_defaults_def js_get_def convertValueType_def gives_def)
  have "(''proxy'', BProxy) \<in> set bound_fields" by (simp add: bound_fields_def proxy_fields_def)
  moreover have "gives BProxy (Obj 3 (proxy_getValue proxy_new))" by (auto simp: gives_def)
  moreover obtain d where "js_get (config_defaults id [] (\<lambda>_. [])) ''proxy'' = Obj 6 d" by (simp add: config_defaults_def js_get_def)
  ultimately show "map_of (set_config [(''proxy'', Obj 3 (proxy_getValue proxy_new))] (config_defaults id [] (\<lambda>_. []))) ''proxy'' =
      Some (Obj 3 (proxy_getValue proxy_new))"
    using bound_options_accepted [of "''proxy''" BProxy "Obj 3 (proxy_getValue proxy_new)" id "[]" "\<lambda>_. []" 0]
    by (simp add: Let_def convert_dict)
qed

end
