(* ===== verification/Rpc.thy ===== *)
theory Rpc
  imports ExtCore
begin

text \<open>
  The JSON-RPC client of the interface (\<open>Client.js\<close>): the methods the server lists become functions of
  the client, a call is one numbered request, and its answer is handed to one of the two functions in
  the call's options.  Functions and the objects they are called on are numbers.  The HTTP request itself
  (\<open>Ext.Ajax\<close>) is not modelled: an outstanding request is answered once or never.
\<close>

section \<open>Arguments and options\<close>

text \<open>A property of an options object: a function, an object with methods, or a plain value.\<close>

datatype opt_field = Fn nat | Self nat | Plain jsval

text \<open>An argument of a call: a value, or an object that has functions in it.\<close>

datatype arg = Value jsval | Opts nat "opt_field dict"

fun as_object :: "arg \<Rightarrow> opt_field dict option" where
  "as_object (Opts i fs) = Some fs"
| "as_object (Value (Obj i kvs)) =
     (if ext_type (Obj i kvs) = Some ''object'' then Some (map (\<lambda>(k, v). (k, Plain v)) kvs) else None)"
| "as_object (Value v) = None"

text \<open>\<open>===\<close> on arguments: objects and arrays are the same when they are one object.\<close>

fun same_arg :: "arg \<Rightarrow> arg \<Rightarrow> bool" where
  "same_arg (Opts i fs) (Opts j gs) \<longleftrightarrow> i = j"
| "same_arg (Value v) (Value w) \<longleftrightarrow> strict_eq v w"
| "same_arg _ _ \<longleftrightarrow> False"

text \<open>\<open>Array.prototype.remove\<close>: the first that is the same.\<close>

fun remove_arg :: "arg \<Rightarrow> arg list \<Rightarrow> arg list" where
  "remove_arg x [] = []"
| "remove_arg x (y # ys) = (if same_arg y x then ys else y # remove_arg x ys)"

definition optionKeys :: "string list" where
  "optionKeys = [''scope'', ''success'', ''failure'']"

text \<open>The parameters to send and the options to keep.\<close>

definition parseArgs :: "arg list \<Rightarrow> arg list \<times> opt_field dict" where
  "parseArgs args =
     (if args = [] then ([], [])
      else case as_object (List.last args) of
        None \<Rightarrow> (args, [])
      | Some options \<Rightarrow>
          if list_ex (\<lambda>k. k \<in> fst ` set options) optionKeys then (remove_arg (List.last args) args, options)
          else (args, []))"

section \<open>The client\<close>

record request =
  r_id :: nat
  r_method :: string
  r_params :: "arg list"
  r_options :: "opt_field dict"

text \<open>A function that was called: which, in what scope, and with the result or the error.\<close>

datatype outcome = Result jsval | Failed jsval | HttpError nat string

record callback =
  cb_fn :: nat
  cb_scope :: "opt_field option"
  cb_id :: nat
  cb_outcome :: outcome

text \<open>\<open>pending\<close> are the requests that have no answer yet; \<open>ran\<close> are the functions that were called and
  \<open>fired\<close> the events of the client, oldest first.\<close>

record client =
  next_id :: nat
  pending :: "request list"
  api :: "string dict dict"
  components :: "string list"
  ran :: "callback list"
  fired :: "string list"

definition execute :: "string \<Rightarrow> arg list \<Rightarrow> opt_field dict \<Rightarrow> client \<Rightarrow> client" where
  "execute method params options c =
     c\<lparr>next_id := next_id c + 1,
       pending := pending c @ [\<lparr>r_id = next_id c, r_method = method, r_params = params, r_options = options\<rparr>]\<rparr>"

text \<open>The functions of \<open>reloadMethods\<close>' request are the client's own.\<close>

definition SET_METHODS :: nat where
  "SET_METHODS = 0"

definition reloadMethods :: "client \<Rightarrow> client" where
  "reloadMethods c = execute ''system.listMethods'' [] [(''success'', Fn SET_METHODS), (''scope'', Self 0)] c"

definition client_new :: client where
  "client_new = reloadMethods \<lparr>next_id = 0, pending = [], api = [], components = [], ran = [], fired = []\<rparr>"

text \<open>\<open>self[component][name](...)\<close>; None when there is no such function.\<close>

definition rpc_call :: "string \<Rightarrow> string \<Rightarrow> arg list \<Rightarrow> client \<Rightarrow> client option" where
  "rpc_call component name args c =
     (case map_of (api c) component of
        None \<Rightarrow> None
      | Some fns \<Rightarrow>
          (case map_of fns name of
             None \<Rightarrow> None
           | Some method \<Rightarrow>
               let (params, options) = parseArgs args in Some (execute method params options c)))"

fun truthy_field :: "opt_field \<Rightarrow> bool" where
  "truthy_field (Plain v) = truthy v"
| "truthy_field _ = True"

definition scope_of :: "opt_field dict \<Rightarrow> opt_field option" where
  "scope_of options =
     (case map_of options ''scope'' of Some s \<Rightarrow> if truthy_field s then Some s else None | None \<Rightarrow> None)"

text \<open>The functions the methods become: the component is what stands before the first dot, the name what
  stands between the first dot and the second.\<close>

definition add_method :: "string \<Rightarrow> string dict dict \<Rightarrow> string dict dict" where
  "add_method method comps =
     (let parts = split_on (CHR ''.'') method;
          component = (case map_of comps (parts ! 0) of None \<Rightarrow> [] | Some f \<Rightarrow> f);
          name = (if length parts < 2 then ''undefined'' else parts ! 1)
      in AList.update (parts ! 0) (AList.update name method component) comps)"

text \<open>\<open>!component in components\<close> is \<open>(!component) in components\<close>: a test for a component called
  \<open>false\<close>, or \<open>true\<close> when the name is empty.\<close>

definition setMethods :: "string list \<Rightarrow> client \<Rightarrow> client" where
  "setMethods methods c =
     (let comps = fold add_method methods [];
          c = c\<lparr>api := put_all (api c) comps\<rparr>;
          c = fold (\<lambda>component c.
                 if (if component = [] then ''true'' else ''false'') \<in> fst ` set comps
                 then c\<lparr>api := AList.delete component (api c)\<rparr> else c) (components c) c
      in c\<lparr>components := map fst comps, fired := fired c @ [''connected'']\<rparr>)"

text \<open>\<open>options[which]\<close> is called when it is a function; the client's own is \<open>setMethods\<close>, given a
  list of names.\<close>

fun names_in :: "outcome \<Rightarrow> string list" where
  "names_in (Result (Arr i ms)) = List.map_filter (\<lambda>m. case m of Str s \<Rightarrow> Some s | _ \<Rightarrow> None) ms"
| "names_in _ = []"

definition run_option :: "string \<Rightarrow> outcome \<Rightarrow> request \<Rightarrow> client \<Rightarrow> client" where
  "run_option which out r c =
     (case map_of (r_options r) which of
        Some (Fn f) \<Rightarrow>
          let c = c\<lparr>ran := ran c @ [\<lparr>cb_fn = f, cb_scope = scope_of (r_options r), cb_id = r_id r, cb_outcome = out\<rparr>]\<rparr>
          in if f = SET_METHODS then setMethods (names_in out) c else c
      | _ \<Rightarrow> c)"

definition onFailure :: "nat \<Rightarrow> string \<Rightarrow> request \<Rightarrow> client \<Rightarrow> client" where
  "onFailure status statusText r c =
     run_option ''failure'' (HttpError status statusText) r (c\<lparr>fired := fired c @ [''error'']\<rparr>)"

text \<open>\<open>error\<close> and \<open>result\<close> are those of the decoded answer.\<close>

definition onSuccess :: "jsval \<Rightarrow> jsval \<Rightarrow> request \<Rightarrow> client \<Rightarrow> client" where
  "onSuccess error result r c =
     (if truthy error
      then run_option ''failure'' (Failed error) r (c\<lparr>fired := fired c @ [''error'']\<rparr>)
      else run_option ''success'' (Result result) r c)"

text \<open>What the network does with an outstanding request.\<close>

datatype rpc_answer = Answered jsval jsval | Http nat string

definition settle :: "nat \<Rightarrow> rpc_answer \<Rightarrow> client \<Rightarrow> client option" where
  "settle i a c =
     (case find (\<lambda>r. r_id r = i) (pending c) of
        None \<Rightarrow> None
      | Some r \<Rightarrow>
          let c = c\<lparr>pending := filter (\<lambda>r. r_id r \<noteq> i) (pending c)\<rparr>
          in Some (case a of
               Answered error result \<Rightarrow> onSuccess error result r c
             | Http status text \<Rightarrow> onFailure status text r c))"

section \<open>Calls\<close>

lemma remove_fresh:
  "\<not> list_ex (\<lambda>y. same_arg y x) ys \<Longrightarrow> same_arg x x \<Longrightarrow> remove_arg x (ys @ [x]) = ys"
  by (induction ys) auto

text \<open>A last argument with one of the option keys is the options and is not sent; any other last argument
  is a parameter.\<close>

theorem options_split_off:
  assumes "as_object x = Some fs" "\<not> list_ex (\<lambda>y. same_arg y x) params"
  shows "parseArgs (params @ [x]) =
    (if \<exists>k \<in> set optionKeys. k \<in> fst ` set fs then (params, fs) else (params @ [x], []))"
proof -
  have "same_arg x x" using assms(1) by (cases x rule: as_object.cases) (auto split: if_splits)
  then show ?thesis using remove_fresh [OF assms(2)] assms(1) by (simp add: parseArgs_def optionKeys_def)
qed

lemma options_split_off_witness:
  "parseArgs [Value (Str ''id''), Value (Obj 1 [(''ratio'', num 2)]), Opts 2 [(''success'', Fn 5), (''scope'', Self 3)]] =
     ([Value (Str ''id''), Value (Obj 1 [(''ratio'', num 2)])], [(''success'', Fn 5), (''scope'', Self 3)])"
  using options_split_off [of "Opts 2 [(''success'', Fn 5), (''scope'', Self 3)]" "[(''success'', Fn 5), (''scope'', Self 3)]"
      "[Value (Str ''id''), Value (Obj 1 [(''ratio'', num 2)])]"]
  by (simp add: optionKeys_def)

definition dotted :: "string \<Rightarrow> bool" where
  "dotted m \<longleftrightarrow> length (split_on (CHR ''.'') m) = 2"

lemma split_on_no: "c \<notin> set s \<Longrightarrow> split_on c s = [s]"
  by (induction s) auto

lemma split_on_dot: "c \<notin> set a \<Longrightarrow> split_on c (a @ c # b) = a # split_on c b"
  by (induction a) auto

lemma split_on_ne: "split_on c s \<noteq> []"
  by (induction s) (auto split: list.split)

lemma split_one: "split_on c s = [a] \<Longrightarrow> s = a"
  by (induction s arbitrary: a) (auto split: if_splits list.splits simp: split_on_ne)

lemma split_two: "split_on c s = [a, b] \<Longrightarrow> s = a @ c # b"
proof (induction s arbitrary: a)
  case (Cons x s)
  show ?case
  proof (cases "x = c")
    case True
    then show ?thesis using Cons.prems split_one [of c s b] by auto
  next
    case False
    then obtain t where "split_on c s = [t, b]" "a = x # t" using Cons.prems by (auto split: list.splits)
    then show ?thesis using Cons.IH by simp
  qed
qed simp

definition lookup :: "string dict dict \<Rightarrow> string \<Rightarrow> string \<Rightarrow> string option" where
  "lookup comps k n = (case map_of comps k of None \<Rightarrow> None | Some f \<Rightarrow> map_of f n)"

lemma lookup_add:
  assumes "dotted m"
  shows "lookup (add_method m comps) k n = (if split_on (CHR ''.'') m = [k, n] then Some m else lookup comps k n)"
proof -
  obtain a b where "split_on (CHR ''.'') m = [a, b]" using assms
    by (auto simp: dotted_def numeral_2_eq_2 length_Suc_conv)
  then show ?thesis by (auto simp: lookup_def add_method_def Let_def AList.update_conv' split: option.split)
qed

lemma lookup_methods:
  assumes "list_all dotted ms"
  shows "lookup (fold add_method ms []) k n = (if k @ CHR ''.'' # n \<in> set ms \<and> split_on (CHR ''.'') (k @ CHR ''.'' # n) = [k, n]
    then Some (k @ CHR ''.'' # n) else None)"
  using assms
proof (induction ms rule: rev_induct)
  case (snoc m ms)
  show ?case
  proof (cases "split_on (CHR ''.'') m = [k, n]")
    case True
    then have "m = k @ CHR ''.'' # n" by (rule split_two)
    then show ?thesis using True snoc.prems by (simp add: lookup_add)
  next
    case False
    then show ?thesis using snoc by (auto simp: lookup_add)
  qed
qed (simp add: lookup_def)

lemma keys_methods: "fst ` set (fold add_method ms comps) = (\<lambda>m. split_on (CHR ''.'') m ! 0) ` set ms \<union> fst ` set comps"
  by (induction ms arbitrary: comps) (auto simp: add_method_def Let_def AList.dom_update)

lemma wf_methods: "wf_dict comps \<Longrightarrow> wf_dict (fold add_method ms comps)"
  by (induction ms arbitrary: comps) (auto simp: add_method_def Let_def AList.distinct_update)

lemma setMethods_api:
  assumes "\<forall>m \<in> set ms. split_on (CHR ''.'') m ! 0 \<notin> {''true'', ''false''}"
  shows "api (setMethods ms c) = put_all (api c) (fold add_method ms [])"
proof -
  let ?k = "fst ` set (fold add_method ms [])"
  have "''true'' \<notin> ?k" "''false'' \<notin> ?k" using assms by (auto simp: keys_methods)
  then have "fold (\<lambda>component c. if (if component = [] then ''true'' else ''false'') \<in> ?k
                 then c\<lparr>api := AList.delete component (api c)\<rparr> else c) cs c = c" for cs and c :: client
    by (induction cs) auto
  then show ?thesis by (simp add: setMethods_def Let_def)
qed

lemma setMethods_frame:
  "pending (setMethods ms c) = pending c" "next_id (setMethods ms c) = next_id c" "ran (setMethods ms c) = ran c"
proof -
  have "pending (fold (\<lambda>component c. if P component then c\<lparr>api := AList.delete component (api c)\<rparr> else c) cs c) = pending c \<and>
      next_id (fold (\<lambda>component c. if P component then c\<lparr>api := AList.delete component (api c)\<rparr> else c) cs c) = next_id c \<and>
      ran (fold (\<lambda>component c. if P component then c\<lparr>api := AList.delete component (api c)\<rparr> else c) cs c) = ran c" for cs P and c :: client
    by (induction cs arbitrary: c) auto
  then show "pending (setMethods ms c) = pending c" "next_id (setMethods ms c) = next_id c" "ran (setMethods ms c) = ran c"
    by (simp_all add: setMethods_def Let_def)
qed

text \<open>After the server has listed its methods, every one of them is a function of the client, and calling
  it sends one request with a new number, the method's own name, and the arguments less the options.\<close>

theorem listed_methods_call:
  assumes "list_all dotted ms" "\<forall>m \<in> set ms. split_on (CHR ''.'') m ! 0 \<notin> {''true'', ''false''}"
    and "k @ CHR ''.'' # n \<in> set ms" "CHR ''.'' \<notin> set k" "CHR ''.'' \<notin> set n"
  shows "\<exists>c'. rpc_call k n args (setMethods ms c) = Some c' \<and> next_id c' = next_id c + 1 \<and> ran c' = ran c \<and>
    pending c' = pending c @ [\<lparr>r_id = next_id c, r_method = k @ CHR ''.'' # n,
      r_params = fst (parseArgs args), r_options = snd (parseArgs args)\<rparr>]"
proof -
  have "split_on (CHR ''.'') (k @ CHR ''.'' # n) = [k, n]" using split_on_dot split_on_no assms(4,5) by simp
  then have "lookup (fold add_method ms []) k n = Some (k @ CHR ''.'' # n)" using lookup_methods [OF assms(1)] assms(3) by simp
  then obtain f where "map_of (fold add_method ms []) k = Some f" "map_of f n = Some (k @ CHR ''.'' # n)"
    by (auto simp: lookup_def split: option.splits)
  moreover have "wf_dict (fold add_method ms [])" by (rule wf_methods) simp
  ultimately show ?thesis
    by (simp add: rpc_call_def setMethods_api [OF assms(2)] map_of_put_all setMethods_frame case_prod_beta execute_def)
qed

lemma listed_methods_call_witness:
  "\<exists>c'. rpc_call ''core'' ''stop'' [Value Null] (setMethods [''web.stop'', ''core.stop''] client_new) = Some c' \<and> next_id c' = 2"
proof -
  have "list_all dotted [''web.stop'', ''core.stop'']" by code_simp
  moreover have "\<forall>m \<in> set [''web.stop'', ''core.stop'']. split_on (CHR ''.'') m ! 0 \<notin> {''true'', ''false''}" by code_simp
  ultimately show ?thesis
    using listed_methods_call [of "[''web.stop'', ''core.stop'']" "''core''" "''stop''" "[Value Null]" client_new]
    by (auto simp: client_new_def reloadMethods_def execute_def)
qed

text \<open>A component the server no longer lists, that of a plugin gone, say, stays callable: the test that
  should delete it looks for a component called \<open>false\<close>.\<close>

theorem gone_component_stays:
  assumes "\<forall>m \<in> set ms. split_on (CHR ''.'') m ! 0 \<notin> {''true'', ''false'', k}" "rpc_call k n args c = Some c'"
  shows "rpc_call k n args (setMethods ms c) \<noteq> None"
proof -
  obtain f m where f: "map_of (api c) k = Some f" "map_of f n = Some m" using assms(2) by (auto simp: rpc_call_def split: option.splits)
  have "wf_dict (fold add_method ms [])" by (rule wf_methods) simp
  moreover have "map_of (fold add_method ms []) k = None" using assms(1) by (auto simp: map_of_eq_None_iff keys_methods)
  moreover have "api (setMethods ms c) = put_all (api c) (fold add_method ms [])" using assms(1) by (intro setMethods_api) auto
  ultimately have "map_of (api (setMethods ms c)) k = Some f" using f by (simp add: map_of_put_all map_add_def)
  then show ?thesis using f(2) by (simp add: rpc_call_def case_prod_beta)
qed

lemma gone_component_stays_witness:
  "rpc_call ''label'' ''add'' [] (setMethods [''core.stop''] (setMethods [''label.add''] client_new)) \<noteq> None"
proof -
  have "\<forall>m \<in> set [''core.stop'']. split_on (CHR ''.'') m ! 0 \<notin> {''true'', ''false'', ''label''}" by code_simp
  moreover have "\<exists>c'. rpc_call ''label'' ''add'' [] (setMethods [''label.add''] client_new) = Some c'"
    by (simp add: client_new_def reloadMethods_def execute_def setMethods_def add_method_def rpc_call_def Let_def case_prod_beta)
  ultimately show ?thesis using gone_component_stays by blast
qed

section \<open>Answers\<close>

inductive rpc :: "client \<Rightarrow> bool" where
  start: "rpc client_new"
| calls: "rpc c \<Longrightarrow> rpc_call k n args c = Some c' \<Longrightarrow> rpc c'"
| reload: "rpc c \<Longrightarrow> rpc (reloadMethods c)"
| settles: "rpc c \<Longrightarrow> settle i a c = Some c' \<Longrightarrow> rpc c'"

text \<open>Each request has a number of its own and each function that ran was a request's, once.\<close>

definition numbered_requests :: "client \<Rightarrow> bool" where
  "numbered_requests c \<longleftrightarrow> distinct (map r_id (pending c) @ map cb_id (ran c)) \<and>
     (\<forall>i \<in> r_id ` set (pending c) \<union> cb_id ` set (ran c). i < next_id c)"

lemma numbered_execute: "numbered_requests c \<Longrightarrow> numbered_requests (execute method params options c)"
  by (auto simp: numbered_requests_def execute_def less_Suc_eq)

lemma numbered_setMethods: "numbered_requests (setMethods ms c) = numbered_requests c"
  by (simp add: numbered_requests_def setMethods_frame)

lemma numbered_run:
  assumes "numbered_requests c" "r_id r < next_id c" "r_id r \<notin> r_id ` set (pending c)" "r_id r \<notin> cb_id ` set (ran c)"
  shows "numbered_requests (run_option which out r c)"
proof -
  have "numbered_requests (c\<lparr>ran := ran c @ [\<lparr>cb_fn = f, cb_scope = s, cb_id = r_id r, cb_outcome = out\<rparr>]\<rparr>)" for f s
    using assms by (auto simp: numbered_requests_def)
  then show ?thesis using assms(1) by (auto simp: run_option_def Let_def numbered_setMethods split: option.split opt_field.split)
qed

lemma numbered_settle:
  assumes "numbered_requests c" "settle i a c = Some c'"
  shows "numbered_requests c'"
proof -
  obtain r where r: "find (\<lambda>r. r_id r = i) (pending c) = Some r" using assms(2) by (auto simp: settle_def split: option.splits)
  then have ri: "r \<in> set (pending c)" "r_id r = i" by (auto simp: find_Some_iff)
  let ?c = "c\<lparr>pending := filter (\<lambda>r. r_id r \<noteq> i) (pending c)\<rparr>"
  have n: "numbered_requests (?c\<lparr>fired := x\<rparr>)" "numbered_requests ?c" for x
    using assms(1) by (auto simp: numbered_requests_def distinct_map_filter)
  have i: "i < next_id c" "i \<notin> cb_id ` set (ran c)" using assms(1) ri by (force simp: numbered_requests_def)+
  have "c' = (case a of Answered error result \<Rightarrow> onSuccess error result r ?c | Http status text \<Rightarrow> onFailure status text r ?c)"
    using assms(2) r by (simp add: settle_def Let_def)
  moreover have "numbered_requests (run_option which out r ?c)" "numbered_requests (run_option which out r (?c\<lparr>fired := x\<rparr>))" for which out x
  proof -
    have m: "r_id r \<notin> r_id ` set (filter (\<lambda>r. r_id r \<noteq> i) (pending c))" using ri(2) by auto
    show "numbered_requests (run_option which out r ?c)"
      by (rule numbered_run) (use n i ri m in simp_all)
    show "numbered_requests (run_option which out r (?c\<lparr>fired := x\<rparr>))"
      by (rule numbered_run) (use n i ri m in simp_all)
  qed
  ultimately show ?thesis by (auto simp: onSuccess_def onFailure_def split: rpc_answer.split)
qed

lemma rpc_numbered: "rpc c \<Longrightarrow> numbered_requests c"
proof (induction rule: rpc.induct)
  case start
  show ?case by (simp add: client_new_def reloadMethods_def execute_def numbered_requests_def)
next
  case (calls c k n args c')
  then show ?case by (auto simp: rpc_call_def case_prod_beta split: option.splits intro: numbered_execute)
next
  case (reload c)
  then show ?case by (simp add: reloadMethods_def numbered_execute)
next
  case (settles c i a c')
  then show ?case using numbered_settle by blast
qed

text \<open>C20: However the network orders and loses the answers, requests never share a number, and of the two
  functions of a request at most one is ever called, and that once.\<close>

theorem answered_once:
  assumes "rpc c"
  shows "distinct (map r_id (pending c)) \<and> distinct (map cb_id (ran c)) \<and>
    r_id ` set (pending c) \<inter> cb_id ` set (ran c) = {}"
  using rpc_numbered [OF assms] by (auto simp: numbered_requests_def)

lemma answered_once_witness:
  "\<exists>c. settle 0 (Answered Null (Arr 1 [Str ''core.stop''])) client_new = Some c \<and> distinct (map cb_id (ran c)) \<and> ran c \<noteq> []"
proof -
  obtain c where c: "settle 0 (Answered Null (Arr 1 [Str ''core.stop''])) client_new = Some c" "ran c \<noteq> []"
    by (simp add: settle_def client_new_def reloadMethods_def execute_def onSuccess_def run_option_def Let_def SET_METHODS_def setMethods_frame)
  then show ?thesis using answered_once [OF rpc.settles [OF rpc.start c(1)]] by blast
qed

text \<open>An answer calls the function it is for: with the result when there is no error, with the error
  otherwise, on the object the options name, and announces every error.\<close>

theorem answer_dispatch:
  assumes "r \<in> set (pending c)" "rpc c" "map_of (r_options r) ''success'' = Some (Fn s)" "map_of (r_options r) ''failure'' = Some (Fn f)"
    and "s \<noteq> SET_METHODS" "f \<noteq> SET_METHODS"
  shows "\<exists>c'. settle (r_id r) a c = Some c' \<and>
    ran c' = ran c @ [case a of
        Answered error result \<Rightarrow> \<lparr>cb_fn = (if truthy error then f else s), cb_scope = scope_of (r_options r), cb_id = r_id r,
            cb_outcome = (if truthy error then Failed error else Result result)\<rparr>
      | Http status text \<Rightarrow> \<lparr>cb_fn = f, cb_scope = scope_of (r_options r), cb_id = r_id r, cb_outcome = HttpError status text\<rparr>] \<and>
    fired c' = fired c @ (case a of Answered error result \<Rightarrow> if truthy error then [''error''] else [] | Http _ _ \<Rightarrow> [''error''])"
proof -
  have "inj_on r_id (set (pending c))" using rpc_numbered [OF assms(2)] by (simp add: numbered_requests_def distinct_map)
  then have "find (\<lambda>x. r_id x = r_id r) (pending c) = Some r"
  proof (cases "find (\<lambda>x. r_id x = r_id r) (pending c)")
    case None
    then show ?thesis using assms(1) by (auto simp: find_None_iff)
  next
    case (Some x)
    then have "x \<in> set (pending c)" "r_id x = r_id r" by (auto simp: find_Some_iff)
    then show ?thesis using Some \<open>inj_on r_id (set (pending c))\<close> assms(1) by (auto dest: inj_onD)
  qed
  then show ?thesis using assms(3-6)
    by (simp add: settle_def Let_def onSuccess_def onFailure_def run_option_def split: rpc_answer.split)
qed

lemma answer_dispatch_witness:
  "\<exists>c1 c2. rpc c1 \<and> settle 1 (Answered (Str ''denied'') Null) c1 = Some c2 \<and> map cb_fn (ran c2) = [SET_METHODS, 5]"
proof -
  let ?o = "[(''success'', Fn 4), (''failure'', Fn 5), (''scope'', Self 6)]"
  let ?r = "\<lparr>r_id = 1, r_method = ''core.stop'', r_params = [], r_options = ?o\<rparr>"
  let ?c0 = "\<lparr>next_id = 1, pending = [], api = [(''core'', [(''stop'', ''core.stop'')])], components = [''core''],
    ran = [\<lparr>cb_fn = SET_METHODS, cb_scope = Some (Self 0), cb_id = 0, cb_outcome = Result (Arr 1 [Str ''core.stop''])\<rparr>],
    fired = [''connected'']\<rparr>"
  have "settle 0 (Answered Null (Arr 1 [Str ''core.stop''])) client_new = Some ?c0"
    by (simp add: settle_def client_new_def reloadMethods_def execute_def onSuccess_def run_option_def Let_def
        setMethods_def scope_of_def add_method_def)
  then have "rpc ?c0" by (rule rpc.settles [OF rpc.start])
  moreover have "rpc_call ''core'' ''stop'' [Opts 9 ?o] ?c0 = Some (?c0\<lparr>next_id := 2, pending := [?r]\<rparr>)"
    by (simp add: rpc_call_def parseArgs_def optionKeys_def execute_def)
  ultimately have c: "rpc (?c0\<lparr>next_id := 2, pending := [?r]\<rparr>)" by (rule rpc.calls)
  show ?thesis
    using answer_dispatch [of ?r "?c0\<lparr>next_id := 2, pending := [?r]\<rparr>" 4 5 "Answered (Str ''denied'') Null"] c
    by (auto simp: SET_METHODS_def)
qed

end
