(* ===== verification/Sidebar.thy ===== *)
theory Sidebar
  imports FilterPanel
begin

text \<open>
  \<open>deluge-all/Sidebar.js\<close>: the filter panels, one for each group the server names, in an accordion.  The
  state is the panels by their filter, in the order they were added, and which of them the accordion has
  open.  What the panels announce and do is in their own logs; a refresh that the sidebar itself asks
  for goes to the list \<open>asked\<close>.
\<close>

section \<open>State and operations\<close>

record sidebar =
  panels :: "panel dict"
  active :: "string option"
  asked :: "unit list"

definition sidebar_new :: sidebar where
  "sidebar_new = \<lparr>panels = [], active = None, asked = []\<rparr>"

definition filterOrder :: "string list" where
  "filterOrder = [''state'', ''tracker_host'', ''label'', ''owner'']"

text \<open>What the interface is configured to, the translation, and the time.\<close>

record setting =
  tr :: "string \<Rightarrow> string"
  sidebar_show_zero :: bool
  sidebar_multiple_filters :: bool
  now :: int

definition update_panel :: "setting \<Rightarrow> string \<Rightarrow> (string \<times> int) list \<Rightarrow> panel \<Rightarrow> panel" where
  "update_panel e name ss p = updateStates (tr e) (sidebar_show_zero e) (now e) ss p"

text \<open>The accordion opens the first panel it renders, and any when none is open.\<close>

definition createFilter :: "setting \<Rightarrow> string \<Rightarrow> (string \<times> int) list \<Rightarrow> sidebar \<Rightarrow> sidebar" where
  "createFilter e name ss s =
     s\<lparr>active := (if active s = None then Some name else active s),
       panels := AList.update name (update_panel e name ss (panel_new name)) (panels s)\<rparr>"

definition getFilter :: "string \<Rightarrow> sidebar \<Rightarrow> panel option" where
  "getFilter name s = map_of (panels s) name"

definition hasFilter :: "string \<Rightarrow> sidebar \<Rightarrow> bool" where
  "hasFilter name s = (map_of (panels s) name \<noteq> None)"

text \<open>With one panel at a time the open panel's entry is there even when nothing is selected, because
  \<open>!state == null\<close> is never true; its value is then undefined.\<close>

definition getFilterStates :: "bool \<Rightarrow> sidebar \<Rightarrow> jsval dict" where
  "getFilterStates multiple s =
     (if multiple
      then fold (\<lambda>(name, p) d. case getState p of None \<Rightarrow> d | Some st \<Rightarrow> AList.update (filterType p) (Str st) d) (panels s) []
      else case active s of
             None \<Rightarrow> []
           | Some name \<Rightarrow>
               (case map_of (panels s) name of
                  None \<Rightarrow> []
                | Some p \<Rightarrow> [(filterType p, case getState p of None \<Rightarrow> Undefined | Some st \<Rightarrow> Str st)]))"

definition remove_panel :: "string \<Rightarrow> sidebar \<Rightarrow> sidebar" where
  "remove_panel name s =
     s\<lparr>panels := AList.delete name (panels s), active := (if active s = Some name then None else active s)\<rparr>"

definition sidebar_onDisconnect :: "sidebar \<Rightarrow> sidebar" where
  "sidebar_onDisconnect s = (fold (\<lambda>(name, p). remove_panel name) (panels s) s)\<lparr>panels := []\<rparr>"

definition ordered :: "(string \<times> int) list dict \<Rightarrow> string list" where
  "ordered filters =
     (let known = filter (\<lambda>name. map_of filters name \<noteq> None) filterOrder
      in fold (\<lambda>name ks. if name \<in> set ks then ks else ks @ [name]) (map fst filters) known)"

definition update_filter :: "setting \<Rightarrow> (string \<times> int) list dict \<Rightarrow> string \<Rightarrow> sidebar \<Rightarrow> sidebar" where
  "update_filter e filters name s =
     (let ss = (case map_of filters name of None \<Rightarrow> [] | Some ss \<Rightarrow> ss)
      in case map_of (panels s) name of
           Some p \<Rightarrow> s\<lparr>panels := AList.update name (update_panel e name ss p) (panels s)\<rparr>
         | None \<Rightarrow> createFilter e name ss s)"

definition clean_panel :: "(string \<times> int) list dict \<Rightarrow> string \<Rightarrow> sidebar \<Rightarrow> sidebar" where
  "clean_panel filters name s = (if name \<in> fst ` set filters then s else remove_panel name s)"

text \<open>No answer from the daemon is \<open>null\<close>, and \<open>name in filters\<close> throws.\<close>

definition sidebar_update :: "setting \<Rightarrow> (string \<times> int) list dict option \<Rightarrow> sidebar \<Rightarrow> jserr + sidebar" where
  "sidebar_update e filters s =
     (case filters of
        None \<Rightarrow> Inl TypeError
      | Some filters \<Rightarrow>
          (let s = fold (update_filter e filters) (ordered filters) s
           in Inr (fold (clean_panel filters) (map fst (panels s)) s)))"

text \<open>A click on a panel's header: the accordion opens it, and nothing selected becomes the first row.\<close>

definition sidebar_header_click :: "bool \<Rightarrow> string \<Rightarrow> sidebar \<Rightarrow> sidebar" where
  "sidebar_header_click multiple name s =
     (case map_of (panels s) name of
        None \<Rightarrow> s
      | Some p \<Rightarrow>
          (let s = s\<lparr>active := Some name, asked := (if multiple then asked s else asked s @ [()])\<rparr>
           in if getSelectionCount (view p) = 0
              then s\<lparr>panels := AList.update name (p\<lparr>view := select (getNode 0 (view p)) False False (view p)\<rparr>) (panels s)\<rparr>
              else s))"

text \<open>A click on a row of a panel.\<close>

definition row_click :: "string \<Rightarrow> nat \<Rightarrow> bool \<Rightarrow> bool \<Rightarrow> sidebar \<Rightarrow> sidebar" where
  "row_click name i shift ctrl s =
     (case map_of (panels s) name of
        None \<Rightarrow> s
      | Some p \<Rightarrow> s\<lparr>panels := AList.update name (p\<lparr>view := dv_handle (Click i shift ctrl) (view p)\<rparr>) (panels s)\<rparr>)"

section \<open>Invariant\<close>

definition panel_ok :: "string \<Rightarrow> panel \<Rightarrow> bool" where
  "panel_ok name p \<longleftrightarrow> list_ok (view p) \<and> filterType p = name"

definition sidebar_inv :: "sidebar \<Rightarrow> bool" where
  "sidebar_inv s \<longleftrightarrow> wf_dict (panels s) \<and> (\<forall>(name, p) \<in> set (panels s). panel_ok name p) \<and>
     (\<forall>name. active s = Some name \<longrightarrow> name \<in> fst ` set (panels s))"

definition good_filters :: "(string \<times> int) list dict \<Rightarrow> bool" where
  "good_filters filters \<longleftrightarrow> wf_dict filters \<and> list_all (\<lambda>(name, ss). distinct (map fst ss)) filters"

lemma panel_at: "sidebar_inv s \<Longrightarrow> map_of (panels s) name = Some p \<Longrightarrow> panel_ok name p"
  using map_of_SomeD by (fastforce simp: sidebar_inv_def)

lemma update_panel_ok:
  assumes "panel_ok name p" "distinct (map fst ss)"
  shows "panel_ok name (update_panel e name ss p)"
proof -
  have "filterType (update_panel e name ss p) = filterType p" by (simp add: update_panel_def refresh_fields)
  then show ?thesis using rows_follow [of p ss "tr e" "sidebar_show_zero e" "now e"] assms
    by (simp add: panel_ok_def update_panel_def)
qed


lemma panel_new_panel_ok: "panel_ok name (panel_new name)"
  using panel_new_ok [of name] by (simp add: panel_ok_def panel_new_def)

lemma put_panel_inv:
  assumes "sidebar_inv s" "panel_ok name p" "a = active s \<or> a = Some name"
  shows "sidebar_inv (s\<lparr>panels := AList.update name p (panels s), active := a, asked := x\<rparr>)"
proof -
  have w: "wf_dict (AList.update name p (panels s))" using assms(1) by (simp add: sidebar_inv_def AList.distinct_update)
  have "panel_ok n q" if "(n, q) \<in> set (AList.update name p (panels s))" for n q
  proof -
    have "map_of (AList.update name p (panels s)) n = Some q" using that w by simp
    then show ?thesis using assms(1,2) map_of_SomeD [of "panels s" n q] by (auto simp: AList.update_conv' sidebar_inv_def split: if_splits)
  qed
  moreover have "fst ` set (AList.update name p (panels s)) = insert name (fst ` set (panels s))"
    by (simp add: AList.dom_update)
  ultimately show ?thesis using assms w by (auto simp: sidebar_inv_def)
qed

lemma remove_panel_inv: "sidebar_inv s \<Longrightarrow> sidebar_inv (remove_panel name s)"
proof -
  assume s: "sidebar_inv s"
  have "set (AList.delete name (panels s)) \<subseteq> set (panels s)" by (auto simp: AList.delete_eq)
  then show ?thesis using s by (auto simp: sidebar_inv_def remove_panel_def wf_delete keys_delete)
qed

text \<open>What a panel becomes, and the panels after some of the groups have been updated.\<close>

definition panel_after :: "setting \<Rightarrow> (string \<times> int) list dict \<Rightarrow> panel dict \<Rightarrow> string \<Rightarrow> panel" where
  "panel_after e fs ps name =
     update_panel e name (case map_of fs name of None \<Rightarrow> [] | Some ss \<Rightarrow> ss)
       (case map_of ps name of None \<Rightarrow> panel_new name | Some p \<Rightarrow> p)"

lemma update_filter_panels:
  "panels (update_filter e fs name s) = AList.update name (panel_after e fs (panels s) name) (panels s)"
  by (simp add: update_filter_def panel_after_def createFilter_def Let_def split: option.split)

lemma good_states: "good_filters fs \<Longrightarrow> distinct (map fst (case map_of fs name of None \<Rightarrow> [] | Some ss \<Rightarrow> ss))"
  using map_of_SomeD [of fs name] by (fastforce simp: good_filters_def list_all_iff split: option.split)

lemma update_filter_inv:
  assumes "sidebar_inv s" "good_filters fs"
  shows "sidebar_inv (update_filter e fs name s)"
proof -
  let ?p = "panel_after e fs (panels s) name"
  have "panel_ok name (case map_of (panels s) name of None \<Rightarrow> panel_new name | Some p \<Rightarrow> p)"
    using panel_at [OF assms(1)] panel_new_panel_ok by (simp split: option.split)
  then have "panel_ok name ?p" unfolding panel_after_def by (rule update_panel_ok) (rule good_states [OF assms(2)])
  moreover have "\<exists>a x. (a = active s \<or> a = Some name) \<and>
      update_filter e fs name s = s\<lparr>panels := AList.update name ?p (panels s), active := a, asked := x\<rparr>"
  proof (cases "map_of (panels s) name")
    case None
    then show ?thesis
      by (intro exI [of _ "if active s = None then Some name else active s"] exI [of _ "asked s"])
        (simp add: update_filter_def createFilter_def panel_after_def Let_def)
  next
    case (Some p)
    then show ?thesis
      by (intro exI [of _ "active s"] exI [of _ "asked s"]) (simp add: update_filter_def panel_after_def Let_def)
  qed
  ultimately show ?thesis using put_panel_inv [OF assms(1)] by metis
qed

lemma update_filters:
  assumes "sidebar_inv s" "good_filters fs" "distinct ns"
  shows "sidebar_inv (fold (update_filter e fs) ns s) \<and>
    (\<forall>n. map_of (panels (fold (update_filter e fs) ns s)) n =
      (if n \<in> set ns then Some (panel_after e fs (panels s) n) else map_of (panels s) n))"
  using assms(1,3)
proof (induction ns arbitrary: s)
  case Nil
  then show ?case by simp
next
  case (Cons m ns)
  let ?s = "update_filter e fs m s"
  have IH: "sidebar_inv (fold (update_filter e fs) ns ?s) \<and>
    (\<forall>n. map_of (panels (fold (update_filter e fs) ns ?s)) n =
      (if n \<in> set ns then Some (panel_after e fs (panels ?s) n) else map_of (panels ?s) n))"
    using Cons.IH [OF update_filter_inv [OF Cons.prems(1) assms(2)]] Cons.prems(2) by simp
  have same: "panel_after e fs (panels ?s) n = panel_after e fs (panels s) n" if "n \<noteq> m" for n
    using that by (simp add: update_filter_panels panel_after_def [of _ _ _ n] AList.update_conv')
  have "map_of (panels (fold (update_filter e fs) ns ?s)) n =
      (if n \<in> set (m # ns) then Some (panel_after e fs (panels s) n) else map_of (panels s) n)" for n
    using IH same [of n] Cons.prems(2) by (auto simp: update_filter_panels AList.update_conv')
  then show ?case using IH by simp
qed

lemma clean_panels:
  assumes "sidebar_inv s"
  shows "sidebar_inv (fold (clean_panel fs) ns s) \<and>
    (\<forall>n. map_of (panels (fold (clean_panel fs) ns s)) n =
      (if n \<in> set ns \<and> n \<notin> fst ` set fs then None else map_of (panels s) n))"
  using assms
proof (induction ns arbitrary: s)
  case Nil
  then show ?case by simp
next
  case (Cons m ns)
  have i: "sidebar_inv (clean_panel fs m s)" using Cons.prems remove_panel_inv by (simp add: clean_panel_def)
  have "map_of (panels (clean_panel fs m s)) n = (if n = m \<and> n \<notin> fst ` set fs then None else map_of (panels s) n)" for n
    by (cases "n = m") (simp_all add: clean_panel_def remove_panel_def AList.delete_conv')
  then show ?case using Cons.IH [OF i] by auto
qed

lemma ordered_props:
  assumes "wf_dict fs"
  shows "distinct (ordered fs) \<and> set (ordered fs) = fst ` set fs"
proof -
  have gen: "distinct ks \<Longrightarrow> distinct (fold (\<lambda>name ks. if name \<in> set ks then ks else ks @ [name]) ns ks) \<and>
      set (fold (\<lambda>name ks. if name \<in> set ks then ks else ks @ [name]) ns ks) = set ks \<union> set ns" for ns ks :: "string list"
    by (induction ns arbitrary: ks) auto
  have "distinct (filter (\<lambda>name. map_of fs name \<noteq> None) filterOrder)" by (simp add: filterOrder_def)
  moreover have "set (filter (\<lambda>name. map_of fs name \<noteq> None) filterOrder) \<subseteq> fst ` set fs"
    by (auto dest: map_of_SomeD simp: image_iff) (metis fst_conv map_of_SomeD)
  ultimately show ?thesis using gen [of "filter (\<lambda>name. map_of fs name \<noteq> None) filterOrder" "map fst fs"]
    by (auto simp: ordered_def Let_def)
qed

section \<open>Properties\<close>

lemma sidebar_follows:
  assumes "sidebar_inv s" "good_filters fs"
  shows "\<exists>s'. sidebar_update e (Some fs) s = Inr s' \<and> sidebar_inv s' \<and>
    (\<forall>name. map_of (panels s') name = (case map_of fs name of None \<Rightarrow> None
       | Some ss \<Rightarrow> Some (update_panel e name ss (case map_of (panels s) name of None \<Rightarrow> panel_new name | Some p \<Rightarrow> p))))"
proof -
  let ?a = "fold (update_filter e fs) (ordered fs) s"
  let ?b = "fold (clean_panel fs) (map fst (panels ?a)) ?a"
  have o: "distinct (ordered fs)" "set (ordered fs) = fst ` set fs"
    using ordered_props [of fs] assms(2) by (simp_all add: good_filters_def)
  note A = update_filters [OF assms o(1), of e]
  note B = clean_panels [OF conjunct1 [OF A], of fs "map fst (panels ?a)"]
  have "map_of (panels ?b) name = (case map_of fs name of None \<Rightarrow> None
       | Some ss \<Rightarrow> Some (update_panel e name ss (case map_of (panels s) name of None \<Rightarrow> panel_new name | Some p \<Rightarrow> p)))" for name
  proof (cases "map_of fs name")
    case None
    then have n: "name \<notin> fst ` set fs" by (simp add: map_of_eq_None_iff)
    have "map_of (panels ?b) name = None"
    proof (cases "name \<in> set (map fst (panels ?a))")
      case False
      then have "map_of (panels ?a) name = None" by (simp add: map_of_eq_None_iff)
      then show ?thesis using B by simp
    qed (use B n in simp)
    then show ?thesis using None by simp
  next
    case (Some ss)
    then have "name \<in> fst ` set fs" by (metis fst_conv image_eqI map_of_SomeD)
    then show ?thesis using A B o(2) Some by (simp add: panel_after_def)
  qed
  then show ?thesis using B by (intro exI [of _ ?b]) (simp add: sidebar_update_def Let_def)
qed

text \<open>C8: After an update the sidebar has a panel for each group the server named and for no other, and
  each is what it was, or a new one, brought up to date with that group's states; the panels stay well
  formed, and the open panel is one that is there.\<close>

theorem sidebar_follows_server:
  assumes "sidebar_inv s" "good_filters fs"
  shows "\<exists>s'. sidebar_update e (Some fs) s = Inr s' \<and> sidebar_inv s' \<and>
    (\<forall>name. map_of (panels s') name = (case map_of fs name of None \<Rightarrow> None
       | Some ss \<Rightarrow> Some (update_panel e name ss (case map_of (panels s) name of None \<Rightarrow> panel_new name | Some p \<Rightarrow> p))))"
  by (rule sidebar_follows [OF assms])

definition plain_setting :: setting where
  "plain_setting = \<lparr>tr = id, sidebar_show_zero = False, sidebar_multiple_filters = True, now = 1\<rparr>"

lemma sidebar_new_inv: "sidebar_inv sidebar_new"
  by (simp add: sidebar_inv_def sidebar_new_def)

theorem sidebar_follows_server_witness:
  "\<exists>s'. sidebar_update plain_setting (Some [(''state'', two_states)]) sidebar_new = Inr s' \<and>
    map_of (panels s') ''state'' = Some (update_panel plain_setting ''state'' two_states (panel_new ''state'')) \<and>
    map_of (panels s') ''owner'' = None"
proof -
  have g: "good_filters [(''state'', two_states)]" by (simp add: good_filters_def two_states_def)
  obtain s' where s: "sidebar_update plain_setting (Some [(''state'', two_states)]) sidebar_new = Inr s'"
    "\<And>name. map_of (panels s') name = (case map_of [(''state'', two_states)] name of None \<Rightarrow> None
       | Some ss \<Rightarrow> Some (update_panel plain_setting name ss (case map_of (panels sidebar_new) name of None \<Rightarrow> panel_new name | Some p \<Rightarrow> p)))"
    using sidebar_follows_server [OF sidebar_new_inv g, of plain_setting] by blast
  have "map_of (panels s') ''state'' = Some (update_panel plain_setting ''state'' two_states (panel_new ''state''))"
    using s(2) [of "''state''"] by (simp add: sidebar_new_def)
  moreover have "map_of (panels s') ''owner'' = None" using s(2) [of "''owner''"] by simp
  ultimately show ?thesis using s(1) by blast
qed

lemma states_of_panel:
  assumes "sidebar_inv s"
  shows "map_of (getFilterStates True s) name =
      (case map_of (panels s) name of None \<Rightarrow> None | Some p \<Rightarrow> map_option Str (getState p))"
proof -
  have gen: "map_of (fold (\<lambda>(name, p) d. case getState p of None \<Rightarrow> d | Some st \<Rightarrow> AList.update (filterType p) (Str st) d) ps d) name =
      (case map_of ps name of None \<Rightarrow> map_of d name | Some p \<Rightarrow>
         (case getState p of None \<Rightarrow> map_of d name | Some st \<Rightarrow> Some (Str st)))"
    if "wf_dict ps" "\<forall>(n, p) \<in> set ps. filterType p = n" for ps d
    using that
  proof (induction ps arbitrary: d)
    case (Cons q ps)
    obtain n p where q: "q = (n, p)" by (cases q)
    have "n = name \<Longrightarrow> map_of ps name = None" using Cons.prems(1) q by (simp add: map_of_eq_None_iff)
    then show ?case using Cons q by (auto simp: AList.update_conv' split: option.split)
  qed simp
  have "\<forall>(n, p) \<in> set (panels s). filterType p = n" using assms by (auto simp: sidebar_inv_def panel_ok_def)
  then show ?thesis
    using gen [of "panels s" "[]"] assms by (auto simp: getFilterStates_def sidebar_inv_def split: option.split)
qed

text \<open>What the sidebar filters by.  With several filters at once it is exactly the selected row of
  each panel whose selection is a row other than the one of all; with one at a time it is the open panel's
  entry, which is there even when no filter is selected.\<close>

theorem filter_states:
  assumes "sidebar_inv s"
  shows "map_of (getFilterStates True s) name =
      (case map_of (panels s) name of None \<Rightarrow> None | Some p \<Rightarrow> map_option Str (getState p)) \<and>
    getFilterStates False s =
      (case active s of None \<Rightarrow> [] | Some a \<Rightarrow>
         [(a, case getState (the (map_of (panels s) a)) of None \<Rightarrow> Undefined | Some st \<Rightarrow> Str st)])"
proof
  show "map_of (getFilterStates True s) name =
      (case map_of (panels s) name of None \<Rightarrow> None | Some p \<Rightarrow> map_option Str (getState p))"
    by (rule states_of_panel [OF assms])
  show "getFilterStates False s =
      (case active s of None \<Rightarrow> [] | Some a \<Rightarrow>
         [(a, case getState (the (map_of (panels s) a)) of None \<Rightarrow> Undefined | Some st \<Rightarrow> Str st)])"
  proof (cases "active s")
    case (Some a)
    then have "map_of (panels s) a \<noteq> None" using assms by (force simp: sidebar_inv_def map_of_eq_None_iff)
    then obtain p where "map_of (panels s) a = Some p" by blast
    then show ?thesis using Some panel_at [OF assms] by (simp add: getFilterStates_def panel_ok_def)
  qed (simp add: getFilterStates_def)
qed

theorem filter_states_witness: "getFilterStates False sidebar_new = []"
  using filter_states [OF sidebar_new_inv] by (simp add: sidebar_new_def)

lemma getState_picked:
  assumes "list_ok (view p)"
  shows "getState p = (case dv_picked (view p) of [] \<Rightarrow> None | k # _ \<Rightarrow> if k = ''All'' then None else Some k)"
proof -
  have "map (map_option fst) (getSelectedRecords (view p)) = map Some (dv_picked (view p))"
    using selected_records [of "view p"] assms by (simp add: list_ok_def dv_ok_def)
  then show ?thesis
    by (cases "dv_picked (view p)") (auto simp: getState_def getSelectionCount_def dv_picked_def split: list.split)
qed

text \<open>What a first update selects.\<close>

lemma first_selected:
  assumes d: "distinct (map fst ss)" and h: "shown_states z p0 ss = (k, c) # rest" and p: "p0 = panel_new ft"
  shows "dv_picked (view (updateStates t z n ss p0)) = [k]"
    "getState (updateStates t z n ss p0) = (if k = ''All'' then None else Some k)"
proof -
  let ?v = "view (updateStates t z n ss p0)"
  have ok: "list_ok (view p0)" using panel_new_ok p by simp
  have e: "dv_rows (view p0) = []" "dv_picked (view p0) = []" by (simp_all add: p panel_new_def dv_new_ok)
  note S = sync_rows_ok [OF ok distinct_shown [OF d, of z p0], where tr = t
      and p = "p0\<lparr>states := Some (fold (\<lambda>(k, c) d. AList.update k c d) ss [])\<rparr>"]
  have o: "ids_after 0 (map fst (shown_states z p0 ss)) [] = map fst (shown_states z p0 ss)"
    using ids_after_order [of "[]" "map fst (shown_states z p0 ss)" "[]" "{}"] distinct_shown [OF d] by simp
  have "map fst (dv_rows ?v) = filter (\<lambda>k. k \<in> fst ` set (shown_states z p0 ss)) (map fst (shown_states z p0 ss))"
    unfolding update_view S(2) e by (simp add: o)
  then have "map fst (dv_rows ?v) = k # map fst rest" by (simp add: h filter_id_conv)
  then show "dv_picked ?v = [k]"
    using S(4) e unfolding update_view by (cases "dv_rows (sync_rows t (p0\<lparr>states := Some (fold (\<lambda>(k, c) d. AList.update k c d) ss [])\<rparr>) (shown_states z p0 ss) (view p0))") auto
  moreover have "list_ok ?v" using rows_follow [OF ok d] by blast
  ultimately show "getState (updateStates t z n ss p0) = (if k = ''All'' then None else Some k)"
    by (simp add: getState_picked)
qed

text \<open>The list of owners narrows what is shown before anybody has chosen an owner.  The server's owner
  group has no row for all owners, and a new panel selects its first row, so with several filters at once
  the first poll after the sidebar is drawn asks for the first owner's torrents only.\<close>

theorem owner_narrows:
  assumes "good_filters fs" "map_of fs ''owner'' = Some ss" "shown_states (sidebar_show_zero e) (panel_new ''owner'') ss = (k, c) # rest"
    "k \<noteq> ''All''"
  shows "\<exists>s. sidebar_update e (Some fs) sidebar_new = Inr s \<and> map_of (getFilterStates True s) ''owner'' = Some (Str k)"
proof -
  obtain s where s: "sidebar_update e (Some fs) sidebar_new = Inr s" "sidebar_inv s"
    "map_of (panels s) ''owner'' = Some (update_panel e ''owner'' ss (panel_new ''owner''))"
    using sidebar_follows [OF sidebar_new_inv assms(1), of e] assms(2) by (auto simp: sidebar_new_def)
  have "distinct (map fst ss)" using good_states [OF assms(1), of "''owner''"] assms(2) by simp
  then have "getState (update_panel e ''owner'' ss (panel_new ''owner'')) = Some k"
    using first_selected(2) [OF _ assms(3) refl] assms(4) by (simp add: update_panel_def)
  moreover have "map_of (getFilterStates True s) ''owner'' = map_option Str (getState (update_panel e ''owner'' ss (panel_new ''owner'')))"
    using states_of_panel [OF s(2)] s(3) by simp
  ultimately show ?thesis using s(1) by simp
qed

theorem owner_narrows_witness:
  "\<exists>s. sidebar_update plain_setting (Some [(''owner'', [(''ann'', 3), (''bob'', 4)])]) sidebar_new = Inr s \<and>
     map_of (getFilterStates True s) ''owner'' = Some (Str ''ann'')"
  using owner_narrows [of "[(''owner'', [(''ann'', 3), (''bob'', 4)])]" "[(''ann'', 3), (''bob'', 4)]" plain_setting "''ann''" 3 "[(''bob'', 4)]"]
  by (simp add: good_filters_def shown_states_def panel_new_def plain_setting_def)

text \<open>A poll does not change what the sidebar filters by: when the answer names the same groups and
  every selected row is still shown, the filters of the next poll are those of this one.\<close>

theorem poll_keeps_filters:
  assumes "sidebar_inv s" "good_filters fs" "fst ` set fs = fst ` set (panels s)"
    "\<And>name p ss. map_of (panels s) name = Some p \<Longrightarrow> map_of fs name = Some ss \<Longrightarrow>
       \<exists>k. dv_picked (view p) = [k] \<and> k \<in> fst ` set (shown_states (sidebar_show_zero e) p ss)"
    "sidebar_update e (Some fs) s = Inr s'"
  shows "map_of (getFilterStates True s') = map_of (getFilterStates True s)"
proof
  fix name
  have S: "sidebar_inv s'" "map_of (panels s') n = (case map_of fs n of None \<Rightarrow> None
       | Some ss \<Rightarrow> Some (update_panel e n ss (case map_of (panels s) n of None \<Rightarrow> panel_new n | Some p \<Rightarrow> p)))" for n
    using sidebar_follows [OF assms(1,2), of e] assms(5) by auto
  note R = states_of_panel [of s' name] states_of_panel [OF assms(1), of name]
  show "map_of (getFilterStates True s') name = map_of (getFilterStates True s) name"
  proof (cases "map_of (panels s) name")
    case None
    then have "name \<notin> fst ` set fs" using assms(3) by (simp add: map_of_eq_None_iff)
    then have "map_of (panels s') name = None" using S(2) [of name] by (simp add: map_of_eq_None_iff [symmetric])
    then show ?thesis using R S(1) None by simp
  next
    case (Some p)
    then have nf: "name \<in> fst ` set fs" using assms(3) by (metis fst_conv image_eqI map_of_SomeD)
    then obtain ss where ss: "map_of fs name = Some ss" by (metis map_of_eq_None_iff not_None_eq)
    obtain k where k: "dv_picked (view p) = [k]" "k \<in> fst ` set (shown_states (sidebar_show_zero e) p ss)"
      using assms(4) [OF Some ss] by blast
    have p: "list_ok (view p)" using panel_at [OF assms(1) Some] by (simp add: panel_ok_def)
    have d: "distinct (map fst ss)" using good_states [OF assms(2), of name] ss by simp
    have at: "map_of (panels s') name = Some (update_panel e name ss p)"
      using S(2) [of name] ss Some by simp
    have v: "list_ok (view (update_panel e name ss p))" using rows_follow [OF p d] unfolding update_panel_def by blast
    have "dv_picked (view (update_panel e name ss p)) = [k]"
      using sync_rows_ok(4) [OF p distinct_shown [OF d]] k unfolding update_panel_def update_view by simp
    then have "getState (update_panel e name ss p) = getState p" using k(1) by (simp add: getState_picked v p)
    then show ?thesis using R S(1) at Some by simp
  qed
qed

theorem poll_keeps_filters_witness:
  "\<exists>s s'. sidebar_update plain_setting (Some [(''state'', two_states)]) sidebar_new = Inr s \<and>
     sidebar_update plain_setting (Some [(''state'', two_states)]) s = Inr s' \<and>
     map_of (getFilterStates True s') = map_of (getFilterStates True s)"
proof -
  let ?fs = "[(''state'', two_states)]"
  have g: "good_filters ?fs" by (simp add: good_filters_def two_states_def)
  have d: "distinct (map fst two_states)" by (simp add: two_states_def)
  obtain s where s: "sidebar_update plain_setting (Some ?fs) sidebar_new = Inr s" "sidebar_inv s"
    "\<And>n. map_of (panels s) n = (case map_of ?fs n of None \<Rightarrow> None
       | Some ss \<Rightarrow> Some (update_panel plain_setting n ss (case map_of (panels sidebar_new) n of None \<Rightarrow> panel_new n | Some p \<Rightarrow> p)))"
    using sidebar_follows [OF sidebar_new_inv g, of plain_setting] by blast
  obtain s' where s': "sidebar_update plain_setting (Some ?fs) s = Inr s'"
    using sidebar_follows [OF s(2) g, of plain_setting] by blast
  let ?p = "update_panel plain_setting ''state'' two_states (panel_new ''state'')"
  have n: "fst ` set (panels s) = {''state''}"
  proof -
    have "n \<in> fst ` set (panels s) \<longleftrightarrow> map_of (panels s) n \<noteq> None" for n by (simp add: map_of_eq_None_iff)
    then have "n \<in> fst ` set (panels s) \<longleftrightarrow> n = ''state''" for n using s(3) [of n] by (cases "n = ''state''") simp_all
    then show ?thesis by blast
  qed
  have sp: "shown_states (sidebar_show_zero plain_setting) (panel_new ''state'') two_states = (''All'', 2) # [(''Seeding'', 2)]"
    by (simp add: shown_states_def panel_new_def plain_setting_def two_states_def)
  have k: "dv_picked (view ?p) = [''All'']"
    using first_selected(1) [OF d sp refl] by (simp add: update_panel_def)
  have z: "show_zero ?p = None" by (simp add: update_panel_def updateStates_def Let_def refreshHealth_def act_def panel_new_def)
  have "map_of (getFilterStates True s') = map_of (getFilterStates True s)"
  proof (rule poll_keeps_filters [OF s(2) g _ _ s'])
    show "fst ` set ?fs = fst ` set (panels s)" by (simp add: n)
    fix name p ss assume a: "map_of (panels s) name = Some p" "map_of ?fs name = Some ss"
    then have "name = ''state''" "ss = two_states" by (auto split: if_splits)
    then have "p = ?p" using a(1) s(3) [of name] by (simp add: sidebar_new_def)
    then show "\<exists>k. dv_picked (view p) = [k] \<and> k \<in> fst ` set (shown_states (sidebar_show_zero plain_setting) p ss)"
      using k z \<open>ss = two_states\<close> by (simp add: shown_states_def plain_setting_def two_states_def)
  qed
  then show ?thesis using s(1) s' by blast
qed

end
