(* ===== verification/UI.thy ===== *)
theory UI
  imports Keys
begin

text \<open>
  \<open>deluge-all/UI.js\<close>: the poll loop.  The state has the fields of \<open>deluge.ui\<close> and what the
  browser holds for it: the timers set and not yet fired or cleared (each with the number
  \<open>setTimeout\<close> returned), the calls sent and not yet answered, whether the tab is hidden, and the
  torrent grid.  Each handler is a function on the state; what it sends, shows or fires goes to an
  output list.  The sidebar's selection, the search box and the columns on screen are inputs that the
  environment may change between events.
\<close>

section \<open>State\<close>

datatype purpose = PollTimer | CheckTimer | HeartbeatTimer

record env =
  selection :: "jsval dict"
  search :: string
  layout :: "(bool \<times> string) list option"
  dialog_open :: bool
  sess_speed :: bool
  poll_interval :: "rat option"

datatype call =
    UpdateUi "string list" "jsval dict" nat
  | Connected
  | CheckSession

datatype effect =
    Sent call
  | LostConnection
  | FireDisconnect
  | Status string
  | ShowConnectionManager
  | StatusbarUpdate jsval
  | SidebarUpdate jsval
  | DetailsUpdate
  | Title string

record ui =
  running :: "nat option"
  checking_timer :: "nat option"
  heartbeat :: "nat option"
  inFlight :: bool
  wanted :: bool
  errorCount :: nat
  epoch :: nat
  filters :: "jsval dict option"
  oldFilters :: "jsval dict option"
  hid :: bool
  timers :: "(nat \<times> purpose) list"
  next_timer :: nat
  calls :: "call list"
  out :: "effect list"
  tgrid :: grid

definition ui_new :: ui where
  "ui_new = \<lparr>running = None, checking_timer = None, heartbeat = None, inFlight = False, wanted = False,
     errorCount = 0, epoch = 0, filters = None, oldFilters = None, hid = False, timers = [], next_timer = 1,
     calls = [], out = [], tgrid = grid_new\<rparr>"

section \<open>The browser\<close>

definition setTimeout :: "purpose \<Rightarrow> ui \<Rightarrow> nat \<times> ui" where
  "setTimeout p u = (next_timer u, u\<lparr>timers := timers u @ [(next_timer u, p)], next_timer := next_timer u + 1\<rparr>)"

definition clearTimeout :: "nat option \<Rightarrow> ui \<Rightarrow> ui" where
  "clearTimeout t u =
     (case t of None \<Rightarrow> u | Some i \<Rightarrow> u\<lparr>timers := filter (\<lambda>(j, p). j \<noteq> i) (timers u)\<rparr>)"

definition send :: "call \<Rightarrow> ui \<Rightarrow> ui" where
  "send c u = u\<lparr>calls := calls u @ [c], out := out u @ [Sent c]\<rparr>"

definition emit :: "effect \<Rightarrow> ui \<Rightarrow> ui" where
  "emit x u = u\<lparr>out := out u @ [x]\<rparr>"

section \<open>The handlers\<close>

definition pollInterval :: "env \<Rightarrow> rat" where
  "pollInterval e = (case poll_interval e of Some n \<Rightarrow> if 0 < n then n else 2000 | None \<Rightarrow> 2000)"

text \<open>\<open>if (this.running) { clearTimeout(this.running); this.running = undefined; }\<close>, and the same for
  the other two timers.\<close>

definition clear_running :: "ui \<Rightarrow> ui" where
  "clear_running u = (clearTimeout (running u) u)\<lparr>running := None\<rparr>"

definition clear_checking :: "ui \<Rightarrow> ui" where
  "clear_checking u = (clearTimeout (checking_timer u) u)\<lparr>checking_timer := None\<rparr>"

definition clear_heartbeat :: "ui \<Rightarrow> ui" where
  "clear_heartbeat u = (clearTimeout (heartbeat u) u)\<lparr>heartbeat := None\<rparr>"

definition schedule :: "ui \<Rightarrow> ui" where
  "schedule u =
     (let u = clear_running u
      in if hid u then u
         else let (t, u) = setTimeout PollTimer u in u\<lparr>running := Some t\<rparr>)"

definition checkConnection :: "ui \<Rightarrow> ui" where
  "checkConnection u = send Connected u"

definition keepSessionAlive :: "ui \<Rightarrow> ui" where
  "keepSessionAlive u =
     (let u = clearTimeout (heartbeat u) u; (t, u) = setTimeout HeartbeatTimer u
      in u\<lparr>heartbeat := Some t\<rparr>)"

definition onHeartbeat :: "ui \<Rightarrow> ui" where
  "onHeartbeat u =
     (let u = u\<lparr>heartbeat := None\<rparr> in if \<not> hid u then u else send CheckSession u)"

text \<open>The filters a poll asks with: the sidebar's selection, narrowed by the search box.\<close>

definition poll_filters :: "env \<Rightarrow> jsval dict" where
  "poll_filters e =
     (if search e \<noteq> [] then AList.update ''keyword'' (Str (search e)) (selection e) else selection e)"

definition ui_update :: "env \<Rightarrow> ui \<Rightarrow> ui" where
  "ui_update e u =
     (let u = clear_running u
      in if inFlight u then u\<lparr>wanted := True\<rparr>
         else
           let u = u\<lparr>wanted := False, inFlight := True\<rparr>;
               fs = poll_filters e;
               u = u\<lparr>oldFilters := filters u, filters := Some fs\<rparr>;
               u = (if \<not> areObjectsEqual (filters u) (oldFilters u) then u\<lparr>epoch := 0\<rparr> else u);
               keys = forGrid (layout e) (map_option fst (sortInfo (tgrid u)));
               u = send (UpdateUi keys fs (epoch u)) u
           in emit DetailsUpdate u)"

definition onVisibilityChanged :: "env \<Rightarrow> ui \<Rightarrow> ui" where
  "onVisibilityChanged e u =
     (if hid u then keepSessionAlive (clear_running u)
      else ui_update e (clear_heartbeat u))"

definition onConnectionError :: "ui \<Rightarrow> ui" where
  "onConnectionError u =
     (let u = clearTimeout (checking_timer u) u; (t, u) = setTimeout CheckTimer u
      in u\<lparr>checking_timer := Some t\<rparr>)"

definition onConnectionSuccess :: "env \<Rightarrow> bool \<Rightarrow> ui \<Rightarrow> ui" where
  "onConnectionSuccess e result u =
     (let u = clear_checking u;
          u = emit (Status ''Connection restored'') (ui_update e u)
      in if \<not> result then emit ShowConnectionManager u else u)"

definition stop :: "ui \<Rightarrow> ui" where
  "stop u =
     (case running u of
        None \<Rightarrow> u
      | Some _ \<Rightarrow>
          (let u = clear_running u
           in u\<lparr>tgrid := (tgrid u)\<lparr>store := store_removeAll (store (tgrid u))\<rparr>\<rparr>))"

text \<open>The \<open>disconnect\<close> event: the grid's handler, which was registered first, then \<open>onDisconnect\<close>.\<close>

definition fire_disconnect :: "ui \<Rightarrow> ui" where
  "fire_disconnect u = stop (emit FireDisconnect u\<lparr>tgrid := grid_onDisconnect (tgrid u)\<rparr>)"

definition onUpdateError :: "ui \<Rightarrow> ui" where
  "onUpdateError u =
     (let u = u\<lparr>inFlight := False, epoch := 0, wanted := False\<rparr>;
          u = (if errorCount u = 2 then
                 let u = fire_disconnect (emit LostConnection u);
                     u = emit (Status ''Lost connection to webserver'') u;
                     (t, u) = setTimeout CheckTimer u
                 in u\<lparr>checking_timer := Some t\<rparr>
               else u);
          u = u\<lparr>errorCount := errorCount u + 1\<rparr>
      in clear_running u)"

record answer =
  connected :: bool
  delta :: bool
  torrents :: "jsval dict dict option"
  removed :: "string list"
  new_epoch :: "nat option"
  stats :: jsval
  filter_tree :: jsval
  down_rate :: jsval
  up_rate :: jsval

text \<open>The part of \<open>onUpdate\<close> between the check of the difference and the status bar.  A missing list
  makes the grid throw when it has rows; the list it has recorded by then is the missing one.\<close>

definition give_grid :: "answer \<Rightarrow> bool \<Rightarrow> jsval dict option \<Rightarrow> grid \<Rightarrow> jserr + grid" where
  "give_grid a wipe states g =
     (case torrents a of
        None \<Rightarrow>
          if delta a then
            (let (all, g) = merge None (Some (removed a)) g in update (Some all) wipe states g)
          else update None wipe states g
      | Some ts \<Rightarrow> grid_receive (delta a) ts (removed a) wipe states g)"

definition speed_title :: "answer \<Rightarrow> string" where
  "speed_title a = ''D: '' @ fsize_short (down_rate a) True @ '' U: '' @ fsize_short (up_rate a) True"

text \<open>\<open>onUpdate\<close> from the check of the difference on.  The sidebar throws when the filters are null.\<close>

definition take_list :: "env \<Rightarrow> answer \<Rightarrow> ui \<Rightarrow> ui" where
  "take_list e a u =
     (if delta a \<and> lastTorrents (tgrid u) = None then ui_update e (u\<lparr>epoch := 0\<rparr>)
      else
        let wipe = (\<not> areObjectsEqual (filters u) (oldFilters u))
        in case give_grid a wipe (Some (selection e)) (tgrid u) of
             Inl _ \<Rightarrow> u\<lparr>tgrid := (tgrid u)\<lparr>lastTorrents := None\<rparr>\<rparr>
           | Inr g \<Rightarrow>
               (let u = u\<lparr>tgrid := g\<rparr>;
                    u = emit (SidebarUpdate (filter_tree a)) (emit (StatusbarUpdate (stats a)) u)
                in if \<not> is_object (filter_tree a) then u
                   else let u = u\<lparr>errorCount := 0\<rparr> in if wanted u then ui_update e u else u))"

definition onUpdate :: "env \<Rightarrow> answer \<Rightarrow> ui \<Rightarrow> ui" where
  "onUpdate e a u =
     (let u = clear_running (u\<lparr>inFlight := False\<rparr>)
      in if \<not> connected a then
           (let u = fire_disconnect u
            in if dialog_open e then u else emit ShowConnectionManager u)
         else
           let u = schedule u;
               u = (if sess_speed e then emit (Title (speed_title a)) u else u);
               u = u\<lparr>epoch := (case new_epoch a of None \<Rightarrow> 0 | Some n \<Rightarrow> n)\<rparr>
           in take_list e a u)"

definition onConnect :: "env \<Rightarrow> ui \<Rightarrow> ui" where
  "onConnect e u = (if running u = None then ui_update e u else u)"

definition onDisconnect :: "ui \<Rightarrow> ui" where
  "onDisconnect u = stop u"

section \<open>Events\<close>

definition is_poll :: "call \<Rightarrow> bool" where
  "is_poll c = (case c of UpdateUi _ _ _ \<Rightarrow> True | _ \<Rightarrow> False)"

definition drop_timer :: "nat \<Rightarrow> ui \<Rightarrow> ui" where
  "drop_timer i u = u\<lparr>timers := filter (\<lambda>(j, p). j \<noteq> i) (timers u)\<rparr>"

definition answered :: "call \<Rightarrow> ui \<Rightarrow> ui" where
  "answered c u = u\<lparr>calls := remove1 c (calls u)\<rparr>"

text \<open>What can happen next: a timer fires, a call is answered or fails, the tab is hidden or shown,
  somebody asks for a refresh, a connection opens or closes, or the grid handles an event of its own.
  The environment is whatever it is at that moment.\<close>

inductive ui_step :: "ui \<Rightarrow> ui \<Rightarrow> bool" where
  poll_timer: "(i, PollTimer) \<in> set (timers u) \<Longrightarrow> ui_step u (ui_update e (drop_timer i u))"
| check_timer: "(i, CheckTimer) \<in> set (timers u) \<Longrightarrow> ui_step u (checkConnection (drop_timer i u))"
| heartbeat_timer: "(i, HeartbeatTimer) \<in> set (timers u) \<Longrightarrow> ui_step u (onHeartbeat (drop_timer i u))"
| click: "ui_step u (ui_update e u)"
| poll_answer: "UpdateUi ks fs n \<in> set (calls u) \<Longrightarrow> (case torrents a of None \<Rightarrow> True | Some d \<Rightarrow> good_answer d) \<Longrightarrow>
    ui_step u (onUpdate e a (answered (UpdateUi ks fs n) u))"
| poll_error: "UpdateUi ks fs n \<in> set (calls u) \<Longrightarrow> ui_step u (onUpdateError (answered (UpdateUi ks fs n) u))"
| check_answer: "Connected \<in> set (calls u) \<Longrightarrow> ui_step u (onConnectionSuccess e b (answered Connected u))"
| check_error: "Connected \<in> set (calls u) \<Longrightarrow> ui_step u (onConnectionError (answered Connected u))"
| session_answer: "CheckSession \<in> set (calls u) \<Longrightarrow> ui_step u (keepSessionAlive (answered CheckSession u))"
| visibility: "ui_step u (onVisibilityChanged e (u\<lparr>hid := h\<rparr>))"
| connect: "ui_step u (onConnect e u)"
| disconnect: "ui_step u (fire_disconnect u)"
| reschedule: "ui_step u (schedule u)"
| grid_event: "well_timed ev (tgrid u) \<Longrightarrow> grid_handle ev states (tgrid u) = Inr g \<Longrightarrow> ui_step u (u\<lparr>tgrid := g\<rparr>)"

inductive ui_reach :: "ui \<Rightarrow> bool" where
  start: "ui_reach ui_new"
| step: "ui_reach u \<Longrightarrow> ui_step u v \<Longrightarrow> ui_reach v"

inductive_cases ui_stepE: "ui_step u v"

section \<open>Invariant\<close>

definition polls :: "ui \<Rightarrow> call list" where
  "polls u = filter is_poll (calls u)"

text \<open>Which variable holds the number of a timer.\<close>

fun holder :: "purpose \<Rightarrow> ui \<Rightarrow> nat option" where
  "holder PollTimer u = running u"
| "holder CheckTimer u = checking_timer u"
| "holder HeartbeatTimer u = heartbeat u"

text \<open>Timers are numbered apart; a variable never holds the number of a timer of another kind; a poll
  or heartbeat timer that is set is the one its variable holds; one call is out for a poll exactly when
  one is in flight; a hidden tab has no poll timer.\<close>

definition loop_inv :: "ui \<Rightarrow> bool" where
  "loop_inv u \<longleftrightarrow>
     distinct (map fst (timers u)) \<and> (\<forall>(i, p) \<in> set (timers u). i < next_timer u) \<and>
     (\<forall>p q i. holder p u = Some i \<longrightarrow> i < next_timer u \<and> ((i, q) \<in> set (timers u) \<longrightarrow> q = p)) \<and>
     (\<forall>i. (i, PollTimer) \<in> set (timers u) \<longrightarrow> running u = Some i) \<and>
     (\<forall>i. (i, HeartbeatTimer) \<in> set (timers u) \<longrightarrow> heartbeat u = Some i) \<and>
     length (polls u) = (if inFlight u then 1 else 0) \<and> (hid u \<longrightarrow> running u = None)"

text \<open>The variable of the poll timer is empty when the timer is not set, except while its own handler
  runs.\<close>

definition poll_live :: "ui \<Rightarrow> bool" where
  "poll_live u \<longleftrightarrow> (\<forall>i. running u = Some i \<longrightarrow> (i, PollTimer) \<in> set (timers u))"

definition beat_live :: "ui \<Rightarrow> bool" where
  "beat_live u \<longleftrightarrow> (\<forall>i. heartbeat u = Some i \<longrightarrow> (i, HeartbeatTimer) \<in> set (timers u))"

lemma loop_inv_frame:
  "loop_inv u \<Longrightarrow> timers v = timers u \<Longrightarrow> next_timer v = next_timer u \<Longrightarrow> running v = running u \<Longrightarrow>
   checking_timer v = checking_timer u \<Longrightarrow> heartbeat v = heartbeat u \<Longrightarrow> inFlight v = inFlight u \<Longrightarrow>
   calls v = calls u \<Longrightarrow> hid v = hid u \<Longrightarrow> loop_inv v"
proof -
  assume a: "loop_inv u" "timers v = timers u" "next_timer v = next_timer u" "running v = running u"
    "checking_timer v = checking_timer u" "heartbeat v = heartbeat u" "inFlight v = inFlight u"
    "calls v = calls u" "hid v = hid u"
  have "holder p v = holder p u" for p using a by (cases p) simp_all
  then show ?thesis using a by (simp add: loop_inv_def polls_def)
qed

lemma emit_fields [simp]:
  "running (emit x u) = running u" "checking_timer (emit x u) = checking_timer u" "heartbeat (emit x u) = heartbeat u"
  "inFlight (emit x u) = inFlight u" "wanted (emit x u) = wanted u" "errorCount (emit x u) = errorCount u"
  "epoch (emit x u) = epoch u" "filters (emit x u) = filters u" "oldFilters (emit x u) = oldFilters u"
  "hid (emit x u) = hid u" "timers (emit x u) = timers u" "next_timer (emit x u) = next_timer u"
  "calls (emit x u) = calls u" "tgrid (emit x u) = tgrid u" "out (emit x u) = out u @ [x]"
  by (simp_all add: emit_def)

lemma holder_all: "(\<forall>p. P p) \<longleftrightarrow> P PollTimer \<and> P CheckTimer \<and> P HeartbeatTimer"
  by (metis purpose.exhaust)

lemma distinct_fst_filter: "distinct (map fst xs) \<Longrightarrow> distinct (map fst (filter P xs))"
  by (induction xs) auto

definition owned :: "ui \<Rightarrow> bool" where
  "owned u \<longleftrightarrow> (\<forall>p q i. holder p u = Some i \<longrightarrow> i < next_timer u \<and> ((i, q) \<in> set (timers u) \<longrightarrow> q = p))"

definition own_timers :: "ui \<Rightarrow> bool" where
  "own_timers u \<longleftrightarrow> (\<forall>i. (i, PollTimer) \<in> set (timers u) \<longrightarrow> running u = Some i) \<and>
     (\<forall>i. (i, HeartbeatTimer) \<in> set (timers u) \<longrightarrow> heartbeat u = Some i)"

definition calls_inv :: "ui \<Rightarrow> bool" where
  "calls_inv u \<longleftrightarrow> length (polls u) = (if inFlight u then 1 else 0) \<and> (hid u \<longrightarrow> running u = None)"

definition numbered :: "ui \<Rightarrow> bool" where
  "numbered u \<longleftrightarrow> distinct (map fst (timers u)) \<and> (\<forall>(i, p) \<in> set (timers u). i < next_timer u)"

text \<open>What a handler may assume: the invariant, but for the timer that has just fired and for a tab that
  has just been hidden.\<close>

definition loop_pre :: "ui \<Rightarrow> bool" where
  "loop_pre u \<longleftrightarrow> numbered u \<and> owned u \<and> own_timers u \<and> length (polls u) = (if inFlight u then 1 else 0)"

lemma loop_inv_parts: "loop_inv u \<longleftrightarrow> numbered u \<and> owned u \<and> own_timers u \<and> calls_inv u"
  by (auto simp: loop_inv_def numbered_def owned_def own_timers_def calls_inv_def)

lemma timer_once: "numbered u \<Longrightarrow> (i, p) \<in> set (timers u) \<Longrightarrow> (i, q) \<in> set (timers u) \<Longrightarrow> p = q"
  unfolding numbered_def by (metis eq_key_imp_eq_value)

lemma numbered_cong: "timers v = timers u \<Longrightarrow> next_timer v = next_timer u \<Longrightarrow> numbered v = numbered u"
  by (simp add: numbered_def)

lemma own_timers_cong:
  "timers v = timers u \<Longrightarrow> running v = running u \<Longrightarrow> heartbeat v = heartbeat u \<Longrightarrow> own_timers v = own_timers u"
  by (simp add: own_timers_def)

lemma own_timers_less:
  "own_timers u \<Longrightarrow> set (timers v) \<subseteq> set (timers u) \<Longrightarrow>
   running v = running u \<or> (\<forall>i. (i, PollTimer) \<notin> set (timers v)) \<Longrightarrow>
   heartbeat v = heartbeat u \<or> (\<forall>i. (i, HeartbeatTimer) \<notin> set (timers v)) \<Longrightarrow> own_timers v"
  unfolding own_timers_def by (metis subsetD)

lemma calls_inv_cong:
  "polls v = polls u \<Longrightarrow> inFlight v = inFlight u \<Longrightarrow> hid v = hid u \<Longrightarrow> running v = running u \<Longrightarrow>
   calls_inv v = calls_inv u"
  by (simp add: calls_inv_def)

lemma poll_live_cong: "timers v = timers u \<Longrightarrow> running v = running u \<Longrightarrow> poll_live v = poll_live u"
  by (simp add: poll_live_def)

lemma beat_live_cong: "timers v = timers u \<Longrightarrow> heartbeat v = heartbeat u \<Longrightarrow> beat_live v = beat_live u"
  by (simp add: beat_live_def)

lemma poll_live_more:
  "poll_live u \<Longrightarrow> (\<And>i. (i, PollTimer) \<in> set (timers u) \<Longrightarrow> (i, PollTimer) \<in> set (timers v)) \<Longrightarrow>
   running v = running u \<Longrightarrow> poll_live v"
  by (simp add: poll_live_def)

lemma loop_pre_inv: "loop_pre u \<Longrightarrow> (hid u \<Longrightarrow> running u = None) \<Longrightarrow> loop_inv u"
  by (simp add: loop_pre_def loop_inv_parts calls_inv_def)

text \<open>Timers are only taken away, and a variable is only emptied.\<close>

lemma owned_less:
  "owned u \<Longrightarrow> set (timers v) \<subseteq> set (timers u) \<Longrightarrow> next_timer v = next_timer u \<Longrightarrow>
   (\<And>p. holder p v = holder p u \<or> holder p v = None) \<Longrightarrow> owned v"
  unfolding owned_def by (metis option.distinct(1) subsetD)

lemma numbered_less:
  "numbered u \<Longrightarrow> timers v = filter P (timers u) \<Longrightarrow> next_timer v = next_timer u \<Longrightarrow> numbered v"
  by (auto simp: numbered_def distinct_fst_filter)

text \<open>One more timer, held by its variable.\<close>

lemma owned_more:
  assumes "owned u" "numbered u" "timers v = timers u @ [(next_timer u, p)]" "next_timer v = next_timer u + 1"
    "holder p v = Some (next_timer u)" "\<And>q. q \<noteq> p \<Longrightarrow> holder q v = holder q u"
  shows "owned v"
proof -
  have "i < next_timer v \<and> ((i, q) \<in> set (timers v) \<longrightarrow> q = r)" if "holder r v = Some i" for q r i
  proof (cases "r = p")
    case True
    then have "i = next_timer u" using that assms(5) by simp
    then show ?thesis using True assms(2,3,4) by (auto simp: numbered_def)
  next
    case False
    then have "holder r u = Some i" using that assms(6) by simp
    then show ?thesis using assms(1,3,4) unfolding owned_def by fastforce
  qed
  then show ?thesis unfolding owned_def by blast
qed

lemma numbered_more:
  "numbered u \<Longrightarrow> timers v = timers u @ [(next_timer u, p)] \<Longrightarrow> next_timer v = next_timer u + 1 \<Longrightarrow> numbered v"
  by (fastforce simp: numbered_def)

text \<open>Clearing the timer a variable holds.\<close>

lemma clear_fields [simp]:
  "next_timer (clear_running u) = next_timer u" "checking_timer (clear_running u) = checking_timer u"
  "heartbeat (clear_running u) = heartbeat u" "calls (clear_running u) = calls u"
  "inFlight (clear_running u) = inFlight u" "hid (clear_running u) = hid u" "running (clear_running u) = None"
  "tgrid (clear_running u) = tgrid u" "wanted (clear_running u) = wanted u" "epoch (clear_running u) = epoch u"
  "filters (clear_running u) = filters u" "oldFilters (clear_running u) = oldFilters u"
  "errorCount (clear_running u) = errorCount u" "out (clear_running u) = out u"
  by (simp_all add: clear_running_def clearTimeout_def split: option.split)

lemma clear_timers:
  "timers (clear_running u) = filter (\<lambda>(j, p). Some j \<noteq> running u) (timers u)"
  by (auto simp: clear_running_def clearTimeout_def split: option.split intro: filter_cong)

lemma clear_running_inv:
  assumes pre: "loop_pre u"
  shows "loop_inv (clear_running u)" "(i, PollTimer) \<notin> set (timers (clear_running u))"
    "p \<noteq> PollTimer \<Longrightarrow> (i, p) \<in> set (timers (clear_running u)) \<longleftrightarrow> (i, p) \<in> set (timers u)"
proof -
  note n = pre [unfolded loop_pre_def, THEN conjunct1] pre [unfolded loop_pre_def, THEN conjunct2, THEN conjunct1]
    pre [unfolded loop_pre_def, THEN conjunct2, THEN conjunct2, THEN conjunct1]
    pre [unfolded loop_pre_def, THEN conjunct2, THEN conjunct2, THEN conjunct2]
  have hold: "holder p (clear_running u) = holder p u \<or> holder p (clear_running u) = None" for p
    by (cases p) simp_all
  have "numbered (clear_running u)" using n(1) clear_timers by (rule numbered_less) simp
  moreover have "owned (clear_running u)" using n(2) by (rule owned_less) (simp_all add: clear_timers hold)
  moreover have poll: "(i, PollTimer) \<notin> set (timers (clear_running u))" for i
    using n(3) by (auto simp: clear_timers own_timers_def)
  moreover have "own_timers (clear_running u)"
    using n(3) poll by (auto simp: own_timers_def clear_timers)
  moreover have "calls_inv (clear_running u)" using n(4) by (simp add: calls_inv_def polls_def)
  ultimately show "loop_inv (clear_running u)" by (simp add: loop_inv_parts)
  show "(i, PollTimer) \<notin> set (timers (clear_running u))" by (rule poll)
  have "(i, p) \<in> set (timers u) \<Longrightarrow> running u = Some i \<Longrightarrow> p = PollTimer"
    using n(2) unfolding owned_def by (metis holder.simps(1))
  then show "p \<noteq> PollTimer \<Longrightarrow> (i, p) \<in> set (timers (clear_running u)) \<longleftrightarrow> (i, p) \<in> set (timers u)"
    by (auto simp: clear_timers)
qed

lemma loop_inv_pre: "loop_inv u \<Longrightarrow> loop_pre u"
  by (simp add: loop_inv_parts loop_pre_def calls_inv_def)

lemma loop_pre_frame:
  "loop_pre u \<Longrightarrow> timers v = timers u \<Longrightarrow> next_timer v = next_timer u \<Longrightarrow> running v = running u \<Longrightarrow>
   checking_timer v = checking_timer u \<Longrightarrow> heartbeat v = heartbeat u \<Longrightarrow>
   length (polls v) = (if inFlight v then 1 else 0) \<Longrightarrow> loop_pre v"
proof -
  assume a: "loop_pre u" "timers v = timers u" "next_timer v = next_timer u" "running v = running u"
    "checking_timer v = checking_timer u" "heartbeat v = heartbeat u" "length (polls v) = (if inFlight v then 1 else 0)"
  have "holder p v = holder p u" for p using a by (cases p) simp_all
  then show ?thesis using a by (simp add: loop_pre_def numbered_def owned_def own_timers_def)
qed

lemma beat_live_less:
  "beat_live u \<Longrightarrow> (\<And>i. (i, HeartbeatTimer) \<in> set (timers u) \<Longrightarrow> (i, HeartbeatTimer) \<in> set (timers v)) \<Longrightarrow>
   heartbeat v = heartbeat u \<Longrightarrow> beat_live v"
  by (simp add: beat_live_def)

lemma clear_running_beat: "loop_pre u \<Longrightarrow> beat_live u \<Longrightarrow> beat_live (clear_running u)"
  by (erule beat_live_less) (simp_all add: clear_running_inv(3))

lemma ui_update_fields:
  "running (ui_update e u) = None" "inFlight (ui_update e u)" "tgrid (ui_update e u) = tgrid u"
  "timers (ui_update e u) = timers (clear_running u)" "heartbeat (ui_update e u) = heartbeat u"
  "hid (ui_update e u) = hid u" "next_timer (ui_update e u) = next_timer u"
  "checking_timer (ui_update e u) = checking_timer u" "errorCount (ui_update e u) = errorCount u"
  by (auto simp: ui_update_def Let_def send_def)

lemma ui_update_calls:
  "calls (ui_update e u) =
     (if inFlight u then calls u
      else calls u @ [UpdateUi (forGrid (layout e) (map_option fst (sortInfo (tgrid u)))) (poll_filters e)
        (if areObjectsEqual (Some (poll_filters e)) (filters u) then epoch u else 0)])"
  by (simp add: ui_update_def Let_def send_def)

lemma ui_update_ok:
  assumes pre: "loop_pre u"
  shows "loop_inv (ui_update e u) \<and> poll_live (ui_update e u) \<and> (beat_live u \<longrightarrow> beat_live (ui_update e u))"
proof -
  have "polls (ui_update e u) = (if inFlight u then polls u else polls u @ [last (calls (ui_update e u))])"
    by (simp add: polls_def ui_update_calls is_poll_def)
  then have "length (polls (ui_update e u)) = 1" using pre by (auto simp: loop_pre_def)
  then have p: "length (polls (ui_update e u)) = (if inFlight (ui_update e u) then 1 else 0)"
    by (simp add: ui_update_fields)
  have c: "loop_pre (clear_running u)" using clear_running_inv(1) [OF pre] by (rule loop_inv_pre)
  have "loop_pre (ui_update e u)"
    by (rule loop_pre_frame [OF c _ _ _ _ _ p]) (simp_all add: ui_update_fields)
  then have "loop_inv (ui_update e u)" by (simp add: loop_inv_parts loop_pre_def calls_inv_def ui_update_fields)
  moreover have "beat_live u \<Longrightarrow> beat_live (ui_update e u)"
    using clear_running_beat [OF pre] by (simp add: beat_live_def ui_update_fields)
  ultimately show ?thesis by (simp add: poll_live_def ui_update_fields)
qed

text \<open>Setting a timer and keeping its number.\<close>

lemma set_timer_inv:
  assumes inv: "loop_pre u"
    and v: "timers v = timers u @ [(next_timer u, p)]" "next_timer v = next_timer u + 1"
      "holder p v = Some (next_timer u)" "\<And>q. q \<noteq> p \<Longrightarrow> holder q v = holder q u"
      "calls v = calls u" "inFlight v = inFlight u"
    and none: "p \<noteq> CheckTimer \<Longrightarrow> (\<And>i. (i, p) \<notin> set (timers u))"
  shows "loop_pre v"
proof -
  have "owned v" using inv by (intro owned_more [OF _ _ v(1,2,3,4)]) (simp_all add: loop_pre_def)
  moreover have "numbered v" using inv by (intro numbered_more [OF _ v(1,2)]) (simp add: loop_pre_def)
  moreover have "own_timers v"
  proof (cases p)
    case PollTimer
    then show ?thesis using inv none v(1,3) v(4) [of HeartbeatTimer] by (auto simp: loop_pre_def own_timers_def)
  next
    case CheckTimer
    then show ?thesis using inv v(1) v(4) [of HeartbeatTimer] v(4) [of PollTimer]
      by (auto simp: loop_pre_def own_timers_def)
  next
    case HeartbeatTimer
    then show ?thesis using inv none v(1,3) v(4) [of PollTimer] by (auto simp: loop_pre_def own_timers_def)
  qed
  ultimately show ?thesis using inv v(5,6) by (simp add: loop_pre_def polls_def)
qed

lemma schedule_fields:
  "tgrid (schedule u) = tgrid u" "inFlight (schedule u) = inFlight u" "heartbeat (schedule u) = heartbeat u"
  "hid (schedule u) = hid u" "calls (schedule u) = calls u" "checking_timer (schedule u) = checking_timer u"
  "wanted (schedule u) = wanted u" "filters (schedule u) = filters u" "oldFilters (schedule u) = oldFilters u"
  "errorCount (schedule u) = errorCount u" "epoch (schedule u) = epoch u"
  "running (schedule u) = (if hid u then None else Some (next_timer u))"
  "timers (schedule u) = timers (clear_running u) @ (if hid u then [] else [(next_timer u, PollTimer)])"
  "next_timer (schedule u) = (if hid u then next_timer u else next_timer u + 1)"
  by (auto simp: schedule_def Let_def setTimeout_def)

lemma schedule_ok:
  assumes pre: "loop_pre u"
  shows "loop_inv (schedule u) \<and> poll_live (schedule u) \<and> (beat_live u \<longrightarrow> beat_live (schedule u))"
proof -
  note c = clear_running_inv [OF pre]
  have b: "beat_live u \<Longrightarrow> beat_live (schedule u)"
    by (erule beat_live_less) (use c in \<open>auto simp: schedule_fields\<close>)
  show ?thesis
  proof (cases "hid u")
    case True
    then have "schedule u = clear_running u" by (simp add: schedule_def)
    then show ?thesis using c b by (simp add: poll_live_def)
  next
    case False
    have "holder q (schedule u) = holder q (clear_running u)" if "q \<noteq> PollTimer" for q
      using that by (cases q) (simp_all add: schedule_fields)
    then have "loop_pre (schedule u)"
      by (intro set_timer_inv [OF loop_inv_pre [OF c(1)], where p = PollTimer])
        (use False c(2) in \<open>auto simp: schedule_fields\<close>)
    then have "loop_inv (schedule u)" using False by (simp add: loop_inv_parts loop_pre_def calls_inv_def schedule_fields)
    then show ?thesis using b False by (simp add: poll_live_def schedule_fields)
  qed
qed

text \<open>Clearing one of the other two timers.\<close>

lemma clearTimeout_fields [simp]:
  "next_timer (clearTimeout t u) = next_timer u" "running (clearTimeout t u) = running u"
  "checking_timer (clearTimeout t u) = checking_timer u" "heartbeat (clearTimeout t u) = heartbeat u"
  "calls (clearTimeout t u) = calls u" "inFlight (clearTimeout t u) = inFlight u" "hid (clearTimeout t u) = hid u"
  "tgrid (clearTimeout t u) = tgrid u" "errorCount (clearTimeout t u) = errorCount u"
  by (simp_all add: clearTimeout_def split: option.split)

lemma clearTimeout_timers: "timers (clearTimeout t u) = filter (\<lambda>(j, p). Some j \<noteq> t) (timers u)"
  by (auto simp: clearTimeout_def split: option.split intro: filter_cong)

lemma holder_clearTimeout [simp]: "holder p (clearTimeout t u) = holder p u"
  by (cases p) simp_all

lemma clearTimeout_pre:
  assumes pre: "loop_pre u"
  shows "loop_pre (clearTimeout (holder p u) u)" "(i, p) \<notin> set (timers (clearTimeout (holder p u) u)) \<or> p = CheckTimer"
    "q \<noteq> p \<Longrightarrow> (i, q) \<in> set (timers (clearTimeout (holder p u) u)) \<longleftrightarrow> (i, q) \<in> set (timers u)"
proof -
  let ?v = "clearTimeout (holder p u) u"
  have "numbered ?v" using pre unfolding loop_pre_def by (elim conjE) (rule numbered_less [OF _ clearTimeout_timers], simp_all)
  moreover have "owned ?v" using pre unfolding loop_pre_def
    by (elim conjE) (erule owned_less, auto simp: clearTimeout_timers)
  moreover have "own_timers ?v" using pre by (auto simp: loop_pre_def own_timers_def clearTimeout_timers)
  ultimately show "loop_pre ?v" using pre by (simp add: loop_pre_def polls_def)
  show "(i, p) \<notin> set (timers ?v) \<or> p = CheckTimer"
    using pre by (cases p) (auto simp: clearTimeout_timers loop_pre_def own_timers_def)
  have "(i, q) \<in> set (timers u) \<Longrightarrow> holder p u = Some i \<Longrightarrow> q = p"
    using pre unfolding loop_pre_def owned_def by metis
  then show "q \<noteq> p \<Longrightarrow> (i, q) \<in> set (timers ?v) \<longleftrightarrow> (i, q) \<in> set (timers u)"
    by (auto simp: clearTimeout_timers)
qed

lemma keepSessionAlive_fields:
  "timers (keepSessionAlive u) = timers (clearTimeout (heartbeat u) u) @ [(next_timer u, HeartbeatTimer)]"
  "next_timer (keepSessionAlive u) = next_timer u + 1" "heartbeat (keepSessionAlive u) = Some (next_timer u)"
  "running (keepSessionAlive u) = running u" "checking_timer (keepSessionAlive u) = checking_timer u"
  "calls (keepSessionAlive u) = calls u" "inFlight (keepSessionAlive u) = inFlight u" "hid (keepSessionAlive u) = hid u"
  "tgrid (keepSessionAlive u) = tgrid u"
  by (simp_all add: keepSessionAlive_def setTimeout_def Let_def)

lemma keepSessionAlive_ok:
  assumes inv: "loop_inv u" and live: "poll_live u"
  shows "loop_inv (keepSessionAlive u) \<and> poll_live (keepSessionAlive u) \<and> beat_live (keepSessionAlive u)"
proof -
  let ?v = "clearTimeout (heartbeat u) u"
  have pre: "loop_pre u" using inv by (rule loop_inv_pre)
  note c = clearTimeout_pre [OF pre, where p = HeartbeatTimer, simplified]
  have "holder q (keepSessionAlive u) = holder q ?v" if "q \<noteq> HeartbeatTimer" for q
    using that by (cases q) (simp_all add: keepSessionAlive_fields)
  then have "loop_pre (keepSessionAlive u)"
    by (intro set_timer_inv [OF c(1), where p = HeartbeatTimer]) (use c(2) in \<open>auto simp: keepSessionAlive_fields\<close>)
  moreover have "poll_live (keepSessionAlive u)"
    using live c(3) [of PollTimer] by (auto simp: poll_live_def keepSessionAlive_fields)
  ultimately show ?thesis
    using inv by (auto simp: loop_inv_parts loop_pre_def calls_inv_def beat_live_def keepSessionAlive_fields)
qed

lemma clear_heartbeat_ok:
  assumes pre: "loop_pre u"
  shows "loop_pre (clear_heartbeat u)" "beat_live (clear_heartbeat u)"
proof -
  note c = clearTimeout_pre [OF pre, where p = HeartbeatTimer, simplified]
  let ?v = "clear_heartbeat u"
  have hold: "holder p ?v = holder p u \<or> holder p ?v = None" for p by (cases p) (simp_all add: clear_heartbeat_def)
  have "owned ?v" using c(1) unfolding loop_pre_def
    by (elim conjE) (erule owned_less, auto simp: clear_heartbeat_def hold [unfolded clear_heartbeat_def])
  moreover have "own_timers ?v"
    using c(1,2) by (auto simp: loop_pre_def own_timers_def clear_heartbeat_def)
  ultimately show "loop_pre ?v"
    using c(1) by (simp add: loop_pre_def numbered_def polls_def clear_heartbeat_def)
  show "beat_live ?v" by (simp add: beat_live_def clear_heartbeat_def)
qed

lemma onHeartbeat_ok:
  assumes inv: "loop_inv u" and live: "poll_live u" and i: "(i, HeartbeatTimer) \<in> set (timers u)"
  shows "loop_inv (onHeartbeat (drop_timer i u)) \<and> poll_live (onHeartbeat (drop_timer i u)) \<and>
     beat_live (onHeartbeat (drop_timer i u))"
proof -
  let ?v = "onHeartbeat (drop_timer i u)"
  have f: "timers ?v = filter (\<lambda>(j, p). j \<noteq> i) (timers u)" "next_timer ?v = next_timer u" "heartbeat ?v = None"
    "running ?v = running u" "checking_timer ?v = checking_timer u" "polls ?v = polls u" "inFlight ?v = inFlight u"
    "hid ?v = hid u"
    by (auto simp: onHeartbeat_def drop_timer_def send_def polls_def is_poll_def Let_def)
  have pre: "loop_pre u" using inv by (rule loop_inv_pre)
  have one: "(i, p) \<in> set (timers u) \<Longrightarrow> p = HeartbeatTimer" for p
    using timer_once [OF _ _ i] pre by (simp add: loop_pre_def)
  have h: "heartbeat u = Some i" using inv i unfolding loop_inv_def by blast
  have hold: "holder p ?v = holder p u \<or> holder p ?v = None" for p by (cases p) (simp_all add: f)
  have none: "\<forall>j. (j, HeartbeatTimer) \<notin> set (timers ?v)"
    using inv h unfolding loop_inv_def by (auto simp: f)
  have "owned ?v" using pre unfolding loop_pre_def by (elim conjE) (erule owned_less, auto simp: f hold)
  moreover have "numbered ?v" using pre unfolding loop_pre_def by (elim conjE) (rule numbered_less [OF _ f(1,2)])
  moreover have "own_timers ?v" using pre none unfolding loop_pre_def
    by (elim conjE) (erule own_timers_less, auto simp: f)
  moreover have "calls_inv ?v" using inv f by (simp add: loop_inv_parts calls_inv_def)
  moreover have "poll_live ?v" using live by (rule poll_live_more) (use one in \<open>auto simp: f\<close>)
  ultimately show ?thesis by (simp add: loop_inv_parts beat_live_def f)
qed

lemma drop_timer_pre:
  assumes "loop_pre u"
  shows "loop_pre (drop_timer i u)"
proof -
  have f: "timers (drop_timer i u) = filter (\<lambda>(j, p). j \<noteq> i) (timers u)" by (simp add: drop_timer_def)
  have "holder p (drop_timer i u) = holder p u" for p by (cases p) (simp_all add: drop_timer_def)
  then have "owned (drop_timer i u)" using assms unfolding loop_pre_def
    by (elim conjE) (erule owned_less, auto simp: drop_timer_def)
  moreover have "numbered (drop_timer i u)" using assms unfolding loop_pre_def
    by (elim conjE) (rule numbered_less [OF _ f], simp_all add: drop_timer_def)
  ultimately show ?thesis using assms by (auto simp: loop_pre_def own_timers_def polls_def drop_timer_def)
qed

lemma drop_timer_beat:
  assumes "loop_pre u" "beat_live u" "(i, p) \<in> set (timers u)" "p \<noteq> HeartbeatTimer"
  shows "beat_live (drop_timer i u)"
proof -
  have "(i, HeartbeatTimer) \<notin> set (timers u)"
    using timer_once [of u i p HeartbeatTimer] assms by (auto simp: loop_pre_def)
  then show ?thesis by (intro beat_live_less [OF assms(2)]) (auto simp: drop_timer_def)
qed

lemma drop_timer_poll:
  assumes "loop_pre u" "poll_live u" "(i, p) \<in> set (timers u)" "p \<noteq> PollTimer"
  shows "poll_live (drop_timer i u)"
proof -
  have "(i, PollTimer) \<notin> set (timers u)"
    using timer_once [of u i p PollTimer] assms by (auto simp: loop_pre_def)
  then show ?thesis by (intro poll_live_more [OF assms(2)]) (auto simp: drop_timer_def)
qed

text \<open>All there is to keep, for a state between two events.\<close>

definition steady :: "ui \<Rightarrow> bool" where
  "steady u \<longleftrightarrow> loop_inv u \<and> poll_live u \<and> beat_live u"

lemma steadyI: "loop_pre u \<Longrightarrow> (hid u \<Longrightarrow> running u = None) \<Longrightarrow> poll_live u \<Longrightarrow> beat_live u \<Longrightarrow> steady u"
  by (simp add: steady_def loop_pre_inv)

lemma steady_hid: "steady u \<Longrightarrow> hid u \<Longrightarrow> running u = None"
  by (simp add: steady_def loop_inv_parts calls_inv_def)

lemma steady_frame:
  assumes "steady u" and t: "timers v = timers u" "next_timer v = next_timer u" "running v = running u"
    "checking_timer v = checking_timer u" "heartbeat v = heartbeat u" "hid v = hid u"
    and p: "length (polls v) = (if inFlight v then 1 else 0)"
  shows "steady v"
proof (rule steadyI)
  have u: "loop_pre u" "poll_live u" "beat_live u" using assms(1) by (simp_all add: steady_def loop_inv_pre)
  show "loop_pre v" using loop_pre_frame [OF u(1) t(1-5) p] .
  show "hid v \<Longrightarrow> running v = None" using steady_hid [OF assms(1)] t by simp
  show "poll_live v" "beat_live v" using u poll_live_cong [OF t(1,3)] beat_live_cong [OF t(1,5)] by simp_all
qed

lemma steady_emit:
  assumes "steady u"
  shows "steady (emit x u)"
proof -
  have "polls (emit x u) = polls u" by (simp add: polls_def)
  then show ?thesis using assms by (intro steady_frame [OF assms]) (simp_all add: steady_def loop_inv_parts calls_inv_def)
qed

lemma steady_polls: "steady u \<Longrightarrow> length (polls u) = (if inFlight u then 1 else 0)"
  by (simp add: steady_def loop_inv_def)

lemma ui_update_steady: "loop_pre u \<Longrightarrow> beat_live u \<Longrightarrow> steady (ui_update e u)"
  using ui_update_ok by (simp add: steady_def)

lemma steady_pre: "steady u \<Longrightarrow> loop_pre u" and steady_beat: "steady u \<Longrightarrow> beat_live u"
  and steady_poll: "steady u \<Longrightarrow> poll_live u"
  by (simp_all add: steady_def loop_inv_pre)

lemma clear_running_steady: "loop_pre u \<Longrightarrow> beat_live u \<Longrightarrow> steady (clear_running u)"
  using clear_running_inv(1) clear_running_beat by (simp add: steady_def poll_live_def)

text \<open>A connection check is waited for: \<open>setTimeout\<close> with no clearing, or after clearing the last.\<close>

definition await_check :: "ui \<Rightarrow> ui" where
  "await_check u = (let (t, u) = setTimeout CheckTimer u in u\<lparr>checking_timer := Some t\<rparr>)"

lemma await_check_fields [simp]:
  "timers (await_check u) = timers u @ [(next_timer u, CheckTimer)]" "next_timer (await_check u) = next_timer u + 1"
  "checking_timer (await_check u) = Some (next_timer u)" "running (await_check u) = running u"
  "heartbeat (await_check u) = heartbeat u" "calls (await_check u) = calls u" "inFlight (await_check u) = inFlight u"
  "hid (await_check u) = hid u" "tgrid (await_check u) = tgrid u" "errorCount (await_check u) = errorCount u"
  by (simp_all add: await_check_def setTimeout_def)

lemma await_check_pre:
  assumes "loop_pre u"
  shows "loop_pre (await_check u)"
proof -
  have "holder q (await_check u) = holder q u" if "q \<noteq> CheckTimer" for q using that by (cases q) simp_all
  then show ?thesis by (intro set_timer_inv [OF assms, where p = CheckTimer]) simp_all
qed

lemma await_check_steady: "steady u \<Longrightarrow> steady (await_check u)"
proof (rule steadyI)
  assume s: "steady u"
  show "loop_pre (await_check u)" by (rule await_check_pre [OF steady_pre [OF s]])
  show "hid (await_check u) \<Longrightarrow> running (await_check u) = None" using steady_hid [OF s] by simp
  show "poll_live (await_check u)" by (rule poll_live_more [OF steady_poll [OF s]]) simp_all
  show "beat_live (await_check u)" by (rule beat_live_less [OF steady_beat [OF s]]) simp_all
qed

lemma clear_checking_fields [simp]:
  "checking_timer (clear_checking u) = None" "running (clear_checking u) = running u"
  "heartbeat (clear_checking u) = heartbeat u" "calls (clear_checking u) = calls u"
  "inFlight (clear_checking u) = inFlight u" "hid (clear_checking u) = hid u" "tgrid (clear_checking u) = tgrid u"
  "timers (clear_checking u) = timers (clearTimeout (checking_timer u) u)" "next_timer (clear_checking u) = next_timer u"
  by (simp_all add: clear_checking_def)

lemma clear_check_steady:
  assumes "steady u"
  shows "steady (clearTimeout (checking_timer u) u)"
proof -
  note c = clearTimeout_pre [OF steady_pre [OF assms], where p = CheckTimer, simplified]
  let ?v = "clearTimeout (checking_timer u) u"
  show ?thesis
  proof (rule steadyI [OF c(1)])
    show "hid ?v \<Longrightarrow> running ?v = None" using steady_hid [OF assms] by simp
    show "poll_live ?v" by (rule poll_live_more [OF steady_poll [OF assms]]) (simp_all add: c(3))
    show "beat_live ?v" by (rule beat_live_less [OF steady_beat [OF assms]]) (simp_all add: c(3))
  qed
qed

lemma forget_check_steady:
  assumes "steady u"
  shows "steady (u\<lparr>checking_timer := None\<rparr>)"
proof -
  let ?v = "u\<lparr>checking_timer := None\<rparr>"
  have u: "loop_pre u" using assms by (rule steady_pre)
  have h: "holder p ?v = holder p u \<or> holder p ?v = None" for p by (cases p) simp_all
  have "owned ?v" using u unfolding loop_pre_def by (elim conjE) (erule owned_less, auto simp: h)
  then have "loop_pre ?v"
    using u numbered_cong [of ?v u] own_timers_cong [of ?v u] by (simp add: loop_pre_def polls_def)
  then show ?thesis
    by (rule steadyI) (use assms steady_hid poll_live_cong [of ?v u] beat_live_cong [of ?v u] in
        \<open>simp_all add: steady_poll steady_beat\<close>)
qed

lemma clear_checking_steady: "steady u \<Longrightarrow> steady (clear_checking u)"
  unfolding clear_checking_def by (rule forget_check_steady [OF clear_check_steady])

lemma onConnectionError_steady: "steady u \<Longrightarrow> steady (onConnectionError u)"
proof -
  have "onConnectionError u = await_check (clearTimeout (checking_timer u) u)"
    by (simp add: onConnectionError_def await_check_def Let_def)
  then show "steady u \<Longrightarrow> steady (onConnectionError u)" using await_check_steady clear_check_steady by simp
qed

lemma onConnectionSuccess_steady: "steady u \<Longrightarrow> steady (onConnectionSuccess e b u)"
  using ui_update_steady [OF steady_pre steady_beat] clear_checking_steady
  by (simp add: onConnectionSuccess_def Let_def steady_emit)

text \<open>The grid's part of the handlers.\<close>

lemma grid_store_cleared:
  "grid_inv g \<Longrightarrow> gtorrents g = [] \<Longrightarrow> grid_inv (g\<lparr>store := store_removeAll (store g)\<rparr>)"
  using fits_wipe [of _ g]
  by (auto simp: grid_inv_def rstore.rows_clear rstore.inv_clear wipe_rows_def fits_def)

lemma fire_disconnect_fields:
  "hid (fire_disconnect u) = hid u" "calls (fire_disconnect u) = calls u" "inFlight (fire_disconnect u) = inFlight u"
  "errorCount (fire_disconnect u) = errorCount u" "running (fire_disconnect u) = None"
  "timers (fire_disconnect u) = timers (clear_running u)" "heartbeat (fire_disconnect u) = heartbeat u"
  "wanted (fire_disconnect u) = wanted u" "epoch (fire_disconnect u) = epoch u"
  "filters (fire_disconnect u) = filters u" "oldFilters (fire_disconnect u) = oldFilters u"
  "next_timer (fire_disconnect u) = next_timer u" "checking_timer (fire_disconnect u) = checking_timer u"
  by (auto simp: fire_disconnect_def stop_def Let_def clear_timers split: option.split)

lemma fire_disconnect_grid:
  assumes "grid_inv (tgrid u)"
  shows "grid_inv (tgrid (fire_disconnect u)) \<and> rows (tgrid (fire_disconnect u)) = [] \<and>
    lastTorrents (tgrid (fire_disconnect u)) = lastTorrents (tgrid u)"
proof -
  have g: "grid_inv (grid_onDisconnect (tgrid u))" "gtorrents (grid_onDisconnect (tgrid u)) = []"
    "rows (grid_onDisconnect (tgrid u)) = []" "lastTorrents (grid_onDisconnect (tgrid u)) = lastTorrents (tgrid u)"
    using grid_onDisconnect_ok [OF assms] by (simp_all add: grid_onDisconnect_def wipe_rows_def)
  show ?thesis using g grid_store_cleared [OF g(1,2)]
    by (auto simp: fire_disconnect_def stop_def Let_def rstore.rows_clear split: option.split)
qed

lemma fire_disconnect_steady:
  assumes "loop_pre u" "beat_live u"
  shows "steady (fire_disconnect u)"
proof -
  have "steady (clear_running u)" using clear_running_steady [OF assms] .
  then show ?thesis
    by (rule steady_frame) (use assms(1) in \<open>simp_all add: fire_disconnect_fields polls_def loop_pre_def\<close>)
qed

text \<open>An answer, and a failure, of the one poll that is out.\<close>

lemma answered_fields [simp]:
  "timers (answered c u) = timers u" "running (answered c u) = running u" "heartbeat (answered c u) = heartbeat u"
  "checking_timer (answered c u) = checking_timer u" "hid (answered c u) = hid u" "tgrid (answered c u) = tgrid u"
  "next_timer (answered c u) = next_timer u" "inFlight (answered c u) = inFlight u" "wanted (answered c u) = wanted u"
  "errorCount (answered c u) = errorCount u" "filters (answered c u) = filters u"
  "oldFilters (answered c u) = oldFilters u" "epoch (answered c u) = epoch u"
  "calls (answered c u) = remove1 c (calls u)"
  by (simp_all add: answered_def)

lemma polls_answered:
  "polls (answered c u) = (if is_poll c then remove1 c (polls u) else polls u)"
  by (auto simp: polls_def filter_remove1)

lemma poll_answered:
  assumes "steady u" "UpdateUi ks fs n \<in> set (calls u)"
  shows "inFlight u" "polls (answered (UpdateUi ks fs n) u) = []"
    "steady (answered (UpdateUi ks fs n) u\<lparr>inFlight := False\<rparr>)"
proof -
  have m: "UpdateUi ks fs n \<in> set (polls u)" using assms(2) by (simp add: polls_def is_poll_def)
  then show f: "inFlight u" using steady_polls [OF assms(1)] by (cases "inFlight u") auto
  have "length (polls u) = 1" using steady_polls [OF assms(1)] f by simp
  then have "polls u = [UpdateUi ks fs n]" using m by (auto simp: length_Suc_conv)
  then show p: "polls (answered (UpdateUi ks fs n) u) = []" by (simp add: polls_answered is_poll_def)
  show "steady (answered (UpdateUi ks fs n) u\<lparr>inFlight := False\<rparr>)"
    by (rule steady_frame [OF assms(1)]) (use p in \<open>simp_all add: polls_def\<close>)
qed

lemma other_answered:
  assumes "steady u" "\<not> is_poll c"
  shows "steady (answered c u)"
  using steady_frame [OF assms(1), of "answered c u"] steady_polls [OF assms(1)] assms(2)
  by (simp add: polls_answered)

definition good_poll :: "answer \<Rightarrow> bool" where
  "good_poll a = (case torrents a of None \<Rightarrow> True | Some d \<Rightarrow> good_answer d)"

lemma grid_forget: "grid_inv g \<Longrightarrow> grid_inv (g\<lparr>lastTorrents := None\<rparr>)"
  by (simp add: grid_inv_def)

lemma update_none:
  assumes "grid_inv g"
  shows "(update None wipe states g = Inl TypeError \<and> rows g \<noteq> []) \<or>
    (\<exists>g'. update None wipe states g = Inr g' \<and> grid_inv g')"
proof (cases "wipe \<or> rows g = []")
  case True
  let ?g = "g\<lparr>lastTorrents := None\<rparr>"
  let ?h = "if wipe then wipe_rows ?g else ?g"
  have i: "rows_inv ?g" using grid_forget [OF assms] by (simp add: grid_inv_rows)
  then have r: "rows_inv ?h" "rows ?h = []" using wipe_rows_inv [OF i] True by auto
  obtain s where s: "sort_rows ?h = ?h\<lparr>store := s\<rparr>" "rows_inv (?h\<lparr>store := s\<rparr>)" using sort_step [OF r(1)] by blast
  have "grid_inv (?h\<lparr>store := s\<rparr>)" using s(2) by (simp add: grid_inv_rows wipe_rows_def)
  moreover have "update None wipe states g = Inr (?h\<lparr>store := s\<rparr>)"
    using r(2) s(1) by (simp add: update_def Let_def withoutHiddenLabels_def)
  ultimately show ?thesis by blast
next
  case False
  then show ?thesis by (simp add: update_def Let_def withoutHiddenLabels_def)
qed

lemma fits_nil: "fits [] g"
  by (simp add: fits_def)

lemma merge_none: "merge None (Some r) g = merge (Some []) (Some r) g"
  by (simp add: merge_def)

lemma give_grid_ok:
  assumes inv: "grid_inv g" and good: "good_poll a" and delta: "delta a \<Longrightarrow> lastTorrents g \<noteq> None"
  shows "(give_grid a wipe states g = Inl TypeError \<and> torrents a = None \<and> rows g \<noteq> []) \<or>
    (\<exists>g'. give_grid a wipe states g = Inr g' \<and> grid_inv g')"
proof (cases "torrents a")
  case (Some ts)
  then show ?thesis using receive_ok [OF inv, of ts "delta a" "removed a" wipe states] good delta
    by (auto simp: give_grid_def good_poll_def)
next
  case None
  show ?thesis
  proof (cases "delta a")
    case False
    then show ?thesis using update_none [OF inv, of wipe states] None by (auto simp: give_grid_def)
  next
    case True
    obtain old where old: "lastTorrents g = Some old" using delta True by auto
    obtain all g' where m: "merge (Some []) (Some (removed a)) g = (all, g')" "rows_inv g'" "fits all g'"
      by (rule merge_ok [OF inv old, of "[]" "removed a"]) (simp_all add: fits_nil)
    then show ?thesis using update_shows [OF m(2,3), of wipe states] True None
      by (auto simp: give_grid_def merge_none)
  qed
qed

lemma steady_epoch: "steady v \<Longrightarrow> steady (v\<lparr>epoch := n\<rparr>)"
  by (rule steady_frame [of v]) (use steady_polls [of v] in \<open>simp_all add: polls_def\<close>)

lemma steady_grid: "steady v \<Longrightarrow> steady (v\<lparr>tgrid := g\<rparr>)"
  by (rule steady_frame [of v]) (use steady_polls [of v] in \<open>simp_all add: polls_def\<close>)

lemma steady_errors: "steady v \<Longrightarrow> steady (v\<lparr>errorCount := n\<rparr>)"
  by (rule steady_frame [of v]) (use steady_polls [of v] in \<open>simp_all add: polls_def\<close>)

lemma ui_update_from_steady: "steady v \<Longrightarrow> steady (ui_update e v)"
  using ui_update_steady steady_pre steady_beat by blast

lemma take_list_ok:
  assumes st: "steady u" and inv: "grid_inv (tgrid u)" and good: "good_poll a"
  shows "steady (take_list e a u) \<and> grid_inv (tgrid (take_list e a u))"
proof (cases "delta a \<and> lastTorrents (tgrid u) = None")
  case True
  then have "take_list e a u = ui_update e (u\<lparr>epoch := 0\<rparr>)" by (simp add: take_list_def)
  then show ?thesis using ui_update_from_steady [OF steady_epoch [OF st]] inv by (simp add: ui_update_fields)
next
  case False
  let ?wipe = "\<not> areObjectsEqual (filters u) (oldFilters u)"
  have d: "delta a \<Longrightarrow> lastTorrents (tgrid u) \<noteq> None" using False by simp
  consider "give_grid a ?wipe (Some (selection e)) (tgrid u) = Inl TypeError"
    | g where "give_grid a ?wipe (Some (selection e)) (tgrid u) = Inr g" "grid_inv g"
    using give_grid_ok [OF inv good d, of ?wipe "Some (selection e)"] by blast
  then show ?thesis
  proof cases
    case 1
    then have "take_list e a u = u\<lparr>tgrid := (tgrid u)\<lparr>lastTorrents := None\<rparr>\<rparr>"
      using False unfolding take_list_def by (simp only: Let_def sum.case if_False)
    then show ?thesis using steady_grid [OF st] grid_forget [OF inv] by simp
  next
    case 2
    define w where "w = emit (SidebarUpdate (filter_tree a)) (emit (StatusbarUpdate (stats a)) (u\<lparr>tgrid := g\<rparr>))"
    define v where "v = w\<lparr>errorCount := 0\<rparr>"
    have sw: "steady w" unfolding w_def by (intro steady_emit steady_grid st)
    have sv: "steady v" unfolding v_def by (rule steady_errors [OF sw])
    have "take_list e a u = (if \<not> is_object (filter_tree a) then w else if wanted v then ui_update e v else v)"
      using False 2 unfolding take_list_def v_def w_def by (simp only: Let_def sum.case if_False)
    moreover have "tgrid v = g" "tgrid w = g" by (simp_all add: v_def w_def)
    ultimately show ?thesis using sw sv ui_update_from_steady [OF sv] 2(2) by (simp add: ui_update_fields)
  qed
qed

text \<open>The state in which a connected answer's list is taken.\<close>

definition before_list :: "env \<Rightarrow> answer \<Rightarrow> ui \<Rightarrow> ui" where
  "before_list e a u =
     (let u = schedule (clear_running (u\<lparr>inFlight := False\<rparr>));
          u = (if sess_speed e then emit (Title (speed_title a)) u else u)
      in u\<lparr>epoch := (case new_epoch a of None \<Rightarrow> 0 | Some n \<Rightarrow> n)\<rparr>)"

lemma onUpdate_connected: "connected a \<Longrightarrow> onUpdate e a u = take_list e a (before_list e a u)"
  by (simp add: onUpdate_def before_list_def Let_def)

lemma before_list_fields [simp]:
  "tgrid (before_list e a u) = tgrid u" "hid (before_list e a u) = hid u" "inFlight (before_list e a u) = False"
  "wanted (before_list e a u) = wanted u" "filters (before_list e a u) = filters u"
  "oldFilters (before_list e a u) = oldFilters u"
  "epoch (before_list e a u) = (case new_epoch a of None \<Rightarrow> 0 | Some n \<Rightarrow> n)"
  "running (before_list e a u) = (if hid u then None else Some (next_timer u))"
  by (simp_all add: before_list_def Let_def schedule_fields)

lemma before_list_steady:
  assumes "steady (u\<lparr>inFlight := False\<rparr>)"
  shows "steady (before_list e a u)"
proof -
  let ?u = "clear_running (u\<lparr>inFlight := False\<rparr>)"
  have "steady ?u" by (rule clear_running_steady [OF steady_pre steady_beat]) (rule assms)+
  then have "steady (schedule ?u)" using schedule_ok [OF steady_pre] steady_beat by (simp add: steady_def)
  then show ?thesis unfolding before_list_def Let_def by (simp add: steady_epoch steady_emit)
qed

lemma ui_onUpdate_ok:
  assumes st: "steady (u\<lparr>inFlight := False\<rparr>)" and inv: "grid_inv (tgrid u)" and good: "good_poll a"
  shows "steady (onUpdate e a u) \<and> grid_inv (tgrid (onUpdate e a u))"
proof (cases "connected a")
  case False
  let ?u = "clear_running (u\<lparr>inFlight := False\<rparr>)"
  have s: "steady ?u" by (rule clear_running_steady [OF steady_pre steady_beat]) (rule st)+
  have "steady (fire_disconnect ?u)" "grid_inv (tgrid (fire_disconnect ?u))"
    using fire_disconnect_steady [OF steady_pre [OF s] steady_beat [OF s]] fire_disconnect_grid [of ?u] inv by simp_all
  then show ?thesis using False by (simp add: onUpdate_def Let_def steady_emit)
next
  case True
  show ?thesis unfolding onUpdate_connected [OF True]
    by (rule take_list_ok [OF before_list_steady [OF st] _ good]) (simp add: inv)
qed

lemma onUpdateError_ok:
  assumes st: "steady (u\<lparr>inFlight := False\<rparr>)" and inv: "grid_inv (tgrid u)"
  shows "steady (onUpdateError u) \<and> grid_inv (tgrid (onUpdateError u))"
proof -
  define u1 where "u1 = u\<lparr>inFlight := False, epoch := 0, wanted := False\<rparr>"
  have s1: "steady u1"
    by (rule steady_frame [OF st]) (use steady_polls [OF st] in \<open>simp_all add: u1_def polls_def\<close>)
  define u2 where "u2 = (if errorCount u1 = 2 then
      await_check (emit (Status ''Lost connection to webserver'') (fire_disconnect (emit LostConnection u1))) else u1)"
  have g1: "grid_inv (tgrid u1)" using inv by (simp add: u1_def)
  have d: "steady (fire_disconnect (emit LostConnection u1))"
    using fire_disconnect_steady steady_pre steady_beat steady_emit [OF s1] by blast
  have s2: "steady u2" unfolding u2_def using s1 d by (simp add: await_check_steady steady_emit)
  have g2: "grid_inv (tgrid u2)" unfolding u2_def using g1 fire_disconnect_grid [of "emit LostConnection u1"] by simp
  let ?u3 = "u2\<lparr>errorCount := errorCount u2 + 1\<rparr>"
  have "steady ?u3" by (rule steady_frame [OF s2]) (use steady_polls [OF s2] in \<open>simp_all add: polls_def\<close>)
  then have "steady (clear_running ?u3)" using clear_running_steady steady_pre steady_beat by blast
  moreover have "onUpdateError u = clear_running ?u3"
    by (simp add: onUpdateError_def Let_def u2_def u1_def await_check_def setTimeout_def)
  ultimately show ?thesis using g2 by simp
qed

lemma keep_steady: "steady u \<Longrightarrow> steady (keepSessionAlive u)"
  using keepSessionAlive_ok by (simp add: steady_def)

text \<open>Every event keeps the loop and the grid in order.\<close>

lemma ui_step_steady:
  assumes "ui_step u v" "steady u" "grid_inv (tgrid u)"
  shows "steady v \<and> grid_inv (tgrid v)"
  using assms
proof (induction rule: ui_step.induct)
  case (poll_timer i u e)
  have "loop_pre (drop_timer i u)" "beat_live (drop_timer i u)"
    using poll_timer drop_timer_pre [OF steady_pre] drop_timer_beat [OF steady_pre steady_beat] by blast+
  then show ?case using poll_timer ui_update_steady by (simp add: ui_update_fields drop_timer_def)
next
  case (check_timer i u)
  have d: "loop_pre (drop_timer i u)" "beat_live (drop_timer i u)" "poll_live (drop_timer i u)"
    using check_timer drop_timer_pre [OF steady_pre] drop_timer_beat [OF steady_pre steady_beat]
      drop_timer_poll [OF steady_pre steady_poll] by blast+
  have "steady (drop_timer i u)"
    using d by (rule_tac steadyI) (use steady_hid check_timer in \<open>auto simp: drop_timer_def\<close>)
  then have "steady (checkConnection (drop_timer i u))"
    by (rule steady_frame) (use steady_polls [OF check_timer(2)] in
        \<open>simp_all add: checkConnection_def send_def polls_def is_poll_def drop_timer_def\<close>)
  then show ?case using check_timer by (simp add: checkConnection_def send_def drop_timer_def)
next
  case (heartbeat_timer i u)
  have "tgrid (onHeartbeat (drop_timer i u)) = tgrid u" by (simp add: onHeartbeat_def Let_def send_def drop_timer_def)
  then show ?case using heartbeat_timer onHeartbeat_ok [of u i] by (simp add: steady_def)
next
  case (click u e)
  then show ?case using ui_update_steady steady_pre steady_beat by (simp add: ui_update_fields)
next
  case (poll_answer ks fs n u a e)
  then show ?case
    using ui_onUpdate_ok [of "answered (UpdateUi ks fs n) u" a e] poll_answered(3) [of u ks fs n] by (simp add: good_poll_def)
next
  case (poll_error ks fs n u)
  then show ?case using onUpdateError_ok [of "answered (UpdateUi ks fs n) u"] poll_answered(3) [of u ks fs n] by simp
next
  case (check_answer u e b)
  have "steady (answered Connected u)" using check_answer by (simp add: other_answered is_poll_def)
  moreover have "tgrid (onConnectionSuccess e b (answered Connected u)) = tgrid u"
    by (simp add: onConnectionSuccess_def Let_def ui_update_fields)
  ultimately show ?case using onConnectionSuccess_steady check_answer by simp
next
  case (check_error u)
  have "steady (answered Connected u)" using check_error by (simp add: other_answered is_poll_def)
  moreover have "tgrid (onConnectionError (answered Connected u)) = tgrid u"
    by (simp add: onConnectionError_def Let_def setTimeout_def)
  ultimately show ?case using onConnectionError_steady check_error by simp
next
  case (session_answer u)
  have "steady (answered CheckSession u)" using session_answer by (simp add: other_answered is_poll_def)
  then show ?case using keep_steady session_answer by (simp add: keepSessionAlive_fields)
next
  case (visibility u e h)
  have st: "steady u" by (rule visibility)
  let ?u = "u\<lparr>hid := h\<rparr>"
  have u: "loop_pre ?u"
    by (rule loop_pre_frame [OF steady_pre [OF st]]) (use steady_polls [OF st] in \<open>simp_all add: polls_def\<close>)
  have b: "beat_live ?u" using steady_beat [OF st] by (simp add: beat_live_def)
  show ?case
  proof (cases h)
    case True
    then show ?thesis using keep_steady [OF clear_running_steady [OF u b]] visibility
      by (simp add: onVisibilityChanged_def keepSessionAlive_fields)
  next
    case False
    have "steady (ui_update e (clear_heartbeat ?u))"
      by (rule ui_update_steady) (rule clear_heartbeat_ok [OF u])+
    then show ?thesis using False visibility
      by (simp add: onVisibilityChanged_def ui_update_fields clear_heartbeat_def)
  qed
next
  case (connect u e)
  then show ?case using ui_update_steady steady_pre steady_beat by (simp add: onConnect_def ui_update_fields)
next
  case (disconnect u)
  then show ?case using fire_disconnect_steady [OF steady_pre steady_beat] fire_disconnect_grid by simp
next
  case (reschedule u)
  then show ?case using schedule_ok [OF steady_pre] by (simp add: steady_def schedule_fields)
next
  case (grid_event ev u states g)
  have "steady (u\<lparr>tgrid := g\<rparr>)"
    by (rule steady_frame [OF grid_event(3)]) (use steady_polls [OF grid_event(3)] in \<open>simp_all add: polls_def\<close>)
  moreover have "grid_inv g" using grid_handle_inv [OF grid_event(4,1,2)] .
  ultimately show ?case by simp
qed


section \<open>What the loop promises\<close>

lemma ui_reach_steady: "ui_reach u \<Longrightarrow> steady u \<and> grid_inv (tgrid u)"
proof (induction rule: ui_reach.induct)
  case start
  have "owned ui_new" unfolding owned_def
  proof (intro allI impI)
    fix p q i assume "holder p ui_new = Some i"
    then show "i < next_timer ui_new \<and> ((i, q) \<in> set (timers ui_new) \<longrightarrow> q = p)"
      by (cases p) (simp_all add: ui_new_def)
  qed
  moreover have "numbered ui_new" "own_timers ui_new" "calls_inv ui_new" "poll_live ui_new" "beat_live ui_new"
    by (simp_all add: numbered_def own_timers_def calls_inv_def poll_live_def beat_live_def polls_def ui_new_def)
  ultimately have "steady ui_new" by (simp add: steady_def loop_inv_parts)
  moreover have "grid_inv (tgrid ui_new)" by (simp add: ui_new_def grid_new_inv)
  ultimately show ?case by blast
next
  case (step u v)
  then show ?case using ui_step_steady by blast
qed

text \<open>The timers of one kind.\<close>

definition timers_of :: "purpose \<Rightarrow> ui \<Rightarrow> nat list" where
  "timers_of p u = map fst (filter (\<lambda>(i, q). q = p) (timers u))"

lemma timers_of_iff: "i \<in> set (timers_of p u) \<longleftrightarrow> (i, p) \<in> set (timers u)"
  by (force simp: timers_of_def)

lemma timers_of_none: "timers_of p u = [] \<longleftrightarrow> (\<forall>i. (i, p) \<notin> set (timers u))"
  using timers_of_iff [of _ p u] by (metis all_not_in_conv set_empty)

lemma one_element: "distinct xs \<Longrightarrow> (\<And>x. x \<in> set xs \<Longrightarrow> x = a) \<Longrightarrow> length xs \<le> 1"
  by (cases xs; cases "tl xs") auto

lemma timers_of_one:
  assumes "steady u" "p \<noteq> CheckTimer"
  shows "length (timers_of p u) \<le> 1"
proof (cases "holder p u")
  case None
  then have "timers_of p u = []"
    using assms by (cases p) (auto simp: timers_of_none steady_def loop_inv_def)
  then show ?thesis by simp
next
  case (Some a)
  have "distinct (timers_of p u)"
    using assms(1) unfolding timers_of_def by (simp add: distinct_fst_filter steady_def loop_inv_def)
  moreover have "i = a" if "i \<in> set (timers_of p u)" for i
    using that assms Some by (cases p) (auto simp: timers_of_iff steady_def loop_inv_def)
  ultimately show ?thesis by (rule one_element)
qed

text \<open>C4: In every state the page can reach there is at most one poll waiting for its answer, at most one
  poll timer and at most one heartbeat timer; a hidden tab has no poll timer; \<open>inFlight\<close> says truly
  whether a poll is out; and the grid is consistent.\<close>

theorem poll_loop_safe:
  assumes "ui_reach u"
  shows "length (polls u) = (if inFlight u then 1 else 0) \<and> length (timers_of PollTimer u) \<le> 1 \<and>
    length (timers_of HeartbeatTimer u) \<le> 1 \<and> (if hid u then timers_of PollTimer u = [] else True) \<and> grid_inv (tgrid u)"
proof -
  have s: "steady u" "grid_inv (tgrid u)" using ui_reach_steady [OF assms] by auto
  have "hid u \<Longrightarrow> timers_of PollTimer u = []"
    using steady_hid [OF s(1)] s(1) by (auto simp: timers_of_none steady_def loop_inv_def)
  then show ?thesis using steady_polls [OF s(1)] timers_of_one [OF s(1)] s(2) by simp
qed

text \<open>A page that has asked once, with nothing selected in the sidebar.\<close>

definition plain_env :: env where
  "plain_env = \<lparr>selection = [(''state'', Str ''All'')], search = '''', layout = None, dialog_open = False,
     sess_speed = False, poll_interval = None\<rparr>"

definition asked_once :: ui where
  "asked_once = ui_update plain_env ui_new"

lemma asked_once_reach: "ui_reach asked_once"
  unfolding asked_once_def by (rule ui_reach.step [OF ui_reach.start]) (rule ui_step.click)

lemma asked_once_calls:
  "calls asked_once = [UpdateUi (forGrid None None) [(''state'', Str ''All'')] 0]"
  "filters asked_once = Some [(''state'', Str ''All'')]"
  by (simp_all add: asked_once_def ui_update_calls ui_new_def plain_env_def poll_filters_def grid_new_def,
      simp add: ui_update_def Let_def send_def ui_new_def poll_filters_def)

theorem poll_loop_safe_witness: "length (polls asked_once) = (if inFlight asked_once then 1 else 0)"
  using poll_loop_safe [OF asked_once_reach] by blast

text \<open>C5: The loop goes on: when the answer of a poll says the daemon is connected and the tab is on
  screen, a poll timer is set or the next poll is already out once \<open>onUpdate\<close> is over, even if the list
  was missing and drawing it threw.\<close>

theorem poll_goes_on:
  assumes "ui_reach u" "UpdateUi ks fs n \<in> set (calls u)" "connected a" "good_poll a" "\<not> hid u"
  shows "let v = onUpdate e a (answered (UpdateUi ks fs n) u)
    in inFlight v \<and> length (polls v) = 1 \<or> length (timers_of PollTimer v) = 1"
proof -
  let ?u = "answered (UpdateUi ks fs n) u"
  let ?b = "before_list e a ?u" let ?v = "onUpdate e a ?u"
  have s: "steady u" "grid_inv (tgrid u)" using ui_reach_steady [OF assms(1)] by auto
  have v: "steady ?v" using ui_onUpdate_ok [OF poll_answered(3) [OF s(1) assms(2)] _ assms(4)] s(2) by simp
  have "inFlight ?v \<or> running ?v = running ?b"
    unfolding onUpdate_connected [OF assms(3)] take_list_def Let_def
    by (auto simp: ui_update_fields split: sum.split)
  then show ?thesis
  proof
    assume "inFlight ?v"
    then show ?thesis using steady_polls [OF v] by simp
  next
    assume "running ?v = running ?b"
    then have "(next_timer u, PollTimer) \<in> set (timers ?v)"
      using steady_poll [OF v] assms(5) by (simp add: poll_live_def)
    then have "timers_of PollTimer ?v \<noteq> []" by (auto simp: timers_of_none)
    then show ?thesis using timers_of_one [OF v, of PollTimer] by (cases "timers_of PollTimer ?v") auto
  qed
qed


definition quiet_answer :: "jsval dict dict option \<Rightarrow> answer" where
  "quiet_answer ts = \<lparr>connected = True, delta = False, torrents = ts, removed = [], new_epoch = Some 1,
     stats = Null, filter_tree = Obj 0 [], down_rate = num 0, up_rate = num 0\<rparr>"

lemma asked_once_waits: "UpdateUi (forGrid None None) [(''state'', Str ''All'')] 0 \<in> set (calls asked_once)"
  by (simp add: asked_once_calls)

lemma asked_once_visible: "\<not> hid asked_once"
  by (simp add: asked_once_def ui_update_fields ui_new_def)

theorem poll_goes_on_witness:
  "let v = onUpdate plain_env (quiet_answer None) (answered (UpdateUi (forGrid None None) [(''state'', Str ''All'')] 0) asked_once)
   in inFlight v \<and> length (polls v) = 1 \<or> length (timers_of PollTimer v) = 1"
  by (rule poll_goes_on [OF asked_once_reach asked_once_waits _ _ asked_once_visible])
    (simp_all add: quiet_answer_def good_poll_def)

lemma ui_update_polls:
  assumes "polls u = []" "\<not> inFlight u"
  shows "\<exists>m. polls (ui_update e u) = [UpdateUi (forGrid (layout e) (map_option fst (sortInfo (tgrid u)))) (poll_filters e) m] \<and>
    \<not> wanted (ui_update e u)"
  using assms by (simp add: polls_def ui_update_calls is_poll_def) (simp add: ui_update_def Let_def send_def)

text \<open>C6: A refresh asked for while a poll is out is not lost: when that poll is answered by a connected
  server with a list of torrents and the sidebar's filters, the next poll is sent within the same answer,
  with the filters and columns of that moment.  Without the filters the sidebar throws, and the next poll
  is not sent there, unless the answer was a difference with no list to put it on, for which the whole
  list is asked at once.\<close>

theorem wanted_refresh_sent:
  assumes "ui_reach u" "UpdateUi ks fs n \<in> set (calls u)" "connected a" "torrents a = Some d" "good_answer d"
  shows "let v = onUpdate e2 a (answered (UpdateUi ks fs n) (ui_update e1 u))
    in if is_object (filter_tree a) \<or> delta a \<and> lastTorrents (tgrid u) = None
       then \<exists>sorted m. polls v = [UpdateUi (forGrid (layout e2) sorted) (poll_filters e2) m]
       else polls v = []"
proof -
  let ?u = "ui_update e1 u" let ?w = "answered (UpdateUi ks fs n) ?u"
  have s: "steady u" "grid_inv (tgrid u)" using ui_reach_steady [OF assms(1)] by auto
  have f: "inFlight u" using poll_answered(1) [OF s(1) assms(2)] .
  have su: "steady ?u" using ui_update_from_steady [OF s(1)] .
  have cu: "UpdateUi ks fs n \<in> set (calls ?u)" using assms(2) f by (simp add: ui_update_calls)
  have w: "wanted ?u" using f by (simp add: ui_update_def Let_def)
  let ?b = "before_list e2 a ?w"
  have pb: "polls ?b = []" using poll_answered(2) [OF su cu] by (simp add: polls_def before_list_def Let_def schedule_fields)
  have gb: "grid_inv (tgrid ?b)" "good_poll a" using s(2) assms by (simp_all add: ui_update_fields good_poll_def)
  have tg: "tgrid ?b = tgrid u" by (simp add: ui_update_fields)
  have v: "onUpdate e2 a ?w = take_list e2 a ?b" by (rule onUpdate_connected [OF assms(3)])
  show ?thesis
  proof (cases "delta a \<and> lastTorrents (tgrid ?b) = None")
    case True
    then have "take_list e2 a ?b = ui_update e2 (?b\<lparr>epoch := 0\<rparr>)" by (simp add: take_list_def)
    moreover have "polls (?b\<lparr>epoch := 0\<rparr>) = []" "\<not> inFlight (?b\<lparr>epoch := 0\<rparr>)" using pb by (simp_all add: polls_def)
    ultimately have "\<exists>sorted m. polls (take_list e2 a ?b) = [UpdateUi (forGrid (layout e2) sorted) (poll_filters e2) m]"
      using ui_update_polls by metis
    then show ?thesis using True tg by (simp add: v)
  next
    case False
    let ?wipe = "\<not> areObjectsEqual (filters ?b) (oldFilters ?b)"
    have d: "delta a \<Longrightarrow> lastTorrents (tgrid ?b) \<noteq> None" using False by simp
    obtain g where g: "give_grid a ?wipe (Some (selection e2)) (tgrid ?b) = Inr g"
      using give_grid_ok [OF gb d, of ?wipe "Some (selection e2)"] assms(4) by auto
    define v0 where "v0 = emit (SidebarUpdate (filter_tree a)) (emit (StatusbarUpdate (stats a)) (?b\<lparr>tgrid := g\<rparr>))"
    let ?v = "v0\<lparr>errorCount := 0\<rparr>"
    have v0: "polls v0 = []" "wanted ?v" "\<not> inFlight ?v" "polls ?v = []" using w pb by (simp_all add: v0_def polls_def)
    have t: "take_list e2 a ?b = (if \<not> is_object (filter_tree a) then v0 else if wanted ?v then ui_update e2 ?v else ?v)"
      using False g unfolding take_list_def v0_def by (simp only: Let_def sum.case if_False)
    have "\<exists>sorted m. polls (ui_update e2 ?v) = [UpdateUi (forGrid (layout e2) sorted) (poll_filters e2) m]"
      using ui_update_polls [OF v0(4,3)] by metis
    moreover have "\<not> (delta a \<and> lastTorrents (tgrid u) = None)" using False tg by simp
    ultimately show ?thesis using v0(1,2) unfolding v t Let_def by (cases "is_object (filter_tree a)") auto
  qed
qed

theorem wanted_refresh_sent_witness:
  "\<exists>sorted m. polls (onUpdate plain_env (quiet_answer (Some [])) (answered (UpdateUi (forGrid None None) [(''state'', Str ''All'')] 0)
      (ui_update plain_env asked_once))) = [UpdateUi (forGrid None sorted) [(''state'', Str ''All'')] m]"
  using wanted_refresh_sent [OF asked_once_reach asked_once_waits, of "quiet_answer (Some [])" "[]" plain_env plain_env]
  by (simp add: quiet_answer_def good_answer_def plain_env_def poll_filters_def Let_def)

lemma set_await_timers:
  "(i, PollTimer) \<in> set (timers (await_check u)) \<longleftrightarrow> (i, PollTimer) \<in> set (timers u)"
  by auto

text \<open>A failed poll stops the loop.  Afterwards no poll is out and no poll timer is set, and the only
  thing that could start one, a timer for \<open>checkConnection\<close>, is set when two polls had failed in a row
  before this one and not otherwise.\<close>

theorem failed_poll_stops:
  assumes "ui_reach u" "UpdateUi ks fs n \<in> set (calls u)"
  shows "let v = onUpdateError (answered (UpdateUi ks fs n) u)
    in polls v = [] \<and> timers_of PollTimer v = [] \<and> errorCount v = errorCount u + 1 \<and>
       timers_of CheckTimer v = timers_of CheckTimer u @ (if errorCount u = 2 then [next_timer u] else [])"
proof -
  let ?a = "answered (UpdateUi ks fs n) u"
  define u1 where "u1 = ?a\<lparr>inFlight := False, epoch := 0, wanted := False\<rparr>"
  have s: "steady u" using ui_reach_steady [OF assms(1)] by auto
  have p1: "polls u1 = []" using poll_answered(2) [OF s assms(2)] by (simp add: u1_def polls_def)
  have s1: "steady u1" by (rule steady_frame [OF s]) (use p1 in \<open>simp_all add: u1_def\<close>)
  have c: "timers_of CheckTimer (clear_running v) = timers_of CheckTimer v" if "steady v" for v
    using clear_running_inv(3) [OF steady_pre [OF that], of CheckTimer]
    unfolding timers_of_def clear_timers filter_filter
    by (intro arg_cong [where f = "map fst"] filter_cong) (auto simp: clear_timers)
  define u2 where "u2 = (if errorCount u1 = 2 then
      await_check (emit (Status ''Lost connection to webserver'') (fire_disconnect (emit LostConnection u1))) else u1)"
  have d: "steady (fire_disconnect (emit LostConnection u1))"
    using fire_disconnect_steady steady_pre steady_beat steady_emit [OF s1] by blast
  have s2: "steady u2" unfolding u2_def using s1 d by (simp add: await_check_steady steady_emit)
  let ?u3 = "u2\<lparr>errorCount := errorCount u2 + 1\<rparr>"
  have s3: "steady ?u3" by (rule steady_errors [OF s2])
  have v: "onUpdateError ?a = clear_running ?u3"
    by (simp add: onUpdateError_def Let_def u2_def u1_def await_check_def setTimeout_def)
  have e: "timers_of CheckTimer (fire_disconnect (emit LostConnection u1)) = timers_of CheckTimer u1"
    using c [OF steady_emit [OF s1]] by (simp add: timers_of_def fire_disconnect_fields)
  have t3: "timers_of CheckTimer ?u3 = timers_of CheckTimer u @ (if errorCount u = 2 then [next_timer u] else [])"
    using e by (simp add: u2_def timers_of_def fire_disconnect_fields u1_def)
  have "polls ?u3 = []" using p1 by (simp add: u2_def polls_def fire_disconnect_fields)
  moreover have "errorCount ?u3 = errorCount u + 1" by (simp add: u2_def u1_def fire_disconnect_fields)
  moreover have "timers_of PollTimer (clear_running ?u3) = []"
    using clear_running_inv(2) [OF steady_pre [OF s3]] by (simp add: timers_of_none)
  ultimately show ?thesis unfolding v Let_def using c [OF s3] t3 by (simp add: polls_def)
qed

theorem failed_poll_stops_witness:
  "timers_of CheckTimer (onUpdateError (answered (UpdateUi (forGrid None None) [(''state'', Str ''All'')] 0) asked_once)) =
    timers_of CheckTimer asked_once"
  using failed_poll_stops [OF asked_once_reach asked_once_waits]
  by (simp add: Let_def asked_once_def ui_update_fields) (simp add: ui_new_def)

text \<open>Taking a filter away is not seen as a change of the question: \<open>areObjectsEqual\<close> looks only at the
  keys of its first argument.  Clearing the search box sends the next poll with the epoch of the narrowed
  list, where any other change of the filters sends 0.\<close>

theorem dropped_filter_unseen:
  assumes "\<not> inFlight u" "filters u = Some (poll_filters e1)" "selection e2 = selection e1" "search e2 = []"
    "wf_dict (selection e1)" "''keyword'' \<notin> fst ` set (selection e1)"
    "list_all (\<lambda>(k, v). loose_eq v v) (selection e1)"
  shows "polls (ui_update e2 u) = polls u @ [UpdateUi (forGrid (layout e2) (map_option fst (sortInfo (tgrid u))))
    (selection e1) (epoch u)]"
proof -
  have "js_get (poll_filters e1) k = v" if "(k, v) \<in> set (selection e1)" for k v
  proof -
    have "k \<noteq> ''keyword''" using that assms(6) by force
    moreover have "map_of (selection e1) k = Some v" using that assms(5) by simp
    ultimately show ?thesis by (simp add: js_get_def poll_filters_def update_conv)
  qed
  then have "areObjectsEqual (Some (poll_filters e2)) (filters u)"
    using assms(2,3,4,7) unfolding assms(2) areObjectsEqual_iff by (auto simp: poll_filters_def list_all_iff)
  then show ?thesis using assms(1,3,4) by (simp add: polls_def ui_update_calls is_poll_def) (simp add: poll_filters_def)
qed


theorem dropped_filter_unseen_witness:
  "polls (ui_update plain_env (ui_new\<lparr>filters := Some (poll_filters (plain_env\<lparr>search := ''x''\<rparr>)), epoch := 7\<rparr>)) =
    [UpdateUi (forGrid None None) [(''state'', Str ''All'')] 7]"
  using dropped_filter_unseen [of "ui_new\<lparr>filters := Some (poll_filters (plain_env\<lparr>search := ''x''\<rparr>)), epoch := 7\<rparr>"
      "plain_env\<lparr>search := ''x''\<rparr>" plain_env]
  by (simp add: ui_new_def plain_env_def polls_def loose_eq_def grid_new_def)

end
