(* ===== verification/Spec2Isabelle.thy ===== *)
theory Spec2Isabelle
  imports BufferView CreateTorrent DataView DeltaServer DurationField EventsManager ExtCore ExtStore FilesShown FilesTab FilterPanel Formatters GridColumns JsValue Keys Labels MultiOptionsManager Numerals Observable OptionsManager PrefPages Preferences Prelude Rpc Sidebar TorrentGrid TorrentOptions TrackerSettings TrackerSweep TreeNodes UI
begin

text \<open>
  A verification development for redeluge, a BitTorrent client whose web interface is written in
  JavaScript on Ext JS 3.4 and talks JSON-RPC to \<open>redeluge-web\<close>, which talks to the daemon.  The
  subject is the interface: the code under
  \<open>src/crates/redeluge-web/assets/js/deluge-all/\<close> (named below without that path), the parts of Ext JS it
  stands on (\<open>assets/js/extjs/ext-all-debug.js\<close> and \<open>ext-base-debug.js\<close>), and, on the other side of a
  poll, the part of the web server that decides what a browser is sent
  (\<open>src/crates/redeluge-web/src/json_api.rs\<close>, \<open>state.rs\<close>); and of the daemon
  (\<open>src/crates/redeluge-daemon/src/\<close>) the functions that take what a window sends, where a property needs
  both ends.

  How the program works.  The interface polls: \<open>UI.js\<close> asks the server for the torrents every two seconds,
  with the fields its columns draw (\<open>Keys.js\<close>) and the filters chosen in the sidebar (\<open>Sidebar.js\<close>,
  \<open>FilterPanel.js\<close>); the server answers with the whole list or with the difference from the answer before;
  the answer is merged into the list held by \<open>TorrentGrid.js\<close>, drawn as rows of an Ext JS store through the
  renderers and formatters, and the sidebar's rows are brought up to date from the server's counts.  Options
  that the user edits are kept by \<open>OptionsManager.js\<close> and, for several torrents,
  \<open>MultiOptionsManager.js\<close> until they are committed.  Calls go out through \<open>Client.js\<close>; what happens in one
  part is heard in another through Ext JS events.

  What models what.

  \<^item> Prelude: dictionaries as association lists in the order of \<open>for (k in o)\<close>, and the rules on them that every
    theory uses.  JsValue: the values of JavaScript and its conversions, comparisons and string functions.
    Numbers are rationals with the infinities and NaN: the rounding of floating point is idealised.
  \<^item> ExtCore: \<open>Ext.isEmpty\<close>, \<open>Ext.type\<close>, \<open>Ext.apply\<close>, \<open>String.format\<close> and their like, and the helpers of
    \<open>Deluge.js\<close>.
  \<^item> OptionsManager, MultiOptionsManager: the option managers, each a record of defaults, changed values and
    bound fields.  Proved: an update reads back (an empty value apart), shows itself in the fields it is bound to, never keeps a
    changed value equal to its default, and touches no other torrent's options; what commit keeps and what it
    loses.
  \<^item> ExtStore, DataView, Observable: Ext JS's ordered collection and record store, its list view, and its
    events.  Proved: the collection implements an ordered dictionary (locale \<open>record_store\<close> and its extension
    state the contract its clients rely on), the list view implements a list of rows with a current row, and
    firing an event is a walk over a plain list of listeners unless a listener fires it again.
  \<^item> Formatters, GridColumns, BufferView, TorrentGrid: the cells, the window of rows that is drawn, and the grid
    with its shared objects, which live in a heap because the list and the answer alias them.  Proved: the grid
    raises on a missing list only, always shows what it was sent, whatever the order of its events, and
    keeps its rows in the order of the column chosen.
  \<^item> Keys, UI, Sidebar, FilterPanel: what is asked for, the poll loop with its timers and the answers that can
    arrive late, fail, or throw, and the panels.  Proved: at most one poll is out and one timer set, polling
    goes on after an answer, a wanted refresh is sent when the answer has a list and filters, the keys asked for
    are all a cell reads, the sidebar has the server's groups and rows.
  \<^item> DeltaServer: the server's side of a poll and its composition with the grids of the tabs that share a
    session.  Proved: every answer that arrives leaves a tab holding exactly the daemon's torrents, with every field the
    daemon sent at its value.
  \<^item> Rpc, EventsManager: \<open>Client.js\<close> and \<open>EventsManager.js\<close>, the calls and the long poll for events.  Proved:
    listed methods can be called, answers reach the function they are for, once, and asking for events goes on.
  \<^item> Numerals, DurationField: how a number is printed, rounded and read by a number field, and \<open>DurationField.js\<close>,
    which shows hours as days and hours.  Proved: what is shown reads back to the tenth of an hour.
  \<^item> TrackerSettings, TrackerSweep: \<open>TrackerSettingsWindow.js\<close>, the rules of a tracker and its preview of what they
    do, and the daemon's sweep (\<open>features/tracker.rs\<close>, \<open>features/mod.rs\<close>).  Proved: what the preview says of
    removals is what the rule by itself would remove; where window and daemon differ.
  \<^item> TreeNodes, FilesTab, FilesShown: Ext JS's tree nodes in a heap and \<open>details/FilesTab.js\<close> on them.  Proved: an
    answer is shown file by file, clearing stops half way when a node cannot be removed, and the priorities that
    are sent are those of the selected nodes, also of nodes that outlive their torrent.
  \<^item> CreateTorrent: the window \<open>CreateTorrentWindow.js\<close> and its build.  Proved: one poll follows a build to its end,
    and the trackers and web seeds that are sent are the lines that were typed.
  \<^item> PrefPages, Preferences: \<open>preferences/PreferencesWindow.js\<close> and its pages; the daemon's \<open>config.rs\<close>, the
    listening port of \<open>prefs.rs\<close> and \<open>features/countrydb.rs\<close>.  Proved: what OK and Apply send of every page and
    what OK drops, that the options the pages bind are accepted, and which of the daemon's own keys survive.
  \<^item> TorrentOptions, Labels: \<open>details/OptionsTab.js\<close>, \<open>LabelSettingsWindow.js\<close> and \<open>preferences/LabelsPage.js\<close>, with
    \<open>apply_torrent_options\<close> and the label methods of \<open>core.rs\<close>.  Proved: an edited option comes back with the next
    status, OK keeps a label's options that its fields can show, a rename moves every torrent; and the answers and
    names for which they do not.

  Bounds.  Firing an event takes fuel for the nesting of firings; one unit is enough when no listener fires
  events (\<open>fire_delivers\<close>).  The walk down a tree of files takes the number of nodes ever made as fuel, and a tree
  is not deeper than that.  A run of a label's calls takes one unit a call; a rename is at most five.
  \<open>tabs_show_the_truth\<close> assumes differences switched on, at most four sessions, the server's own bound, and epochs
  below two to the fifty-third, which a number of the browser holds exactly; what happens with more sessions
  is proved as well (\<open>forgotten_epochs_start_again\<close>).  A field that a torrent loses stays in a tab that is sent
  a difference, which the theorem allows for and \<open>lost_field_stays\<close> shows.

  What is not modelled.  The DOM and what Ext JS draws into it; the layout and construction of windows, menus and
  forms; animation, drag and drop; the HTTP transport; the dialogs that add torrents and connections, the
  connection manager, the menus, the tool and status bars, the tabs of peers and of a torrent's status; of the
  preferences the window that tests a feed, the list of themes, backup and restore; the rest of Ext JS, a
  vendored widget library; the Rust crates apart from the code named above; stylesheets, images, packaging and
  tools.
\<close>

end
